(* ===== verification/Prelude.thy ===== *)
theory Prelude
  imports Main "HOL-Library.AList" "HOL-Library.Multiset"
begin

text \<open>
  Shared vocabulary of the development: the identifiers and times of the Go program, Go maps as
  association lists, \<^verbatim>\<open>sort.Slice\<close>, first-occurrence deduplication and the generic
  lemmas the components use.

  \<^item> A \<^verbatim>\<open>uuid.UUID\<close> is a natural number. Its canonical string form has a fixed
    width and lower-case hexadecimal digits, so comparing two \<^verbatim>\<open>String()\<close> results is
    comparing the numbers. \<^verbatim>\<open>uuid.New()\<close> is not computed: an operation that calls it
    takes the new identifier as an argument.
  \<^item> A \<^verbatim>\<open>time.Time\<close> is an integer number of nanoseconds; \<^verbatim>\<open>time.Now()\<close>
    is an argument of the operation that reads the clock.
  \<^item> A Go map is an association list with distinct keys. Go iterates a map in an unspecified
    order; the order of the list stands for the order the runtime picks, and since a permutation
    of the list is the same map, a theorem about every list is a theorem about every order.
\<close>

type_synonym uuid = nat
type_synonym timestamp = int

definition uuid_nil :: uuid where
  "uuid_nil = 0"

named_theorems store_simps "unfolding rules for the in-memory stores"
named_theorems wf_intros "well-formedness is kept by an operation"

subsection \<open>Go maps as association lists\<close>

type_synonym ('k, 'v) gomap = "('k \<times> 'v) list"

abbreviation gm_get :: "('k, 'v) gomap \<Rightarrow> 'k \<Rightarrow> 'v option" where
  "gm_get m k \<equiv> map_of m k"

abbreviation gm_put :: "'k \<Rightarrow> 'v \<Rightarrow> ('k, 'v) gomap \<Rightarrow> ('k, 'v) gomap" where
  "gm_put k v m \<equiv> AList.update k v m"

abbreviation gm_del :: "'k \<Rightarrow> ('k, 'v) gomap \<Rightarrow> ('k, 'v) gomap" where
  "gm_del k m \<equiv> AList.delete k m"

abbreviation gm_keys :: "('k, 'v) gomap \<Rightarrow> 'k list" where
  "gm_keys m \<equiv> map fst m"

abbreviation gm_vals :: "('k, 'v) gomap \<Rightarrow> 'v list" where
  "gm_vals m \<equiv> map snd m"

text \<open>The map indexed with a default, as Go reads a missing key as the zero value.\<close>

definition gm_get_or :: "'v \<Rightarrow> ('k, 'v) gomap \<Rightarrow> 'k \<Rightarrow> 'v" where
  "gm_get_or d m k = (case gm_get m k of None \<Rightarrow> d | Some v \<Rightarrow> v)"

lemma gm_get_put [simp]: "gm_get (gm_put k v m) k' = (if k' = k then Some v else gm_get m k')"
  by (simp add: update_conv)

lemma gm_get_del [simp]: "gm_get (gm_del k m) k' = (if k' = k then None else gm_get m k')"
  by (simp add: delete_conv')

lemma gm_get_or_put [simp]:
  "gm_get_or d (gm_put k v m) k' = (if k' = k then v else gm_get_or d m k')"
  by (simp add: gm_get_or_def)

lemma gm_get_or_Nil [simp]: "gm_get_or d [] k = d"
  by (simp add: gm_get_or_def)

lemma gm_distinct_put [simp, intro]: "distinct (gm_keys m) \<Longrightarrow> distinct (gm_keys (gm_put k v m))"
  by (rule distinct_update)

lemma gm_distinct_del [simp, intro]: "distinct (gm_keys m) \<Longrightarrow> distinct (gm_keys (gm_del k m))"
  by (rule distinct_delete)

lemma gm_keys_put: "set (gm_keys (gm_put k v m)) = insert k (set (gm_keys m))"
  by (simp add: dom_update flip: image_set)

lemma gm_mem_iff: "distinct (gm_keys m) \<Longrightarrow> (k, v) \<in> set m \<longleftrightarrow> gm_get m k = Some v"
  by (metis map_of_SomeD map_of_eq_Some_iff)

lemma gm_val_mem: "gm_get m k = Some v \<Longrightarrow> v \<in> set (gm_vals m)"
  by (force dest: map_of_SomeD)

lemma gm_val_get:
  "distinct (gm_keys m) \<Longrightarrow> v \<in> set (gm_vals m) \<longleftrightarrow> (\<exists>k. gm_get m k = Some v)"
  by (force simp: gm_mem_iff[symmetric])

lemma gm_del_set: "set (gm_del k m) = {p \<in> set m. fst p \<noteq> k}"
  by (induction m) auto

lemma gm_put_fresh: "k \<notin> set (gm_keys m) \<Longrightarrow> gm_put k v m = m @ [(k, v)]"
  by (induction m) auto

lemma gm_filter_get:
  "distinct (gm_keys m) \<Longrightarrow>
   gm_get (filter P m) k = (case gm_get m k of None \<Rightarrow> None
                             | Some v \<Rightarrow> if P (k, v) then Some v else None)"
  by (induction m) (force split: option.splits dest: map_of_SomeD)+

lemma gm_map_get:
  "gm_get (map (\<lambda>(k, v). (k, f k v)) m) k = map_option (f k) (gm_get m k)"
  by (induction m) auto

lemma gm_map_keys [simp]: "gm_keys (map (\<lambda>(k, v). (k, f k v)) m) = gm_keys m"
  by (induction m) auto

subsection \<open>sort.Slice\<close>

text \<open>
  \<^verbatim>\<open>sort.Slice\<close> rearranges a slice so that no element is less than the one before
  it. It does not promise where elements that compare equal end up; the stable insertion sort
  below is one of the allowed outcomes, and the only one when the comparison separates any two
  elements of the slice (\<open>sort_slice_unique\<close>).
\<close>

fun insert_by :: "('a \<Rightarrow> 'a \<Rightarrow> bool) \<Rightarrow> 'a \<Rightarrow> 'a list \<Rightarrow> 'a list" where
  "insert_by lt x [] = [x]"
| "insert_by lt x (y # ys) = (if lt y x then y # insert_by lt x ys else x # y # ys)"

fun sort_slice :: "('a \<Rightarrow> 'a \<Rightarrow> bool) \<Rightarrow> 'a list \<Rightarrow> 'a list" where
  "sort_slice lt [] = []"
| "sort_slice lt (x # xs) = insert_by lt x (sort_slice lt xs)"

lemma mset_insert_by [simp]: "mset (insert_by lt x xs) = add_mset x (mset xs)"
  by (induction xs) auto

lemma mset_sort_slice [simp]: "mset (sort_slice lt xs) = mset xs"
  by (induction xs) auto

lemma set_sort_slice [simp]: "set (sort_slice lt xs) = set xs"
  by (metis mset_sort_slice set_mset_mset)

lemma set_insert_by [simp]: "set (insert_by lt x xs) = insert x (set xs)"
  by (induction xs) auto

lemma length_sort_slice [simp]: "length (sort_slice lt xs) = length xs"
  by (metis mset_sort_slice size_mset)

lemma distinct_sort_slice [simp]: "distinct (sort_slice lt xs) = distinct xs"
  by (metis mset_sort_slice mset_eq_imp_distinct_iff)

text \<open>
  A strict weak order is what \<^verbatim>\<open>sort.Slice\<close> asks of its comparison: it is
  asymmetric, and "not less" is transitive.
\<close>

definition weak_order :: "('a \<Rightarrow> 'a \<Rightarrow> bool) \<Rightarrow> bool" where
  "weak_order lt \<longleftrightarrow>
     (\<forall>x y. lt x y \<longrightarrow> \<not> lt y x) \<and> (\<forall>x y z. lt x z \<longrightarrow> lt x y \<or> lt y z)"

lemma weak_orderI:
  assumes "\<And>x y. lt x y \<Longrightarrow> \<not> lt y x" and "\<And>x y z. lt x z \<Longrightarrow> lt x y \<or> lt y z"
  shows "weak_order lt"
  using assms unfolding weak_order_def by blast

lemma insert_by_sorted:
  assumes "weak_order lt" "sorted_wrt (\<lambda>a b. \<not> lt b a) xs"
  shows "sorted_wrt (\<lambda>a b. \<not> lt b a) (insert_by lt x xs)"
  using assms(2)
proof (induction xs)
  case (Cons y ys)
  from assms(1) have asym: "\<And>a b. lt a b \<Longrightarrow> \<not> lt b a"
    and trans: "\<And>a b c. lt a c \<Longrightarrow> lt a b \<or> lt b c"
    unfolding weak_order_def by blast+
  from Cons show ?case by (auto dest: asym trans)
qed simp

lemma sort_slice_sorted:
  "weak_order lt \<Longrightarrow> sorted_wrt (\<lambda>a b. \<not> lt b a) (sort_slice lt xs)"
  by (induction xs) (auto intro: insert_by_sorted)

lemma sorted_wrt_unique:
  assumes "\<And>x y. x \<in> set xs \<Longrightarrow> y \<in> set xs \<Longrightarrow> R x y \<Longrightarrow> R y x \<Longrightarrow> x = y"
    and "sorted_wrt R xs" "sorted_wrt R ys" "mset xs = mset ys"
  shows "xs = ys"
  using assms
proof (induction xs arbitrary: ys)
  case Nil
  then show ?case by simp
next
  case (Cons x xs)
  then obtain y ys' where ys: "ys = y # ys'" by (cases ys) auto
  have "set (x # xs) = set ys" using Cons.prems(4) by (metis set_mset_mset)
  then have "y \<in> set (x # xs)" "x \<in> set (y # ys')" using ys by auto
  then have "x = y" using Cons.prems(1-3) ys by (metis list.set_intros(1) set_ConsD sorted_wrt.simps(2))
  moreover from this have "xs = ys'" using Cons ys by auto
  ultimately show ?case using ys by simp
qed

text \<open>Where the comparison tells any two elements apart, every correct sort gives the same slice.\<close>

lemma sort_slice_unique:
  assumes "weak_order lt" "mset ys = mset xs" "sorted_wrt (\<lambda>a b. \<not> lt b a) ys"
    and "\<And>x y. x \<in> set xs \<Longrightarrow> y \<in> set xs \<Longrightarrow> x \<noteq> y \<Longrightarrow> lt x y \<or> lt y x"
  shows "ys = sort_slice lt xs"
proof (rule sorted_wrt_unique [where R = "\<lambda>a b. \<not> lt b a"])
  show "x = y" if "x \<in> set ys" "y \<in> set ys" "\<not> lt y x" "\<not> lt x y" for x y
    using that assms(4) mset_eq_setD[OF assms(2)] by blast
qed (use assms in \<open>auto intro: sort_slice_sorted\<close>)

lemma sort_slice_id: "sorted_wrt (\<lambda>a b. \<not> lt b a) xs \<Longrightarrow> sort_slice lt xs = xs"
proof (induction xs)
  case (Cons x xs)
  then show ?case by (cases xs) auto
qed simp

lemma weak_order_key: "weak_order (\<lambda>a b. (f a :: 'b :: linorder) < f b)"
  by (rule weak_orderI) auto

lemma weak_order_lex:
  "weak_order (\<lambda>a b. if (f a :: 'b :: linorder) \<noteq> f b then f a < f b else (g a :: 'c :: linorder) < g b)"
  by (rule weak_orderI) (auto split: if_splits)

lemma weak_order_lex_down:
  "weak_order (\<lambda>a b. if (f a :: 'b :: linorder) \<noteq> f b then f a > f b else (g a :: 'c :: linorder) < g b)"
  by (rule weak_orderI) (auto split: if_splits)

subsection \<open>First-occurrence deduplication\<close>

text \<open>
  The loop \<^verbatim>\<open>if seen[x] { continue }; seen[x] = true; out = append(out, x)\<close>.
\<close>

fun dedup_by :: "('a \<Rightarrow> 'b) \<Rightarrow> 'b list \<Rightarrow> 'a list \<Rightarrow> 'b list" where
  "dedup_by f seen [] = []"
| "dedup_by f seen (x # xs) =
     (if f x \<in> set seen then dedup_by f seen xs else f x # dedup_by f (f x # seen) xs)"

lemma set_dedup_by: "set (dedup_by f seen xs) = f ` set xs - set seen"
  by (induction xs arbitrary: seen) auto

lemma distinct_dedup_by: "distinct (dedup_by f seen xs)"
  by (induction xs arbitrary: seen) (auto simp: set_dedup_by)

subsection \<open>Splitting a list into windows of at most n elements\<close>

function windows :: "nat \<Rightarrow> 'a list \<Rightarrow> 'a list list" where
  "windows n xs = (if n = 0 \<or> xs = [] then [] else take n xs # windows n (drop n xs))"
  by pat_completeness auto
termination
  by (relation "measure (\<lambda>(n, xs). length xs)") auto

declare windows.simps [simp del]

lemma concat_windows: "0 < n \<Longrightarrow> concat (windows n xs) = xs"
  by (induction n xs rule: windows.induct) (subst windows.simps, auto)

lemma windows_bounds: "ws \<in> set (windows n xs) \<Longrightarrow> ws \<noteq> [] \<and> length ws \<le> n"
proof (induction n xs rule: windows.induct)
  case (1 n xs)
  then show ?case by (subst (asm) (2) windows.simps) (auto split: if_splits)
qed

lemma mset_map_sort: "mset (map f (sort_slice lt xs)) = mset (map f xs)"
  by (simp only: mset_map mset_sort_slice)

lemma put_fresh: "k \<notin> set (gm_keys m) \<Longrightarrow> gm_put k v m = m @ [(k, v)]"
  by (induction m) auto

lemma foldl_put_fresh:
  "length ids = length xs \<Longrightarrow> distinct ids \<Longrightarrow> set ids \<inter> set (gm_keys r) = {} \<Longrightarrow>
     foldl (\<lambda>r (i, g). gm_put i (f i g) r) r (zip ids xs) = r @ zip ids (map2 f ids xs)"
proof (induction ids xs arbitrary: r rule: list_induct2)
  case (Cons i ids x xs)
  have "gm_put i (f i x) r = r @ [(i, f i x)]" by (rule put_fresh) (use Cons.prems in auto)
  moreover have "set ids \<inter> set (gm_keys (r @ [(i, f i x)])) = {}" using Cons.prems by auto
  ultimately show ?case using Cons.IH[of "r @ [(i, f i x)]"] Cons.prems(1) by simp
qed simp

lemma map2_nth_eq:
  "length xs = length ys \<Longrightarrow> (\<And>i. i < length ys \<Longrightarrow> g (f (xs ! i) (ys ! i)) = h (ys ! i)) \<Longrightarrow> map g (map2 f xs ys) = map h ys"
  by (rule nth_equalityI) simp_all

end
