(* ===== verification/GoStrings.thy ===== *)
theory GoStrings
  imports Prelude "HOL-Library.Sublist" "HOL-Library.Char_ord"
begin

text \<open>
  The part of Go's \<^verbatim>\<open>strings\<close>, \<^verbatim>\<open>strconv\<close> and
  \<^verbatim>\<open>unicode/utf8\<close> packages the program uses. A Go string is a sequence of bytes, so it
  is a \<open>string\<close> (a list of 8-bit characters); positions and lengths count bytes. Case
  mapping and white space are modelled on ASCII text. A slice expression out of range panics in
  Go; \<open>go_slice\<close> returns \<open>None\<close> there.
\<close>

definition byte :: "char \<Rightarrow> nat" where
  "byte c = of_char c"

lemma byte_less [simp]: "byte c < 256"
  unfolding byte_def by (rule nat_of_char_less_256)

subsection \<open>Slices\<close>

text \<open>\<^verbatim>\<open>s[lo:hi]\<close>: a run-time panic (\<open>None\<close>) unless \<open>lo \<le> hi \<le> len(s)\<close>.\<close>

definition go_slice :: "'a list \<Rightarrow> nat \<Rightarrow> nat \<Rightarrow> 'a list option" where
  "go_slice s lo hi = (if lo \<le> hi \<and> hi \<le> length s then Some (take (hi - lo) (drop lo s)) else None)"

lemma go_slice_length: "go_slice s lo hi = Some t \<Longrightarrow> length t = hi - lo"
  by (auto simp: go_slice_def split: if_splits)

subsection \<open>UTF-8\<close>

text \<open>\<^verbatim>\<open>utf8.RuneStart\<close>: not a continuation byte \<open>10xxxxxx\<close>.\<close>

definition cont_byte :: "char \<Rightarrow> bool" where
  "cont_byte c \<longleftrightarrow> 0x80 \<le> byte c \<and> byte c \<le> 0xBF"

definition rune_start :: "char \<Rightarrow> bool" where
  "rune_start c \<longleftrightarrow> \<not> cont_byte c"

text \<open>
  \<^verbatim>\<open>utf8.ValidString\<close>: every rune is encoded in its shortest form, in 1 to 4 bytes, and is
  neither a surrogate nor above U+10FFFF. The byte after the first is restricted accordingly.
\<close>

definition second_ok :: "nat \<Rightarrow> char \<Rightarrow> bool" where
  "second_ok a c \<longleftrightarrow> cont_byte c \<and>
     (a = 0xE0 \<longrightarrow> 0xA0 \<le> byte c) \<and> (a = 0xED \<longrightarrow> byte c \<le> 0x9F) \<and>
     (a = 0xF0 \<longrightarrow> 0x90 \<le> byte c) \<and> (a = 0xF4 \<longrightarrow> byte c \<le> 0x8F)"

fun utf8_valid :: "string \<Rightarrow> bool" where
  "utf8_valid [] = True"
| "utf8_valid (a # s) =
     (if byte a < 0x80 then utf8_valid s
      else if byte a < 0xC2 then False
      else if byte a < 0xE0 then
        (case s of b # s' \<Rightarrow> cont_byte b \<and> utf8_valid s' | [] \<Rightarrow> False)
      else if byte a < 0xF0 then
        (case s of b # c # s' \<Rightarrow> second_ok (byte a) b \<and> cont_byte c \<and> utf8_valid s' | _ \<Rightarrow> False)
      else if byte a < 0xF5 then
        (case s of b # c # d # s' \<Rightarrow>
           second_ok (byte a) b \<and> cont_byte c \<and> cont_byte d \<and> utf8_valid s' | _ \<Rightarrow> False)
      else False)"

lemma second_ok_cont: "second_ok a c \<Longrightarrow> cont_byte c"
  by (simp add: second_ok_def)

lemma utf8_valid_starts: "utf8_valid (a # s) \<Longrightarrow> rune_start a"
  by (auto simp: rune_start_def cont_byte_def split: if_splits)

text \<open>After the first byte of a rune come at most three more, then valid text again.\<close>

lemma utf8_valid_tail:
  "utf8_valid (a # s) \<Longrightarrow> \<exists>k\<le>3. k \<le> length s \<and> utf8_valid (drop k s)"
  apply (simp split: if_splits list.splits)
     apply (rule exI[of _ 0], simp)
    apply (rule exI[of _ 1], simp)
   apply (rule exI[of _ 2], simp)
  apply (rule exI[of _ 3], simp)
  done

text \<open>In valid text a rune starts at least every four bytes.\<close>

lemma utf8_valid_start_near:
  "utf8_valid s \<Longrightarrow> i + 3 < length s \<Longrightarrow> \<exists>k\<le>3. rune_start (s ! (i + k))"
proof (induction s arbitrary: i rule: length_induct)
  case (1 s)
  then obtain a t where s: "s = a # t" by (cases s) auto
  show ?case
  proof (cases i)
    case 0
    then show ?thesis using utf8_valid_starts "1.prems"(1) s by auto
  next
    case (Suc j)
    obtain m where m: "m \<le> 3" "m \<le> length t" "utf8_valid (drop m t)"
      using utf8_valid_tail "1.prems"(1) s by blast
    show ?thesis
    proof (cases "j < m")
      case True
      then obtain b u where bu: "drop m t = b # u"
        using "1.prems"(2) s Suc m(1) by (cases "drop m t") auto
      then have "rune_start b" using m(3) utf8_valid_starts by metis
      moreover have "s ! (i + (m - j)) = b"
        using True s Suc m(2) bu by (simp add: nth_via_drop)
      ultimately show ?thesis using m(1) by (metis diff_le_self le_trans)
    next
      case False
      have "length (drop m t) < length s" using s by simp
      moreover have "(j - m) + 3 < length (drop m t)" using "1.prems"(2) s Suc False by simp
      ultimately obtain k where "k \<le> 3" "rune_start (drop m t ! (j - m + k))"
        using "1.IH" m(3) by blast
      moreover have "drop m t ! (j - m + k) = s ! (i + k)"
        using False s Suc m(2) by (simp add: nth_drop)
      ultimately show ?thesis by metis
    qed
  qed
qed

subsection \<open>Searching and splitting\<close>

definition has_prefix :: "string \<Rightarrow> string \<Rightarrow> bool" where
  "has_prefix s p \<longleftrightarrow> prefix p s"

definition trim_prefix :: "string \<Rightarrow> string \<Rightarrow> string" where
  "trim_prefix s p = (if has_prefix s p then drop (length p) s else s)"

text \<open>\<^verbatim>\<open>strings.Index\<close>: the first position of \<open>p\<close>, \<open>None\<close> where Go returns -1.\<close>

fun str_index :: "string \<Rightarrow> string \<Rightarrow> nat option" where
  "str_index s p =
     (if prefix p s then Some 0 else case s of [] \<Rightarrow> None | _ # s' \<Rightarrow> map_option Suc (str_index s' p))"

declare str_index.simps [simp del]

text \<open>\<^verbatim>\<open>strings.LastIndex\<close>: the last position of \<open>p\<close>.\<close>

fun str_last_index :: "string \<Rightarrow> string \<Rightarrow> nat option" where
  "str_last_index [] p = (if p = [] then Some 0 else None)"
| "str_last_index (c # s) p =
     (case str_last_index s p of
        Some i \<Rightarrow> Some (Suc i)
      | None \<Rightarrow> if prefix p (c # s) then Some 0 else None)"

definition str_contains :: "string \<Rightarrow> string \<Rightarrow> bool" where
  "str_contains s p \<longleftrightarrow> str_index s p \<noteq> None"

lemma str_index_Some:
  "str_index s p = Some i \<Longrightarrow> i + length p \<le> length s \<and> take (length p) (drop i s) = p"
proof (induction s arbitrary: i)
  case Nil
  then show ?case by (simp add: str_index.simps[of "[]"] split: if_splits)
next
  case (Cons c s)
  show ?case
  proof (cases "prefix p (c # s)")
    case True
    then show ?thesis using Cons.prems
      by (auto simp: str_index.simps[of "c # s"] prefix_def) (metis append_eq_conv_conj length_append le_add1 length_Cons)+
  next
    case False
    then obtain j where j: "str_index s p = Some j" "i = Suc j"
      using Cons.prems by (auto simp: str_index.simps[of "c # s"])
    from Cons.IH[OF j(1)] j(2) show ?thesis by simp
  qed
qed

lemma str_index_least:
  "str_index s p = Some i \<Longrightarrow> j < i \<Longrightarrow> take (length p) (drop j s) \<noteq> p"
proof (induction s arbitrary: i j)
  case Nil
  then show ?case by (simp add: str_index.simps[of "[]"] split: if_splits)
next
  case (Cons c s)
  then obtain i' where i: "str_index s p = Some i'" "i = Suc i'" "\<not> prefix p (c # s)"
    by (auto simp: str_index.simps[of "c # s"] split: if_splits)
  show ?case
  proof (cases j)
    case 0
    then show ?thesis using i(3) by (metis append_take_drop_id drop0 prefixI)
  next
    case (Suc j')
    then show ?thesis using Cons.IH[OF i(1), of j'] Cons.prems(2) i(2) by simp
  qed
qed

lemma str_index_None: "str_index s p = None \<Longrightarrow> take (length p) (drop j s) \<noteq> p"
proof (induction s arbitrary: j)
  case Nil
  then show ?case by (auto simp: str_index.simps[of "[]"] split: if_splits)
next
  case (Cons c s)
  then have n: "str_index s p = None" "\<not> prefix p (c # s)"
    by (auto simp: str_index.simps[of "c # s"] split: if_splits)
  show ?case
  proof (cases j)
    case 0
    then show ?thesis using n(2) by (metis append_take_drop_id drop0 prefixI)
  next
    case (Suc j')
    then show ?thesis using Cons.IH[OF n(1), of j'] by simp
  qed
qed

lemma str_last_index_Some:
  "str_last_index s p = Some i \<Longrightarrow> i + length p \<le> length s \<and> take (length p) (drop i s) = p"
proof (induction s arbitrary: i)
  case Nil
  then show ?case by (simp split: if_splits)
next
  case (Cons c s)
  show ?case
  proof (cases "str_last_index s p")
    case None
    then have "prefix p (c # s)" "i = 0" using Cons.prems by (auto split: if_splits)
    then show ?thesis by (auto simp: prefix_def) (metis append_eq_conv_conj length_append le_add1 length_Cons)+
  next
    case (Some j)
    then show ?thesis using Cons by auto
  qed
qed

text \<open>\<^verbatim>\<open>strings.Split(s, sep)\<close> for a one-byte separator: always at least one part.\<close>

fun split_on :: "char \<Rightarrow> string \<Rightarrow> string list" where
  "split_on sep [] = [[]]"
| "split_on sep (c # s) =
     (if c = sep then [] # split_on sep s
      else case split_on sep s of [] \<Rightarrow> [[c]] | p # ps \<Rightarrow> (c # p) # ps)"

lemma split_on_nonempty [simp]: "split_on sep s \<noteq> []"
  by (induction s) (auto split: list.splits)

text \<open>\<^verbatim>\<open>strings.SplitN(s, sep, n)\<close>: at most \<open>n\<close> parts, the last one unsplit.\<close>

fun split_n :: "nat \<Rightarrow> char \<Rightarrow> string \<Rightarrow> string list" where
  "split_n 0 sep s = []"
| "split_n (Suc 0) sep s = [s]"
| "split_n (Suc (Suc n)) sep s =
     (case dropWhile (\<lambda>c. c \<noteq> sep) s of
        [] \<Rightarrow> [s]
      | _ # rest \<Rightarrow> takeWhile (\<lambda>c. c \<noteq> sep) s # split_n (Suc n) sep rest)"

lemma takeWhile_sep: "sep \<notin> set a \<Longrightarrow> takeWhile (\<lambda>c. c \<noteq> sep) (a @ sep # b) = a"
  by (induction a) auto

lemma dropWhile_sep: "sep \<notin> set a \<Longrightarrow> dropWhile (\<lambda>c. c \<noteq> sep) (a @ sep # b) = sep # b"
  by (induction a) auto

text \<open>\<^verbatim>\<open>strings.Join\<close>.\<close>

fun join_with :: "string \<Rightarrow> string list \<Rightarrow> string" where
  "join_with sep [] = []"
| "join_with sep [s] = s"
| "join_with sep (s # t # ss) = s @ sep @ join_with sep (t # ss)"

subsection \<open>White space, case and numbers (ASCII)\<close>

definition is_space :: "char \<Rightarrow> bool" where
  "is_space c \<longleftrightarrow> byte c \<in> {9, 10, 11, 12, 13, 32}"

definition trim_space :: "string \<Rightarrow> string" where
  "trim_space s = rev (dropWhile is_space (rev (dropWhile is_space s)))"

definition lower_char :: "char \<Rightarrow> char" where
  "lower_char c = (if 65 \<le> byte c \<and> byte c \<le> 90 then char_of (byte c + 32) else c)"

definition to_lower :: "string \<Rightarrow> string" where
  "to_lower s = map lower_char s"

definition equal_fold :: "string \<Rightarrow> string \<Rightarrow> bool" where
  "equal_fold s t \<longleftrightarrow> to_lower s = to_lower t"

lemma length_to_lower [simp]: "length (to_lower s) = length s"
  by (simp add: to_lower_def)

lemma to_lower_append [simp]: "to_lower (s @ t) = to_lower s @ to_lower t"
  by (simp add: to_lower_def)

definition digit_char :: "nat \<Rightarrow> char" where
  "digit_char d = char_of (48 + d)"

definition is_digit :: "char \<Rightarrow> bool" where
  "is_digit c \<longleftrightarrow> 48 \<le> byte c \<and> byte c \<le> 57"

fun nat_str :: "nat \<Rightarrow> string" where
  "nat_str n = (if n < 10 then [digit_char n] else nat_str (n div 10) @ [digit_char (n mod 10)])"

declare nat_str.simps [simp del]

text \<open>\<^verbatim>\<open>%d\<close> and \<^verbatim>\<open>strconv.Itoa\<close>.\<close>

definition itoa :: "int \<Rightarrow> string" where
  "itoa i = (if i < 0 then CHR ''-'' # nat_str (nat (- i)) else nat_str (nat i))"

definition digits_val :: "string \<Rightarrow> nat" where
  "digits_val s = foldl (\<lambda>n c. 10 * n + (byte c - 48)) 0 s"

text \<open>
  \<^verbatim>\<open>strconv.Atoi\<close>: an optional sign and at least one decimal digit, in the range of a
  64-bit integer; \<open>None\<close> where Go returns an error.
\<close>

definition atoi :: "string \<Rightarrow> int option" where
  "atoi s =
     (let (neg, ds) = (case s of c # r \<Rightarrow> if c = CHR ''-'' then (True, r)
                                      else if c = CHR ''+'' then (False, r) else (False, s)
                       | [] \<Rightarrow> (False, []));
          v = (if neg then - int (digits_val ds) else int (digits_val ds))
      in if ds \<noteq> [] \<and> list_all is_digit ds \<and> - (2 ^ 63) \<le> v \<and> v < 2 ^ 63 then Some v else None)"

lemma byte_digit_char: "d < 10 \<Longrightarrow> byte (digit_char d) = 48 + d"
  by (simp add: byte_def digit_char_def)

lemma is_digit_char: "d < 10 \<Longrightarrow> is_digit (digit_char d)"
  by (simp add: is_digit_def byte_digit_char)

lemma nat_str_digits: "list_all is_digit (nat_str n)"
proof (induction n rule: nat_str.induct)
  case (1 n)
  then show ?case
    by (subst nat_str.simps) (auto simp: is_digit_char)
qed

lemma nat_str_nonempty [simp]: "nat_str n \<noteq> []"
  by (subst nat_str.simps) simp

lemma digits_val_nat_str: "digits_val (nat_str n) = n"
proof (induction n rule: nat_str.induct)
  case (1 n)
  show ?case
  proof (cases "n < 10")
    case True
    then show ?thesis by (subst nat_str.simps) (simp add: digits_val_def byte_digit_char)
  next
    case False
    with 1 have "digits_val (nat_str (n div 10)) = n div 10" by simp
    with False show ?thesis by (subst nat_str.simps) (simp add: digits_val_def byte_digit_char)
  qed
qed

lemma nat_str_inj: "nat_str m = nat_str n \<Longrightarrow> m = n"
  by (metis digits_val_nat_str)

lemma nat_str_no: "\<not> is_digit c \<Longrightarrow> c \<notin> set (nat_str n)"
  using nat_str_digits[of n] by (auto simp: list_all_iff)

text \<open>An identifier parser for examples: decimal digits, with \<open>nat_str\<close> as its printer.\<close>

definition digits_parse :: "string \<Rightarrow> nat option" where
  "digits_parse s = (if s \<noteq> [] \<and> list_all is_digit s then Some (digits_val s) else None)"

lemma digits_parse_nat_str [simp]: "digits_parse (nat_str n) = Some n"
  by (simp add: digits_parse_def nat_str_digits digits_val_nat_str)

lemma is_digit_minus: "\<not> is_digit (CHR ''-'')"
  by (simp add: is_digit_def byte_def)

lemma itoa_inj: "itoa i = itoa j \<Longrightarrow> i = j"
proof -
  assume a: "itoa i = itoa j"
  have hd: "CHR ''-'' # x \<noteq> nat_str n" for x n
    using nat_str_no[of "CHR ''-''" n] by (metis is_digit_minus list.set_intros(1))
  show "i = j"
    using a hd[symmetric] hd by (auto simp: itoa_def dest!: nat_str_inj split: if_splits)
qed

end
