(* ===== verification/GoErrors.thy ===== *)
theory GoErrors
  imports GoStrings
begin

text \<open>
  Go error values and the retry model of \<^verbatim>\<open>internal/pipeline/pipeline.go\<close>.

  An error is a chain: a leaf (a sentinel such as \<^verbatim>\<open>jobstatus.ErrNotFound\<close>, a plain
  message, a database driver error carrying a SQLSTATE) under any number of
  \<^verbatim>\<open>fmt.Errorf("...: %w", err)\<close> wrappers (\<open>WrapfEnd\<close>
  when the cause is printed first), \<^verbatim>\<open>TransientError\<close> markers and
  \<^verbatim>\<open>errors.Join\<close>s. The identifiers a wrapper's message prints are left out of the model's
  message; the fixed words are kept.

  A call that can fail returns \<open>gerror + 'a\<close> with the state it leaves behind; one that only
  reports an error returns \<open>gerror option\<close>, \<open>None\<close> for \<^verbatim>\<open>nil\<close>.
\<close>

subsection \<open>Errors\<close>

datatype gerror =
    Plain string
  | ErrJobNotFound | ErrAttemptSuperseded | ErrNotActive | ErrInvalidTransition
  | ErrDocNotFound | ErrKBNotFound | ErrEntityNotFound | ErrCanonicalNotFound
  | ErrInquiryNotFound | ErrSessionNotFound
  | ErrExecutionAlreadyExists | ErrQuotaExceeded
  | SQLError string string
  | Wrapf string gerror
  | WrapfEnd gerror string
  | TransientMark gerror
  | Joined "gerror list"

type_synonym ('s, 'a) call = "'s \<Rightarrow> 's \<times> (gerror + 'a)"
type_synonym 's proc = "'s \<Rightarrow> 's \<times> gerror option"

text \<open>\<^verbatim>\<open>errors.Is\<close>: the target occurs somewhere in the chain. Targets are sentinels.\<close>

fun errors_is :: "gerror \<Rightarrow> gerror \<Rightarrow> bool" where
  "errors_is (Wrapf m e) t = errors_is e t"
| "errors_is (WrapfEnd e m) t = errors_is e t"
| "errors_is (TransientMark e) t = errors_is e t"
| "errors_is (Joined es) t = list_ex (\<lambda>e. errors_is e t) es"
| "errors_is e t = (e = t)"

text \<open>\<^verbatim>\<open>err != nil && errors.Is(err, t)\<close> for a possibly nil error.\<close>

definition err_is :: "gerror option \<Rightarrow> gerror \<Rightarrow> bool" where
  "err_is r t = (case r of None \<Rightarrow> False | Some e \<Rightarrow> errors_is e t)"

lemma err_is_simps [simp]: "err_is None t = False" "err_is (Some e) t = errors_is e t"
  by (simp_all add: err_is_def)

text \<open>The text \<^verbatim>\<open>Error()\<close> returns; \<^verbatim>\<open>errors.Join\<close> puts each error on a line.\<close>

fun err_text :: "gerror \<Rightarrow> string" where
  "err_text (Plain m) = m"
| "err_text ErrJobNotFound = ''jobstatus: no status record for this job''"
| "err_text ErrAttemptSuperseded = ''jobstatus: attempt superseded by a newer one''"
| "err_text ErrNotActive = ''jobstatus: job already finished''"
| "err_text ErrInvalidTransition = ''jobstatus: invalid transition''"
| "err_text ErrDocNotFound = ''document: not found''"
| "err_text ErrKBNotFound = ''kb: not found''"
| "err_text ErrEntityNotFound = ''entity: not found''"
| "err_text ErrCanonicalNotFound = ''canonical: not found''"
| "err_text ErrInquiryNotFound = ''inquiry: not found''"
| "err_text ErrSessionNotFound = ''session: not found''"
| "err_text ErrExecutionAlreadyExists = ''stepfunctions: execution already exists''"
| "err_text ErrQuotaExceeded = ''llm: provider quota or spend limit exceeded''"
| "err_text (SQLError code m) = m"
| "err_text (Wrapf m e) = m @ '': '' @ err_text e"
| "err_text (WrapfEnd e m) = err_text e @ '': '' @ m"
| "err_text (TransientMark e) = err_text e"
| "err_text (Joined es) = join_with [CHR 0x0A] (map err_text es)"

subsection \<open>Transient errors\<close>

text \<open>
  \<^verbatim>\<open>errors.As(err, &se)\<close> for an error with a \<^verbatim>\<open>SQLState\<close> method: the first one in
  the chain, depth first.
\<close>

fun first_some :: "'a option list \<Rightarrow> 'a option" where
  "first_some [] = None"
| "first_some (None # xs) = first_some xs"
| "first_some (Some x # xs) = Some x"

fun sql_state :: "gerror \<Rightarrow> string option" where
  "sql_state (SQLError code m) = Some code"
| "sql_state (Wrapf m e) = sql_state e"
| "sql_state (WrapfEnd e m) = sql_state e"
| "sql_state (TransientMark e) = sql_state e"
| "sql_state (Joined es) = first_some (map sql_state es)"
| "sql_state _ = None"

definition deterministicDBError :: "gerror \<Rightarrow> bool" where
  "deterministicDBError e =
     (case sql_state e of
        None \<Rightarrow> False
      | Some code \<Rightarrow>
          if length code < 2 then False
          else List.member [''22'', ''23'', ''42''] (take 2 code))"

definition Transient :: "gerror \<Rightarrow> gerror" where
  "Transient e = (if deterministicDBError e then e else TransientMark e)"

fun IsTransient :: "gerror \<Rightarrow> bool" where
  "IsTransient (TransientMark e) = True"
| "IsTransient (Wrapf m e) = IsTransient e"
| "IsTransient (WrapfEnd e m) = IsTransient e"
| "IsTransient (Joined es) = list_ex IsTransient es"
| "IsTransient _ = False"

definition ForLambda :: "gerror option \<Rightarrow> gerror option" where
  "ForLambda r =
     (case r of None \<Rightarrow> None
      | Some e \<Rightarrow> if \<not> IsTransient e then Some e else Some (TransientMark e))"

fun TransientUnless :: "gerror \<Rightarrow> gerror list \<Rightarrow> gerror" where
  "TransientUnless e [] = Transient e"
| "TransientUnless e (d # ds) = (if errors_is e d then e else TransientUnless e ds)"

text \<open>\<^verbatim>\<open>worker.retryable\<close>.\<close>

definition retryable :: "gerror \<Rightarrow> gerror" where
  "retryable e = (if errors_is e ErrDocNotFound then e else Transient e)"

definition Superseded :: "gerror option \<Rightarrow> bool" where
  "Superseded r \<longleftrightarrow> err_is r ErrAttemptSuperseded \<or> err_is r ErrNotActive"

text \<open>
  What the state machine's \<^verbatim>\<open>Retry\<close> sees: the runtime names an error after its outermost
  type, and the definitions retry the name \<^verbatim>\<open>TransientError\<close>.
\<close>

definition named_TransientError :: "gerror \<Rightarrow> bool" where
  "named_TransientError e = (case e of TransientMark _ \<Rightarrow> True | _ \<Rightarrow> False)"

subsection \<open>Failure reasons\<close>

record step_error =
  se_error :: string
  se_cause :: string

definition MaxReasonLen :: nat where
  "MaxReasonLen = 2000"

definition Reason :: "step_error option \<Rightarrow> string" where
  "Reason e =
     (case e of
        None \<Rightarrow> ''unknown failure''
      | Some se \<Rightarrow>
          (let reason = se_error se @ '': '' @ se_cause se
           in if length reason > MaxReasonLen then take MaxReasonLen reason else reason))"

subsection \<open>Lemmas\<close>

lemma errors_is_Transient [simp]: "errors_is (Transient e) t = errors_is e t"
  by (simp add: Transient_def)

lemma errors_is_TransientUnless [simp]: "errors_is (TransientUnless e ds) t = errors_is e t"
  by (induction ds) auto

lemma errors_is_retryable [simp]: "errors_is (retryable e) t = errors_is e t"
  by (simp add: retryable_def)

lemma Superseded_simps [simp]:
  "\<not> Superseded None"
  "Superseded (Some ErrAttemptSuperseded)"
  "Superseded (Some ErrNotActive)"
  "Superseded (Some (Wrapf m e)) = Superseded (Some e)"
  "Superseded (Some (WrapfEnd e m)) = Superseded (Some e)"
  "\<not> Superseded (Some (Plain m))"
  "\<not> Superseded (Some ErrJobNotFound)"
  "\<not> Superseded (Some ErrInvalidTransition)"
  by (auto simp: Superseded_def)

lemma IsTransient_Transient: "IsTransient (Transient e) \<longleftrightarrow> \<not> deterministicDBError e \<or> IsTransient e"
  by (simp add: Transient_def)

lemma IsTransient_TransientUnless:
  "IsTransient (TransientUnless e ds) \<longleftrightarrow>
     IsTransient e \<or> (\<not> deterministicDBError e \<and> \<not> list_ex (errors_is e) ds)"
  by (induction ds) (auto simp: IsTransient_Transient)

lemma sql_state_TransientMark: "sql_state (Transient e) = sql_state e"
  by (simp add: Transient_def)

lemma ForLambda_None [simp]: "ForLambda None = None" "ForLambda r = None \<longleftrightarrow> r = None"
  by (auto simp: ForLambda_def split: option.splits)

lemma ForLambda_named:
  "ForLambda (Some e) = Some e' \<Longrightarrow> named_TransientError e' \<longleftrightarrow> IsTransient e"
  by (auto simp: ForLambda_def named_TransientError_def split: if_splits gerror.splits)

lemma ForLambda_text: "map_option err_text (ForLambda r) = map_option err_text r"
  by (simp add: ForLambda_def split: option.split)

lemma length_Reason: "length (Reason e) \<le> MaxReasonLen"
  by (cases e) (auto simp: Reason_def MaxReasonLen_def Let_def min_def)

text \<open>A failure path: an error to return, if any.\<close>

lemma err_cases [case_names ok err]:
  assumes "r = None \<Longrightarrow> P" "\<And>e. r = Some e \<Longrightarrow> P"
  shows P
  using assms by (cases r) auto

subsection \<open>Properties\<close>

lemma err_text_TransientUnless [simp]: "err_text (TransientUnless e ds) = err_text e"
  by (induction ds) (auto simp: Transient_def)

text \<open>
  C8. A step that names its deterministic causes and passes its error through the Lambda boundary
  is retried by the state machine exactly when the error was already marked transient, or is
  neither a deterministic database error nor one of the named causes. The boundary keeps the
  error's text, and every sentinel a caller could recognise before is still recognised.
\<close>

theorem step_error_retry:
  "\<exists>e'. ForLambda (Some (TransientUnless e ds)) = Some e'
     \<and> named_TransientError e' =
          (if deterministicDBError e \<or> list_ex (errors_is e) ds then IsTransient e else True)
     \<and> err_text e' = err_text e
     \<and> errors_is e' t = errors_is e t"
proof -
  obtain e' where e': "ForLambda (Some (TransientUnless e ds)) = Some e'"
    by (cases "ForLambda (Some (TransientUnless e ds))") auto
  moreover have "named_TransientError e' =
      (if deterministicDBError e \<or> list_ex (errors_is e) ds then IsTransient e else True)"
    using ForLambda_named[OF e'] IsTransient_TransientUnless[of e ds] by simp
  moreover have "err_text e' = err_text e" using ForLambda_text[of "Some (TransientUnless e ds)"] e' by simp
  moreover have "errors_is e' t = errors_is e t" using e' by (auto simp: ForLambda_def split: if_splits)
  ultimately show ?thesis by blast
qed

end
