(* ===== verification/JobQueue.thy ===== *)
theory JobQueue
  imports GoErrors
begin

text \<open>
  \<^verbatim>\<open>internal/queue\<close>: the job types, the events a publisher accepts, the display stages of
  the upload checklist (\<^verbatim>\<open>stage.go\<close>) and the in-memory publisher
  (\<^verbatim>\<open>queue/memory\<close>).
\<close>

subsection \<open>Job types and events\<close>

datatype job_type =
    DocumentIndexing | EntityExtraction | EdgeExtraction
  | RegionClassification | Canonicalization | MalwareScan
  | OtherJob string

fun job_type_str :: "job_type \<Rightarrow> string" where
  "job_type_str DocumentIndexing = ''document_indexing''"
| "job_type_str EntityExtraction = ''entity_extraction''"
| "job_type_str EdgeExtraction = ''edge_extraction''"
| "job_type_str RegionClassification = ''region_classification''"
| "job_type_str Canonicalization = ''canonicalization''"
| "job_type_str MalwareScan = ''malware_scan''"
| "job_type_str (OtherJob s) = s"

text \<open>The five published event types all carry a document and its owner.\<close>

datatype event =
    DocumentUploaded uuid uuid
  | EntityExtractionRequested uuid uuid
  | EdgeExtractionRequested uuid uuid
  | RegionClassificationRequested uuid uuid
  | CanonicalizationRequested uuid uuid

fun event_type :: "event \<Rightarrow> job_type" where
  "event_type (DocumentUploaded d u) = DocumentIndexing"
| "event_type (EntityExtractionRequested d u) = EntityExtraction"
| "event_type (EdgeExtractionRequested d u) = EdgeExtraction"
| "event_type (RegionClassificationRequested d u) = RegionClassification"
| "event_type (CanonicalizationRequested d u) = Canonicalization"

fun event_doc :: "event \<Rightarrow> uuid" where
  "event_doc (DocumentUploaded d u) = d"
| "event_doc (EntityExtractionRequested d u) = d"
| "event_doc (EdgeExtractionRequested d u) = d"
| "event_doc (RegionClassificationRequested d u) = d"
| "event_doc (CanonicalizationRequested d u) = d"

fun event_user :: "event \<Rightarrow> uuid" where
  "event_user (DocumentUploaded d u) = u"
| "event_user (EntityExtractionRequested d u) = u"
| "event_user (EdgeExtractionRequested d u) = u"
| "event_user (RegionClassificationRequested d u) = u"
| "event_user (CanonicalizationRequested d u) = u"

record job =
  job_kind :: job_type
  job_doc :: uuid
  job_user :: uuid

record job_run =
  run_type :: job_type
  run_doc :: uuid
  run_user :: uuid
  run_attempt :: int

record job_status =
  jst_type :: job_type
  jst_phase :: string
  jst_status :: string
  jst_last_error :: string

subsection \<open>The in-memory publisher\<close>

text \<open>
  One list per event kind, in the order published. Publishing never fails; the readers return a
  copy of one list.
\<close>

record mem_publisher =
  mp_uploaded :: "event list"
  mp_entity :: "event list"
  mp_edge :: "event list"
  mp_region :: "event list"
  mp_canon :: "event list"

definition mem_publisher_new :: mem_publisher where
  "mem_publisher_new = \<lparr>mp_uploaded = [], mp_entity = [], mp_edge = [], mp_region = [], mp_canon = []\<rparr>"

fun mem_publish :: "event \<Rightarrow> mem_publisher \<Rightarrow> mem_publisher" where
  "mem_publish (DocumentUploaded d u) p = p\<lparr>mp_uploaded := mp_uploaded p @ [DocumentUploaded d u]\<rparr>"
| "mem_publish (EntityExtractionRequested d u) p =
     p\<lparr>mp_entity := mp_entity p @ [EntityExtractionRequested d u]\<rparr>"
| "mem_publish (EdgeExtractionRequested d u) p =
     p\<lparr>mp_edge := mp_edge p @ [EdgeExtractionRequested d u]\<rparr>"
| "mem_publish (RegionClassificationRequested d u) p =
     p\<lparr>mp_region := mp_region p @ [RegionClassificationRequested d u]\<rparr>"
| "mem_publish (CanonicalizationRequested d u) p =
     p\<lparr>mp_canon := mp_canon p @ [CanonicalizationRequested d u]\<rparr>"

definition mem_events_of :: "job_type \<Rightarrow> mem_publisher \<Rightarrow> event list" where
  "mem_events_of t p =
     (case t of
        DocumentIndexing \<Rightarrow> mp_uploaded p
      | EntityExtraction \<Rightarrow> mp_entity p
      | EdgeExtraction \<Rightarrow> mp_edge p
      | RegionClassification \<Rightarrow> mp_region p
      | Canonicalization \<Rightarrow> mp_canon p
      | _ \<Rightarrow> [])"

lemma mem_events_of_publish [simp]:
  "mem_events_of t (mem_publish e p) = mem_events_of t p @ (if t = event_type e then [e] else [])"
  by (cases e; cases t) (simp_all add: mem_events_of_def)

lemma mem_events_of_run:
  "mem_events_of t (fold mem_publish es p) = mem_events_of t p @ filter (\<lambda>e. event_type e = t) es"
  by (induction es arbitrary: p) auto

subsection \<open>Display stages\<close>

record display_stage =
  ds_key :: string
  ds_label :: string
  ds_message :: string

definition PhaseEmbedding :: string where
  "PhaseEmbedding = ''embedding''"

definition StageKeyComplete :: string where
  "StageKeyComplete = ''complete''"

definition stageScanning :: display_stage where
  "stageScanning = \<lparr>ds_key = ''scanning'', ds_label = ''Scanning for malware'',
     ds_message = ''Checking the file before anything else reads it.''\<rparr>"

definition stageAnalyzing :: display_stage where
  "stageAnalyzing = \<lparr>ds_key = ''analyzing'', ds_label = ''Analyzing document'',
     ds_message = ''Identifying text, tables, and figures.''\<rparr>"

definition stageEmbedding :: display_stage where
  "stageEmbedding = \<lparr>ds_key = ''embedding'', ds_label = ''Preparing for search'',
     ds_message = ''This document will be searchable once this step completes.''\<rparr>"

definition stageEntities :: display_stage where
  "stageEntities = \<lparr>ds_key = ''entities'', ds_label = ''Extracting entities'',
     ds_message = ''Unlocks communities, themes, and multi-hop queries once complete.''\<rparr>"

definition stageComplete :: display_stage where
  "stageComplete = \<lparr>ds_key = StageKeyComplete, ds_label = ''Fully indexed'',
     ds_message = ''Indexed, searchable, and included in communities and themes.''\<rparr>"

definition stageProcessing :: display_stage where
  "stageProcessing = \<lparr>ds_key = ''processing'', ds_label = ''Processing'', ds_message = ''''\<rparr>"

fun StageFor :: "job_type \<Rightarrow> string \<Rightarrow> display_stage" where
  "StageFor RegionClassification phase =
     (if phase = PhaseEmbedding then stageEmbedding else stageAnalyzing)"
| "StageFor DocumentIndexing phase = stageEmbedding"
| "StageFor EntityExtraction phase = stageEntities"
| "StageFor EdgeExtraction phase = stageEntities"
| "StageFor Canonicalization phase = stageEntities"
| "StageFor MalwareScan phase = stageScanning"
| "StageFor (OtherJob s) phase = stageProcessing"

definition StagesForDocument :: "bool \<Rightarrow> display_stage list" where
  "StagesForDocument hasRegionClassification =
     (if hasRegionClassification
      then [stageScanning, stageAnalyzing, stageEmbedding, stageEntities, stageComplete]
      else [stageScanning, stageEmbedding, stageEntities, stageComplete])"

text \<open>The set of present keys is a Go map from key to true.\<close>

definition ActiveStageKeys :: "bool \<Rightarrow> job_status list \<Rightarrow> string list" where
  "ActiveStageKeys hasRegionClassification active =
     (let presentKeys = foldl (\<lambda>m j. gm_put (ds_key (StageFor (jst_type j) (jst_phase j))) True m) [] active
      in map ds_key (filter (\<lambda>s. gm_get_or False presentKeys (ds_key s))
           (StagesForDocument hasRegionClassification)))"

lemmas stage_defs = stageScanning_def stageAnalyzing_def stageEmbedding_def stageEntities_def
  stageComplete_def stageProcessing_def StageKeyComplete_def

lemma present_keys_get:
  "gm_get_or False (foldl (\<lambda>m j. gm_put (f j) True m) m0 js) k \<longleftrightarrow>
     gm_get_or False m0 k \<or> k \<in> f ` set js"
  by (induction js arbitrary: m0) auto

lemma ActiveStageKeys_eq:
  "ActiveStageKeys b active =
     filter (\<lambda>k. \<exists>j \<in> set active. k = ds_key (StageFor (jst_type j) (jst_phase j)))
       (map ds_key (StagesForDocument b))"
  unfolding ActiveStageKeys_def Let_def present_keys_get filter_map comp_def
  by (rule arg_cong[where f = "map ds_key"], rule filter_cong) auto

lemma StageFor_key_not_complete: "ds_key (StageFor t ph) \<noteq> StageKeyComplete"
  by (cases t) (simp_all add: stage_defs)

text \<open>Which stage keys a job can show, on the region and on the plain-text path.\<close>

lemma stage_keys_distinct: "distinct (map ds_key (StagesForDocument b))"
  by (simp add: StagesForDocument_def stage_defs)

subsection \<open>Properties\<close>

text \<open>
  The checklist rows a document's active jobs keep unfinished are, in checklist order and
  without repetition, exactly the rows that some active job is displayed under; the row that says
  the document is fully indexed is never among them.
\<close>

theorem active_stage_keys_exact:
  "subseq (ActiveStageKeys b active) (map ds_key (StagesForDocument b))
   \<and> distinct (ActiveStageKeys b active)
   \<and> set (ActiveStageKeys b active) =
       {ds_key (StageFor (jst_type j) (jst_phase j)) | j. j \<in> set active} \<inter> set (map ds_key (StagesForDocument b))
   \<and> StageKeyComplete \<notin> set (ActiveStageKeys b active)"
proof -
  have "StageKeyComplete \<notin> set (ActiveStageKeys b active)"
    using StageFor_key_not_complete by (auto simp: ActiveStageKeys_eq) metis
  moreover have "distinct (ActiveStageKeys b active)"
    by (simp only: ActiveStageKeys_eq distinct_filter stage_keys_distinct)
  moreover have "subseq (ActiveStageKeys b active) (map ds_key (StagesForDocument b))"
    by (simp only: ActiveStageKeys_eq subseq_filter_left)
  moreover have "set (ActiveStageKeys b active) =
       {ds_key (StageFor (jst_type j) (jst_phase j)) | j. j \<in> set active} \<inter> set (map ds_key (StagesForDocument b))"
    unfolding ActiveStageKeys_eq by auto
  ultimately show ?thesis by blast
qed

end
