(* ===== verification/JobStatus.thy ===== *)
theory JobStatus
  imports JobQueue
begin

text \<open>
  \<^verbatim>\<open>internal/jobstatus\<close>: the state rules of one job's status record (\<open>Enqueue\<close>,
  \<open>Transition\<close>), the writer interface the pipeline uses (\<open>status_writer\<close> and the locale
  \<open>job_status_store\<close> with what every implementation promises), and the in-memory store
  (\<^verbatim>\<open>jobstatus/memory\<close>), interpreted as an instance of the interface.
\<close>

subsection \<open>Records and the state rules\<close>

datatype jstatus = StPending | StProcessing | StSucceeded | StFailed | StOther string

fun jstatus_str :: "jstatus \<Rightarrow> string" where
  "jstatus_str StPending = ''pending''"
| "jstatus_str StProcessing = ''processing''"
| "jstatus_str StSucceeded = ''succeeded''"
| "jstatus_str StFailed = ''failed''"
| "jstatus_str (StOther s) = s"

definition Active :: "jstatus \<Rightarrow> bool" where
  "Active s \<longleftrightarrow> s = StPending \<or> s = StProcessing"

record jkey =
  k_user :: uuid
  k_doc :: uuid
  k_type :: job_type

record jrecord =
  r_key :: jkey
  r_status :: jstatus
  r_phase :: string
  r_attempt :: int
  r_last_error :: string

record enqueued =
  enq_attempt :: int
  enq_started :: bool

definition Enqueue :: "jrecord option \<Rightarrow> jkey \<Rightarrow> jrecord \<times> enqueued" where
  "Enqueue cur key =
     (case cur of
        None \<Rightarrow>
          (\<lparr>r_key = key, r_status = StPending, r_phase = '''', r_attempt = 1, r_last_error = ''''\<rparr>,
           \<lparr>enq_attempt = 1, enq_started = True\<rparr>)
      | Some c \<Rightarrow>
          if Active (r_status c) then (c, \<lparr>enq_attempt = r_attempt c, enq_started = False\<rparr>)
          else
            (let n = \<lparr>r_key = r_key c, r_status = StPending, r_phase = '''',
                      r_attempt = r_attempt c + 1, r_last_error = ''''\<rparr>
             in (n, \<lparr>enq_attempt = r_attempt n, enq_started = True\<rparr>)))"

definition Transition ::
  "jrecord \<Rightarrow> int \<Rightarrow> jstatus \<Rightarrow> string \<Rightarrow> string \<Rightarrow> jrecord \<times> bool \<times> gerror option" where
  "Transition cur attempt to phase reason =
     (if attempt \<noteq> r_attempt cur then
        (cur, False, Some (WrapfEnd ErrAttemptSuperseded
           (''attempt '' @ itoa attempt @ '', current '' @ itoa (r_attempt cur))))
      else if to \<notin> {StProcessing, StSucceeded, StFailed} then
        (cur, False, Some (WrapfEnd ErrInvalidTransition (''to '' @ jstatus_str to)))
      else if \<not> Active (r_status cur) then
        (if r_status cur = to then (cur, False, None)
         else (cur, False, Some (WrapfEnd ErrNotActive
                 (jstatus_str (r_status cur) @ '', cannot move to '' @ jstatus_str to))))
      else
        (let n = cur\<lparr>r_status := to\<rparr>;
             n = (case to of
                    StProcessing \<Rightarrow> if phase \<noteq> '''' then n\<lparr>r_phase := phase\<rparr> else n
                  | StSucceeded \<Rightarrow> n\<lparr>r_phase := '''', r_last_error := ''''\<rparr>
                  | StFailed \<Rightarrow> n\<lparr>r_last_error := reason\<rparr>
                  | _ \<Rightarrow> n)
         in (n, n \<noteq> cur, None)))"

text \<open>What a record always satisfies once it was made by these rules.\<close>

definition jrecord_ok :: "jrecord \<Rightarrow> bool" where
  "jrecord_ok r \<longleftrightarrow>
     1 \<le> r_attempt r \<and>
     r_status r \<in> {StPending, StProcessing, StSucceeded, StFailed} \<and>
     (r_status r \<in> {StPending, StSucceeded} \<longrightarrow> r_phase r = '''') \<and>
     (r_status r \<noteq> StFailed \<longrightarrow> r_last_error r = '''')"

lemma Active_simps [simp]:
  "Active StPending" "Active StProcessing" "\<not> Active StSucceeded" "\<not> Active StFailed"
  "\<not> Active (StOther x)"
  by (simp_all add: Active_def)

lemma Enqueue_ok:
  "(\<And>c. cur = Some c \<Longrightarrow> jrecord_ok c) \<Longrightarrow> jrecord_ok (fst (Enqueue cur key))"
  by (auto simp: Enqueue_def jrecord_ok_def split: option.splits)

lemma Transition_ok:
  "jrecord_ok cur \<Longrightarrow> jrecord_ok (fst (Transition cur a to ph rs))"
  by (auto simp: Transition_def jrecord_ok_def Let_def)

lemma Transition_err_same:
  "snd (snd (Transition cur a to ph rs)) = Some e \<Longrightarrow> fst (Transition cur a to ph rs) = cur"
  by (auto simp: Transition_def Let_def split: if_splits)

lemma Transition_key [simp]:
  "r_key (fst (Transition cur a to ph rs)) = r_key cur"
  "r_attempt (fst (Transition cur a to ph rs)) = r_attempt cur"
  by (auto simp: Transition_def Let_def split: jstatus.splits)

lemma Transition_finished:
  "\<not> Active (r_status cur) \<Longrightarrow> fst (Transition cur a to ph rs) = cur"
  by (auto simp: Transition_def)

lemma Transition_stale:
  "a \<noteq> r_attempt cur \<Longrightarrow>
     fst (Transition cur a to ph rs) = cur \<and> Superseded (snd (snd (Transition cur a to ph rs)))"
  by (auto simp: Transition_def)

lemma Transition_changed:
  "fst (snd (Transition cur a to ph rs)) \<longleftrightarrow> fst (Transition cur a to ph rs) \<noteq> cur"
  by (auto simp: Transition_def Let_def)

subsection \<open>The writer interface and its contract\<close>

record 's status_writer =
  sw_enqueue :: "jkey \<Rightarrow> ('s, enqueued) call"
  sw_mark_processing :: "jkey \<Rightarrow> int \<Rightarrow> 's proc"
  sw_set_phase :: "jkey \<Rightarrow> int \<Rightarrow> string \<Rightarrow> 's proc"
  sw_mark_succeeded :: "jkey \<Rightarrow> int \<Rightarrow> 's proc"
  sw_mark_failed :: "jkey \<Rightarrow> int \<Rightarrow> string \<Rightarrow> 's proc"

type_synonym slot = "uuid \<times> job_type"

definition slot_of :: "jkey \<Rightarrow> slot" where
  "slot_of k = (k_doc k, k_type k)"

text \<open>
  The abstract store: one record per document and job type, invisible to other users. A write
  either follows the pure rules atomically or, on a store failure, changes nothing and reports an
  error that is none of the status errors.
\<close>

definition visible :: "(slot \<Rightarrow> jrecord option) \<Rightarrow> jkey \<Rightarrow> jrecord option" where
  "visible recs k =
     (case recs (slot_of k) of
        None \<Rightarrow> None
      | Some r \<Rightarrow> if k_user (r_key r) = k_user k then Some r else None)"

definition spec_enqueue ::
  "jkey \<Rightarrow> (slot \<Rightarrow> jrecord option) \<Rightarrow> (slot \<Rightarrow> jrecord option) \<times> (gerror + enqueued)" where
  "spec_enqueue k recs =
     (if recs (slot_of k) \<noteq> None \<and> visible recs k = None then (recs, Inl ErrJobNotFound)
      else (recs(slot_of k \<mapsto> fst (Enqueue (visible recs k) k)), Inr (snd (Enqueue (visible recs k) k))))"

definition spec_transition ::
  "jkey \<Rightarrow> int \<Rightarrow> jstatus \<Rightarrow> string \<Rightarrow> string \<Rightarrow> (slot \<Rightarrow> jrecord option)
     \<Rightarrow> (slot \<Rightarrow> jrecord option) \<times> gerror option" where
  "spec_transition k a to ph rs recs =
     (case visible recs k of
        None \<Rightarrow> (recs, Some ErrJobNotFound)
      | Some r \<Rightarrow> (recs(slot_of k \<mapsto> fst (Transition r a to ph rs)), snd (snd (Transition r a to ph rs))))"

definition status_error :: "gerror \<Rightarrow> bool" where
  "status_error e \<longleftrightarrow> errors_is e ErrJobNotFound \<or> errors_is e ErrAttemptSuperseded \<or>
     errors_is e ErrNotActive \<or> errors_is e ErrInvalidTransition"

definition write_refines ::
  "((slot \<Rightarrow> jrecord option) \<Rightarrow> (slot \<Rightarrow> jrecord option) \<times> gerror option) \<Rightarrow>
   ('s \<Rightarrow> slot \<Rightarrow> jrecord option) \<Rightarrow> 's proc \<Rightarrow> bool" where
  "write_refines sp recs p \<longleftrightarrow>
     (\<forall>s s' r. p s = (s', r) \<longrightarrow>
        (recs s', r) = sp (recs s) \<or> (recs s' = recs s \<and> (\<exists>e. r = Some e \<and> \<not> status_error e)))"

definition enqueue_refines ::
  "jkey \<Rightarrow> ('s \<Rightarrow> slot \<Rightarrow> jrecord option) \<Rightarrow> ('s, enqueued) call \<Rightarrow> bool" where
  "enqueue_refines k recs p \<longleftrightarrow>
     (\<forall>s s' r. p s = (s', r) \<longrightarrow>
        (recs s', r) = spec_enqueue k (recs s) \<or>
        (recs s' = recs s \<and> (\<exists>e. r = Inl e \<and> \<not> status_error e)))"

locale job_status_store =
  fixes W :: "'s status_writer"
    and recs :: "'s \<Rightarrow> slot \<Rightarrow> jrecord option"
  assumes enqueue_law: "enqueue_refines k recs (sw_enqueue W k)"
    and processing_law: "write_refines (spec_transition k a StProcessing '''' '''') recs (sw_mark_processing W k a)"
    and phase_law: "write_refines (spec_transition k a StProcessing ph '''') recs (sw_set_phase W k a ph)"
    and succeeded_law: "write_refines (spec_transition k a StSucceeded '''' '''') recs (sw_mark_succeeded W k a)"
    and failed_law: "write_refines (spec_transition k a StFailed '''' rs) recs (sw_mark_failed W k a rs)"
begin

text \<open>The five writes as one family, so that a fact about all of them is stated once.\<close>

definition is_write :: "jkey \<Rightarrow> int \<Rightarrow> jstatus \<Rightarrow> 's proc \<Rightarrow> bool" where
  "is_write k a to p \<longleftrightarrow>
     (to = StProcessing \<and> (p = sw_mark_processing W k a \<or> (\<exists>ph. p = sw_set_phase W k a ph))) \<or>
     (to = StSucceeded \<and> p = sw_mark_succeeded W k a) \<or>
     (to = StFailed \<and> (\<exists>rs. p = sw_mark_failed W k a rs))"

lemma is_write_refines:
  "is_write k a to p \<Longrightarrow> \<exists>ph rs. write_refines (spec_transition k a to ph rs) recs p"
  unfolding is_write_def using processing_law phase_law succeeded_law failed_law by blast

lemma write_cases:
  assumes "is_write k a to p" "p s = (s', r)"
  obtains (rules) ph rs where "(recs s', r) = spec_transition k a to ph rs (recs s)"
    | (fault) e where "recs s' = recs s" "r = Some e" "\<not> status_error e"
  using is_write_refines[OF assms(1)] assms(2) unfolding write_refines_def by blast

text \<open>A report on an attempt that is not the current one changes nothing.\<close>

lemma stale_write_same:
  assumes "is_write k a to p" "p s = (s', r)" "recs s (slot_of k) = Some c" "a \<noteq> r_attempt c"
  shows "recs s' = recs s"
  using assms(1,2)
proof (cases rule: write_cases)
  case (rules ph rs)
  then show ?thesis using assms(3) Transition_stale[OF assms(4)]
    by (auto simp: spec_transition_def visible_def fun_upd_idem split: if_splits)
qed

text \<open>Nothing but an enqueue moves a finished job.\<close>

lemma finished_write_same:
  assumes "is_write k a to p" "p s = (s', r)" "recs s (slot_of k) = Some c" "\<not> Active (r_status c)"
  shows "recs s' = recs s"
  using assms(1,2)
proof (cases rule: write_cases)
  case (rules ph rs)
  then show ?thesis using assms(3) Transition_finished[OF assms(4)]
    by (auto simp: spec_transition_def visible_def fun_upd_idem split: if_splits)
qed

lemma superseded_write_same:
  assumes "is_write k a to p" "p s = (s', r)" "Superseded r"
  shows "recs s' = recs s"
  using assms(1,2)
proof (cases rule: write_cases)
  case (rules ph rs)
  then show ?thesis using assms(3) Transition_err_same
    by (fastforce simp: spec_transition_def visible_def fun_upd_idem Superseded_def err_is_def
        split: if_splits option.splits)
qed

lemma foreign_write_same:
  assumes "is_write k a to p" "p s = (s', r)" "visible (recs s) k = None"
  shows "recs s' = recs s"
  using assms(1,2)
proof (cases rule: write_cases)
  case (rules ph rs)
  then show ?thesis using assms(3) by (simp add: spec_transition_def)
qed

text \<open>A write touches only its own key's record.\<close>

lemma write_frame:
  assumes "is_write k a to p" "p s = (s', r)" "sl \<noteq> slot_of k"
  shows "recs s' sl = recs s sl"
  using assms(1,2)
proof (cases rule: write_cases)
  case (rules ph rs)
  then show ?thesis using assms(3) by (auto simp: spec_transition_def split: option.splits)
qed simp

lemma success_write_status:
  assumes "is_write k a to p" "p s = (s', None)"
  shows "\<exists>c. visible (recs s') k = Some c \<and> r_status c = to \<and> r_attempt c = a"
  using assms
proof (cases rule: write_cases)
  case (rules ph rs)
  then show ?thesis using assms(1)
    by (auto simp: spec_transition_def visible_def is_write_def Transition_def Let_def
        split: option.splits if_splits)
qed simp

end

subsection \<open>The in-memory store\<close>

record jrow =
  row_rec :: jrecord
  row_seq :: nat

record jstore =
  js_rows :: "(slot, jrow) gomap"
  js_seq :: nat

definition js_new :: jstore where
  "js_new = \<lparr>js_rows = [], js_seq = 0\<rparr>"

definition js_Get :: "jstore \<Rightarrow> jkey \<Rightarrow> gerror + jrecord" where
  "js_Get s key =
     (case gm_get (js_rows s) (slot_of key) of
        None \<Rightarrow> Inl ErrJobNotFound
      | Some r \<Rightarrow> if k_user (r_key (row_rec r)) \<noteq> k_user key then Inl ErrJobNotFound
                  else Inr (row_rec r))"

definition js_Record :: "jstore \<Rightarrow> jkey \<Rightarrow> jrecord option" where
  "js_Record s key = map_option row_rec (gm_get (js_rows s) (slot_of key))"

definition js_Enqueue :: "jkey \<Rightarrow> (jstore, enqueued) call" where
  "js_Enqueue key s =
     (let cur = gm_get (js_rows s) (slot_of key) in
      if (case cur of None \<Rightarrow> False | Some r \<Rightarrow> k_user (r_key (row_rec r)) \<noteq> k_user key)
      then (s, Inl ErrJobNotFound)
      else
        (let (n, res) = Enqueue (map_option row_rec cur) key
         in if enq_started res
            then (s\<lparr>js_seq := js_seq s + 1,
                    js_rows := gm_put (slot_of key) \<lparr>row_rec = n, row_seq = js_seq s + 1\<rparr> (js_rows s)\<rparr>,
                  Inr res)
            else (s, Inr res)))"

definition js_transition :: "jkey \<Rightarrow> int \<Rightarrow> jstatus \<Rightarrow> string \<Rightarrow> string \<Rightarrow> jstore proc" where
  "js_transition key attempt to phase reason s =
     (case gm_get (js_rows s) (slot_of key) of
        None \<Rightarrow> (s, Some ErrJobNotFound)
      | Some r \<Rightarrow>
          if k_user (r_key (row_rec r)) \<noteq> k_user key then (s, Some ErrJobNotFound)
          else
            (case Transition (row_rec r) attempt to phase reason of
               (n, _, Some e) \<Rightarrow> (s, Some e)
             | (n, _, None) \<Rightarrow>
                 (s\<lparr>js_rows := gm_put (slot_of key) (r\<lparr>row_rec := n\<rparr>) (js_rows s)\<rparr>, None)))"

definition js_MarkProcessing :: "jkey \<Rightarrow> int \<Rightarrow> jstore proc" where
  "js_MarkProcessing key attempt = js_transition key attempt StProcessing '''' ''''"

definition js_SetPhase :: "jkey \<Rightarrow> int \<Rightarrow> string \<Rightarrow> jstore proc" where
  "js_SetPhase key attempt phase = js_transition key attempt StProcessing phase ''''"

definition js_MarkSucceeded :: "jkey \<Rightarrow> int \<Rightarrow> jstore proc" where
  "js_MarkSucceeded key attempt = js_transition key attempt StSucceeded '''' ''''"

definition js_MarkFailed :: "jkey \<Rightarrow> int \<Rightarrow> string \<Rightarrow> jstore proc" where
  "js_MarkFailed key attempt reason = js_transition key attempt StFailed '''' reason"

definition job_status_of :: "jrecord \<Rightarrow> job_status" where
  "job_status_of r = \<lparr>jst_type = k_type (r_key r), jst_phase = r_phase r,
     jst_status = jstatus_str (r_status r), jst_last_error = r_last_error r\<rparr>"

definition js_matches :: "jstore \<Rightarrow> uuid \<Rightarrow> uuid list \<Rightarrow> jrow list" where
  "js_matches s userID documentIDs =
     (let wanted = foldl (\<lambda>m d. gm_put d True m) [] documentIDs;
          matches = filter (\<lambda>r. k_user (r_key (row_rec r)) = userID \<and>
                                gm_get_or False wanted (k_doc (r_key (row_rec r))) \<and>
                                Active (r_status (row_rec r))) (gm_vals (js_rows s))
      in sort_slice (\<lambda>a b. row_seq a < row_seq b) matches)"

definition js_ActiveJobsForDocuments :: "jstore \<Rightarrow> uuid \<Rightarrow> uuid list \<Rightarrow> (uuid, job_status list) gomap" where
  "js_ActiveJobsForDocuments s userID documentIDs =
     foldl (\<lambda>out r. gm_put (k_doc (r_key (row_rec r)))
              (gm_get_or [] out (k_doc (r_key (row_rec r))) @ [job_status_of (row_rec r)]) out)
       [] (js_matches s userID documentIDs)"

text \<open>The store as an implementation of the writer interface.\<close>

definition js_writer :: "jstore status_writer" where
  "js_writer = \<lparr>sw_enqueue = js_Enqueue, sw_mark_processing = js_MarkProcessing,
     sw_set_phase = js_SetPhase, sw_mark_succeeded = js_MarkSucceeded, sw_mark_failed = js_MarkFailed\<rparr>"

definition js_recs :: "jstore \<Rightarrow> slot \<Rightarrow> jrecord option" where
  "js_recs s sl = map_option row_rec (gm_get (js_rows s) sl)"

subsection \<open>The store implements the interface\<close>

lemma js_recs_Enqueue:
  "js_Enqueue k s = (s', r) \<Longrightarrow> (js_recs s', r) = spec_enqueue k (js_recs s)"
  by (auto simp: js_Enqueue_def spec_enqueue_def visible_def js_recs_def fun_eq_iff Let_def
      Enqueue_def split: option.splits if_splits)

lemma js_recs_transition:
  "js_transition k a to ph rs s = (s', r) \<Longrightarrow> (js_recs s', r) = spec_transition k a to ph rs (js_recs s)"
  by (auto simp: js_transition_def spec_transition_def visible_def js_recs_def fun_eq_iff
      split: option.splits if_splits prod.splits
      dest: Transition_err_same[where a = a and to = to and ph = ph and rs = rs, rotated]
      intro: Transition_err_same[symmetric])

interpretation js: job_status_store js_writer js_recs
  by unfold_locales
    (auto simp: js_writer_def enqueue_refines_def write_refines_def js_MarkProcessing_def
      js_SetPhase_def js_MarkSucceeded_def js_MarkFailed_def
      dest: js_recs_Enqueue js_recs_transition)

subsection \<open>Runs of the store\<close>

datatype jstore_op =
    OpEnqueue jkey
  | OpProcessing jkey int
  | OpPhase jkey int string
  | OpSucceeded jkey int
  | OpFailed jkey int string

fun js_step :: "jstore_op \<Rightarrow> jstore \<Rightarrow> jstore" where
  "js_step (OpEnqueue k) s = fst (js_Enqueue k s)"
| "js_step (OpProcessing k a) s = fst (js_MarkProcessing k a s)"
| "js_step (OpPhase k a ph) s = fst (js_SetPhase k a ph s)"
| "js_step (OpSucceeded k a) s = fst (js_MarkSucceeded k a s)"
| "js_step (OpFailed k a rs) s = fst (js_MarkFailed k a rs s)"

definition js_run :: "jstore_op list \<Rightarrow> jstore \<Rightarrow> jstore" where
  "js_run ops s = fold js_step ops s"

fun op_key :: "jstore_op \<Rightarrow> jkey" where
  "op_key (OpEnqueue k) = k"
| "op_key (OpProcessing k a) = k"
| "op_key (OpPhase k a ph) = k"
| "op_key (OpSucceeded k a) = k"
| "op_key (OpFailed k a rs) = k"

fun is_enqueue :: "jstore_op \<Rightarrow> bool" where
  "is_enqueue (OpEnqueue k) = True"
| "is_enqueue _ = False"

text \<open>The attempts a caller is told to start, in order: what the publisher dispatches.\<close>

fun started_attempts :: "jkey \<Rightarrow> jstore_op list \<Rightarrow> jstore \<Rightarrow> int list" where
  "started_attempts k [] s = []"
| "started_attempts k (op # ops) s =
     (case op of
        OpEnqueue k' \<Rightarrow>
          (if k' = k then (case snd (js_Enqueue k s) of
                             Inr r \<Rightarrow> if enq_started r then [enq_attempt r] else []
                           | Inl _ \<Rightarrow> []) else [])
      | _ \<Rightarrow> []) @ started_attempts k ops (js_step op s)"

text \<open>
  Well-formed stores: one row per slot, filed under its record's own document and type, every
  record lawful, and the sequence numbers distinct and not ahead of the counter.
\<close>

definition js_wf :: "jstore \<Rightarrow> bool" where
  "js_wf s \<longleftrightarrow> distinct (gm_keys (js_rows s)) \<and>
     (\<forall>sl r. gm_get (js_rows s) sl = Some r \<longrightarrow>
        slot_of (r_key (row_rec r)) = sl \<and> jrecord_ok (row_rec r) \<and> row_seq r \<le> js_seq s) \<and>
     (\<forall>sl sl' r r'. gm_get (js_rows s) sl = Some r \<longrightarrow> gm_get (js_rows s) sl' = Some r' \<longrightarrow>
        row_seq r = row_seq r' \<longrightarrow> sl = sl')"

lemma js_wf_new: "js_wf js_new"
  by (simp add: js_wf_def js_new_def)

lemma Enqueue_key_slot:
  "(\<And>c. cur = Some c \<Longrightarrow> slot_of (r_key c) = slot_of k) \<Longrightarrow>
     slot_of (r_key (fst (Enqueue cur k))) = slot_of k"
  by (auto simp: Enqueue_def Let_def split: option.splits)

lemma js_wfD:
  assumes "js_wf s" "gm_get (js_rows s) sl = Some r"
  shows "slot_of (r_key (row_rec r)) = sl" "jrecord_ok (row_rec r)" "row_seq r \<le> js_seq s"
  using assms unfolding js_wf_def by blast+

lemma js_wf_seq_inj:
  "js_wf s \<Longrightarrow> gm_get (js_rows s) sl = Some r \<Longrightarrow> gm_get (js_rows s) sl' = Some r' \<Longrightarrow>
     row_seq r = row_seq r' \<Longrightarrow> sl = sl'"
  unfolding js_wf_def by blast

lemma js_wf_distinct: "js_wf s \<Longrightarrow> distinct (gm_keys (js_rows s))"
  unfolding js_wf_def by blast

lemma js_wfI:
  assumes "distinct (gm_keys (js_rows s))"
    and "\<And>sl r. gm_get (js_rows s) sl = Some r \<Longrightarrow>
        slot_of (r_key (row_rec r)) = sl \<and> jrecord_ok (row_rec r) \<and> row_seq r \<le> js_seq s"
    and "\<And>sl sl' r r'. gm_get (js_rows s) sl = Some r \<Longrightarrow> gm_get (js_rows s) sl' = Some r' \<Longrightarrow>
        row_seq r = row_seq r' \<Longrightarrow> sl = sl'"
  shows "js_wf s"
  using assms unfolding js_wf_def by blast

text \<open>The two ways a row is written: a new sequence number, or the row's own kept.\<close>

lemma js_wf_put_new:
  assumes wf: "js_wf s" and r: "slot_of (r_key rc) = sl" "jrecord_ok rc"
  shows "js_wf (s\<lparr>js_seq := js_seq s + 1,
                   js_rows := gm_put sl \<lparr>row_rec = rc, row_seq = js_seq s + 1\<rparr> (js_rows s)\<rparr>)"
  (is "js_wf ?t")
proof (rule js_wfI)
  show "distinct (gm_keys (js_rows ?t))" using js_wf_distinct[OF wf] by simp
  show "slot_of (r_key (row_rec q)) = sl' \<and> jrecord_ok (row_rec q) \<and> row_seq q \<le> js_seq ?t"
    if "gm_get (js_rows ?t) sl' = Some q" for sl' q
    using that r js_wfD[OF wf, of sl' q] by (auto split: if_splits)
  show "sl1 = sl2"
    if "gm_get (js_rows ?t) sl1 = Some q1" "gm_get (js_rows ?t) sl2 = Some q2" "row_seq q1 = row_seq q2"
    for sl1 sl2 q1 q2
    using that js_wf_seq_inj[OF wf, of sl1 q1 sl2 q2] js_wfD(3)[OF wf, of sl1 q1] js_wfD(3)[OF wf, of sl2 q2]
    by (auto split: if_splits)
qed

lemma js_wf_put_same:
  assumes wf: "js_wf s" and old: "gm_get (js_rows s) sl = Some q0"
    and r: "slot_of (r_key rc) = sl" "jrecord_ok rc"
  shows "js_wf (s\<lparr>js_rows := gm_put sl (q0\<lparr>row_rec := rc\<rparr>) (js_rows s)\<rparr>)" (is "js_wf ?t")
proof (rule js_wfI)
  show "distinct (gm_keys (js_rows ?t))" using js_wf_distinct[OF wf] by simp
  show "slot_of (r_key (row_rec q)) = sl' \<and> jrecord_ok (row_rec q) \<and> row_seq q \<le> js_seq ?t"
    if "gm_get (js_rows ?t) sl' = Some q" for sl' q
    using that r js_wfD[OF wf, of sl' q] js_wfD(3)[OF wf old] by (auto split: if_splits)
  show "sl1 = sl2"
    if "gm_get (js_rows ?t) sl1 = Some q1" "gm_get (js_rows ?t) sl2 = Some q2" "row_seq q1 = row_seq q2"
    for sl1 sl2 q1 q2
    using that js_wf_seq_inj[OF wf, of sl1 q1 sl2 q2] js_wf_seq_inj[OF wf old, of sl2 q2]
      js_wf_seq_inj[OF wf old, of sl1 q1]
    by (auto split: if_splits)
qed

lemma js_wf_Enqueue:
  assumes wf: "js_wf s" shows "js_wf (fst (js_Enqueue k s))"
proof -
  let ?cur = "map_option row_rec (gm_get (js_rows s) (slot_of k))"
  have cur: "jrecord_ok c \<and> slot_of (r_key c) = slot_of k" if "?cur = Some c" for c
    using that js_wfD[OF wf, of "slot_of k"] by (cases "gm_get (js_rows s) (slot_of k)") auto
  have ok: "jrecord_ok (fst (Enqueue ?cur k))" by (rule Enqueue_ok) (use cur in blast)
  have slot: "slot_of (r_key (fst (Enqueue ?cur k))) = slot_of k"
    by (rule Enqueue_key_slot) (use cur in blast)
  obtain n res where E: "Enqueue ?cur k = (n, res)" by (cases "Enqueue ?cur k")
  have "js_wf (s\<lparr>js_seq := js_seq s + 1,
      js_rows := gm_put (slot_of k) \<lparr>row_rec = n, row_seq = js_seq s + 1\<rparr> (js_rows s)\<rparr>)"
    by (rule js_wf_put_new[OF wf]) (use ok slot E in simp_all)
  then show ?thesis using wf by (simp add: js_Enqueue_def Let_def E)
qed

lemma js_wf_transition:
  assumes wf: "js_wf s" shows "js_wf (fst (js_transition k a to ph rs s))"
proof (cases "gm_get (js_rows s) (slot_of k)")
  case None
  then show ?thesis using wf by (simp add: js_transition_def)
next
  case (Some r)
  obtain n c e where t: "Transition (row_rec r) a to ph rs = (n, c, e)" by (metis prod_cases3)
  have "jrecord_ok n" "slot_of (r_key n) = slot_of k"
    using Transition_ok[OF js_wfD(2)[OF wf Some], of a to ph rs] js_wfD(1)[OF wf Some]
      Transition_key(1)[of "row_rec r" a to ph rs] t by simp_all
  then show ?thesis using wf Some t js_wf_put_same[OF wf Some]
    by (simp add: js_transition_def split: option.split)
qed

lemmas js_mark_defs = js_MarkProcessing_def js_SetPhase_def js_MarkSucceeded_def js_MarkFailed_def

lemma js_wf_step: "js_wf s \<Longrightarrow> js_wf (js_step op s)"
  by (cases op) (simp_all add: js_mark_defs js_wf_Enqueue js_wf_transition)

lemma js_wf_run: "js_wf s \<Longrightarrow> js_wf (js_run ops s)"
  by (induction ops arbitrary: s) (simp_all add: js_run_def js_wf_step)

subsection \<open>What a run does to one key\<close>

lemma jkey_eqI: "slot_of (k :: jkey) = slot_of k' \<Longrightarrow> k_user k = k_user k' \<Longrightarrow> k = k'"
  by (cases k; cases k') (simp add: slot_of_def)

lemma js_step_transition:
  assumes "\<not> is_enqueue op"
  obtains a to ph rs where "js_step op s = fst (js_transition (op_key op) a to ph rs s)"
    "to \<in> {StProcessing, StSucceeded, StFailed}"
  using assms by (cases op) (auto simp: js_mark_defs)

lemma js_recs_step_transition:
  assumes "\<not> is_enqueue op"
  obtains a to ph rs where
    "js_recs (js_step op s) = fst (spec_transition (op_key op) a to ph rs (js_recs s))"
  using assms js_step_transition[OF assms, of s] js_recs_transition by (metis fst_conv prod.collapse)

lemma js_recs_step_enqueue:
  "js_recs (js_step (OpEnqueue k) s) = fst (spec_enqueue k (js_recs s))"
  using js_recs_Enqueue by (metis fst_conv js_step.simps(1) prod.collapse)

text \<open>An operation under another key never changes what a key's owner sees.\<close>

lemma visible_other_key:
  assumes wf: "js_wf s" and "op_key op \<noteq> k"
  shows "visible (js_recs (js_step op s)) k = visible (js_recs s) k"
proof (cases "slot_of (op_key op) = slot_of k")
  case False
  have "js_recs (js_step op s) (slot_of k) = js_recs s (slot_of k)"
  proof (cases "is_enqueue op")
    case True
    then obtain k' where "op = OpEnqueue k'" by (cases op) auto
    then show ?thesis using False js_recs_step_enqueue[of k' s] by (auto simp: spec_enqueue_def)
  next
    case nt: False
    obtain a to ph rs where
      "js_recs (js_step op s) = fst (spec_transition (op_key op) a to ph rs (js_recs s))"
      using js_recs_step_transition[OF nt] .
    then show ?thesis using False by (auto simp: spec_transition_def split: option.split)
  qed
  then show ?thesis by (simp add: visible_def)
next
  case True
  then have u: "k_user (op_key op) \<noteq> k_user k" using assms(2) jkey_eqI by metis
  show ?thesis
  proof (cases "is_enqueue op")
    case e: True
    then obtain k' where op: "op = OpEnqueue k'" by (cases op) auto
    then show ?thesis using True u js_recs_step_enqueue[of k' s]
      by (auto simp: spec_enqueue_def visible_def Enqueue_def Let_def split: option.splits if_splits)
  next
    case nt: False
    obtain a to ph rs where
      "js_recs (js_step op s) = fst (spec_transition (op_key op) a to ph rs (js_recs s))"
      using js_recs_step_transition[OF nt] .
    then show ?thesis using True u by (auto simp: spec_transition_def visible_def split: option.splits)
  qed
qed

text \<open>A report under the key itself keeps the attempt number.\<close>

lemma visible_transition_attempt:
  assumes "\<not> is_enqueue op"
  shows "map_option r_attempt (visible (js_recs (js_step op s)) k) =
         map_option r_attempt (visible (js_recs s) k)"
proof -
  obtain a to ph rs where
    "js_recs (js_step op s) = fst (spec_transition (op_key op) a to ph rs (js_recs s))"
    using js_recs_step_transition[OF assms] .
  then show ?thesis by (auto simp: spec_transition_def visible_def split: option.splits)
qed

definition cur_attempt :: "jkey \<Rightarrow> jstore \<Rightarrow> int" where
  "cur_attempt k s = (case visible (js_recs s) k of None \<Rightarrow> 0 | Some r \<Rightarrow> r_attempt r)"

lemma cur_attempt_map: "cur_attempt k s = (case map_option r_attempt (visible (js_recs s) k) of None \<Rightarrow> 0 | Some a \<Rightarrow> a)"
  by (simp add: cur_attempt_def split: option.split)

lemma cur_attempt_step:
  assumes wf: "js_wf s"
  shows "(case op of OpEnqueue k' \<Rightarrow>
            if k' = k then (case snd (js_Enqueue k s) of
                              Inr r \<Rightarrow> if enq_started r then [enq_attempt r] else [] | Inl _ \<Rightarrow> [])
            else [] | _ \<Rightarrow> [])
         = [cur_attempt k s + 1 .. cur_attempt k (js_step op s)]
         \<and> cur_attempt k s \<le> cur_attempt k (js_step op s)"
proof (cases "op_key op = k \<and> is_enqueue op")
  case True
  then have op: "op = OpEnqueue k" by (cases op) auto
  have "(js_recs (js_step op s), snd (js_Enqueue k s)) = spec_enqueue k (js_recs s)"
    using js_recs_Enqueue[of k s] op by (metis js_step.simps(1) prod.collapse)
  then show ?thesis using op
    by (auto simp: spec_enqueue_def cur_attempt_def visible_def Enqueue_def Let_def
        split: option.splits if_splits)
next
  case False
  then have "cur_attempt k (js_step op s) = cur_attempt k s"
    using visible_other_key[OF wf, where op = op and k = k] visible_transition_attempt[where op = op and s = s and k = k]
    by (cases "is_enqueue op") (auto simp: cur_attempt_map)
  then show ?thesis using False by (cases op) auto
qed

lemma upto_append_lemma: "(a :: int) \<le> b \<Longrightarrow> b \<le> c \<Longrightarrow> [a + 1 .. b] @ [b + 1 .. c] = [a + 1 .. c]"
  using upto_split1[of "a + 1" "b + 1" c] upto_split2[of "a+1" b c] by (cases "a = b") auto

lemma started_attempts_run:
  "js_wf s \<Longrightarrow>
     started_attempts k ops s = [cur_attempt k s + 1 .. cur_attempt k (js_run ops s)]
     \<and> cur_attempt k s \<le> cur_attempt k (js_run ops s)"
proof (induction ops arbitrary: s)
  case Nil
  then show ?case by (simp add: js_run_def)
next
  case (Cons op ops)
  let ?s = "js_step op s"
  have wf: "js_wf ?s" using Cons.prems js_wf_step by blast
  have run: "js_run (op # ops) s = js_run ops ?s" by (simp add: js_run_def)
  from cur_attempt_step[OF Cons.prems, where op = op and k = k] Cons.IH[OF wf]
  show ?case unfolding run started_attempts.simps by (auto simp: upto_append_lemma)
qed

subsection \<open>The store against the rules\<close>

text \<open>One operation on the abstract store of one record per document and job type.\<close>

fun spec_step :: "jstore_op \<Rightarrow> (slot \<Rightarrow> jrecord option) \<Rightarrow> (slot \<Rightarrow> jrecord option)" where
  "spec_step (OpEnqueue k) m = fst (spec_enqueue k m)"
| "spec_step (OpProcessing k a) m = fst (spec_transition k a StProcessing '''' '''' m)"
| "spec_step (OpPhase k a ph) m = fst (spec_transition k a StProcessing ph '''' m)"
| "spec_step (OpSucceeded k a) m = fst (spec_transition k a StSucceeded '''' '''' m)"
| "spec_step (OpFailed k a rs) m = fst (spec_transition k a StFailed '''' rs m)"

lemma js_recs_step: "js_recs (js_step op s) = spec_step op (js_recs s)"
  using js_recs_Enqueue js_recs_transition
  by (cases op; simp add: js_mark_defs; metis fst_conv prod.collapse)

lemma js_Get_visible:
  "js_Get s k = (case visible (js_recs s) k of None \<Rightarrow> Inl ErrJobNotFound | Some r \<Rightarrow> Inr r)"
  by (simp add: js_Get_def visible_def js_recs_def split: option.splits)

lemma js_Get_Inr: "js_Get s k = Inr c \<longleftrightarrow> visible (js_recs s) k = Some c"
  by (simp add: js_Get_visible split: option.split)

lemma js_wf_reach: "js_wf (js_run ops js_new)"
  by (rule js_wf_run[OF js_wf_new])

lemma js_run_append [simp]: "js_run (xs @ ys) s = js_run ys (js_run xs s)"
  by (simp add: js_run_def)

lemma visible_run_other:
  "js_wf s \<Longrightarrow> (\<And>op. op \<in> set ops \<Longrightarrow> op_key op \<noteq> k) \<Longrightarrow>
     visible (js_recs (js_run ops s)) k = visible (js_recs s) k"
  by (induction ops arbitrary: s) (auto simp: js_run_def js_wf_step visible_other_key)

lemma visible_finished_step:
  assumes wf: "js_wf s" and "visible (js_recs s) k = Some c" "\<not> Active (r_status c)" "op \<noteq> OpEnqueue k"
  shows "visible (js_recs (js_step op s)) k = Some c"
proof (cases "op_key op = k")
  case True
  then have "\<not> is_enqueue op" using assms(4) by (cases op) auto
  then obtain a to ph rs where
    "js_recs (js_step op s) = fst (spec_transition k a to ph rs (js_recs s))"
    using js_recs_step_transition True by metis
  then show ?thesis using assms(2) Transition_finished[OF assms(3), of a to ph rs]
    by (auto simp: spec_transition_def visible_def split: option.splits if_splits)
qed (use assms visible_other_key in auto)

lemma visible_finished_run:
  "js_wf s \<Longrightarrow> visible (js_recs s) k = Some c \<Longrightarrow> \<not> Active (r_status c) \<Longrightarrow> OpEnqueue k \<notin> set ops \<Longrightarrow>
     visible (js_recs (js_run ops s)) k = Some c"
  by (induction ops arbitrary: s) (auto simp: js_run_def js_wf_step visible_finished_step)

lemma js_transition_stale:
  assumes "js_Get s k = Inr c" "a \<noteq> r_attempt c"
  shows "fst (js_transition k a to ph rs s) = s" "Superseded (snd (js_transition k a to ph rs s))"
  using assms Transition_stale[OF assms(2), of to ph rs]
  by (auto simp: js_transition_def js_Get_def split: option.splits if_splits prod.splits)

subsection \<open>The listing of active jobs\<close>

lemma wanted_get:
  "gm_get_or False (foldl (\<lambda>m d. gm_put d True m) m0 ds) d \<longleftrightarrow> gm_get_or False m0 d \<or> d \<in> set ds"
  by (induction ds arbitrary: m0) auto

lemma grouped_get:
  "gm_get_or [] (foldl (\<lambda>out r. gm_put (f r) (gm_get_or [] out (f r) @ [g r]) out) m0 rs) d
     = gm_get_or [] m0 d @ map g (filter (\<lambda>r. f r = d) rs)"
  by (induction rs arbitrary: m0) auto

lemma js_matches_mem:
  assumes "js_wf s"
  shows "r \<in> set (js_matches s u ds) \<longleftrightarrow>
    (\<exists>sl. gm_get (js_rows s) sl = Some r) \<and> k_user (r_key (row_rec r)) = u \<and>
    k_doc (r_key (row_rec r)) \<in> set ds \<and> Active (r_status (row_rec r))"
  using gm_val_get[OF js_wf_distinct[OF assms], of r]
  by (auto simp: js_matches_def Let_def wanted_get)

lemma js_rows_inj:
  assumes wf: "js_wf s" and "gm_get (js_rows s) sl = Some r" "gm_get (js_rows s) sl' = Some r'"
    and "slot_of (r_key (row_rec r)) = slot_of (r_key (row_rec r'))"
  shows "r = r'"
  using assms js_wfD(1)[OF wf] by fastforce

lemma js_wf_distinct_rows:
  assumes wf: "js_wf s"
  shows "distinct (gm_vals (js_rows s))"
proof -
  have "inj_on snd (set (js_rows s))"
  proof (rule inj_onI)
    fix p q assume p: "p \<in> set (js_rows s)" and q: "q \<in> set (js_rows s)" and eq: "snd p = snd q"
    have "gm_get (js_rows s) (fst p) = Some (snd p)" "gm_get (js_rows s) (fst q) = Some (snd q)"
      using p q gm_mem_iff[OF js_wf_distinct[OF wf]] by (metis prod.collapse)+
    then have "fst p = fst q" using eq js_wfD(1)[OF wf] by metis
    then show "p = q" using eq by (simp add: prod_eq_iff)
  qed
  then show ?thesis using js_wf_distinct[OF wf] by (simp add: distinct_map)
qed

lemma js_matches_distinct: "js_wf s \<Longrightarrow> distinct (js_matches s u ds)"
  by (simp add: js_matches_def Let_def js_wf_distinct_rows)

lemma js_matches_sorted: "sorted_wrt (\<lambda>a b. row_seq a \<le> row_seq b) (js_matches s u ds)"
  using sort_slice_sorted[OF weak_order_key[of row_seq]]
  by (simp add: js_matches_def Let_def not_less)

lemma active_jobs_get:
  "gm_get_or [] (js_ActiveJobsForDocuments s u ds) d =
     map (job_status_of \<circ> row_rec) (filter (\<lambda>r. k_doc (r_key (row_rec r)) = d) (js_matches s u ds))"
  using grouped_get[where f = "\<lambda>r. k_doc (r_key (row_rec r))" and g = "\<lambda>r. job_status_of (row_rec r)"
      and ?m0.0 = "[]" and rs = "js_matches s u ds" and d = d]
  by (simp add: js_ActiveJobsForDocuments_def comp_def)

lemma active_jobs_types_distinct:
  assumes wf: "js_wf s"
  shows "distinct (map jst_type (gm_get_or [] (js_ActiveJobsForDocuments s u ds) d))"
proof -
  let ?rs = "filter (\<lambda>r. k_doc (r_key (row_rec r)) = d) (js_matches s u ds)"
  have "inj_on (\<lambda>r. k_type (r_key (row_rec r))) (set ?rs)"
  proof (rule inj_onI)
    fix r r' assume "r \<in> set ?rs" "r' \<in> set ?rs" and t: "k_type (r_key (row_rec r)) = k_type (r_key (row_rec r'))"
    then have "slot_of (r_key (row_rec r)) = slot_of (r_key (row_rec r'))"
      "\<exists>sl. gm_get (js_rows s) sl = Some r" "\<exists>sl. gm_get (js_rows s) sl = Some r'"
      using js_matches_mem[OF wf] by (auto simp: slot_of_def)
    then show "r = r'" using js_rows_inj[OF wf] by blast
  qed
  then show ?thesis
    by (simp add: active_jobs_get distinct_map js_matches_distinct[OF wf] comp_def job_status_of_def)
qed

lemma active_jobs_set:
  assumes wf: "js_wf s"
  shows "set (gm_get_or [] (js_ActiveJobsForDocuments s u ds) d) =
    {job_status_of c | c t. d \<in> set ds \<and> js_Get s \<lparr>k_user = u, k_doc = d, k_type = t\<rparr> = Inr c \<and> Active (r_status c)}"
    (is "?L = ?R")
proof -
  have "x \<in> ?L \<longleftrightarrow> x \<in> ?R" for x
  proof
    assume "x \<in> ?L"
    then obtain r sl where r: "x = job_status_of (row_rec r)" "gm_get (js_rows s) sl = Some r"
      "k_user (r_key (row_rec r)) = u" "d \<in> set ds" "k_doc (r_key (row_rec r)) = d" "Active (r_status (row_rec r))"
      using js_matches_mem[OF wf] by (auto simp: active_jobs_get)
    moreover have "sl = (d, k_type (r_key (row_rec r)))" using js_wfD(1)[OF wf r(2)] r(5) by (simp add: slot_of_def)
    ultimately have "js_Get s \<lparr>k_user = u, k_doc = d, k_type = k_type (r_key (row_rec r))\<rparr> = Inr (row_rec r)"
      by (simp add: js_Get_def slot_of_def)
    then show "x \<in> ?R" using r by blast
  next
    assume "x \<in> ?R"
    then obtain c t where c: "x = job_status_of c" "d \<in> set ds"
      "js_Get s \<lparr>k_user = u, k_doc = d, k_type = t\<rparr> = Inr c" "Active (r_status c)" by blast
    then obtain r where r: "gm_get (js_rows s) (d, t) = Some r" "row_rec r = c" "k_user (r_key c) = u"
      by (auto simp: js_Get_def slot_of_def split: option.splits if_splits)
    then have "k_doc (r_key (row_rec r)) = d" using js_wfD(1)[OF wf r(1)] by (simp add: slot_of_def)
    then show "x \<in> ?L" using c r js_matches_mem[OF wf, of r u ds] by (auto simp: active_jobs_get)
  qed
  then show ?thesis by blast
qed

subsection \<open>Properties\<close>

text \<open>
  C1. Whatever sequence of enqueues and worker reports reaches the store, the attempts a caller is
  told to start for one job are numbered 1, 2, 3, ... with no number given twice and none
  skipped, up to the record's current attempt: no attempt is dispatched by two callers.
\<close>

theorem attempts_started_once:
  "started_attempts k ops js_new = [1 .. cur_attempt k (js_run ops js_new)]"
  using started_attempts_run[OF js_wf_new, of k ops] by (simp add: cur_attempt_def visible_def js_recs_def js_new_def)

text \<open>
  C2. A late report (one naming an attempt that is not the job's current one) leaves the store
  exactly as it was, whichever of the four reports it is, and is answered with an error the
  caller's Superseded check recognises.
\<close>

theorem late_report_harmless:
  assumes "js_Get (js_run ops js_new) k = Inr c" and "a \<noteq> r_attempt c"
    and "p \<in> {js_MarkProcessing k a, js_SetPhase k a ph, js_MarkSucceeded k a, js_MarkFailed k a rs}"
  shows "fst (p (js_run ops js_new)) = js_run ops js_new \<and> Superseded (snd (p (js_run ops js_new)))"
  using assms(3) js_transition_stale[OF assms(1,2)] by (auto simp: js_mark_defs)

theorem late_report_harmless_witness:
  "let k = \<lparr>k_user = 1, k_doc = 2, k_type = DocumentIndexing\<rparr>;
       s = js_run [OpEnqueue k, OpFailed k 1 ''boom'', OpEnqueue k] js_new
   in fst (js_MarkSucceeded k 1 s) = s \<and> Superseded (snd (js_MarkSucceeded k 1 s))"
proof -
  let ?k = "\<lparr>k_user = 1, k_doc = 2, k_type = DocumentIndexing\<rparr>"
  have "js_Get (js_run [OpEnqueue ?k, OpFailed ?k 1 ''boom'', OpEnqueue ?k] js_new) ?k =
     Inr \<lparr>r_key = ?k, r_status = StPending, r_phase = '''', r_attempt = 2, r_last_error = ''''\<rparr>"
    by code_simp
  from late_report_harmless[OF this, of 1 "js_MarkSucceeded ?k 1" "''''" "''''"]
  show ?thesis by (simp add: Let_def)
qed

text \<open>
  C3. A finished job keeps its record, outcome and reason, through any later operations of any
  caller on any job, until the job itself is enqueued again.
\<close>

theorem outcome_stays:
  assumes "js_Get (js_run ops js_new) k = Inr c" and "\<not> Active (r_status c)"
    and "OpEnqueue k \<notin> set later"
  shows "js_Get (js_run (ops @ later) js_new) k = Inr c"
  using visible_finished_run[OF js_wf_reach, of ops k c later] assms by (simp add: js_Get_Inr)

theorem outcome_stays_witness:
  "let k = \<lparr>k_user = 1, k_doc = 2, k_type = MalwareScan\<rparr>;
       other = \<lparr>k_user = 1, k_doc = 2, k_type = DocumentIndexing\<rparr>
   in js_Get (js_run ([OpEnqueue k, OpFailed k 1 ''EICAR''] @ [OpSucceeded k 1, OpEnqueue other]) js_new) k
      = Inr \<lparr>r_key = k, r_status = StFailed, r_phase = '''', r_attempt = 1, r_last_error = ''EICAR''\<rparr>"
proof -
  let ?k = "\<lparr>k_user = 1, k_doc = 2, k_type = MalwareScan\<rparr>"
  let ?o = "\<lparr>k_user = 1, k_doc = 2, k_type = DocumentIndexing\<rparr>"
  let ?r = "\<lparr>r_key = ?k, r_status = StFailed, r_phase = '''', r_attempt = 1, r_last_error = ''EICAR''\<rparr>"
  have "js_Get (js_run [OpEnqueue ?k, OpFailed ?k 1 ''EICAR''] js_new) ?k = Inr ?r" by code_simp
  from outcome_stays[OF this, of "[OpSucceeded ?k 1, OpEnqueue ?o]"]
  show ?thesis by (simp add: Let_def)
qed

text \<open>
  C4. Tenants are isolated: operations under other keys, another user's keys for the same document
  and job included, never change what the owner of a record reads.
\<close>

theorem status_isolated:
  assumes "\<forall>op \<in> set later. op_key op \<noteq> k"
  shows "js_Get (js_run (ops @ later) js_new) k = js_Get (js_run ops js_new) k"
  using visible_run_other[OF js_wf_reach, of later k ops] assms by (simp add: js_Get_visible)

theorem status_isolated_witness:
  "let k = \<lparr>k_user = 1, k_doc = 2, k_type = DocumentIndexing\<rparr>;
       k' = \<lparr>k_user = 9, k_doc = 2, k_type = DocumentIndexing\<rparr>
   in js_Get (js_run ([OpEnqueue k] @ [OpEnqueue k', OpFailed k' 1 ''x'']) js_new) k
      = js_Get (js_run [OpEnqueue k] js_new) k"
  using status_isolated[where ops = "[OpEnqueue \<lparr>k_user = 1, k_doc = 2, k_type = DocumentIndexing\<rparr>]" and
      k = "\<lparr>k_user = 1, k_doc = 2, k_type = DocumentIndexing\<rparr>" and
      later = "[OpEnqueue \<lparr>k_user = 9, k_doc = 2, k_type = DocumentIndexing\<rparr>,
        OpFailed \<lparr>k_user = 9, k_doc = 2, k_type = DocumentIndexing\<rparr> 1 ''x'']"]
  by (simp add: Let_def)

text \<open>
  C5. The listing the upload checklist polls is exact: for a document asked about it holds one entry
  per job type whose record is visible to the user and still pending or processing, and nothing
  else; for a document not asked about it holds nothing.
\<close>

theorem active_jobs_exact:
  "set (gm_get_or [] (js_ActiveJobsForDocuments (js_run ops js_new) u ds) d) =
     {job_status_of c | c t. d \<in> set ds \<and>
        js_Get (js_run ops js_new) \<lparr>k_user = u, k_doc = d, k_type = t\<rparr> = Inr c \<and> Active (r_status c)}
   \<and> distinct (map jst_type (gm_get_or [] (js_ActiveJobsForDocuments (js_run ops js_new) u ds) d))"
  using active_jobs_set[OF js_wf_reach] active_jobs_types_distinct[OF js_wf_reach] by blast

text \<open>
  C6. The in-memory store implements the pure state rules: after any run its records are those the
  rules give on an abstract map with one record per document and job type.
\<close>

theorem store_refines_rules:
  "js_recs (js_run ops js_new) = fold spec_step ops (\<lambda>sl. None)"
proof -
  have "js_recs (js_run ops s) = fold spec_step ops (js_recs s)" for s
    by (induction ops arbitrary: s) (simp_all add: js_run_def js_recs_step)
  from this[of js_new] show ?thesis by (simp add: js_recs_def[abs_def] js_new_def)
qed

end
