(* ===== verification/Repositories.thy ===== *)
theory Repositories
  imports GoErrors Complex_Main
begin

text \<open>
  The data the program keeps per tenant and its in-memory repositories: documents, knowledge
  bases, chunks, entity mentions, co-occurrence edges, manifest regions, usage statistics and
  sessions (\<^verbatim>\<open>internal/document, kb, chunk, entity, graphedge, manifest, stats,
  session\<close> and their \<^verbatim>\<open>memory\<close> packages), plus the mock object store.

  A repository keyed by identifier is a Go map from the identifier to the row; the chunk repository
  is a slice in insertion order. Where the code calls \<^verbatim>\<open>uuid.New()\<close> the operation takes
  the new identifiers as an argument. Floating-point numbers are rationals: the arithmetic is
  exact where Go rounds.
\<close>

type_synonym float = rat

subsection \<open>Rows\<close>

datatype doc_status = DocPending | DocProcessing | DocIndexed | DocFailed

record document =
  d_id :: uuid
  d_kb :: uuid
  d_user :: uuid
  d_filename :: string
  d_s3key :: string
  d_content_type :: string
  d_size :: int
  d_status :: doc_status
  d_created :: timestamp
  d_updated :: timestamp

record kbase =
  kb_id :: uuid
  kb_user :: uuid
  kb_name :: string
  kb_created :: timestamp
  kb_updated :: timestamp

record bounding_box =
  bb_x0 :: float
  bb_y0 :: float
  bb_x1 :: float
  bb_y1 :: float

record chunk =
  c_id :: uuid
  c_doc :: uuid
  c_kb :: uuid
  c_user :: uuid
  c_ordinal :: nat
  c_text :: string
  c_tokens :: nat
  c_embedding :: "float list"
  c_start :: nat
  c_end :: nat
  c_region :: "uuid option"
  c_page :: "int option"
  c_box :: "bounding_box option"

record entity =
  e_id :: uuid
  e_doc :: uuid
  e_kb :: uuid
  e_user :: uuid
  e_chunk :: uuid
  e_type :: string
  e_text :: string
  e_start :: int
  e_end :: int
  e_score :: float
  e_canonical :: "uuid option"

record edge =
  g_id :: uuid
  g_doc :: uuid
  g_kb :: uuid
  g_user :: uuid
  g_chunk :: uuid
  g_a :: uuid
  g_b :: uuid
  g_count :: int
  g_relation :: "string option"
  g_created :: timestamp

datatype region_type = NativeText | NativeTable | Figure | ScannedText | ScannedTable

datatype region_status = RegionIndexed | RegionSkipped | RegionFailed

record region =
  rg_id :: uuid
  rg_doc :: uuid
  rg_kb :: uuid
  rg_user :: uuid
  rg_type :: region_type
  rg_page :: int
  rg_box :: bounding_box
  rg_status :: region_status
  rg_version :: string
  rg_created :: timestamp

definition FullPage :: bounding_box where
  "FullPage = \<lparr>bb_x0 = 0, bb_y0 = 0, bb_x1 = 1, bb_y1 = 1\<rparr>"

text \<open>\<^verbatim>\<open>graphedge.NewEdge\<close>: the pair is stored in identifier order.\<close>

definition NewEdge :: "uuid \<Rightarrow> uuid \<Rightarrow> uuid \<Rightarrow> uuid \<Rightarrow> uuid \<Rightarrow> uuid \<Rightarrow> edge" where
  "NewEdge documentID kbID userID chunkID e1 e2 =
     (let (a, b) = (if e1 > e2 then (e2, e1) else (e1, e2))
      in \<lparr>g_id = uuid_nil, g_doc = documentID, g_kb = kbID, g_user = userID, g_chunk = chunkID,
          g_a = a, g_b = b, g_count = 1, g_relation = None, g_created = 0\<rparr>)"

lemma NewEdge_sym: "NewEdge d k u c e1 e2 = NewEdge d k u c e2 e1"
  by (auto simp: NewEdge_def)

lemma NewEdge_sel [simp]:
  "g_doc (NewEdge d k u c e1 e2) = d" "g_user (NewEdge d k u c e1 e2) = u"
  "g_kb (NewEdge d k u c e1 e2) = k" "g_chunk (NewEdge d k u c e1 e2) = c"
  "g_a (NewEdge d k u c e1 e2) = min e1 e2" "g_b (NewEdge d k u c e1 e2) = max e1 e2"
  by (auto simp: NewEdge_def)

subsection \<open>Documents\<close>

type_synonym doc_repo = "(uuid, document) gomap"

definition doc_Create :: "uuid \<Rightarrow> timestamp \<Rightarrow> document \<Rightarrow> doc_repo \<Rightarrow> doc_repo \<times> document" where
  "doc_Create newID now d r =
     (let cp = d\<lparr>d_id := newID, d_created := now, d_updated := now\<rparr> in (gm_put newID cp r, cp))"

definition doc_Get :: "uuid \<Rightarrow> uuid \<Rightarrow> doc_repo \<Rightarrow> gerror + document" where
  "doc_Get userID i r =
     (case gm_get r i of
        None \<Rightarrow> Inl ErrDocNotFound
      | Some d \<Rightarrow> if d_user d \<noteq> userID then Inl ErrDocNotFound else Inr d)"

definition doc_GetByS3Key :: "uuid \<Rightarrow> string \<Rightarrow> doc_repo \<Rightarrow> gerror + document" where
  "doc_GetByS3Key userID key r =
     (case List.find (\<lambda>d. d_s3key d = key \<and> d_user d = userID) (gm_vals r) of
        None \<Rightarrow> Inl ErrDocNotFound
      | Some d \<Rightarrow> Inr d)"

definition doc_ListByKB :: "uuid \<Rightarrow> uuid \<Rightarrow> doc_repo \<Rightarrow> document list" where
  "doc_ListByKB userID kbID r = filter (\<lambda>d. d_user d = userID \<and> d_kb d = kbID) (gm_vals r)"

definition doc_ListByUserID :: "uuid \<Rightarrow> doc_repo \<Rightarrow> document list" where
  "doc_ListByUserID userID r = filter (\<lambda>d. d_user d = userID) (gm_vals r)"

definition doc_UpdateStatus ::
  "timestamp \<Rightarrow> uuid \<Rightarrow> uuid \<Rightarrow> doc_status \<Rightarrow> doc_repo \<Rightarrow> doc_repo \<times> gerror option" where
  "doc_UpdateStatus now userID i status r =
     (case gm_get r i of
        None \<Rightarrow> (r, Some ErrDocNotFound)
      | Some d \<Rightarrow>
          if d_user d \<noteq> userID then (r, Some ErrDocNotFound)
          else (gm_put i (d\<lparr>d_status := status, d_updated := now\<rparr>) r, None))"

definition doc_Delete :: "uuid \<Rightarrow> uuid \<Rightarrow> doc_repo \<Rightarrow> doc_repo \<times> gerror option" where
  "doc_Delete userID i r =
     (case gm_get r i of
        None \<Rightarrow> (r, Some ErrDocNotFound)
      | Some d \<Rightarrow> if d_user d \<noteq> userID then (r, Some ErrDocNotFound) else (gm_del i r, None))"

subsection \<open>Knowledge bases\<close>

type_synonym kb_repo = "(uuid, kbase) gomap"

definition kb_Create :: "uuid \<Rightarrow> timestamp \<Rightarrow> uuid \<Rightarrow> string \<Rightarrow> kb_repo \<Rightarrow> kb_repo \<times> kbase" where
  "kb_Create newID now userID name r =
     (let k = \<lparr>kb_id = newID, kb_user = userID, kb_name = name, kb_created = now, kb_updated = now\<rparr>
      in (gm_put newID k r, k))"

definition kb_Get :: "uuid \<Rightarrow> uuid \<Rightarrow> kb_repo \<Rightarrow> gerror + kbase" where
  "kb_Get userID i r =
     (case gm_get r i of
        None \<Rightarrow> Inl ErrKBNotFound
      | Some k \<Rightarrow> if kb_user k \<noteq> userID then Inl ErrKBNotFound else Inr k)"

definition kb_List :: "uuid \<Rightarrow> kb_repo \<Rightarrow> kbase list" where
  "kb_List userID r = filter (\<lambda>k. kb_user k = userID) (gm_vals r)"

definition kb_Rename :: "timestamp \<Rightarrow> uuid \<Rightarrow> uuid \<Rightarrow> string \<Rightarrow> kb_repo \<Rightarrow> kb_repo \<times> (gerror + kbase)" where
  "kb_Rename now userID i name r =
     (case gm_get r i of
        None \<Rightarrow> (r, Inl ErrKBNotFound)
      | Some k \<Rightarrow>
          if kb_user k \<noteq> userID then (r, Inl ErrKBNotFound)
          else (let k' = k\<lparr>kb_name := name, kb_updated := now\<rparr> in (gm_put i k' r, Inr k')))"

definition kb_Delete :: "uuid \<Rightarrow> uuid \<Rightarrow> kb_repo \<Rightarrow> kb_repo \<times> gerror option" where
  "kb_Delete userID i r =
     (case gm_get r i of
        None \<Rightarrow> (r, Some ErrKBNotFound)
      | Some k \<Rightarrow> if kb_user k \<noteq> userID then (r, Some ErrKBNotFound) else (gm_del i r, None))"

subsection \<open>Chunks\<close>

type_synonym chunk_repo = "chunk list"

definition chunk_BulkCreate :: "uuid list \<Rightarrow> chunk list \<Rightarrow> chunk_repo \<Rightarrow> chunk_repo" where
  "chunk_BulkCreate newIDs cs r = r @ map2 (\<lambda>i c. c\<lparr>c_id := i\<rparr>) newIDs cs"

definition chunk_ListByDocument :: "uuid \<Rightarrow> uuid \<Rightarrow> chunk_repo \<Rightarrow> chunk list" where
  "chunk_ListByDocument userID documentID r = filter (\<lambda>c. c_user c = userID \<and> c_doc c = documentID) r"

definition chunk_ListByKB :: "uuid \<Rightarrow> uuid \<Rightarrow> chunk_repo \<Rightarrow> chunk list" where
  "chunk_ListByKB userID kbID r = filter (\<lambda>c. c_user c = userID \<and> c_kb c = kbID) r"

fun chunk_UpdateEmbedding :: "uuid \<Rightarrow> uuid \<Rightarrow> float list \<Rightarrow> chunk_repo \<Rightarrow> chunk_repo \<times> gerror option" where
  "chunk_UpdateEmbedding userID i v [] = ([], Some (Plain ''chunk: update embedding: no such chunk for user''))"
| "chunk_UpdateEmbedding userID i v (c # cs) =
     (if c_id c = i \<and> c_user c = userID then (c\<lparr>c_embedding := v\<rparr> # cs, None)
      else (case chunk_UpdateEmbedding userID i v cs of (cs', e) \<Rightarrow> (c # cs', e)))"

definition chunk_DeleteByDocument :: "uuid \<Rightarrow> uuid \<Rightarrow> chunk_repo \<Rightarrow> chunk_repo" where
  "chunk_DeleteByDocument userID documentID r = filter (\<lambda>c. c_user c \<noteq> userID \<or> c_doc c \<noteq> documentID) r"

subsection \<open>Entity mentions\<close>

type_synonym entity_repo = "(uuid, entity) gomap"

definition entity_BulkCreate :: "uuid list \<Rightarrow> entity list \<Rightarrow> entity_repo \<Rightarrow> entity_repo" where
  "entity_BulkCreate newIDs es r =
     (if es = [] then r else foldl (\<lambda>r (i, e). gm_put i (e\<lparr>e_id := i\<rparr>) r) r (zip newIDs es))"

definition entity_ListByDocument :: "uuid \<Rightarrow> uuid \<Rightarrow> entity_repo \<Rightarrow> entity list" where
  "entity_ListByDocument userID documentID r =
     sort_slice (\<lambda>a b. if e_chunk a \<noteq> e_chunk b then e_chunk a < e_chunk b else e_start a < e_start b)
       (filter (\<lambda>e. e_user e = userID \<and> e_doc e = documentID) (gm_vals r))"

definition entity_ChunkIDsWithEntities :: "uuid \<Rightarrow> uuid \<Rightarrow> entity_repo \<Rightarrow> (uuid, bool) gomap" where
  "entity_ChunkIDsWithEntities userID documentID r =
     foldl (\<lambda>out e. gm_put (e_chunk e) True out) []
       (filter (\<lambda>e. e_user e = userID \<and> e_doc e = documentID) (gm_vals r))"

definition entity_DeleteByDocument :: "uuid \<Rightarrow> uuid \<Rightarrow> entity_repo \<Rightarrow> entity_repo" where
  "entity_DeleteByDocument userID documentID r =
     filter (\<lambda>(i, e). \<not> (e_user e = userID \<and> e_doc e = documentID)) r"

definition entity_BulkSetCanonicalEntityID :: "uuid \<Rightarrow> (uuid, uuid) gomap \<Rightarrow> entity_repo \<Rightarrow> entity_repo" where
  "entity_BulkSetCanonicalEntityID userID mentionToCanonical r =
     foldl (\<lambda>r (mentionID, canonicalID).
              case gm_get r mentionID of
                None \<Rightarrow> r
              | Some e \<Rightarrow> if e_user e \<noteq> userID then r
                          else gm_put mentionID (e\<lparr>e_canonical := Some canonicalID\<rparr>) r)
       r mentionToCanonical"

subsection \<open>Co-occurrence edges\<close>

type_synonym edge_repo = "(uuid, edge) gomap"

definition edge_BulkCreate :: "uuid list \<Rightarrow> edge list \<Rightarrow> edge_repo \<Rightarrow> edge_repo" where
  "edge_BulkCreate newIDs es r =
     (if es = [] then r else foldl (\<lambda>r (i, e). gm_put i (e\<lparr>g_id := i\<rparr>) r) r (zip newIDs es))"

definition edge_ListByEntity :: "uuid \<Rightarrow> uuid \<Rightarrow> edge_repo \<Rightarrow> edge list" where
  "edge_ListByEntity userID entityID r =
     sort_slice (\<lambda>a b. g_chunk a < g_chunk b)
       (filter (\<lambda>e. g_user e = userID \<and> (g_a e = entityID \<or> g_b e = entityID)) (gm_vals r))"

definition edge_DeleteByDocument :: "uuid \<Rightarrow> uuid \<Rightarrow> edge_repo \<Rightarrow> edge_repo" where
  "edge_DeleteByDocument userID documentID r =
     filter (\<lambda>(i, e). \<not> (g_user e = userID \<and> g_doc e = documentID)) r"

subsection \<open>Manifest regions\<close>

type_synonym region_repo = "(uuid, region) gomap"

definition region_BulkCreate :: "uuid list \<Rightarrow> region list \<Rightarrow> region_repo \<Rightarrow> region_repo" where
  "region_BulkCreate newIDs rs r =
     (if rs = [] then r else foldl (\<lambda>r (i, g). gm_put i (g\<lparr>rg_id := i\<rparr>) r) r (zip newIDs rs))"

definition region_ListByDocument :: "uuid \<Rightarrow> uuid \<Rightarrow> region_repo \<Rightarrow> region list" where
  "region_ListByDocument userID documentID r =
     sort_slice (\<lambda>a b. if rg_page a \<noteq> rg_page b then rg_page a < rg_page b
                       else bb_y0 (rg_box a) < bb_y0 (rg_box b))
       (filter (\<lambda>g. rg_user g = userID \<and> rg_doc g = documentID) (gm_vals r))"

definition region_DeleteByDocument :: "uuid \<Rightarrow> uuid \<Rightarrow> region_repo \<Rightarrow> region_repo" where
  "region_DeleteByDocument userID documentID r =
     filter (\<lambda>(i, g). \<not> (rg_user g = userID \<and> rg_doc g = documentID)) r"

subsection \<open>Usage statistics\<close>

record snapshot =
  sn_documents_indexed :: int
  sn_avg_doc_bytes :: float
  sn_queries_executed :: int
  sn_avg_query_ms :: float
  sn_sessions_created :: int
  sn_sessions_swept :: int

record stats_repo =
  st_snap :: snapshot
  st_doc_bytes_total :: int
  st_query_ms_total :: int

definition stats_new :: stats_repo where
  "stats_new = \<lparr>st_snap = \<lparr>sn_documents_indexed = 0, sn_avg_doc_bytes = 0, sn_queries_executed = 0,
     sn_avg_query_ms = 0, sn_sessions_created = 0, sn_sessions_swept = 0\<rparr>,
     st_doc_bytes_total = 0, st_query_ms_total = 0\<rparr>"

definition stats_RecordDocumentIndexed :: "int \<Rightarrow> stats_repo \<Rightarrow> stats_repo" where
  "stats_RecordDocumentIndexed sizeBytes r =
     (let n = sn_documents_indexed (st_snap r) + 1; total = st_doc_bytes_total r + sizeBytes
      in r\<lparr>st_doc_bytes_total := total,
           st_snap := (st_snap r)\<lparr>sn_documents_indexed := n, sn_avg_doc_bytes := of_int total / of_int n\<rparr>\<rparr>)"

definition stats_RecordQueryExecuted :: "int \<Rightarrow> stats_repo \<Rightarrow> stats_repo" where
  "stats_RecordQueryExecuted durationMs r =
     (let n = sn_queries_executed (st_snap r) + 1; total = st_query_ms_total r + durationMs
      in r\<lparr>st_query_ms_total := total,
           st_snap := (st_snap r)\<lparr>sn_queries_executed := n, sn_avg_query_ms := of_int total / of_int n\<rparr>\<rparr>)"

definition stats_RecordSessionCreated :: "stats_repo \<Rightarrow> stats_repo" where
  "stats_RecordSessionCreated r =
     r\<lparr>st_snap := (st_snap r)\<lparr>sn_sessions_created := sn_sessions_created (st_snap r) + 1\<rparr>\<rparr>"

definition stats_RecordSessionsSwept :: "int \<Rightarrow> stats_repo \<Rightarrow> stats_repo" where
  "stats_RecordSessionsSwept n r =
     r\<lparr>st_snap := (st_snap r)\<lparr>sn_sessions_swept := sn_sessions_swept (st_snap r) + n\<rparr>\<rparr>"

subsection \<open>Sessions\<close>

record session =
  s_id :: uuid
  s_created :: timestamp
  s_last_active :: timestamp
  s_warned :: "timestamp option"

definition hour :: timestamp where
  "hour = 3600 * 1000000000"

definition IdleTimeout :: timestamp where
  "IdleTimeout = 6 * hour"

definition HardCap :: timestamp where
  "HardCap = 24 * hour"

definition Expired :: "session \<Rightarrow> timestamp \<Rightarrow> bool" where
  "Expired s now \<longleftrightarrow> now - s_created s \<ge> HardCap \<or> now - s_last_active s \<ge> IdleTimeout"

record session_store =
  ss_sessions :: "(uuid, session) gomap"
  ss_touched :: "uuid list"
  ss_create_err :: "gerror option"

definition ss_Create :: "uuid \<Rightarrow> timestamp \<Rightarrow> timestamp \<Rightarrow> (session_store, session) call" where
  "ss_Create newID now1 now2 s =
     (case ss_create_err s of
        Some e \<Rightarrow> (s, Inl e)
      | None \<Rightarrow>
          (let sess = \<lparr>s_id = newID, s_created = now1, s_last_active = now2, s_warned = None\<rparr>
           in (s\<lparr>ss_sessions := gm_put newID sess (ss_sessions s)\<rparr>, Inr sess)))"

definition ss_Touch :: "uuid \<Rightarrow> timestamp \<Rightarrow> session_store proc" where
  "ss_Touch i now s =
     (let s = s\<lparr>ss_touched := ss_touched s @ [i]\<rparr>
      in (case gm_get (ss_sessions s) i of
            None \<Rightarrow> (s, None)
          | Some sess \<Rightarrow> (s\<lparr>ss_sessions := gm_put i (sess\<lparr>s_last_active := now\<rparr>) (ss_sessions s)\<rparr>, None)))"

definition ss_GetByID :: "uuid \<Rightarrow> session_store \<Rightarrow> gerror + session" where
  "ss_GetByID i s =
     (case gm_get (ss_sessions s) i of None \<Rightarrow> Inl ErrSessionNotFound | Some sess \<Rightarrow> Inr sess)"

definition ss_ListForSweep :: "session_store \<Rightarrow> session list" where
  "ss_ListForSweep s = gm_vals (ss_sessions s)"

definition ss_MarkWarned :: "uuid \<Rightarrow> timestamp \<Rightarrow> session_store proc" where
  "ss_MarkWarned i now s =
     (case gm_get (ss_sessions s) i of
        None \<Rightarrow> (s, Some ErrSessionNotFound)
      | Some sess \<Rightarrow>
          if s_warned sess = None
          then (s\<lparr>ss_sessions := gm_put i (sess\<lparr>s_warned := Some now\<rparr>) (ss_sessions s)\<rparr>, None)
          else (s, None))"

definition ss_Delete :: "uuid \<Rightarrow> session_store proc" where
  "ss_Delete i s = (s\<lparr>ss_sessions := gm_del i (ss_sessions s)\<rparr>, None)"

end
