(* ===== verification/Calls.thy ===== *)
theory Calls
  imports GoErrors
begin

text \<open>
  How a handler calls its collaborators. A call takes the state and returns the new one with an
  error or a result; \<open>try_call\<close> and \<open>try_proc\<close> are the Go idiom
  \<^verbatim>\<open>if err != nil { ... }\<close> followed by the rest of the function, and \<open>ignore\<close> is a call
  whose error is only logged.
\<close>

definition try_call :: "('s, 'a) call \<Rightarrow> (gerror \<Rightarrow> 's \<Rightarrow> 'b) \<Rightarrow> ('a \<Rightarrow> 's \<Rightarrow> 'b) \<Rightarrow> 's \<Rightarrow> 'b" where
  "try_call p h k s = (case p s of (s', Inl e) \<Rightarrow> h e s' | (s', Inr v) \<Rightarrow> k v s')"

definition try_proc :: "'s proc \<Rightarrow> (gerror \<Rightarrow> 's \<Rightarrow> 'b) \<Rightarrow> ('s \<Rightarrow> 'b) \<Rightarrow> 's \<Rightarrow> 'b" where
  "try_proc p h k s = (case p s of (s', Some e) \<Rightarrow> h e s' | (s', None) \<Rightarrow> k s')"

definition ignore :: "'s proc \<Rightarrow> ('s \<Rightarrow> 'b) \<Rightarrow> 's \<Rightarrow> 'b" where
  "ignore p k s = k (fst (p s))"

lemma try_call_cases:
  assumes "P (try_call p h k s)"
  obtains (err) s' e where "p s = (s', Inl e)" "P (h e s')"
    | (ok) s' v where "p s = (s', Inr v)" "P (k v s')"
  using assms unfolding try_call_def by (auto split: prod.splits sum.splits)

lemma try_proc_cases:
  assumes "P (try_proc p h k s)"
  obtains (err) s' e where "p s = (s', Some e)" "P (h e s')"
    | (ok) s' where "p s = (s', None)" "P (k s')"
  using assms unfolding try_proc_def by (auto split: prod.splits option.splits)

lemma try_callI:
  assumes "\<And>s' e. p s = (s', Inl e) \<Longrightarrow> P (h e s')" "\<And>s' v. p s = (s', Inr v) \<Longrightarrow> P (k v s')"
  shows "P (try_call p h k s)"
  using assms unfolding try_call_def by (auto split: prod.splits sum.splits)

lemma try_procI:
  assumes "\<And>s' e. p s = (s', Some e) \<Longrightarrow> P (h e s')" "\<And>s'. p s = (s', None) \<Longrightarrow> P (k s')"
  shows "P (try_proc p h k s)"
  using assms unfolding try_proc_def by (auto split: prod.splits option.splits)

lemma ignoreI:
  assumes "\<And>s' r. p s = (s', r) \<Longrightarrow> P (k s')"
  shows "P (ignore p k s)"
  using assms unfolding ignore_def by (cases "p s") auto

lemma try_call_eval [simp]:
  "p s = (s', Inr v) \<Longrightarrow> try_call p h k s = k v s'"
  "p s = (s', Inl e) \<Longrightarrow> try_call p h k s = h e s'"
  by (simp_all add: try_call_def)

lemma try_proc_eval [simp]:
  "p s = (s', None) \<Longrightarrow> try_proc p h k s = k s'"
  "p s = (s', Some e) \<Longrightarrow> try_proc p h k s = h e s'"
  by (simp_all add: try_proc_def)

text \<open>
  An outage is an error of the infrastructure behind a store, a network or database failure: it is
  none of the sentinels with which the stores answer a question about their data.
\<close>

definition sentinels :: "gerror list" where
  "sentinels = [ErrJobNotFound, ErrAttemptSuperseded, ErrNotActive, ErrInvalidTransition,
     ErrDocNotFound, ErrKBNotFound, ErrEntityNotFound, ErrCanonicalNotFound,
     ErrInquiryNotFound, ErrSessionNotFound, ErrExecutionAlreadyExists, ErrQuotaExceeded]"

definition outage :: "gerror \<Rightarrow> bool" where
  "outage e \<longleftrightarrow> \<not> list_ex (errors_is e) sentinels"

lemma outage_Plain [simp]: "outage (Plain m)"
  by (simp add: outage_def sentinels_def)

lemma outage_not_superseded: "outage e \<Longrightarrow> \<not> Superseded (Some e)"
  by (simp add: outage_def sentinels_def Superseded_def)

lemma outage_not_found:
  "outage e \<Longrightarrow> \<not> errors_is e ErrJobNotFound" "outage e \<Longrightarrow> \<not> errors_is e ErrDocNotFound"
  by (simp_all add: outage_def sentinels_def)

text \<open>A loop over a list that stops at the first error.\<close>

fun each_proc :: "('a \<Rightarrow> 's proc) \<Rightarrow> 'a list \<Rightarrow> 's proc" where
  "each_proc f [] s = (s, None)"
| "each_proc f (x # xs) s = (case f x s of (s', Some e) \<Rightarrow> (s', Some e) | (s', None) \<Rightarrow> each_proc f xs s')"

text \<open>A loop over a list whose errors are ignored.\<close>

definition each_ignore :: "('a \<Rightarrow> 's proc) \<Rightarrow> 'a list \<Rightarrow> 's \<Rightarrow> 's" where
  "each_ignore f xs s = foldl (\<lambda>s x. fst (f x s)) s xs"

lemma each_ignore_simps [simp]:
  "each_ignore f [] s = s" "each_ignore f (x # xs) s = each_ignore f xs (fst (f x s))"
  by (simp_all add: each_ignore_def)

end
