(* ===== verification/Canonical.thy ===== *)
theory Canonical
  imports Repositories Calls
begin

text \<open>
  \<^verbatim>\<open>internal/canonical\<close>: the deduplicated identities entity mentions resolve to. The
  in-memory repository (\<^verbatim>\<open>canonical/memory\<close>) with its counts, and the two resolution passes:
  \<open>ResolveNew\<close> (exact match, \<^verbatim>\<open>canonical.go\<close>) and alias resolution
  (\<^verbatim>\<open>alias.go\<close>, \<^verbatim>\<open>aliasjudge.go\<close>). Unicode NFKC normalisation is a
  third-party package and stays a parameter.
\<close>

subsection \<open>Records\<close>

record canonical_entity =
  ce_id :: uuid
  ce_kb :: uuid
  ce_user :: uuid
  ce_text :: string
  ce_norm :: string
  ce_type :: string
  ce_mentions :: int
  ce_docs :: int
  ce_created :: timestamp
  ce_updated :: timestamp

record alias_candidate =
  ac_id :: uuid
  ac_text :: string
  ac_norm :: string
  ac_mentions :: int
  ac_created :: timestamp

fun fields_aux :: "string \<Rightarrow> string \<Rightarrow> string list" where
  "fields_aux acc [] = (if acc = [] then [] else [rev acc])"
| "fields_aux acc (c # cs) =
     (if is_space c then (if acc = [] then fields_aux [] cs else rev acc # fields_aux [] cs)
      else fields_aux (c # acc) cs)"

text \<open>\<^verbatim>\<open>strings.Fields\<close>.\<close>

definition str_fields :: "string \<Rightarrow> string list" where
  "str_fields s = fields_aux [] s"

definition Normalize :: "(string \<Rightarrow> string) \<Rightarrow> string \<Rightarrow> string" where
  "Normalize nfkc text = join_with '' '' (str_fields (nfkc (to_lower text)))"

subsection \<open>The in-memory repository\<close>

record canon_repo =
  cr_rows :: "(uuid, canonical_entity) gomap"
  cr_contrib :: "(uuid \<times> uuid, (uuid, int) gomap) gomap"

definition canon_new :: canon_repo where
  "canon_new = \<lparr>cr_rows = [], cr_contrib = []\<rparr>"

definition findLocked :: "uuid \<Rightarrow> uuid \<Rightarrow> string \<Rightarrow> string \<Rightarrow> canon_repo \<Rightarrow> canonical_entity option" where
  "findLocked kbID userID normalized t r =
     List.find (\<lambda>ce. ce_kb ce = kbID \<and> ce_user ce = userID \<and> ce_norm ce = normalized \<and> ce_type ce = t)
       (gm_vals (cr_rows r))"

record canon_loop =
  cl_repo :: canon_repo
  cl_resolved :: "(uuid, uuid) gomap"
  cl_touched :: "uuid list"
  cl_next :: uuid

text \<open>
  The loop body of \<^verbatim>\<open>Canonicalize\<close>. New identifiers are drawn from \<open>cl_next\<close> upwards and
  \<open>now i\<close> is the time the row \<open>i\<close> was made.
\<close>

definition canonicalize_one ::
  "(string \<Rightarrow> string) \<Rightarrow> (uuid \<Rightarrow> timestamp) \<Rightarrow> canon_loop \<Rightarrow> entity \<Rightarrow> canon_loop" where
  "canonicalize_one nfkc now l m =
     (let r = cl_repo l;
          normalized = Normalize nfkc (e_text m);
          (ce, nxt) =
            (case findLocked (e_kb m) (e_user m) normalized (e_type m) r of
               Some ce \<Rightarrow> (ce, cl_next l)
             | None \<Rightarrow>
                 (\<lparr>ce_id = cl_next l, ce_kb = e_kb m, ce_user = e_user m, ce_text = e_text m,
                   ce_norm = normalized, ce_type = e_type m, ce_mentions = 0, ce_docs = 0,
                   ce_created = now (cl_next l), ce_updated = 0\<rparr>, cl_next l + 1));
          key = (e_user m, e_doc m);
          contributions = gm_get_or [] (cr_contrib r) key;
          contributions' = gm_put (ce_id ce) (gm_get_or 0 contributions (ce_id ce) + 1) contributions;
          fresh = ce_id ce \<notin> set (cl_touched l);
          ce' = ce\<lparr>ce_mentions := ce_mentions ce + 1, ce_docs := (if fresh then ce_docs ce + 1 else ce_docs ce)\<rparr>
      in \<lparr>cl_repo = \<lparr>cr_rows = gm_put (ce_id ce) ce' (cr_rows r),
                     cr_contrib = gm_put key contributions' (cr_contrib r)\<rparr>,
          cl_resolved = gm_put (e_id m) (ce_id ce) (cl_resolved l),
          cl_touched = (if fresh then ce_id ce # cl_touched l else cl_touched l),
          cl_next = nxt\<rparr>)"

definition canon_Canonicalize ::
  "(string \<Rightarrow> string) \<Rightarrow> (uuid \<Rightarrow> timestamp) \<Rightarrow> uuid \<Rightarrow> entity list \<Rightarrow> canon_repo \<Rightarrow> canon_loop" where
  "canon_Canonicalize nfkc now nxt mentions r =
     foldl (canonicalize_one nfkc now) \<lparr>cl_repo = r, cl_resolved = [], cl_touched = [], cl_next = nxt\<rparr> mentions"

definition decrement_one ::
  "(uuid, canonical_entity) gomap \<Rightarrow> uuid \<times> int \<Rightarrow> (uuid, canonical_entity) gomap" where
  "decrement_one rows p =
     (case p of (canonicalID, n) \<Rightarrow>
        (case gm_get rows canonicalID of
           None \<Rightarrow> rows
         | Some ce \<Rightarrow>
             (let ce' = ce\<lparr>ce_mentions := ce_mentions ce - n, ce_docs := ce_docs ce - 1\<rparr>
              in if ce_mentions ce' \<le> 0 then gm_del canonicalID rows else gm_put canonicalID ce' rows)))"

definition canon_DecrementForDocument :: "uuid \<Rightarrow> uuid \<Rightarrow> canon_repo \<Rightarrow> canon_repo" where
  "canon_DecrementForDocument userID documentID r =
     (case gm_get (cr_contrib r) (userID, documentID) of
        None \<Rightarrow> r
      | Some contributions \<Rightarrow>
          \<lparr>cr_rows = foldl decrement_one (cr_rows r) contributions,
           cr_contrib = gm_del (userID, documentID) (cr_contrib r)\<rparr>)"

definition canon_Get :: "uuid \<Rightarrow> uuid \<Rightarrow> canon_repo \<Rightarrow> gerror + canonical_entity" where
  "canon_Get userID i r =
     (case gm_get (cr_rows r) i of
        None \<Rightarrow> Inl ErrCanonicalNotFound
      | Some ce \<Rightarrow> if ce_user ce \<noteq> userID then Inl ErrCanonicalNotFound else Inr ce)"

definition canon_ListByKB :: "uuid \<Rightarrow> uuid \<Rightarrow> canon_repo \<Rightarrow> canonical_entity list" where
  "canon_ListByKB userID kbID r = filter (\<lambda>ce. ce_user ce = userID \<and> ce_kb ce = kbID) (gm_vals (cr_rows r))"

definition tokenSet :: "string \<Rightarrow> string list" where
  "tokenSet s = str_fields s"

definition isSubset :: "string list \<Rightarrow> string list \<Rightarrow> bool" where
  "isSubset a b = list_all (\<lambda>tok. List.member b tok) a"

definition canon_FuzzyCandidates ::
  "uuid \<Rightarrow> uuid \<Rightarrow> string \<Rightarrow> string \<Rightarrow> uuid \<Rightarrow> canon_repo \<Rightarrow> alias_candidate list" where
  "canon_FuzzyCandidates userID kbID normalizedText entityType excludeID r =
     map (\<lambda>ce. \<lparr>ac_id = ce_id ce, ac_text = ce_text ce, ac_norm = ce_norm ce,
                ac_mentions = ce_mentions ce, ac_created = ce_created ce\<rparr>)
       (filter (\<lambda>ce. \<not> (ce_user ce \<noteq> userID \<or> ce_kb ce \<noteq> kbID \<or> ce_type ce \<noteq> entityType \<or> ce_id ce = excludeID)
                \<and> ce_norm ce \<noteq> normalizedText
                \<and> (isSubset (tokenSet normalizedText) (tokenSet (ce_norm ce)) \<or>
                   isSubset (tokenSet (ce_norm ce)) (tokenSet normalizedText)))
         (gm_vals (cr_rows r)))"

definition merge_contrib :: "uuid \<Rightarrow> uuid \<Rightarrow> (uuid, int) gomap \<Rightarrow> (uuid, int) gomap" where
  "merge_contrib fromID toID contributions =
     (case gm_get contributions fromID of
        None \<Rightarrow> contributions
      | Some cnt \<Rightarrow> gm_del fromID (gm_put toID (gm_get_or 0 contributions toID + cnt) contributions))"

definition canon_MergeInto :: "uuid \<Rightarrow> uuid \<Rightarrow> uuid \<Rightarrow> canon_repo \<Rightarrow> canon_repo \<times> gerror option" where
  "canon_MergeInto userID fromID toID r =
     (case (gm_get (cr_rows r) fromID, gm_get (cr_rows r) toID) of
        (Some from', Some to') \<Rightarrow>
          if ce_user from' \<noteq> userID \<or> ce_user to' \<noteq> userID then (r, Some ErrCanonicalNotFound)
          else
            (let to'' = to'\<lparr>ce_mentions := ce_mentions to' + ce_mentions from',
                            ce_docs := ce_docs to' + ce_docs from'\<rparr>
             in (\<lparr>cr_rows = gm_del fromID (gm_put toID to'' (cr_rows r)),
                  cr_contrib = map (\<lambda>(key, c). (key, if fst key \<noteq> userID then c else merge_contrib fromID toID c))
                                 (cr_contrib r)\<rparr>, None))
      | _ \<Rightarrow> (r, Some ErrCanonicalNotFound))"

subsection \<open>Resolving new mentions\<close>

definition ResolveNew ::
  "(entity list \<Rightarrow> ('s, (uuid, uuid) gomap) call) \<Rightarrow> (uuid \<Rightarrow> (uuid, uuid) gomap \<Rightarrow> 's proc) \<Rightarrow>
   uuid \<Rightarrow> entity list \<Rightarrow> ('s, (uuid, uuid) gomap) call" where
  "ResolveNew canonicalize bulkSet userID mentions s =
     (let pending = filter (\<lambda>m. e_canonical m = None) mentions
      in if pending = [] then (s, Inr [])
         else try_call (canonicalize pending) (\<lambda>e s. (s, Inl e))
                (\<lambda>resolved. try_proc (bulkSet userID resolved) (\<lambda>e s. (s, Inl e)) (\<lambda>s. (s, Inr resolved))) s)"

subsection \<open>Alias resolution\<close>

definition candidateSurvives :: "int \<Rightarrow> timestamp \<Rightarrow> uuid \<Rightarrow> int \<Rightarrow> timestamp \<Rightarrow> uuid \<Rightarrow> bool" where
  "candidateSurvives ceMentions ceCreatedAt ceID candMentions candCreatedAt candID =
     (if candMentions \<noteq> ceMentions then candMentions > ceMentions
      else if candCreatedAt \<noteq> ceCreatedAt then candCreatedAt < ceCreatedAt
      else candID < ceID)"

record 's alias_deps =
  al_get :: "uuid \<Rightarrow> uuid \<Rightarrow> ('s, canonical_entity) call"
  al_list :: "uuid \<Rightarrow> uuid \<Rightarrow> ('s, canonical_entity list) call"
  al_fuzzy :: "uuid \<Rightarrow> uuid \<Rightarrow> string \<Rightarrow> string \<Rightarrow> uuid \<Rightarrow> ('s, alias_candidate list) call"
  al_merge :: "uuid \<Rightarrow> uuid \<Rightarrow> uuid \<Rightarrow> 's proc"
  al_judge :: "string \<Rightarrow> string \<Rightarrow> string list \<Rightarrow> ('s, bool list) call"

text \<open>The inner loop: \<open>break\<close> once \<open>ce\<close> itself is merged away.\<close>

fun merge_candidates ::
  "'s alias_deps \<Rightarrow> uuid \<Rightarrow> canonical_entity \<Rightarrow> bool list \<Rightarrow> nat \<Rightarrow> alias_candidate list \<Rightarrow> 's proc" where
  "merge_candidates D userID ce verdicts i [] s = (s, None)"
| "merge_candidates D userID ce verdicts i (cand # cands) s =
     (if i \<ge> length verdicts \<or> \<not> verdicts ! i then merge_candidates D userID ce verdicts (i + 1) cands s
      else
        (let (from', to') =
               (if \<not> candidateSurvives (ce_mentions ce) (ce_created ce) (ce_id ce)
                       (ac_mentions cand) (ac_created cand) (ac_id cand)
                then (ac_id cand, ce_id ce) else (ce_id ce, ac_id cand))
         in try_proc (al_merge D userID from' to')
              (\<lambda>e s. (s, Some (Wrapf ''canonical: resolve aliases: merge'' e)))
              (\<lambda>s. if from' = ce_id ce then (s, None)
                   else merge_candidates D userID ce verdicts (i + 1) cands s) s))"

fun resolveAliasesFor :: "'s alias_deps \<Rightarrow> uuid \<Rightarrow> uuid \<Rightarrow> uuid list \<Rightarrow> 's proc" where
  "resolveAliasesFor D userID kbID [] s = (s, None)"
| "resolveAliasesFor D userID kbID (canonicalID # ids) s =
     try_call (al_get D userID canonicalID)
       (\<lambda>e s. resolveAliasesFor D userID kbID ids s)
       (\<lambda>ce. try_call (al_fuzzy D userID kbID (ce_norm ce) (ce_type ce) (ce_id ce))
          (\<lambda>e s. (s, Some (Wrapf ''canonical: resolve aliases: fuzzy candidates'' e)))
          (\<lambda>candidates s.
             if candidates = [] then resolveAliasesFor D userID kbID ids s
             else try_call (al_judge D (ce_type ce) (ce_norm ce) (map ac_norm candidates))
                    (\<lambda>e s. (s, Some (Wrapf ''canonical: resolve aliases: judge'' e)))
                    (\<lambda>verdicts. try_proc (merge_candidates D userID ce verdicts 0 candidates)
                       (\<lambda>e s. (s, Some e))
                       (\<lambda>s. resolveAliasesFor D userID kbID ids s)) s)) s"

definition ResolveAliases :: "'s alias_deps \<Rightarrow> uuid \<Rightarrow> uuid \<Rightarrow> (uuid, uuid) gomap \<Rightarrow> 's proc" where
  "ResolveAliases D userID kbID resolved =
     resolveAliasesFor D userID kbID (dedup_by (\<lambda>x. x) [] (gm_vals resolved))"

definition ResolveAllAliases :: "'s alias_deps \<Rightarrow> uuid \<Rightarrow> uuid \<Rightarrow> ('s, int) call" where
  "ResolveAllAliases D userID kbID =
     try_call (al_list D userID kbID)
       (\<lambda>e s. (s, Inl (Wrapf ''canonical: resolve all aliases: list by kb'' e)))
       (\<lambda>al. try_proc (resolveAliasesFor D userID kbID (map ce_id al)) (\<lambda>e s. (s, Inl e))
          (try_call (al_list D userID kbID)
             (\<lambda>e s. (s, Inl (Wrapf ''canonical: resolve all aliases: list by kb (after)'' e)))
             (\<lambda>after s. (s, Inr (int (length al) - int (length after))))))"

subsection \<open>The alias judge\<close>

definition aliasCandidatePrefix :: string where
  "aliasCandidatePrefix = ''CANDIDATE:''"

definition aliasVerdictPrefix :: string where
  "aliasVerdictPrefix = ''VERDICT:''"

fun alias_scan :: "(int, bool) gomap \<Rightarrow> int option \<Rightarrow> string list \<Rightarrow> (int, bool) gomap" where
  "alias_scan verdicts cur [] = verdicts"
| "alias_scan verdicts cur (l # ls) =
     (let line = trim_space l
      in if has_prefix line aliasCandidatePrefix then
           alias_scan verdicts (atoi (trim_space (trim_prefix line aliasCandidatePrefix))) ls
         else if has_prefix line aliasVerdictPrefix then
           (case cur of
              None \<Rightarrow> alias_scan verdicts cur ls
            | Some n \<Rightarrow>
                alias_scan (gm_put n (equal_fold (trim_space (trim_prefix line aliasVerdictPrefix)) ''SAME'') verdicts)
                  cur ls)
         else alias_scan verdicts cur ls)"

definition parseAliasBatchVerdicts :: "string \<Rightarrow> (int, bool) gomap" where
  "parseAliasBatchVerdicts resp = alias_scan [] None (split_on (CHR 0x0A) resp)"

definition SameEntityBatch ::
  "(string \<Rightarrow> ('s, string) call) \<Rightarrow> (string \<Rightarrow> string \<Rightarrow> string list \<Rightarrow> string) \<Rightarrow>
   string \<Rightarrow> string \<Rightarrow> string list \<Rightarrow> ('s, bool list) call" where
  "SameEntityBatch generate buildPrompt entityType textA candidates s =
     (if candidates = [] then (s, Inr [])
      else try_call (generate (buildPrompt entityType textA candidates))
             (\<lambda>e s. (s, Inl (Wrapf ''canonical: alias judge: generate'' e)))
             (\<lambda>resp s. (s, Inr (map (\<lambda>i. gm_get_or False (parseAliasBatchVerdicts resp) (int i + 1))
                                   [0 ..< length candidates]))) s)"

subsection \<open>Contributions and their totals\<close>

text \<open>How many mentions each document owes to each identity, as a function.\<close>

definition contrib :: "canon_repo \<Rightarrow> uuid \<times> uuid \<Rightarrow> uuid \<Rightarrow> int" where
  "contrib r k i = gm_get_or 0 (gm_get_or [] (cr_contrib r) k) i"

definition total_of :: "(uuid \<times> uuid \<Rightarrow> uuid \<Rightarrow> int) \<Rightarrow> uuid \<Rightarrow> int" where
  "total_of f i = (\<Sum>k | f k i \<noteq> 0. f k i)"

definition docs_of :: "(uuid \<times> uuid \<Rightarrow> uuid \<Rightarrow> int) \<Rightarrow> uuid \<Rightarrow> int" where
  "docs_of f i = int (card {k. f k i \<noteq> 0})"

lemma contrib_support: "{k. contrib r k i \<noteq> 0} \<subseteq> set (gm_keys (cr_contrib r))"
proof
  fix k assume "k \<in> {k. contrib r k i \<noteq> 0}"
  then have "gm_get (cr_contrib r) k \<noteq> None"
    by (cases "gm_get (cr_contrib r) k") (auto simp: contrib_def gm_get_or_def)
  then show "k \<in> set (gm_keys (cr_contrib r))" by (simp add: map_of_eq_None_iff)
qed

lemma contrib_finite: "finite {k. contrib r k i \<noteq> 0}"
  by (rule finite_subset[OF contrib_support]) simp

lemma total_of_upd:
  assumes "finite {k. f k i \<noteq> 0}"
  shows "total_of (f(k := g)) i = total_of f i - f k i + g i"
proof -
  let ?S = "insert k {k. f k i \<noteq> 0}"
  have a: "total_of f i = (\<Sum>j\<in>?S. f j i)"
    unfolding total_of_def using assms by (intro sum.mono_neutral_left) auto
  have b: "total_of (f(k := g)) i = (\<Sum>j\<in>?S. (f(k := g)) j i)"
    unfolding total_of_def using assms by (intro sum.mono_neutral_left) auto
  have "(\<Sum>j\<in>?S. (f(k := g)) j i) = g i + (\<Sum>j\<in>?S - {k}. f j i)"
    using assms by (subst sum.remove[of _ k]) auto
  moreover have "(\<Sum>j\<in>?S. f j i) = f k i + (\<Sum>j\<in>?S - {k}. f j i)"
    using assms by (subst sum.remove[of _ k]) auto
  ultimately show ?thesis using a b by simp
qed

lemma docs_of_upd:
  assumes "finite {k. f k i \<noteq> 0}"
  shows "docs_of (f(k := g)) i =
    docs_of f i - (if f k i \<noteq> 0 then 1 else 0) + (if g i \<noteq> 0 then 1 else 0)"
proof -
  define A where "A = {j. f j i \<noteq> 0}"
  have fin: "finite A" and k: "k \<in> A \<longleftrightarrow> f k i \<noteq> 0" using assms by (simp_all add: A_def)
  have "{j. (f(k := g)) j i \<noteq> 0} = (if g i \<noteq> 0 then insert k (A - {k}) else A - {k})"
    by (auto simp: A_def)
  moreover have "card (insert k (A - {k})) = Suc (card (A - {k}))"
    using fin by (intro card_insert_disjoint) auto
  ultimately have "docs_of (f(k := g)) i = int (card (A - {k})) + (if g i \<noteq> 0 then 1 else 0)"
    by (simp only: docs_of_def if_distrib[of card]) simp
  moreover have "int (card A) = int (card (A - {k})) + (if f k i \<noteq> 0 then 1 else 0)"
    using fin k by (cases "k \<in> A") (simp_all add: card_Suc_Diff1[symmetric] del: card_Diff_insert)
  ultimately show ?thesis by (simp add: docs_of_def A_def)
qed

subsection \<open>Well-formed repositories\<close>

definition same_identity :: "canonical_entity \<Rightarrow> canonical_entity \<Rightarrow> bool" where
  "same_identity a b \<longleftrightarrow> ce_kb a = ce_kb b \<and> ce_user a = ce_user b \<and> ce_norm a = ce_norm b \<and> ce_type a = ce_type b"

definition canon_wf :: "canon_repo \<Rightarrow> uuid \<Rightarrow> bool" where
  "canon_wf r nxt \<longleftrightarrow>
     distinct (gm_keys (cr_rows r)) \<and>
     (\<forall>k c. gm_get (cr_contrib r) k = Some c \<longrightarrow>
        distinct (gm_keys c) \<and> (\<forall>i n. gm_get c i = Some n \<longrightarrow> 0 < n)) \<and>
     (\<forall>k i. contrib r k i \<ge> 0) \<and>
     (\<forall>k i. contrib r k i \<noteq> 0 \<longrightarrow> (\<exists>ce. gm_get (cr_rows r) i = Some ce \<and> ce_user ce = fst k)) \<and>
     (\<forall>i ce. gm_get (cr_rows r) i = Some ce \<longrightarrow>
        ce_id ce = i \<and> i < nxt \<and> ce_mentions ce = total_of (contrib r) i \<and> 0 < ce_mentions ce) \<and>
     (\<forall>i j a b. gm_get (cr_rows r) i = Some a \<longrightarrow> gm_get (cr_rows r) j = Some b \<longrightarrow> same_identity a b \<longrightarrow> i = j)"

definition docs_exact :: "canon_repo \<Rightarrow> bool" where
  "docs_exact r \<longleftrightarrow> (\<forall>i ce. gm_get (cr_rows r) i = Some ce \<longrightarrow> ce_docs ce = docs_of (contrib r) i)"

lemma canon_wfD:
  assumes "canon_wf r nxt"
  shows "distinct (gm_keys (cr_rows r))"
    and "gm_get (cr_contrib r) k = Some c \<Longrightarrow> distinct (gm_keys c) \<and> (\<forall>i n. gm_get c i = Some n \<longrightarrow> 0 < n)"
    and "contrib r k i \<ge> 0"
    and "contrib r k i \<noteq> 0 \<Longrightarrow> \<exists>ce. gm_get (cr_rows r) i = Some ce \<and> ce_user ce = fst k"
    and "gm_get (cr_rows r) i = Some ce \<Longrightarrow>
        ce_id ce = i \<and> i < nxt \<and> ce_mentions ce = total_of (contrib r) i \<and> 0 < ce_mentions ce"
    and "gm_get (cr_rows r) i = Some a \<Longrightarrow> gm_get (cr_rows r) j = Some b \<Longrightarrow> same_identity a b \<Longrightarrow> i = j"
  using assms unfolding canon_wf_def by blast+

lemma canon_wf_new: "canon_wf canon_new 0"
  by (simp add: canon_wf_def canon_new_def contrib_def)

lemma findLocked_Some:
  assumes "canon_wf r nxt" "findLocked kb u nt t r = Some ce"
  shows "gm_get (cr_rows r) (ce_id ce) = Some ce" "ce_kb ce = kb" "ce_user ce = u" "ce_norm ce = nt" "ce_type ce = t"
proof -
  from assms(2) have m: "ce \<in> set (gm_vals (cr_rows r))"
    and p: "ce_kb ce = kb \<and> ce_user ce = u \<and> ce_norm ce = nt \<and> ce_type ce = t"
    unfolding findLocked_def by (auto simp: find_Some_iff)
  from m obtain i where "gm_get (cr_rows r) i = Some ce" using gm_val_get[OF canon_wfD(1)[OF assms(1)]] by blast
  then show "gm_get (cr_rows r) (ce_id ce) = Some ce" using canon_wfD(5)[OF assms(1)] by metis
  show "ce_kb ce = kb" "ce_user ce = u" "ce_norm ce = nt" "ce_type ce = t" using p by auto
qed

lemma findLocked_None:
  assumes "canon_wf r nxt" "findLocked kb u nt t r = None" "gm_get (cr_rows r) i = Some ce"
  shows "\<not> (ce_kb ce = kb \<and> ce_user ce = u \<and> ce_norm ce = nt \<and> ce_type ce = t)"
  using assms(2) gm_val_mem[OF assms(3)] unfolding findLocked_def by (auto simp: find_None_iff)

text \<open>
  One more mention for an identity, old or new: the repository stays well-formed, and only the
  mention's own document's contribution to that identity grows.
\<close>

lemma unique_identity_put:
  assumes "\<And>i a j b. gm_get m i = Some a \<Longrightarrow> gm_get m j = Some b \<Longrightarrow> same_identity a b \<Longrightarrow> i = j"
    and "\<And>j a. gm_get m j = Some a \<Longrightarrow> same_identity x a \<Longrightarrow> j = k"
    and "gm_get (gm_put k x m) i = Some a" "gm_get (gm_put k x m) j = Some b" "same_identity a b"
  shows "i = j"
proof -
  have "same_identity b a" using assms(5) by (simp add: same_identity_def)
  then show ?thesis using assms by (cases "i = k"; cases "j = k") auto
qed

lemma canon_wf_add:
  assumes wf: "canon_wf r nxt"
    and old: "gm_get (cr_rows r) (ce_id ce) = Some ce \<and> nxt' = nxt \<or>
              ce_id ce = nxt \<and> nxt' = nxt + 1 \<and> ce_mentions ce = 0 \<and>
              (\<forall>i a. gm_get (cr_rows r) i = Some a \<longrightarrow> \<not> same_identity ce a)"
    and cs: "cs = gm_get_or [] (cr_contrib r) (u, d)" and u: "ce_user ce = u"
    and r': "r' = \<lparr>cr_rows = gm_put (ce_id ce) (ce\<lparr>ce_mentions := ce_mentions ce + 1, ce_docs := n\<rparr>) (cr_rows r),
                   cr_contrib = gm_put (u, d) (gm_put (ce_id ce) (gm_get_or 0 cs (ce_id ce) + 1) cs) (cr_contrib r)\<rparr>"
  shows "canon_wf r' nxt'"
    and "contrib r' = (contrib r)((u, d) := (contrib r (u, d))(ce_id ce := contrib r (u, d) (ce_id ce) + 1))"
proof -
  let ?i = "ce_id ce"
  show c': "contrib r' = (contrib r)((u, d) := (contrib r (u, d))(?i := contrib r (u, d) ?i + 1))"
    by (auto simp: fun_eq_iff r' cs contrib_def)
  have fresh0: "contrib r k ?i = 0" if "gm_get (cr_rows r) ?i = None" for k
    using canon_wfD(4)[OF wf, of k ?i] that by auto
  have none: "gm_get (cr_rows r) ?i = None" if "?i = nxt"
    using canon_wfD(5)[OF wf, of ?i] that by (cases "gm_get (cr_rows r) ?i") auto
  have ment: "ce_mentions ce = total_of (contrib r) ?i"
    using old
  proof
    assume "gm_get (cr_rows r) ?i = Some ce \<and> nxt' = nxt" then show ?thesis using canon_wfD(5)[OF wf] by blast
  next
    assume n: "?i = nxt \<and> nxt' = nxt + 1 \<and> ce_mentions ce = 0 \<and>
              (\<forall>i a. gm_get (cr_rows r) i = Some a \<longrightarrow> \<not> same_identity ce a)"
    then have e: "{k. contrib r k ?i \<noteq> 0} = {}" using fresh0 none by simp
    show ?thesis unfolding total_of_def e using n by simp
  qed
  have tot: "total_of (contrib r') j = total_of (contrib r) j + (if j = ?i then 1 else 0)" for j
    unfolding c' using contrib_finite[of r j] by (subst total_of_upd) auto
  have nn: "contrib r (u, d) ?i \<ge> 0" using canon_wfD(3)[OF wf] by blast
  have get': "gm_get (cr_rows r') j = (if j = ?i then Some (ce\<lparr>ce_mentions := ce_mentions ce + 1, ce_docs := n\<rparr>)
      else gm_get (cr_rows r) j)" for j by (simp add: r')
  have lt: "?i < nxt'" "nxt \<le> nxt'" using old canon_wfD(5)[OF wf, of ?i ce] by auto
  have "0 \<le> total_of (contrib r) ?i"
    unfolding total_of_def using canon_wfD(3)[OF wf] by (simp add: sum_nonneg)
  then have pos: "0 < ce_mentions ce + 1" using ment by simp
  have ident: "j = ?i" if "gm_get (cr_rows r) j = Some a" "same_identity ce a" for j a
    using old that canon_wfD(6)[OF wf, of ?i ce j a] by auto
  have ident': "j = ?i" if "gm_get (cr_rows r) j = Some a" "same_identity (ce\<lparr>ce_mentions := ce_mentions ce + 1, ce_docs := n\<rparr>) a" for j a
    using ident[OF that(1)] that(2) by (simp add: same_identity_def)
  have rowfacts: "ce_id a = j \<and> j < nxt' \<and> ce_mentions a = total_of (contrib r') j \<and> 0 < ce_mentions a"
    if "gm_get (cr_rows r') j = Some a" for j a
  proof (cases "j = ?i")
    case True
    then have "a = ce\<lparr>ce_mentions := ce_mentions ce + 1, ce_docs := n\<rparr>" using that by (simp add: get')
    then show ?thesis using True lt(1) pos by (simp add: tot ment[symmetric])
  next
    case False
    then have "gm_get (cr_rows r) j = Some a" using that by (simp add: get')
    then show ?thesis using canon_wfD(5)[OF wf, of j a] False lt(2) by (simp add: tot)
  qed
  have owner: "\<exists>a. gm_get (cr_rows r') j = Some a \<and> ce_user a = fst k" if "contrib r' k j \<noteq> 0" for k j
  proof (cases "j = ?i \<and> k = (u, d)")
    case True
    then show ?thesis using u by (simp add: get')
  next
    case False
    then have "contrib r k j \<noteq> 0" using that by (auto simp: c' split: if_splits)
    then obtain a where "gm_get (cr_rows r) j = Some a" "ce_user a = fst k" using canon_wfD(4)[OF wf] by blast
    then show ?thesis using old none by (cases "j = ?i") (auto simp: get')
  qed
  show "canon_wf r' nxt'"
    unfolding canon_wf_def
  proof (intro conjI allI impI)
    show "distinct (gm_keys (cr_rows r'))" using canon_wfD(1)[OF wf] by (simp add: r')
    have cs_ok: "distinct (gm_keys cs) \<and> (\<forall>i n. gm_get cs i = Some n \<longrightarrow> 0 < n)"
      using canon_wfD(2)[OF wf, of "(u, d)"] by (auto simp: cs gm_get_or_def split: option.splits)
    have cs_nn: "0 \<le> gm_get_or 0 cs ?i" using nn by (simp add: cs contrib_def)
    show "0 < m" if "gm_get (cr_contrib r') k = Some c" "gm_get c j = Some m" for k c j m
      using that canon_wfD(2)[OF wf, of k c] cs_ok cs_nn by (auto simp: r' split: if_splits)
    show "distinct (gm_keys c)" if "gm_get (cr_contrib r') k = Some c" for k c
      using that canon_wfD(2)[OF wf, of k c] cs_ok by (auto simp: r' split: if_splits)
    show "contrib r' k j \<ge> 0" for k j using canon_wfD(3)[OF wf, of k j] nn by (auto simp: c')
    show "\<exists>a. gm_get (cr_rows r') j = Some a \<and> ce_user a = fst k" if "contrib r' k j \<noteq> 0" for k j
      using that owner[of k j] by simp
    show "ce_id a = j" "j < nxt'" "ce_mentions a = total_of (contrib r') j" "0 < ce_mentions a"
      if "gm_get (cr_rows r') j = Some a" for j a
      using rowfacts[OF that] by blast+
    show "i = j" if "gm_get (cr_rows r') i = Some a" "gm_get (cr_rows r') j = Some b" "same_identity a b" for i j a b
      using canon_wfD(6)[OF wf] ident' that unfolding r' canon_repo.select_convs by (rule unique_identity_put)
  qed
qed

text \<open>What one round of the canonicalisation loop does to the repository.\<close>

lemma canonicalize_one_effect:
  assumes wf: "canon_wf (cl_repo l) (cl_next l)"
  obtains ce where
    "canon_wf (cl_repo (canonicalize_one nfkc now l m)) (cl_next (canonicalize_one nfkc now l m))"
    "contrib (cl_repo (canonicalize_one nfkc now l m)) =
       (contrib (cl_repo l))((e_user m, e_doc m) :=
          (contrib (cl_repo l) (e_user m, e_doc m))(ce_id ce := contrib (cl_repo l) (e_user m, e_doc m) (ce_id ce) + 1))"
    "cr_rows (cl_repo (canonicalize_one nfkc now l m)) =
       gm_put (ce_id ce) (ce\<lparr>ce_mentions := ce_mentions ce + 1,
         ce_docs := (if ce_id ce \<notin> set (cl_touched l) then ce_docs ce + 1 else ce_docs ce)\<rparr>) (cr_rows (cl_repo l))"
    "gm_get (cr_rows (cl_repo l)) (ce_id ce) = Some ce \<or>
       gm_get (cr_rows (cl_repo l)) (ce_id ce) = None \<and> ce_docs ce = 0"
    "set (cl_touched (canonicalize_one nfkc now l m)) = insert (ce_id ce) (set (cl_touched l))"
    "cl_next l \<le> cl_next (canonicalize_one nfkc now l m)"
proof (cases "findLocked (e_kb m) (e_user m) (Normalize nfkc (e_text m)) (e_type m) (cl_repo l)")
  case (Some ce)
  note f = findLocked_Some[OF wf Some]
  show thesis
    using canon_wf_add[OF wf disjI1[OF conjI[OF f(1) refl]] refl f(3) refl, where d = "e_doc m" and
        n = "if ce_id ce \<notin> set (cl_touched l) then ce_docs ce + 1 else ce_docs ce"] f(1)
    by (intro that[of ce]) (simp_all add: canonicalize_one_def Let_def Some insert_absorb)
next
  case None
  let ?ce = "\<lparr>ce_id = cl_next l, ce_kb = e_kb m, ce_user = e_user m, ce_text = e_text m,
      ce_norm = Normalize nfkc (e_text m), ce_type = e_type m, ce_mentions = 0, ce_docs = 0,
      ce_created = now (cl_next l), ce_updated = 0\<rparr>"
  have "\<not> same_identity ?ce a" if "gm_get (cr_rows (cl_repo l)) i = Some a" for i a
    using findLocked_None[OF wf None that] by (auto simp: same_identity_def)
  then have new: "ce_id ?ce = cl_next l \<and> cl_next l + 1 = cl_next l + 1 \<and> ce_mentions ?ce = 0 \<and>
      (\<forall>i a. gm_get (cr_rows (cl_repo l)) i = Some a \<longrightarrow> \<not> same_identity ?ce a)" by simp
  have none: "gm_get (cr_rows (cl_repo l)) (cl_next l) = None"
    using canon_wfD(5)[OF wf, of "cl_next l"] by (cases "gm_get (cr_rows (cl_repo l)) (cl_next l)") auto
  show thesis
    using canon_wf_add[OF wf disjI2[OF new] refl _ refl, where u = "e_user m" and d = "e_doc m" and
        n = "if cl_next l \<notin> set (cl_touched l) then 1 else 0"] none
    by (cases "cl_next l \<in> set (cl_touched l)"; intro that[of ?ce])
      (simp_all add: canonicalize_one_def Let_def None insert_absorb)
qed

lemma canonicalize_loop_wf:
  "canon_wf (cl_repo l) (cl_next l) \<Longrightarrow>
     canon_wf (cl_repo (foldl (canonicalize_one nfkc now) l ms)) (cl_next (foldl (canonicalize_one nfkc now) l ms))"
proof (induction ms arbitrary: l)
  case (Cons m ms)
  from canonicalize_one_effect[OF Cons.prems] show ?case by (metis Cons.IH foldl_Cons)
qed simp

lemma docs_exact_add:
  assumes ex: "docs_exact r" and wf: "canon_wf r nxt"
    and T: "\<And>i. i \<in> T \<longleftrightarrow> contrib r k i \<noteq> 0"
    and c: "contrib r' = (contrib r)(k := (contrib r k)(ce_id ce := contrib r k (ce_id ce) + 1))"
    and rows: "cr_rows r' = gm_put (ce_id ce) (ce\<lparr>ce_mentions := x,
         ce_docs := (if ce_id ce \<notin> T then ce_docs ce + 1 else ce_docs ce)\<rparr>) (cr_rows r)"
    and old: "gm_get (cr_rows r) (ce_id ce) = Some ce \<or> gm_get (cr_rows r) (ce_id ce) = None \<and> ce_docs ce = 0"
  shows "docs_exact r' \<and> (\<forall>i. i \<in> insert (ce_id ce) T \<longleftrightarrow> contrib r' k i \<noteq> 0)"
proof -
  let ?i = "ce_id ce"
  have nn: "contrib r k ?i \<ge> 0" using canon_wfD(3)[OF wf] by blast
  have d: "ce_docs ce = docs_of (contrib r) ?i"
    using old
  proof
    assume "gm_get (cr_rows r) ?i = None \<and> ce_docs ce = 0"
    moreover from this have e: "{k. contrib r k ?i \<noteq> 0} = {}" using canon_wfD(4)[OF wf, of _ ?i] by auto
    ultimately show ?thesis unfolding docs_of_def e by simp
  qed (use ex in \<open>simp add: docs_exact_def\<close>)
  have docs': "docs_of (contrib r') j = docs_of (contrib r) j + (if j = ?i \<and> ?i \<notin> T then 1 else 0)" for j
    unfolding c docs_of_upd[OF contrib_finite] using T[of ?i] nn by auto
  have "docs_exact r'"
    unfolding docs_exact_def
  proof (intro allI impI)
    fix j a assume a: "gm_get (cr_rows r') j = Some a"
    show "ce_docs a = docs_of (contrib r') j"
    proof (cases "j = ?i")
      case True
      then have "a = ce\<lparr>ce_mentions := x, ce_docs := (if ?i \<notin> T then ce_docs ce + 1 else ce_docs ce)\<rparr>"
        using a by (simp add: rows)
      then show ?thesis using True d docs' by simp
    next
      case False
      then show ?thesis using a ex by (simp add: rows docs' docs_exact_def)
    qed
  qed
  moreover have "i \<in> insert ?i T \<longleftrightarrow> contrib r' k i \<noteq> 0" for i
    using T[of i] nn by (auto simp: c)
  ultimately show ?thesis by blast
qed

lemma canonicalize_loop_docs:
  assumes "canon_wf (cl_repo l) (cl_next l)" "docs_exact (cl_repo l)"
    and "\<And>i. i \<in> set (cl_touched l) \<longleftrightarrow> contrib (cl_repo l) (u, d) i \<noteq> 0"
    and "\<And>m. m \<in> set ms \<Longrightarrow> e_user m = u \<and> e_doc m = d"
  shows "docs_exact (cl_repo (foldl (canonicalize_one nfkc now) l ms))"
  using assms
proof (induction ms arbitrary: l)
  case (Cons m ms)
  let ?l = "canonicalize_one nfkc now l m"
  have ud: "e_user m = u" "e_doc m = d" using Cons.prems(4) by auto
  obtain ce where e: "canon_wf (cl_repo ?l) (cl_next ?l)"
    "contrib (cl_repo ?l) = (contrib (cl_repo l))((u, d) :=
        (contrib (cl_repo l) (u, d))(ce_id ce := contrib (cl_repo l) (u, d) (ce_id ce) + 1))"
    "cr_rows (cl_repo ?l) = gm_put (ce_id ce) (ce\<lparr>ce_mentions := ce_mentions ce + 1,
         ce_docs := (if ce_id ce \<notin> set (cl_touched l) then ce_docs ce + 1 else ce_docs ce)\<rparr>) (cr_rows (cl_repo l))"
    "gm_get (cr_rows (cl_repo l)) (ce_id ce) = Some ce \<or>
       gm_get (cr_rows (cl_repo l)) (ce_id ce) = None \<and> ce_docs ce = 0"
    "set (cl_touched ?l) = insert (ce_id ce) (set (cl_touched l))"
    by (rule canonicalize_one_effect[OF Cons.prems(1), of nfkc now m]) (simp add: ud)
  from docs_exact_add[OF Cons.prems(2,1,3) e(2,3,4)] e(5)
  have "docs_exact (cl_repo ?l)" "\<And>i. i \<in> set (cl_touched ?l) \<longleftrightarrow> contrib (cl_repo ?l) (u, d) i \<noteq> 0" by auto
  then show ?case using Cons.IH[OF e(1)] Cons.prems(4) by simp
qed simp

subsection \<open>Reversing a document's contribution\<close>

lemma decrement_one_get:
  "gm_get (decrement_one rows (i, n)) j =
     (if j = i then (case gm_get rows i of None \<Rightarrow> None
        | Some ce \<Rightarrow> if ce_mentions ce - n \<le> 0 then None
                     else Some (ce\<lparr>ce_mentions := ce_mentions ce - n, ce_docs := ce_docs ce - 1\<rparr>))
      else gm_get rows j)"
  by (simp add: decrement_one_def Let_def split: option.split)

lemma decrement_loop_get:
  "distinct (gm_keys cs) \<Longrightarrow>
   gm_get (foldl decrement_one rows cs) j =
     (case gm_get cs j of None \<Rightarrow> gm_get rows j
      | Some n \<Rightarrow> (case gm_get rows j of None \<Rightarrow> None
          | Some ce \<Rightarrow> if ce_mentions ce - n \<le> 0 then None
                       else Some (ce\<lparr>ce_mentions := ce_mentions ce - n, ce_docs := ce_docs ce - 1\<rparr>)))"
proof (induction cs arbitrary: rows)
  case (Cons p cs)
  obtain i n where p: "p = (i, n)" by force
  have "gm_get cs i = None" using Cons.prems p by (simp add: map_of_eq_None_iff)
  then show ?case using Cons.IH[of "decrement_one rows p"] Cons.prems
    by (auto simp: p decrement_one_get split: option.splits)
qed simp

lemma decrement_loop_distinct:
  "distinct (gm_keys rows) \<Longrightarrow> distinct (gm_keys (foldl decrement_one rows cs))"
proof (induction cs arbitrary: rows)
  case (Cons p cs)
  have "distinct (gm_keys (decrement_one rows p))"
    using Cons.prems by (auto simp: decrement_one_def Let_def split: prod.split option.split)
  then show ?case using Cons.IH by simp
qed simp

lemma total_of_ge:
  assumes "finite {k. f k i \<noteq> 0}" "\<And>k. (0::int) \<le> f k i" shows "f k i \<le> total_of f i"
proof (cases "f k i = 0")
  case True
  then show ?thesis unfolding total_of_def using assms(2) by (simp add: sum_nonneg)
next
  case False
  then show ?thesis unfolding total_of_def using assms by (intro member_le_sum) auto
qed

lemma decrement_effect:
  assumes wf: "canon_wf r nxt"
  shows "contrib (canon_DecrementForDocument u d r) = (contrib r)((u, d) := (\<lambda>_. 0))"
    and "gm_get (cr_rows (canon_DecrementForDocument u d r)) j =
      (case gm_get (cr_rows r) j of None \<Rightarrow> None
       | Some ce \<Rightarrow> if contrib r (u, d) j = 0 then Some ce
           else if ce_mentions ce \<le> contrib r (u, d) j then None
           else Some (ce\<lparr>ce_mentions := ce_mentions ce - contrib r (u, d) j, ce_docs := ce_docs ce - 1\<rparr>))"
proof -
  show "contrib (canon_DecrementForDocument u d r) = (contrib r)((u, d) := (\<lambda>_. 0))"
    by (auto simp: canon_DecrementForDocument_def contrib_def gm_get_or_def fun_eq_iff split: option.splits)
  show "gm_get (cr_rows (canon_DecrementForDocument u d r)) j =
      (case gm_get (cr_rows r) j of None \<Rightarrow> None
       | Some ce \<Rightarrow> if contrib r (u, d) j = 0 then Some ce
           else if ce_mentions ce \<le> contrib r (u, d) j then None
           else Some (ce\<lparr>ce_mentions := ce_mentions ce - contrib r (u, d) j, ce_docs := ce_docs ce - 1\<rparr>))"
  proof (cases "gm_get (cr_contrib r) (u, d)")
    case None
    then show ?thesis
      by (simp add: canon_DecrementForDocument_def contrib_def gm_get_or_def split: option.split)
  next
    case (Some cs)
    note ok = canon_wfD(2)[OF wf Some]
    have "gm_get cs j = None \<longleftrightarrow> contrib r (u, d) j = 0"
      using ok Some by (cases "gm_get cs j") (fastforce simp: contrib_def gm_get_or_def)+
    moreover have "gm_get cs j = Some n \<Longrightarrow> contrib r (u, d) j = n" for n
      using Some by (simp add: contrib_def gm_get_or_def)
    ultimately show ?thesis using ok Some
      by (cases "gm_get cs j")
        (auto simp: canon_DecrementForDocument_def decrement_loop_get split: option.split)
  qed
qed

lemma decrement_wf:
  assumes wf: "canon_wf r nxt"
  shows "canon_wf (canon_DecrementForDocument u d r) nxt"
proof -
  let ?r = "canon_DecrementForDocument u d r"
  note c = decrement_effect(1)[OF wf, of u d] and g = decrement_effect(2)[OF wf, of u d]
  have tot: "total_of (contrib ?r) j = total_of (contrib r) j - contrib r (u, d) j" for j
    unfolding c by (simp add: total_of_upd contrib_finite)
  have row: "\<exists>b. gm_get (cr_rows r) j = Some b \<and> same_identity a b \<and> ce_id a = ce_id b \<and>
      ce_mentions a = ce_mentions b - contrib r (u, d) j \<and> 0 < ce_mentions a"
    if "gm_get (cr_rows ?r) j = Some a" for j a
    using that canon_wfD(5)[OF wf, of j] by (auto simp: g same_identity_def split: option.splits if_splits)
  have nn: "0 \<le> contrib ?r k j" for k j using canon_wfD(3)[OF wf, of k j] by (simp add: c)
  show ?thesis
    unfolding canon_wf_def
  proof (intro conjI allI impI)
    show "distinct (gm_keys (cr_rows ?r))"
      using canon_wfD(1)[OF wf] decrement_loop_distinct
      by (simp add: canon_DecrementForDocument_def split: option.split)
    show "distinct (gm_keys cs)" if "gm_get (cr_contrib ?r) k = Some cs" for k cs
      using that canon_wfD(2)[OF wf, of k cs]
      by (auto simp: canon_DecrementForDocument_def split: option.splits if_splits)
    show "0 < n" if "gm_get (cr_contrib ?r) k = Some cs" "gm_get cs i = Some n" for k cs i n
      using that canon_wfD(2)[OF wf, of k cs]
      by (auto simp: canon_DecrementForDocument_def split: option.splits if_splits)
    show "0 \<le> contrib ?r k j" for k j by (rule nn)
    show "\<exists>ce. gm_get (cr_rows ?r) j = Some ce \<and> ce_user ce = fst k" if "contrib ?r k j \<noteq> 0" for k j
    proof -
      have k: "contrib r k j \<noteq> 0" using that by (auto simp: c split: if_splits)
      then obtain ce where ce: "gm_get (cr_rows r) j = Some ce" "ce_user ce = fst k"
        using canon_wfD(4)[OF wf] by blast
      have "0 < contrib ?r k j" using nn[of k j] that by simp
      also have "\<dots> \<le> total_of (contrib ?r) j" by (rule total_of_ge[where f = "contrib ?r"]) (rule contrib_finite, rule nn)
      finally have "contrib r (u, d) j < ce_mentions ce" using canon_wfD(5)[OF wf ce(1)] by (simp add: tot)
      then show ?thesis using ce by (simp add: g)
    qed
    show "ce_id a = j" "j < nxt" "ce_mentions a = total_of (contrib ?r) j" "0 < ce_mentions a"
      if "gm_get (cr_rows ?r) j = Some a" for j a
      using row[OF that] canon_wfD(5)[OF wf, of j] by (auto simp: tot)
    show "i = j" if "gm_get (cr_rows ?r) i = Some a" "gm_get (cr_rows ?r) j = Some b" "same_identity a b" for i j a b
      using row[OF that(1)] row[OF that(2)] that(3) canon_wfD(6)[OF wf, of i _ j]
      by (auto simp: same_identity_def)
  qed
qed

lemma decrement_docs:
  assumes wf: "canon_wf r nxt" and ex: "docs_exact r"
  shows "docs_exact (canon_DecrementForDocument u d r)"
  unfolding docs_exact_def decrement_effect(1)[OF wf]
  using ex
  by (auto simp: decrement_effect(2)[OF wf] docs_of_upd[OF contrib_finite] docs_exact_def split: option.splits if_splits)

subsection \<open>Merging two identities\<close>

lemma total_of_superset:
  assumes "finite S" "{k. f k i \<noteq> 0} \<subseteq> S" shows "total_of f i = (\<Sum>k\<in>S. f k i)"
  unfolding total_of_def using assms by (intro sum.mono_neutral_left) auto

lemma merge_contrib_get:
  "gm_get_or 0 (merge_contrib fr t c) j =
     (if j = fr then 0 else if j = t then gm_get_or 0 c t + gm_get_or 0 c fr else gm_get_or (0::int) c j)"
  by (auto simp: merge_contrib_def gm_get_or_def split: option.splits)

lemma merge_effect:
  assumes wf: "canon_wf r nxt" and ok: "canon_MergeInto u fr t r = (r', None)"
  obtains a b where "gm_get (cr_rows r) fr = Some a" "gm_get (cr_rows r) t = Some b" "ce_user a = u" "ce_user b = u"
    "cr_rows r' = gm_del fr (gm_put t (b\<lparr>ce_mentions := ce_mentions b + ce_mentions a,
        ce_docs := ce_docs b + ce_docs a\<rparr>) (cr_rows r))"
    "\<And>k j. contrib r' k j = (if j = fr then 0 else if j = t then contrib r k t + contrib r k fr else contrib r k j)"
    "\<And>k cs. gm_get (cr_contrib r') k = Some cs \<Longrightarrow> distinct (gm_keys cs) \<and> (\<forall>i n. gm_get cs i = Some n \<longrightarrow> 0 < n)"
proof -
  from ok obtain a b where ab: "gm_get (cr_rows r) fr = Some a" "gm_get (cr_rows r) t = Some b"
    "ce_user a = u" "ce_user b = u"
    by (auto simp: canon_MergeInto_def Let_def split: option.splits if_splits)
  have r': "r' = \<lparr>cr_rows = gm_del fr (gm_put t (b\<lparr>ce_mentions := ce_mentions b + ce_mentions a,
        ce_docs := ce_docs b + ce_docs a\<rparr>) (cr_rows r)),
      cr_contrib = map (\<lambda>(key, c). (key, if fst key \<noteq> u then c else merge_contrib fr t c)) (cr_contrib r)\<rparr>"
    using ok ab by (simp add: canon_MergeInto_def Let_def)
  have get': "gm_get (cr_contrib r') k =
      map_option (\<lambda>c. if fst k \<noteq> u then c else merge_contrib fr t c) (gm_get (cr_contrib r) k)" for k
    using gm_map_get[of "\<lambda>key c. if fst key \<noteq> u then c else merge_contrib fr t c" "cr_contrib r" k] by (simp add: r')
  have foreign: "contrib r k fr = 0" "contrib r k t = 0" if "fst k \<noteq> u" for k
    using that ab canon_wfD(4)[OF wf, of k fr] canon_wfD(4)[OF wf, of k t] by auto
  have eff: "contrib r' k j = (if j = fr then 0 else if j = t then contrib r k t + contrib r k fr else contrib r k j)"
    for k j
  proof (cases "fst k = u")
    case True
    have "gm_get_or [] (cr_contrib r') k = merge_contrib fr t (gm_get_or [] (cr_contrib r) k)"
      using get'[of k] True by (cases "gm_get (cr_contrib r) k") (simp_all add: gm_get_or_def merge_contrib_def)
    then show ?thesis by (simp add: contrib_def merge_contrib_get)
  next
    case False
    then have "contrib r' k j = contrib r k j"
      using get'[of k] by (cases "gm_get (cr_contrib r) k") (simp_all add: contrib_def gm_get_or_def)
    then show ?thesis using foreign[OF False] by simp
  qed
  have inner: "distinct (gm_keys cs) \<and> (\<forall>i n. gm_get cs i = Some n \<longrightarrow> 0 < n)"
    if asm: "gm_get (cr_contrib r') k = Some cs" for k cs
  proof -
    obtain c where c: "gm_get (cr_contrib r) k = Some c" "cs = (if fst k \<noteq> u then c else merge_contrib fr t c)"
      using asm get'[of k] by (cases "gm_get (cr_contrib r) k") simp_all
    note okc = canon_wfD(2)[OF wf c(1)]
    have "distinct (gm_keys (merge_contrib fr t c))"
      using okc by (auto simp: merge_contrib_def split: option.split)
    moreover have "0 < n" if "gm_get (merge_contrib fr t c) i = Some n" for i n
      using that conjunct2[OF okc]
      by (auto simp: merge_contrib_def gm_get_or_def add_pos_pos split: option.splits if_splits)
    ultimately show ?thesis using okc c(2) by (cases "fst k = u") auto
  qed
  show thesis using that[OF ab _ eff inner] by (simp add: r')
qed

lemma merge_wf:
  assumes wf: "canon_wf r nxt" shows "canon_wf (fst (canon_MergeInto u fr t r)) nxt"
proof (cases "snd (canon_MergeInto u fr t r)")
  case (Some e)
  then have "fst (canon_MergeInto u fr t r) = r"
    by (auto simp: canon_MergeInto_def Let_def split: option.splits if_splits)
  then show ?thesis using wf by simp
next
  case None
  then obtain r' where ok: "canon_MergeInto u fr t r = (r', None)" by (metis prod.collapse)
  obtain a b where ab: "gm_get (cr_rows r) fr = Some a" "gm_get (cr_rows r) t = Some b" "ce_user a = u" "ce_user b = u"
    and rows: "cr_rows r' = gm_del fr (gm_put t (b\<lparr>ce_mentions := ce_mentions b + ce_mentions a,
        ce_docs := ce_docs b + ce_docs a\<rparr>) (cr_rows r))"
    and eff: "\<And>k j. contrib r' k j = (if j = fr then 0 else if j = t then contrib r k t + contrib r k fr else contrib r k j)"
    and inner: "\<And>k cs. gm_get (cr_contrib r') k = Some cs \<Longrightarrow> distinct (gm_keys cs) \<and> (\<forall>i n. gm_get cs i = Some n \<longrightarrow> 0 < n)"
    by (rule merge_effect[OF wf ok]) blast
  let ?b = "b\<lparr>ce_mentions := ce_mentions b + ce_mentions a, ce_docs := ce_docs b + ce_docs a\<rparr>"
  have get': "gm_get (cr_rows r') j = (if j = fr then None else if j = t then Some ?b else gm_get (cr_rows r) j)" for j
    by (simp add: rows)
  have tot: "total_of (contrib r') j = (if j = fr then 0 else if j = t
      then total_of (contrib r) t + total_of (contrib r) fr else total_of (contrib r) j)" for j
  proof -
    let ?S = "{k. contrib r k t \<noteq> 0} \<union> {k. contrib r k fr \<noteq> 0} \<union> {k. contrib r k j \<noteq> 0}"
    have "finite ?S" using contrib_finite by blast
    moreover have "{k. contrib r' k j \<noteq> 0} \<subseteq> ?S" by (auto simp: eff split: if_splits)
    ultimately have "total_of (contrib r') j = (\<Sum>k\<in>?S. contrib r' k j)"
      "total_of (contrib r) t = (\<Sum>k\<in>?S. contrib r k t)" "total_of (contrib r) fr = (\<Sum>k\<in>?S. contrib r k fr)"
      "total_of (contrib r) j = (\<Sum>k\<in>?S. contrib r k j)"
      by (auto intro!: total_of_superset)
    then show ?thesis by (simp add: eff sum.distrib)
  qed
  note wb = canon_wfD(5)[OF wf ab(2)] and wa = canon_wfD(5)[OF wf ab(1)]
  have row: "\<exists>c. gm_get (cr_rows r) j = Some c \<and> same_identity x c" if "gm_get (cr_rows r') j = Some x" for j x
    using that ab by (auto simp: get' same_identity_def split: if_splits)
  have "canon_wf r' nxt"
    unfolding canon_wf_def
  proof (intro conjI allI impI)
    show "distinct (gm_keys (cr_rows r'))" using canon_wfD(1)[OF wf] by (simp add: rows)
    show "distinct (gm_keys cs)" if "gm_get (cr_contrib r') k = Some cs" for k cs using inner[OF that] by blast
    show "0 < n" if "gm_get (cr_contrib r') k = Some cs" "gm_get cs i = Some n" for k cs i n
      using inner[OF that(1)] that(2) by blast
    show "0 \<le> contrib r' k j" for k j using canon_wfD(3)[OF wf] by (simp add: eff)
    show "\<exists>ce. gm_get (cr_rows r') j = Some ce \<and> ce_user ce = fst k" if "contrib r' k j \<noteq> 0" for k j
      using that ab canon_wfD(4)[OF wf, of k j] canon_wfD(4)[OF wf, of k fr] canon_wfD(4)[OF wf, of k t]
      by (cases "contrib r k t = 0") (auto simp: eff get' split: if_splits)
    show "ce_id x = j" "j < nxt" "ce_mentions x = total_of (contrib r') j" "0 < ce_mentions x"
      if "gm_get (cr_rows r') j = Some x" for j x
      using that wa wb canon_wfD(5)[OF wf, of j x] by (auto simp: get' tot split: if_splits)
    show "i = j" if "gm_get (cr_rows r') i = Some x" "gm_get (cr_rows r') j = Some y" "same_identity x y" for i j x y
      using row[OF that(1)] row[OF that(2)] that(3) canon_wfD(6)[OF wf, of i _ j] by (auto simp: same_identity_def)
  qed
  then show ?thesis using ok by simp
qed

subsection \<open>Runs of the repository\<close>

datatype canon_op =
    CanonCanonicalize "entity list"
  | CanonDecrement uuid uuid
  | CanonMerge uuid uuid uuid

fun canon_step ::
  "(string \<Rightarrow> string) \<Rightarrow> (uuid \<Rightarrow> timestamp) \<Rightarrow> canon_op \<Rightarrow> canon_repo \<times> uuid \<Rightarrow> canon_repo \<times> uuid" where
  "canon_step nfkc now (CanonCanonicalize ms) (r, nxt) =
     (let l = canon_Canonicalize nfkc now nxt ms r in (cl_repo l, cl_next l))"
| "canon_step nfkc now (CanonDecrement u d) (r, nxt) = (canon_DecrementForDocument u d r, nxt)"
| "canon_step nfkc now (CanonMerge u fr t) (r, nxt) = (fst (canon_MergeInto u fr t r), nxt)"

definition canon_run ::
  "(string \<Rightarrow> string) \<Rightarrow> (uuid \<Rightarrow> timestamp) \<Rightarrow> canon_op list \<Rightarrow> canon_repo \<times> uuid" where
  "canon_run nfkc now ops = fold (canon_step nfkc now) ops (canon_new, 0)"

lemma canon_run_snoc: "canon_run nfkc now (ops @ [op]) = canon_step nfkc now op (canon_run nfkc now ops)"
  by (simp add: canon_run_def)

lemma canon_step_wf:
  "canon_wf (fst s) (snd s) \<Longrightarrow> canon_wf (fst (canon_step nfkc now op s)) (snd (canon_step nfkc now op s))"
  by (cases s; cases op)
    (simp_all add: canon_Canonicalize_def Let_def canonicalize_loop_wf decrement_wf merge_wf)

lemma canon_run_wf: "canon_wf (fst (canon_run nfkc now ops)) (snd (canon_run nfkc now ops))"
proof (induction ops rule: rev_induct)
  case Nil
  then show ?case by (simp add: canon_run_def canon_wf_new)
qed (simp add: canon_run_snoc canon_step_wf)

text \<open>
  The discipline the callers keep: no merging, and a document's mentions are canonicalised in one
  call, when it owes nothing yet.
\<close>

fun op_disciplined :: "canon_repo \<Rightarrow> canon_op \<Rightarrow> bool" where
  "op_disciplined r (CanonCanonicalize ms) \<longleftrightarrow>
     (case ms of [] \<Rightarrow> True
      | m # _ \<Rightarrow> list_all (\<lambda>m'. e_user m' = e_user m \<and> e_doc m' = e_doc m) ms \<and>
                 gm_get (cr_contrib r) (e_user m, e_doc m) = None)"
| "op_disciplined r (CanonDecrement u d) \<longleftrightarrow> True"
| "op_disciplined r (CanonMerge u fr t) \<longleftrightarrow> False"

fun run_disciplined ::
  "(string \<Rightarrow> string) \<Rightarrow> (uuid \<Rightarrow> timestamp) \<Rightarrow> canon_op list \<Rightarrow> canon_repo \<times> uuid \<Rightarrow> bool" where
  "run_disciplined nfkc now [] s \<longleftrightarrow> True"
| "run_disciplined nfkc now (op # ops) s \<longleftrightarrow>
     op_disciplined (fst s) op \<and> run_disciplined nfkc now ops (canon_step nfkc now op s)"

lemma canon_step_docs:
  assumes wf: "canon_wf (fst s) (snd s)" and ex: "docs_exact (fst s)" and d: "op_disciplined (fst s) op"
  shows "docs_exact (fst (canon_step nfkc now op s))"
proof (cases op)
  case (CanonCanonicalize ms)
  show ?thesis
  proof (cases ms)
    case Nil
    then show ?thesis using ex CanonCanonicalize by (cases s) (simp add: canon_Canonicalize_def)
  next
    case (Cons m ms')
    let ?l = "\<lparr>cl_repo = fst s, cl_resolved = [], cl_touched = [], cl_next = snd s\<rparr>"
    have "docs_exact (cl_repo (foldl (canonicalize_one nfkc now) ?l ms))"
    proof (rule canonicalize_loop_docs)
      show "i \<in> set (cl_touched ?l) \<longleftrightarrow> contrib (cl_repo ?l) (e_user m, e_doc m) i \<noteq> 0" for i
        using d CanonCanonicalize Cons by (simp add: contrib_def gm_get_or_def)
      show "m' \<in> set ms \<Longrightarrow> e_user m' = e_user m \<and> e_doc m' = e_doc m" for m'
        using d CanonCanonicalize Cons by (auto simp: list_all_iff)
    qed (use wf ex in simp_all)
    then show ?thesis using CanonCanonicalize by (cases s) (simp add: canon_Canonicalize_def Let_def)
  qed
next
  case (CanonDecrement u d)
  then show ?thesis using decrement_docs[OF wf ex] by (cases s) simp
qed (use d in simp)

lemma canon_run_docs:
  "canon_wf (fst s) (snd s) \<Longrightarrow> docs_exact (fst s) \<Longrightarrow> run_disciplined nfkc now ops s \<Longrightarrow>
     docs_exact (fst (fold (canon_step nfkc now) ops s))"
  by (induction ops arbitrary: s) (simp_all add: canon_step_wf canon_step_docs)

subsection \<open>Properties\<close>

text \<open>
  C9. Whatever canonicalisations, reversals and merges reach the repository, an identity's mention
  count is the number of mentions its documents currently owe to it, is never zero, and no two
  identities of a knowledge base share a normalised text and type.
\<close>

theorem canonical_counts_exact:
  "let r = fst (canon_run nfkc now ops)
   in list_all (\<lambda>(i, ce). ce_id ce = i \<and> ce_mentions ce = total_of (contrib r) i \<and> 0 < ce_mentions ce) (cr_rows r)
      \<and> sorted_wrt (\<lambda>(i, a) (j, b). \<not> same_identity a b) (cr_rows r)"
proof -
  let ?r = "fst (canon_run nfkc now ops)"
  note wf = canon_run_wf[of nfkc now ops]
  have "list_all (\<lambda>(i, ce). ce_id ce = i \<and> ce_mentions ce = total_of (contrib ?r) i \<and> 0 < ce_mentions ce) (cr_rows ?r)"
    using canon_wfD(5)[OF wf] gm_mem_iff[OF canon_wfD(1)[OF wf]] by (auto simp: list_all_iff)
  moreover have "sorted_wrt (\<lambda>(i, a) (j, b). \<not> same_identity a b) (cr_rows ?r)"
  proof (rule sorted_wrt_mono_rel)
    show "sorted_wrt (\<lambda>p q. fst p \<noteq> fst q) (cr_rows ?r)"
      using canon_wfD(1)[OF wf] by (simp add: distinct_conv_nth sorted_wrt_iff_nth_less)
    show "(\<lambda>(i, a) (j, b). \<not> same_identity a b) p q"
      if pq: "p \<in> set (cr_rows ?r)" "q \<in> set (cr_rows ?r)" "fst p \<noteq> fst q" for p q
    proof -
      have "gm_get (cr_rows ?r) (fst p) = Some (snd p)" "gm_get (cr_rows ?r) (fst q) = Some (snd q)"
        using pq(1,2) gm_mem_iff[OF canon_wfD(1)[OF wf], of "fst p" "snd p"]
          gm_mem_iff[OF canon_wfD(1)[OF wf], of "fst q" "snd q"] by simp_all
      then have "\<not> same_identity (snd p) (snd q)" using canon_wfD(6)[OF wf] pq(3) by blast
      then show ?thesis by (simp add: case_prod_beta)
    qed
  qed
  ultimately show ?thesis by (simp add: Let_def)
qed

text \<open>
  When each document is canonicalised in one call and reversed before it is canonicalised
  again, and nothing is merged, an identity's document count is the number of documents that
  currently contribute to it.
\<close>

theorem document_counts_exact:
  assumes "run_disciplined nfkc now ops (canon_new, 0)"
    and "gm_get (cr_rows (fst (canon_run nfkc now ops))) i = Some ce"
  shows "ce_docs ce = docs_of (contrib (fst (canon_run nfkc now ops))) i"
  using canon_run_docs[of "(canon_new, 0)"] assms canon_wf_new
  by (simp add: docs_exact_def canon_run_def) (simp add: canon_new_def)

definition mention :: "uuid \<Rightarrow> uuid \<Rightarrow> string \<Rightarrow> entity" where
  "mention i d t = \<lparr>e_id = i, e_doc = d, e_kb = 1, e_user = 1, e_chunk = 0, e_type = ''person'', e_text = t,
     e_start = 0, e_end = 0, e_score = 0, e_canonical = None\<rparr>"

theorem document_counts_exact_witness:
  "let ops = [CanonCanonicalize [mention 1 10 ''Ada'', mention 2 10 ''ada''], CanonCanonicalize [mention 3 11 ''ADA '']];
       r = fst (canon_run (\<lambda>s. s) (\<lambda>i. 0) ops)
   in map (\<lambda>(i, ce). (ce_mentions ce, ce_docs ce)) (cr_rows r) = [(3, 2)]
      \<and> ce_docs (the (gm_get (cr_rows r) 0)) = docs_of (contrib r) 0"
proof -
  let ?ops = "[CanonCanonicalize [mention 1 10 ''Ada'', mention 2 10 ''ada''], CanonCanonicalize [mention 3 11 ''ADA '']]"
  let ?r = "fst (canon_run (\<lambda>s. s) (\<lambda>i. 0) ?ops)"
  have d: "run_disciplined (\<lambda>s. s) (\<lambda>i. 0) ?ops (canon_new, 0)" by code_simp
  have e: "map (\<lambda>(i, ce). (ce_mentions ce, ce_docs ce)) (cr_rows ?r) = [(3, 2)]" by code_simp
  have "gm_get (cr_rows ?r) 0 = Some (the (gm_get (cr_rows ?r) 0))" by code_simp
  from document_counts_exact[OF d this] show ?thesis using e by (simp add: Let_def)
qed

end
