(* ===== verification/Backend.thy ===== *)
theory Backend
  imports JobStatus Canonical
begin

text \<open>
  The collaborators of the pipeline steps, as one record of operations, and the contract they are
  used under.

  \<^item> \<open>backend\<close> has one field per interface method the steps call, polymorphic in the state behind
    the interfaces.
  \<^item> \<open>bview\<close> is what a backend holds: documents, objects, chunks, entities, regions, identities,
    job records and published events. The locale \<open>backend_laws\<close> says that each operation either
    acts on the view as its repository promises, or is hit by an outage, changes nothing and
    reports an error that is no sentinel.
  \<^item> \<open>world\<close> is the in-memory backend of the tests, with a tape of faults that decides for each
    call whether the infrastructure fails; it interprets the locale.

  Objects of the scratch bucket are the JSON documents of the Batch jobs' protocols. They are kept
  decoded (\<open>blob\<close>); decoding one shape as another finds none of the fields and gives the empty
  value, and \<open>NotJSON\<close> is bytes that do not decode.
\<close>

subsection \<open>The Batch protocols\<close>

record raw_region =
  rr_type :: string
  rr_page :: int
  rr_box :: bounding_box
  rr_text :: string
  rr_needs_vlm :: string

record entity_json =
  ej_chunk :: string
  ej_type :: string
  ej_text :: string
  ej_start :: int
  ej_end :: int
  ej_score :: float

datatype blob =
    NotJSON string
  | EmbedRequest "string list"
  | EmbedResponse "float list list"
  | EntitiesRequest "string list" "(string \<times> string) list"
  | EntitiesResponse "entity_json list"
  | LayoutResult "raw_region list"

fun unmarshal_embeddings :: "blob \<Rightarrow> float list list option" where
  "unmarshal_embeddings (NotJSON s) = None"
| "unmarshal_embeddings (EmbedResponse es) = Some es"
| "unmarshal_embeddings _ = Some []"

fun unmarshal_entities_request :: "blob \<Rightarrow> (string \<times> string) list option" where
  "unmarshal_entities_request (NotJSON s) = None"
| "unmarshal_entities_request (EntitiesRequest ts cs) = Some cs"
| "unmarshal_entities_request _ = Some []"

fun unmarshal_entities_response :: "blob \<Rightarrow> entity_json list option" where
  "unmarshal_entities_response (NotJSON s) = None"
| "unmarshal_entities_response (EntitiesResponse es) = Some es"
| "unmarshal_entities_response _ = Some []"

fun unmarshal_regions :: "blob \<Rightarrow> raw_region list option" where
  "unmarshal_regions (NotJSON s) = None"
| "unmarshal_regions (LayoutResult rs) = Some rs"
| "unmarshal_regions _ = Some []"

subsection \<open>The operations\<close>

record 's backend =
  b_doc_get :: "uuid \<Rightarrow> uuid \<Rightarrow> ('s, document) call"
  b_doc_status :: "uuid \<Rightarrow> uuid \<Rightarrow> doc_status \<Rightarrow> 's proc"
  b_up_get :: "string \<Rightarrow> ('s, string) call"
  b_up_presign :: "string \<Rightarrow> ('s, string) call"
  b_scr_put :: "string \<Rightarrow> blob \<Rightarrow> 's proc"
  b_scr_get :: "string \<Rightarrow> ('s, blob) call"
  b_scr_presign :: "string \<Rightarrow> ('s, string) call"
  b_scr_presign_put :: "string \<Rightarrow> ('s, string) call"
  b_scr_delete :: "string \<Rightarrow> 's proc"
  b_chunk_create :: "chunk list \<Rightarrow> 's proc"
  b_chunk_list :: "uuid \<Rightarrow> uuid \<Rightarrow> ('s, chunk list) call"
  b_chunk_embed :: "uuid \<Rightarrow> uuid \<Rightarrow> float list \<Rightarrow> 's proc"
  b_chunk_delete :: "uuid \<Rightarrow> uuid \<Rightarrow> 's proc"
  b_ent_create :: "entity list \<Rightarrow> 's proc"
  b_ent_list :: "uuid \<Rightarrow> uuid \<Rightarrow> ('s, entity list) call"
  b_ent_chunks :: "uuid \<Rightarrow> uuid \<Rightarrow> ('s, (uuid, bool) gomap) call"
  b_ent_delete :: "uuid \<Rightarrow> uuid \<Rightarrow> 's proc"
  b_canon_decrement :: "uuid \<Rightarrow> uuid \<Rightarrow> 's proc"
  b_man_create :: "region list \<Rightarrow> 's proc"
  b_man_list :: "uuid \<Rightarrow> uuid \<Rightarrow> ('s, region list) call"
  b_man_delete :: "uuid \<Rightarrow> uuid \<Rightarrow> 's proc"
  b_publish :: "event \<Rightarrow> 's proc"
  b_status :: "'s status_writer"
  b_stats_indexed :: "(int \<Rightarrow> 's proc) option"

subsection \<open>The view and what each operation promises of it\<close>

record bview =
  v_docs :: "uuid \<Rightarrow> document option"
  v_uploads :: "string \<Rightarrow> string option"
  v_scratch :: "string \<Rightarrow> blob option"
  v_chunks :: "chunk list"
  v_ents :: entity_repo
  v_regions :: region_repo
  v_canon :: canon_repo
  v_recs :: "slot \<Rightarrow> jrecord option"
  v_events :: "event list"
  v_indexed :: int

definition own_doc :: "bview \<Rightarrow> uuid \<Rightarrow> uuid \<Rightarrow> document option" where
  "own_doc v u i = (case v_docs v i of None \<Rightarrow> None | Some d \<Rightarrow> if d_user d = u then Some d else None)"

definition call_ok ::
  "('s \<Rightarrow> bview) \<Rightarrow> (bview \<Rightarrow> bview \<Rightarrow> gerror + 'a \<Rightarrow> bool) \<Rightarrow> ('s, 'a) call \<Rightarrow> bool" where
  "call_ok view R p \<longleftrightarrow>
     (\<forall>s s' r. p s = (s', r) \<longrightarrow>
        R (view s) (view s') r \<or> (view s' = view s \<and> (\<exists>e. r = Inl e \<and> outage e)))"

definition proc_ok :: "('s \<Rightarrow> bview) \<Rightarrow> (bview \<Rightarrow> bview \<Rightarrow> gerror option \<Rightarrow> bool) \<Rightarrow> 's proc \<Rightarrow> bool" where
  "proc_ok view R p \<longleftrightarrow>
     (\<forall>s s' r. p s = (s', r) \<longrightarrow>
        R (view s) (view s') r \<or> (view s' = view s \<and> (\<exists>e. r = Some e \<and> outage e)))"

definition fresh_ids :: "uuid list \<Rightarrow> 'a list \<Rightarrow> uuid set \<Rightarrow> bool" where
  "fresh_ids ids xs used \<longleftrightarrow> length ids = length xs \<and> distinct ids \<and> set ids \<inter> used = {}"

locale backend_laws =
  fixes B :: "'s backend" and view :: "'s \<Rightarrow> bview"
  assumes doc_get: "call_ok view (\<lambda>v v' r. v' = v \<and>
        r = (case own_doc v u i of None \<Rightarrow> Inl ErrDocNotFound | Some d \<Rightarrow> Inr d)) (b_doc_get B u i)"
    and doc_status: "proc_ok view (\<lambda>v v' r.
        case own_doc v u i of None \<Rightarrow> v' = v \<and> r = Some ErrDocNotFound
        | Some d \<Rightarrow> r = None \<and> (\<exists>now. v' = v\<lparr>v_docs := (v_docs v)(i \<mapsto> d\<lparr>d_status := st, d_updated := now\<rparr>)\<rparr>))
        (b_doc_status B u i st)"
    and up_get: "call_ok view (\<lambda>v v' r. v' = v \<and> (\<exists>b. r = Inr b \<and> v_uploads v k = Some b)) (b_up_get B k)"
    and up_presign: "call_ok view (\<lambda>v v' r. v' = v \<and> (\<exists>u. r = Inr u)) (b_up_presign B k)"
    and scr_put: "proc_ok view (\<lambda>v v' r. v' = v\<lparr>v_scratch := (v_scratch v)(k \<mapsto> b)\<rparr> \<and> r = None) (b_scr_put B k b)"
    and scr_get: "call_ok view (\<lambda>v v' r. v' = v \<and> (\<exists>b. r = Inr b \<and> v_scratch v k = Some b)) (b_scr_get B k)"
    and scr_presign: "call_ok view (\<lambda>v v' r. v' = v \<and> (\<exists>u. r = Inr u)) (b_scr_presign B k)"
    and scr_presign_put: "call_ok view (\<lambda>v v' r. v' = v \<and> (\<exists>u. r = Inr u)) (b_scr_presign_put B k)"
    and scr_delete: "proc_ok view (\<lambda>v v' r. v' = v\<lparr>v_scratch := (v_scratch v)(k := None)\<rparr> \<and> r = None) (b_scr_delete B k)"
    and chunk_create: "proc_ok view (\<lambda>v v' r. r = None \<and> (\<exists>ids. fresh_ids ids cs (c_id ` set (v_chunks v)) \<and>
        v' = v\<lparr>v_chunks := chunk_BulkCreate ids cs (v_chunks v)\<rparr>)) (b_chunk_create B cs)"
    and chunk_list: "call_ok view (\<lambda>v v' r. v' = v \<and> r = Inr (chunk_ListByDocument u d (v_chunks v))) (b_chunk_list B u d)"
    and chunk_embed: "proc_ok view (\<lambda>v v' r. v' = v\<lparr>v_chunks := fst (chunk_UpdateEmbedding u i e (v_chunks v))\<rparr> \<and>
        r = snd (chunk_UpdateEmbedding u i e (v_chunks v))) (b_chunk_embed B u i e)"
    and chunk_delete: "proc_ok view (\<lambda>v v' r. v' = v\<lparr>v_chunks := chunk_DeleteByDocument u d (v_chunks v)\<rparr> \<and> r = None)
        (b_chunk_delete B u d)"
    and ent_create: "proc_ok view (\<lambda>v v' r. r = None \<and> (\<exists>ids. fresh_ids ids es (set (gm_keys (v_ents v))) \<and>
        v' = v\<lparr>v_ents := entity_BulkCreate ids es (v_ents v)\<rparr>)) (b_ent_create B es)"
    and ent_list: "call_ok view (\<lambda>v v' r. v' = v \<and> r = Inr (entity_ListByDocument u d (v_ents v))) (b_ent_list B u d)"
    and ent_chunks: "call_ok view (\<lambda>v v' r. v' = v \<and> r = Inr (entity_ChunkIDsWithEntities u d (v_ents v)))
        (b_ent_chunks B u d)"
    and ent_delete: "proc_ok view (\<lambda>v v' r. v' = v\<lparr>v_ents := entity_DeleteByDocument u d (v_ents v)\<rparr> \<and> r = None)
        (b_ent_delete B u d)"
    and canon_decrement: "proc_ok view (\<lambda>v v' r. v' = v\<lparr>v_canon := canon_DecrementForDocument u d (v_canon v)\<rparr> \<and> r = None)
        (b_canon_decrement B u d)"
    and man_create: "proc_ok view (\<lambda>v v' r. r = None \<and> (\<exists>ids. fresh_ids ids rgs (set (gm_keys (v_regions v))) \<and>
        v' = v\<lparr>v_regions := region_BulkCreate ids rgs (v_regions v)\<rparr>)) (b_man_create B rgs)"
    and man_list: "call_ok view (\<lambda>v v' r. v' = v \<and> r = Inr (region_ListByDocument u d (v_regions v))) (b_man_list B u d)"
    and man_delete: "proc_ok view (\<lambda>v v' r. v' = v\<lparr>v_regions := region_DeleteByDocument u d (v_regions v)\<rparr> \<and> r = None)
        (b_man_delete B u d)"
    and publish: "proc_ok view (\<lambda>v v' r. v' = v\<lparr>v_events := v_events v @ [ev]\<rparr> \<and> r = None) (b_publish B ev)"
    and st_enqueue: "call_ok view (\<lambda>v v' r. v' = v\<lparr>v_recs := fst (spec_enqueue key (v_recs v))\<rparr> \<and>
        r = snd (spec_enqueue key (v_recs v))) (sw_enqueue (b_status B) key)"
    and st_processing: "proc_ok view (\<lambda>v v' r. v' = v\<lparr>v_recs := fst (spec_transition key a StProcessing '''' '''' (v_recs v))\<rparr> \<and>
        r = snd (spec_transition key a StProcessing '''' '''' (v_recs v))) (sw_mark_processing (b_status B) key a)"
    and st_phase: "proc_ok view (\<lambda>v v' r. v' = v\<lparr>v_recs := fst (spec_transition key a StProcessing ph '''' (v_recs v))\<rparr> \<and>
        r = snd (spec_transition key a StProcessing ph '''' (v_recs v))) (sw_set_phase (b_status B) key a ph)"
    and st_succeeded: "proc_ok view (\<lambda>v v' r. v' = v\<lparr>v_recs := fst (spec_transition key a StSucceeded '''' '''' (v_recs v))\<rparr> \<and>
        r = snd (spec_transition key a StSucceeded '''' '''' (v_recs v))) (sw_mark_succeeded (b_status B) key a)"
    and st_failed: "proc_ok view (\<lambda>v v' r. v' = v\<lparr>v_recs := fst (spec_transition key a StFailed '''' rs (v_recs v))\<rparr> \<and>
        r = snd (spec_transition key a StFailed '''' rs (v_recs v))) (sw_mark_failed (b_status B) key a rs)"
    and stats_indexed: "b_stats_indexed B = Some record_indexed \<Longrightarrow>
        proc_ok view (\<lambda>v v' r. v' = v\<lparr>v_indexed := v_indexed v + 1\<rparr> \<and> r = None) (record_indexed n)"

lemma call_okD: "call_ok view R p \<Longrightarrow> p s = (s', r) \<Longrightarrow>
    R (view s) (view s') r \<or> (view s' = view s \<and> (\<exists>e. r = Inl e \<and> outage e))"
  unfolding call_ok_def by blast

lemma proc_okD: "proc_ok view R p \<Longrightarrow> p s = (s', r) \<Longrightarrow>
    R (view s) (view s') r \<or> (view s' = view s \<and> (\<exists>e. r = Some e \<and> outage e))"
  unfolding proc_ok_def by blast

lemma outage_not_status: "outage e \<Longrightarrow> \<not> status_error e"
  by (simp add: outage_def sentinels_def status_error_def)

lemma call_ok_recs:
  assumes "call_ok view (\<lambda>v v' r. v' = v\<lparr>v_recs := fst (sp (v_recs v))\<rparr> \<and> r = snd (sp (v_recs v))) p" "p s = (s', r)"
  shows "(v_recs (view s'), r) = sp (v_recs (view s)) \<or>
    (v_recs (view s') = v_recs (view s) \<and> (\<exists>e. r = Inl e \<and> \<not> status_error e))"
  using call_okD[OF assms] outage_not_status by (auto simp: prod_eq_iff)

lemma proc_ok_recs:
  assumes "proc_ok view (\<lambda>v v' r. v' = v\<lparr>v_recs := fst (sp (v_recs v))\<rparr> \<and> r = snd (sp (v_recs v))) p"
  shows "write_refines sp (\<lambda>s. v_recs (view s)) p"
  unfolding write_refines_def
proof (intro allI impI)
  fix s s' r assume "p s = (s', r)"
  from proc_okD[OF assms this] show "(v_recs (view s'), r) = sp (v_recs (view s)) \<or>
    (v_recs (view s') = v_recs (view s) \<and> (\<exists>e. r = Some e \<and> \<not> status_error e))"
    using outage_not_status by (auto simp: prod_eq_iff)
qed

text \<open>A backend's status writer is a job status store over the records in the view.\<close>

sublocale backend_laws \<subseteq> status: job_status_store "b_status B" "\<lambda>s. v_recs (view s)"
proof unfold_locales
  show "enqueue_refines k (\<lambda>s. v_recs (view s)) (sw_enqueue (b_status B) k)" for k
    unfolding enqueue_refines_def using call_ok_recs[OF st_enqueue] by blast
qed (rule proc_ok_recs, rule st_processing st_phase st_succeeded st_failed)+

end
