(* ===== verification/World.thy ===== *)
theory World
  imports Backend
begin

text \<open>
  The mock object store (\<^verbatim>\<open>objectstore/mock\<close>) and the in-memory backend: every repository's
  memory implementation side by side, a counter for new identifiers, a clock, and a tape of
  faults. Each call reads one element of the tape; \<open>True\<close> makes it fail with a plain error before
  it does anything, and past the end of the tape nothing fails. A statement about every tape is a
  statement about every pattern of outages.
\<close>

subsection \<open>The mock object store\<close>

record 'b object_store =
  os_objects :: "(string, 'b) gomap"
  os_delete_err :: "(string, gerror) gomap"
  os_put_err :: "gerror option"

definition os_new :: "'b object_store" where
  "os_new = \<lparr>os_objects = [], os_delete_err = [], os_put_err = None\<rparr>"

definition os_Len :: "'b object_store \<Rightarrow> nat" where
  "os_Len s = length (os_objects s)"

definition os_Put :: "string \<Rightarrow> 'b \<Rightarrow> 'b object_store proc" where
  "os_Put key data s =
     (case os_put_err s of
        Some e \<Rightarrow> (s, Some e)
      | None \<Rightarrow> (s\<lparr>os_objects := gm_put key data (os_objects s)\<rparr>, None))"

definition os_Get :: "string \<Rightarrow> ('b object_store, 'b) call" where
  "os_Get key s =
     (case gm_get (os_objects s) key of
        None \<Rightarrow> (s, Inl (Plain (''mock store: key '' @ key @ '' not found'')))
      | Some data \<Rightarrow> (s, Inr data))"

definition os_Delete :: "string \<Rightarrow> 'b object_store proc" where
  "os_Delete key s =
     (case gm_get (os_delete_err s) key of
        Some e \<Rightarrow> (s, Some e)
      | None \<Rightarrow> (s\<lparr>os_objects := gm_del key (os_objects s)\<rparr>, None))"

definition os_PresignedURL :: "string \<Rightarrow> ('b object_store, string) call" where
  "os_PresignedURL key s =
     (case gm_get (os_objects s) key of
        None \<Rightarrow> (s, Inl (Plain (''mock store: key '' @ key @ '' not found'')))
      | Some data \<Rightarrow> (s, Inr (''http://mock/'' @ key)))"

definition os_PresignedPutURL :: "string \<Rightarrow> ('b object_store, string) call" where
  "os_PresignedPutURL key s = (s, Inr (''http://mock/'' @ key))"

lemma os_round_trip:
  "os_put_err s = None \<Longrightarrow> os_Get key (fst (os_Put key data s)) = (fst (os_Put key data s), Inr data)"
  by (simp add: os_Get_def os_Put_def)

subsection \<open>The world\<close>

record world =
  w_docs :: doc_repo
  w_uploads :: "(string, string) gomap"
  w_scratch :: "(string, blob) gomap"
  w_chunks :: chunk_repo
  w_ents :: entity_repo
  w_regions :: region_repo
  w_canon :: canon_repo
  w_jobs :: jstore
  w_pub :: mem_publisher
  w_sent :: "event list"
  w_stats :: stats_repo
  w_clock :: timestamp
  w_faults :: "bool list"

definition fault :: gerror where
  "fault = Plain ''connection refused''"

definition faulty_call :: "(world, 'a) call \<Rightarrow> (world, 'a) call" where
  "faulty_call p w =
     (case w_faults w of
        [] \<Rightarrow> p w
      | True # fs \<Rightarrow> (w\<lparr>w_faults := fs\<rparr>, Inl fault)
      | False # fs \<Rightarrow> p (w\<lparr>w_faults := fs\<rparr>))"

definition faulty_proc :: "world proc \<Rightarrow> world proc" where
  "faulty_proc p w =
     (case w_faults w of
        [] \<Rightarrow> p w
      | True # fs \<Rightarrow> (w\<lparr>w_faults := fs\<rparr>, Some fault)
      | False # fs \<Rightarrow> p (w\<lparr>w_faults := fs\<rparr>))"

text \<open>New identifiers: the first numbers above every identifier in use.\<close>

definition used_ids :: "world \<Rightarrow> uuid list" where
  "used_ids w = map c_id (w_chunks w) @ gm_keys (w_ents w) @ gm_keys (w_regions w)"

definition new_ids :: "nat \<Rightarrow> world \<Rightarrow> uuid list" where
  "new_ids n w = (let b = Suc (foldr max (used_ids w) 0) in [b ..< b + n])"

text \<open>The mock object stores of the world; their faults come from the tape.\<close>

definition plain_store :: "(string, 'b) gomap \<Rightarrow> 'b object_store" where
  "plain_store m = \<lparr>os_objects = m, os_delete_err = [], os_put_err = None\<rparr>"

definition pure_call :: "(world \<Rightarrow> gerror + 'a) \<Rightarrow> (world, 'a) call" where
  "pure_call f w = (w, f w)"

definition mem_backend :: "world backend" where
  "mem_backend =
     \<lparr>b_doc_get = \<lambda>u i. faulty_call (pure_call (\<lambda>w. doc_Get u i (w_docs w))),
      b_doc_status = \<lambda>u i st. faulty_proc (\<lambda>w.
        case doc_UpdateStatus (w_clock w) u i st (w_docs w) of (r, e) \<Rightarrow> (w\<lparr>w_docs := r\<rparr>, e)),
      b_up_get = \<lambda>k. faulty_call (pure_call (\<lambda>w. snd (os_Get k (plain_store (w_uploads w))))),
      b_up_presign = \<lambda>k. faulty_call (pure_call (\<lambda>w. snd (os_PresignedURL k (plain_store (w_uploads w))))),
      b_scr_put = \<lambda>k b. faulty_proc (\<lambda>w. case os_Put k b (plain_store (w_scratch w)) of (r, e) \<Rightarrow> (w\<lparr>w_scratch := os_objects r\<rparr>, e)),
      b_scr_get = \<lambda>k. faulty_call (pure_call (\<lambda>w. snd (os_Get k (plain_store (w_scratch w))))),
      b_scr_presign = \<lambda>k. faulty_call (pure_call (\<lambda>w. snd (os_PresignedURL k (plain_store (w_scratch w))))),
      b_scr_presign_put = \<lambda>k. faulty_call (pure_call (\<lambda>w. snd (os_PresignedPutURL k (plain_store (w_scratch w))))),
      b_scr_delete = \<lambda>k. faulty_proc (\<lambda>w. case os_Delete k (plain_store (w_scratch w)) of (r, e) \<Rightarrow> (w\<lparr>w_scratch := os_objects r\<rparr>, e)),
      b_chunk_create = \<lambda>cs. faulty_proc (\<lambda>w.
        (w\<lparr>w_chunks := chunk_BulkCreate (new_ids (length cs) w) cs (w_chunks w)\<rparr>, None)),
      b_chunk_list = \<lambda>u d. faulty_call (pure_call (\<lambda>w. Inr (chunk_ListByDocument u d (w_chunks w)))),
      b_chunk_embed = \<lambda>u i v. faulty_proc (\<lambda>w.
        case chunk_UpdateEmbedding u i v (w_chunks w) of (r, e) \<Rightarrow> (w\<lparr>w_chunks := r\<rparr>, e)),
      b_chunk_delete = \<lambda>u d. faulty_proc (\<lambda>w. (w\<lparr>w_chunks := chunk_DeleteByDocument u d (w_chunks w)\<rparr>, None)),
      b_ent_create = \<lambda>es. faulty_proc (\<lambda>w.
        (w\<lparr>w_ents := entity_BulkCreate (new_ids (length es) w) es (w_ents w)\<rparr>, None)),
      b_ent_list = \<lambda>u d. faulty_call (pure_call (\<lambda>w. Inr (entity_ListByDocument u d (w_ents w)))),
      b_ent_chunks = \<lambda>u d. faulty_call (pure_call (\<lambda>w. Inr (entity_ChunkIDsWithEntities u d (w_ents w)))),
      b_ent_delete = \<lambda>u d. faulty_proc (\<lambda>w. (w\<lparr>w_ents := entity_DeleteByDocument u d (w_ents w)\<rparr>, None)),
      b_canon_decrement = \<lambda>u d. faulty_proc (\<lambda>w. (w\<lparr>w_canon := canon_DecrementForDocument u d (w_canon w)\<rparr>, None)),
      b_man_create = \<lambda>rs. faulty_proc (\<lambda>w.
        (w\<lparr>w_regions := region_BulkCreate (new_ids (length rs) w) rs (w_regions w)\<rparr>, None)),
      b_man_list = \<lambda>u d. faulty_call (pure_call (\<lambda>w. Inr (region_ListByDocument u d (w_regions w)))),
      b_man_delete = \<lambda>u d. faulty_proc (\<lambda>w. (w\<lparr>w_regions := region_DeleteByDocument u d (w_regions w)\<rparr>, None)),
      b_publish = \<lambda>ev. faulty_proc (\<lambda>w. (w\<lparr>w_pub := mem_publish ev (w_pub w), w_sent := w_sent w @ [ev]\<rparr>, None)),
      b_status =
        \<lparr>sw_enqueue = \<lambda>k. faulty_call (\<lambda>w. case js_Enqueue k (w_jobs w) of (j, r) \<Rightarrow> (w\<lparr>w_jobs := j\<rparr>, r)),
         sw_mark_processing = \<lambda>k a. faulty_proc (\<lambda>w. case js_MarkProcessing k a (w_jobs w) of (j, e) \<Rightarrow> (w\<lparr>w_jobs := j\<rparr>, e)),
         sw_set_phase = \<lambda>k a ph. faulty_proc (\<lambda>w. case js_SetPhase k a ph (w_jobs w) of (j, e) \<Rightarrow> (w\<lparr>w_jobs := j\<rparr>, e)),
         sw_mark_succeeded = \<lambda>k a. faulty_proc (\<lambda>w. case js_MarkSucceeded k a (w_jobs w) of (j, e) \<Rightarrow> (w\<lparr>w_jobs := j\<rparr>, e)),
         sw_mark_failed = \<lambda>k a rs. faulty_proc (\<lambda>w. case js_MarkFailed k a rs (w_jobs w) of (j, e) \<Rightarrow> (w\<lparr>w_jobs := j\<rparr>, e))\<rparr>,
      b_stats_indexed = Some (\<lambda>n. faulty_proc (\<lambda>w. (w\<lparr>w_stats := stats_RecordDocumentIndexed n (w_stats w)\<rparr>, None)))\<rparr>"

subsection \<open>The world keeps the contract\<close>

definition world_view :: "world \<Rightarrow> bview" where
  "world_view w =
     \<lparr>v_docs = gm_get (w_docs w), v_uploads = gm_get (w_uploads w), v_scratch = gm_get (w_scratch w),
      v_chunks = w_chunks w, v_ents = w_ents w, v_regions = w_regions w, v_canon = w_canon w,
      v_recs = js_recs (w_jobs w), v_events = w_sent w,
      v_indexed = sn_documents_indexed (st_snap (w_stats w))\<rparr>"

lemma world_view_upd [simp]:
  "world_view (w\<lparr>w_faults := fs\<rparr>) = world_view w"
  "world_view (w\<lparr>w_pub := p\<rparr>) = world_view w"
  "world_view (w\<lparr>w_docs := a\<rparr>) = (world_view w)\<lparr>v_docs := gm_get a\<rparr>"
  "world_view (w\<lparr>w_scratch := c\<rparr>) = (world_view w)\<lparr>v_scratch := gm_get c\<rparr>"
  "world_view (w\<lparr>w_chunks := d\<rparr>) = (world_view w)\<lparr>v_chunks := d\<rparr>"
  "world_view (w\<lparr>w_ents := e\<rparr>) = (world_view w)\<lparr>v_ents := e\<rparr>"
  "world_view (w\<lparr>w_regions := f\<rparr>) = (world_view w)\<lparr>v_regions := f\<rparr>"
  "world_view (w\<lparr>w_canon := g\<rparr>) = (world_view w)\<lparr>v_canon := g\<rparr>"
  "world_view (w\<lparr>w_jobs := j\<rparr>) = (world_view w)\<lparr>v_recs := js_recs j\<rparr>"
  "world_view (w\<lparr>w_pub := p, w_sent := es\<rparr>) = (world_view w)\<lparr>v_events := es\<rparr>"
  "world_view (w\<lparr>w_stats := st\<rparr>) = (world_view w)\<lparr>v_indexed := sn_documents_indexed (st_snap st)\<rparr>"
  by (simp_all add: world_view_def)

lemma world_view_sel [simp]:
  "v_docs (world_view w) = gm_get (w_docs w)" "v_uploads (world_view w) = gm_get (w_uploads w)"
  "v_scratch (world_view w) = gm_get (w_scratch w)" "v_chunks (world_view w) = w_chunks w"
  "v_ents (world_view w) = w_ents w" "v_regions (world_view w) = w_regions w"
  "v_canon (world_view w) = w_canon w" "v_recs (world_view w) = js_recs (w_jobs w)"
  "v_events (world_view w) = w_sent w" "v_indexed (world_view w) = sn_documents_indexed (st_snap (w_stats w))"
  by (simp_all add: world_view_def)

lemma outage_fault [simp]: "outage fault"
  by (simp add: fault_def)

text \<open>A call behind the tape keeps the contract when the call itself does.\<close>

lemma faulty_call_ok:
  assumes "\<And>w w' r. p w = (w', r) \<Longrightarrow>
    R (world_view w) (world_view w') r \<or> (world_view w' = world_view w \<and> (\<exists>e. r = Inl e \<and> outage e))"
  shows "call_ok world_view R (faulty_call p)"
  unfolding call_ok_def
proof (intro allI impI)
  fix w w' r assume a: "faulty_call p w = (w', r)"
  show "R (world_view w) (world_view w') r \<or> (world_view w' = world_view w \<and> (\<exists>e. r = Inl e \<and> outage e))"
  proof (cases "w_faults w")
    case Nil
    then show ?thesis using a assms[of w w' r] by (simp add: faulty_call_def)
  next
    case (Cons b fs)
    then show ?thesis using a assms[of "w\<lparr>w_faults := fs\<rparr>" w' r]
      by (cases b) (auto simp: faulty_call_def)
  qed
qed

lemma faulty_proc_ok:
  assumes "\<And>w w' r. p w = (w', r) \<Longrightarrow>
    R (world_view w) (world_view w') r \<or> (world_view w' = world_view w \<and> (\<exists>e. r = Some e \<and> outage e))"
  shows "proc_ok world_view R (faulty_proc p)"
  unfolding proc_ok_def
proof (intro allI impI)
  fix w w' r assume a: "faulty_proc p w = (w', r)"
  show "R (world_view w) (world_view w') r \<or> (world_view w' = world_view w \<and> (\<exists>e. r = Some e \<and> outage e))"
  proof (cases "w_faults w")
    case Nil
    then show ?thesis using a assms[of w w' r] by (simp add: faulty_proc_def)
  next
    case (Cons b fs)
    then show ?thesis using a assms[of "w\<lparr>w_faults := fs\<rparr>" w' r]
      by (cases b) (auto simp: faulty_proc_def)
  qed
qed

lemma foldr_max_ge: "x \<in> set xs \<Longrightarrow> x \<le> foldr max xs (0 :: nat)"
  by (induction xs) auto

lemma new_ids_fresh: "fresh_ids (new_ids (length xs) w) xs (set (used_ids w))"
  unfolding fresh_ids_def new_ids_def Let_def by (auto dest!: foldr_max_ge simp: Suc_le_eq)

lemma fresh_ids_subset: "fresh_ids ids xs U \<Longrightarrow> V \<subseteq> U \<Longrightarrow> fresh_ids ids xs V"
  unfolding fresh_ids_def by blast

lemma new_ids_fresh_stores:
  "fresh_ids (new_ids (length xs) w) xs (c_id ` set (w_chunks w))"
  "fresh_ids (new_ids (length xs) w) xs (set (gm_keys (w_ents w)))"
  "fresh_ids (new_ids (length xs) w) xs (set (gm_keys (w_regions w)))"
  by (rule fresh_ids_subset[OF new_ids_fresh], force simp: used_ids_def)+

lemma js_recs_transition': "js_transition k a to ph rs s = (s', r) \<Longrightarrow>
    js_recs s' = fst (spec_transition k a to ph rs (js_recs s)) \<and> r = snd (spec_transition k a to ph rs (js_recs s))"
  using js_recs_transition by (metis fst_conv snd_conv)

lemma js_recs_Enqueue': "js_Enqueue k s = (s', r) \<Longrightarrow>
    js_recs s' = fst (spec_enqueue k (js_recs s)) \<and> r = snd (spec_enqueue k (js_recs s))"
  using js_recs_Enqueue by (metis fst_conv snd_conv)

lemmas world_op_simps = pure_call_def doc_Get_def own_doc_def doc_UpdateStatus_def os_Get_def os_Put_def
  os_Delete_def os_PresignedURL_def os_PresignedPutURL_def plain_store_def stats_RecordDocumentIndexed_def Let_def

lemma mem_stats_ok:
  assumes "b_stats_indexed mem_backend = Some record_indexed"
  shows "proc_ok world_view (\<lambda>v v' r. v' = v\<lparr>v_indexed := v_indexed v + 1\<rparr> \<and> r = None) (record_indexed n)"
proof -
  have "record_indexed = (\<lambda>n. faulty_proc (\<lambda>w. (w\<lparr>w_stats := stats_RecordDocumentIndexed n (w_stats w)\<rparr>, None)))"
    using assms by (simp add: mem_backend_def)
  then show ?thesis by (simp only:) (rule faulty_proc_ok, auto simp: world_op_simps)
qed

lemma mem_create_ok:
  "proc_ok world_view (\<lambda>v v' r. r = None \<and> (\<exists>ids. fresh_ids ids cs (c_id ` set (v_chunks v)) \<and>
     v' = v\<lparr>v_chunks := chunk_BulkCreate ids cs (v_chunks v)\<rparr>)) (b_chunk_create mem_backend cs)"
  "proc_ok world_view (\<lambda>v v' r. r = None \<and> (\<exists>ids. fresh_ids ids es (set (gm_keys (v_ents v))) \<and>
     v' = v\<lparr>v_ents := entity_BulkCreate ids es (v_ents v)\<rparr>)) (b_ent_create mem_backend es)"
  "proc_ok world_view (\<lambda>v v' r. r = None \<and> (\<exists>ids. fresh_ids ids rgs (set (gm_keys (v_regions v))) \<and>
     v' = v\<lparr>v_regions := region_BulkCreate ids rgs (v_regions v)\<rparr>)) (b_man_create mem_backend rgs)"
  unfolding mem_backend_def backend.simps
  by (rule faulty_proc_ok, use new_ids_fresh_stores in fastforce)+

interpretation mem: backend_laws mem_backend world_view
  by (unfold_locales; (rule mem_stats_ok, assumption)?; (rule mem_create_ok)?;
      (unfold mem_backend_def backend.simps status_writer.simps)?; (rule faulty_call_ok faulty_proc_ok)?;
      (auto simp: world_op_simps js_mark_defs fun_upd_def update_conv' delete_conv
        dest!: js_recs_transition' js_recs_Enqueue' split: option.splits prod.splits if_splits)?)

end
