(* ===== verification/EmbedTail.thy ===== *)
theory EmbedTail
  imports World
begin

text \<open>
  \<^verbatim>\<open>internal/pipeline/embedtail\<close>: the end of every ingestion run. \<open>Stage\<close> uploads the
  chunk texts for the embedding job, \<open>tail_Finalize\<close> backfills the vectors and marks the document
  indexed, \<open>tail_RecordFailure\<close> records a failed run. Reading an object is one call: opening it and
  reading it to the end fail the same way. The context over \<open>backend_laws\<close> shows what a finished
  run has done to the view.
\<close>

record pipeline_cfg =
  pc_split :: "string \<Rightarrow> chunk list"
  pc_uuid :: "uuid \<Rightarrow> string"
  pc_parse :: "string \<Rightarrow> uuid option"
  pc_allowed :: "string list"
  pc_batch :: int

definition run_key :: "job_run \<Rightarrow> jkey" where
  "run_key run = \<lparr>k_user = run_user run, k_doc = run_doc run, k_type = run_type run\<rparr>"

record staged =
  sg_count :: nat
  sg_job_name :: string
  sg_texts_url :: string
  sg_result_url :: string
  sg_input_key :: string
  sg_result_key :: string

definition Stage :: "'s backend \<Rightarrow> pipeline_cfg \<Rightarrow> job_run \<Rightarrow> string list \<Rightarrow> ('s, staged) call" where
  "Stage B cfg run texts =
     (let body = EmbedRequest texts;
          name = pc_uuid cfg (run_doc run) @ ''-'' @ itoa (run_attempt run);
          prefix = ''batch-jobs/embeddings/'' @ name;
          st = \<lparr>sg_count = length texts, sg_job_name = ''embedding-'' @ name, sg_texts_url = '''',
                sg_result_url = '''', sg_input_key = prefix @ ''/input.json'',
                sg_result_key = prefix @ ''/result.json''\<rparr>
      in try_proc (b_scr_put B (sg_input_key st) body)
           (\<lambda>e s. (s, Inl (Wrapf ''upload embed input'' (Transient e))))
           (try_call (b_scr_presign B (sg_input_key st))
              (\<lambda>e s. (s, Inl (Wrapf ''presign embed input'' (Transient e))))
              (\<lambda>texts_url. try_call (b_scr_presign_put B (sg_result_key st))
                 (\<lambda>e s. (s, Inl (Wrapf ''presign embed result'' (Transient e))))
                 (\<lambda>result_url s. (s, Inr (st\<lparr>sg_texts_url := texts_url, sg_result_url := result_url\<rparr>))))))"

definition embed_one :: "'s backend \<Rightarrow> job_run \<Rightarrow> chunk \<times> float list \<Rightarrow> 's proc" where
  "embed_one B run p =
     try_proc (b_chunk_embed B (run_user run) (c_id (fst p)) (snd p))
       (\<lambda>e s. (s, Some (Wrapf ''update embedding for chunk'' (Transient e))))
       (\<lambda>s. (s, None))"

definition backfill :: "'s backend \<Rightarrow> job_run \<Rightarrow> staged \<Rightarrow> 's proc" where
  "backfill B run st =
     try_call (b_scr_get B (sg_result_key st))
       (\<lambda>e s. (s, Some (Wrapf ''embed result: read object'' (Transient e))))
       (\<lambda>body s.
          case unmarshal_embeddings body of
            None \<Rightarrow> (s, Some (Plain ''unmarshal embed result''))
          | Some embeddings \<Rightarrow>
              if length embeddings \<noteq> sg_count st
              then (s, Some (Plain ''embed job returned a wrong number of embeddings''))
              else try_call (b_chunk_list B (run_user run) (run_doc run))
                     (\<lambda>e s. (s, Some (Wrapf ''list chunks'' (Transient e))))
                     (\<lambda>persisted s.
                        if length persisted \<noteq> length embeddings
                        then (s, Some (Plain ''persisted chunks do not match the embeddings''))
                        else each_proc (embed_one B run) (zip persisted embeddings) s) s)"

definition markIndexed :: "'s backend \<Rightarrow> job_run \<Rightarrow> 's proc" where
  "markIndexed B run =
     try_call (b_doc_get B (run_user run) (run_doc run))
       (\<lambda>e s. (s, Some (Wrapf ''get document'' (TransientUnless e [ErrDocNotFound]))))
       (\<lambda>doc s.
          if d_status doc = DocIndexed then (s, None)
          else try_proc (b_doc_status B (run_user run) (run_doc run) DocIndexed)
                 (\<lambda>e s. (s, Some (Wrapf ''mark document indexed'' (Transient e))))
                 (\<lambda>s. case b_stats_indexed B of
                        None \<Rightarrow> (s, None)
                      | Some record_indexed \<Rightarrow> ignore (record_indexed (d_size doc)) (\<lambda>s. (s, None)) s) s)"

definition tail_Delete :: "'s backend \<Rightarrow> staged option \<Rightarrow> string list \<Rightarrow> 's \<Rightarrow> 's" where
  "tail_Delete B staged extraKeys =
     (let keys = (case staged of None \<Rightarrow> extraKeys | Some st \<Rightarrow> [sg_input_key st, sg_result_key st] @ extraKeys)
      in each_ignore (b_scr_delete B) (filter (\<lambda>key. key \<noteq> '''') keys))"

definition tail_succeed :: "'s backend \<Rightarrow> job_run \<Rightarrow> staged option \<Rightarrow> string list \<Rightarrow> 's proc" where
  "tail_succeed B run staged extraKeys s =
     (case sw_mark_succeeded (b_status B) (run_key run) (run_attempt run) s of
        (s, r) \<Rightarrow>
          (case r of
             Some e \<Rightarrow>
               if \<not> Superseded (Some e)
               then (s, Some (Wrapf ''mark succeeded'' (TransientUnless e [ErrJobNotFound])))
               else (tail_Delete B staged extraKeys s, None)
           | None \<Rightarrow> (tail_Delete B staged extraKeys s, None)))"

definition tail_Finalize ::
  "'s backend \<Rightarrow> job_run \<Rightarrow> staged option \<Rightarrow> bool \<Rightarrow> string list \<Rightarrow> 's proc" where
  "tail_Finalize B run staged alreadyIndexed extraKeys =
     try_proc (case staged of None \<Rightarrow> (\<lambda>s. (s, None)) | Some st \<Rightarrow> backfill B run st)
       (\<lambda>e s. (s, Some e))
       (try_proc (if alreadyIndexed then (\<lambda>s. (s, None)) else markIndexed B run)
          (\<lambda>e s. (s, Some e))
          (tail_succeed B run staged extraKeys))"

definition tail_RecordFailure ::
  "'s backend \<Rightarrow> job_run \<Rightarrow> step_error option \<Rightarrow> staged option \<Rightarrow> string list \<Rightarrow> 's proc" where
  "tail_RecordFailure B run stepErr staged extraKeys s =
     (case sw_mark_failed (b_status B) (run_key run) (run_attempt run) (Reason stepErr) s of
        (s, err) \<Rightarrow>
          if Superseded err then (s, None)
          else if err \<noteq> None \<and> \<not> err_is err ErrJobNotFound
          then (s, Some (Wrapf ''mark attempt failed'' (Transient (the err))))
          else
            (case b_doc_status B (run_user run) (run_doc run) DocFailed s of
               (s, err) \<Rightarrow>
                 if err \<noteq> None \<and> \<not> err_is err ErrDocNotFound
                 then (s, Some (Wrapf ''mark document failed'' (Transient (the err))))
                 else (tail_Delete B staged extraKeys s, None)))"

subsection \<open>Writing embeddings back\<close>

definition put_embedding :: "(uuid \<times> float list) list \<Rightarrow> chunk \<Rightarrow> chunk" where
  "put_embedding ps c = (case map_of ps (c_id c) of None \<Rightarrow> c | Some v \<Rightarrow> c\<lparr>c_embedding := v\<rparr>)"

lemma put_embedding_sel [simp]:
  "c_id (put_embedding ps c) = c_id c" "c_user (put_embedding ps c) = c_user c"
  "c_doc (put_embedding ps c) = c_doc c" "c_text (put_embedding ps c) = c_text c"
  "c_ordinal (put_embedding ps c) = c_ordinal c"
  by (simp_all add: put_embedding_def split: option.split)

lemma put_embedding_Nil [simp]: "put_embedding [] c = c"
  by (simp add: put_embedding_def)

lemma map_put_absent: "i \<notin> c_id ` set cs \<Longrightarrow> map (put_embedding [(i, v)]) cs = cs"
  by (induction cs) (auto simp: put_embedding_def)

lemma chunk_UpdateEmbedding_map:
  "distinct (map c_id cs) \<Longrightarrow> (\<exists>c \<in> set cs. c_id c = i \<and> c_user c = u) \<Longrightarrow>
     chunk_UpdateEmbedding u i v cs = (map (put_embedding [(i, v)]) cs, None)"
proof (induction cs)
  case (Cons c cs)
  show ?case
  proof (cases "c_id c = i \<and> c_user c = u")
    case True
    then have "put_embedding [(i, v)] c = c\<lparr>c_embedding := v\<rparr>" by (simp add: put_embedding_def)
    then show ?thesis using True Cons.prems(1) map_put_absent[of i cs v] by simp
  next
    case False
    then have "\<exists>c \<in> set cs. c_id c = i \<and> c_user c = u" using Cons.prems(2) by auto
    moreover from this have "c_id c \<noteq> i" using Cons.prems(1) by auto
    ultimately show ?thesis using Cons by (simp add: put_embedding_def)
  qed
qed simp

lemma put_embedding_compose:
  "map_of ps i = None \<Longrightarrow> put_embedding ps (put_embedding [(i, v)] c) = put_embedding ((i, v) # ps) c"
  by (auto simp: put_embedding_def split: option.split)

definition chunk_ids_ok :: "bview \<Rightarrow> bool" where
  "chunk_ids_ok v \<longleftrightarrow> distinct (map c_id (v_chunks v))"

definition doc_ids_ok :: "bview \<Rightarrow> bool" where
  "doc_ids_ok v \<longleftrightarrow> (\<forall>i d. v_docs v i = Some d \<longrightarrow> d_id d = i)"

lemma list_map_put: "chunk_ListByDocument u d (map (put_embedding ps) cs) = map (put_embedding ps) (chunk_ListByDocument u d cs)"
  by (simp add: chunk_ListByDocument_def filter_map comp_def)

lemma put_embedding_zip:
  assumes "distinct (map c_id xs)" "length es = length xs"
  shows "map c_embedding (map (put_embedding (zip (map c_id xs) es)) xs) = es"
proof (rule nth_equalityI)
  fix i assume "i < length (map c_embedding (map (put_embedding (zip (map c_id xs) es)) xs))"
  then have i: "i < length xs" by simp
  have "map_of (zip (map c_id xs) es) (map c_id xs ! i) = Some (es ! i)"
    using assms i by (intro map_of_zip_nth) simp_all
  then show "map c_embedding (map (put_embedding (zip (map c_id xs) es)) xs) ! i = es ! i"
    using i by (simp add: put_embedding_def)
qed (use assms in simp)

context backend_laws
begin

lemma each_embed:
  "each_proc (embed_one B run) ps s = (s', None) \<Longrightarrow> chunk_ids_ok (view s) \<Longrightarrow> distinct (map (c_id \<circ> fst) ps) \<Longrightarrow>
   (\<forall>p \<in> set ps. \<exists>c \<in> set (v_chunks (view s)). c_id c = c_id (fst p) \<and> c_user c = run_user run) \<Longrightarrow>
   view s' = (view s)\<lparr>v_chunks := map (put_embedding (map (\<lambda>p. (c_id (fst p), snd p)) ps)) (v_chunks (view s))\<rparr>"
proof (induction ps arbitrary: s)
  case Nil
  then show ?case by (simp add: map_idI)
next
  case (Cons p ps)
  obtain s1 where s1: "embed_one B run p s = (s1, None)" "each_proc (embed_one B run) ps s1 = (s', None)"
    using Cons.prems(1) by (auto split: prod.splits option.splits)
  have "b_chunk_embed B (run_user run) (c_id (fst p)) (snd p) s = (s1, None)"
    using s1(1) by (auto simp: embed_one_def try_proc_def split: prod.splits option.splits)
  from proc_okD[OF chunk_embed this]
  have v1: "view s1 = (view s)\<lparr>v_chunks := map (put_embedding [(c_id (fst p), snd p)]) (v_chunks (view s))\<rparr>"
    using chunk_UpdateEmbedding_map[of "v_chunks (view s)" "c_id (fst p)" "run_user run" "snd p"] Cons.prems(2,4)
    by (auto simp: chunk_ids_ok_def)
  have "chunk_ids_ok (view s1)" using Cons.prems(2) by (simp add: v1 chunk_ids_ok_def comp_def)
  moreover have "\<forall>q \<in> set ps. \<exists>c \<in> set (v_chunks (view s1)). c_id c = c_id (fst q) \<and> c_user c = run_user run"
    using Cons.prems(4) by (auto simp: v1)
  ultimately have "view s' = (view s1)\<lparr>v_chunks := map (put_embedding (map (\<lambda>p. (c_id (fst p), snd p)) ps)) (v_chunks (view s1))\<rparr>"
    using Cons.IH[OF s1(2)] Cons.prems(3) by simp
  moreover have "map_of (map (\<lambda>p. (c_id (fst p), snd p)) ps) (c_id (fst p)) = None"
    using Cons.prems(3) by (auto simp: map_of_eq_None_iff image_iff)
  ultimately show ?case by (simp add: v1 put_embedding_compose comp_def)
qed

text \<open>A backfill that returns has given the document's chunks the job's vectors, in order.\<close>

lemma backfill_done:
  assumes "backfill B run st s = (s', None)" "chunk_ids_ok (view s)"
  obtains body es ps where "v_scratch (view s) (sg_result_key st) = Some body" "unmarshal_embeddings body = Some es"
    "length es = sg_count st"
    "view s' = (view s)\<lparr>v_chunks := map (put_embedding ps) (v_chunks (view s))\<rparr>"
    "map c_embedding (chunk_ListByDocument (run_user run) (run_doc run) (v_chunks (view s'))) = es"
proof -
  let ?u = "run_user run" and ?d = "run_doc run"
  from assms(1) obtain s1 body where s1: "b_scr_get B (sg_result_key st) s = (s1, Inr body)"
    and k1: "(case unmarshal_embeddings body of None \<Rightarrow> (s1, Some (Plain ''unmarshal embed result''))
          | Some es \<Rightarrow> if length es \<noteq> sg_count st
              then (s1, Some (Plain ''embed job returned a wrong number of embeddings''))
              else try_call (b_chunk_list B ?u ?d) (\<lambda>e s. (s, Some (Wrapf ''list chunks'' (Transient e))))
                     (\<lambda>persisted s. if length persisted \<noteq> length es
                        then (s, Some (Plain ''persisted chunks do not match the embeddings''))
                        else each_proc (embed_one B run) (zip persisted es) s) s1) = (s', None)"
    by (auto simp: backfill_def try_call_def split: prod.splits sum.splits)
  have v1: "view s1 = view s" "v_scratch (view s) (sg_result_key st) = Some body"
    using call_okD[OF scr_get s1] by auto
  from k1 obtain es where es: "unmarshal_embeddings body = Some es" "length es = sg_count st"
    and k2: "try_call (b_chunk_list B ?u ?d) (\<lambda>e s. (s, Some (Wrapf ''list chunks'' (Transient e))))
                     (\<lambda>persisted s. if length persisted \<noteq> length es
                        then (s, Some (Plain ''persisted chunks do not match the embeddings''))
                        else each_proc (embed_one B run) (zip persisted es) s) s1 = (s', None)"
    by (auto split: option.splits if_splits)
  from k2 obtain s2 persisted where s2: "b_chunk_list B ?u ?d s1 = (s2, Inr persisted)"
    and len: "length persisted = length es" and k3: "each_proc (embed_one B run) (zip persisted es) s2 = (s', None)"
    by (auto simp: try_call_def split: prod.splits sum.splits if_splits)
  have v2: "view s2 = view s" "persisted = chunk_ListByDocument ?u ?d (v_chunks (view s))"
    using call_okD[OF chunk_list s2] v1 by auto
  have dist: "distinct (map c_id persisted)"
    using assms(2) unfolding v2 chunk_ids_ok_def chunk_ListByDocument_def by (simp add: distinct_map_filter)
  have z: "map (\<lambda>p. (c_id (fst p), snd p)) (zip persisted es) = zip (map c_id persisted) es"
    by (simp add: zip_map1 map_prod_def case_prod_beta)
  have "map (c_id \<circ> fst) (zip persisted es) = map c_id persisted"
    using len by (simp flip: map_map)
  then have d2: "distinct (map (c_id \<circ> fst) (zip persisted es))" using dist by simp
  have own: "\<forall>p \<in> set (zip persisted es). \<exists>c \<in> set (v_chunks (view s2)). c_id c = c_id (fst p) \<and> c_user c = ?u"
    by (auto simp: v2 chunk_ListByDocument_def dest!: set_zip_leftD)
  have v3: "view s' = (view s)\<lparr>v_chunks := map (put_embedding (zip (map c_id persisted) es)) (v_chunks (view s))\<rparr>"
    using each_embed[OF k3 _ d2 own] assms(2) by (simp add: v2(1) z)
  show thesis
    using that[OF v1(2) es v3] put_embedding_zip[OF dist len[symmetric]] v2(2) by (simp add: v3 list_map_put)
qed

text \<open>Deleting the handoff objects touches the scratch bucket only.\<close>

lemma scratch_delete_view: "\<exists>f. view (fst (b_scr_delete B k s)) = (view s)\<lparr>v_scratch := f\<rparr>"
proof -
  obtain s' r where p: "b_scr_delete B k s = (s', r)" by (cases "b_scr_delete B k s")
  have "view s = (view s)\<lparr>v_scratch := v_scratch (view s)\<rparr>" by simp
  with proc_okD[OF scr_delete p] p show ?thesis by (metis fst_conv)
qed

lemma each_delete_view: "\<exists>f. view (each_ignore (b_scr_delete B) ks s) = (view s)\<lparr>v_scratch := f\<rparr>"
proof (induction ks arbitrary: s)
  case Nil
  have "view s = (view s)\<lparr>v_scratch := v_scratch (view s)\<rparr>" by simp
  then show ?case by (metis each_ignore_simps(1))
next
  case (Cons k ks)
  obtain f where "view (fst (b_scr_delete B k s)) = (view s)\<lparr>v_scratch := f\<rparr>" using scratch_delete_view by blast
  moreover obtain g where "view (each_ignore (b_scr_delete B) ks (fst (b_scr_delete B k s)))
      = (view (fst (b_scr_delete B k s)))\<lparr>v_scratch := g\<rparr>" using Cons.IH by blast
  ultimately show ?case by auto
qed

lemma tail_Delete_view: "\<exists>f. view (tail_Delete B st ks s) = (view s)\<lparr>v_scratch := f\<rparr>"
  unfolding tail_Delete_def Let_def by (rule each_delete_view)

lemma markIndexed_done:
  assumes "markIndexed B run s = (s', None)"
  obtains d docs n where "own_doc (view s) (run_user run) (run_doc run) = Some d"
    "view s' = (view s)\<lparr>v_docs := docs, v_indexed := n\<rparr>"
    "\<exists>t. docs (run_doc run) = Some (d\<lparr>d_status := DocIndexed, d_updated := t\<rparr>)"
    "\<forall>i. i \<noteq> run_doc run \<longrightarrow> docs i = v_docs (view s) i"
proof -
  let ?u = "run_user run" and ?i = "run_doc run"
  from assms obtain s1 d where g: "b_doc_get B ?u ?i s = (s1, Inr d)"
    by (auto simp: markIndexed_def try_call_def split: prod.splits sum.splits)
  from call_okD[OF doc_get g] have v1: "view s1 = view s" and d: "own_doc (view s) ?u ?i = Some d"
    by (auto split: option.splits)
  from d have di: "v_docs (view s) ?i = Some d" by (auto simp: own_doc_def split: option.splits if_splits)
  show thesis
  proof (cases "d_status d = DocIndexed")
    case True
    then have "s' = s1" using assms g by (simp add: markIndexed_def)
    then have "view s' = (view s)\<lparr>v_docs := v_docs (view s), v_indexed := v_indexed (view s)\<rparr>" using v1 by simp
    moreover have "d\<lparr>d_status := DocIndexed, d_updated := d_updated d\<rparr> = d" using True by (cases d) simp
    ultimately show ?thesis using that[OF d] di by metis
  next
    case False
    obtain s2 r2 where s2': "b_doc_status B ?u ?i DocIndexed s1 = (s2, r2)"
      by (cases "b_doc_status B ?u ?i DocIndexed s1")
    have "r2 = None" using assms g False s2' by (cases r2) (simp_all add: markIndexed_def)
    then have s2: "b_doc_status B ?u ?i DocIndexed s1 = (s2, None)"
      and rest: "(case b_stats_indexed B of None \<Rightarrow> (s2, None :: gerror option)
          | Some record_indexed \<Rightarrow> ignore (record_indexed (d_size d)) (\<lambda>s. (s, None)) s2) = (s', None)"
      using assms g False s2' by (simp_all add: markIndexed_def)
    from proc_okD[OF doc_status s2] obtain t where
      v2: "view s2 = (view s)\<lparr>v_docs := (v_docs (view s))(?i \<mapsto> d\<lparr>d_status := DocIndexed, d_updated := t\<rparr>)\<rparr>"
      using d v1 by auto
    have "\<exists>n. view s' = (view s2)\<lparr>v_indexed := n\<rparr>"
    proof (cases "b_stats_indexed B")
      case None
      then have "view s' = (view s2)\<lparr>v_indexed := v_indexed (view s2)\<rparr>" using rest by simp
      then show ?thesis by blast
    next
      case (Some rec)
      obtain r where r: "rec (d_size d) s2 = (s', r)" using rest Some by (cases "rec (d_size d) s2") (simp add: ignore_def)
      have "view s2 = (view s2)\<lparr>v_indexed := v_indexed (view s2)\<rparr>" by simp
      with proc_okD[OF stats_indexed[OF Some] r] show ?thesis by metis
    qed
    then show ?thesis using that[OF d, where docs = "(v_docs (view s))(?i \<mapsto> d\<lparr>d_status := DocIndexed, d_updated := t\<rparr>)"] v2 by auto
  qed
qed

lemma tail_succeed_done:
  assumes "tail_succeed B run st ks s = (s', None)"
  obtains rs f where "view s' = (view s)\<lparr>v_recs := rs, v_scratch := f\<rparr>"
    "(rs, None) = spec_transition (run_key run) (run_attempt run) StSucceeded '''' '''' (v_recs (view s)) \<or>
     rs = v_recs (view s)"
proof -
  obtain s1 r where p: "sw_mark_succeeded (b_status B) (run_key run) (run_attempt run) s = (s1, r)"
    by (cases "sw_mark_succeeded (b_status B) (run_key run) (run_attempt run) s")
  have r: "r = None \<or> Superseded r" and s': "s' = tail_Delete B st ks s1"
    using assms p by (auto simp: tail_succeed_def split: option.splits if_splits)
  obtain f where f: "view s' = (view s1)\<lparr>v_scratch := f\<rparr>" using tail_Delete_view s' by blast
  show thesis
  proof (cases r)
    case None
    with proc_okD[OF st_succeeded p] show ?thesis
      using that[where rs = "v_recs (view s1)" and f = f] f by (auto simp: prod_eq_iff)
  next
    case (Some e)
    then have "Superseded r" using r by simp
    then have "v_recs (view s1) = v_recs (view s)"
      using status.superseded_write_same[where p = "sw_mark_succeeded (b_status B) (run_key run) (run_attempt run)"
          and k = "run_key run" and a = "run_attempt run" and to = StSucceeded, OF _ p] by (simp add: status.is_write_def)
    moreover have "view s1 = (view s)\<lparr>v_recs := v_recs (view s1)\<rparr>" using proc_okD[OF st_succeeded p] by auto
    ultimately show ?thesis using that[where rs = "v_recs (view s)" and f = f] f by auto
  qed
qed

text \<open>
  A superseded run's failure is recorded nowhere: the document belongs to the newer attempt.
\<close>

lemma failed_stale:
  assumes "v_recs (view s) (slot_of (run_key run)) = Some c" "k_user (r_key c) = run_user run"
    and "run_attempt run \<noteq> r_attempt c"
    and p: "sw_mark_failed (b_status B) (run_key run) (run_attempt run) rs s = (s1, r)"
  shows "view s1 = view s" "Superseded r \<or> (r \<noteq> None \<and> \<not> err_is r ErrJobNotFound)"
proof -
  let ?T = "Transition c (run_attempt run) StFailed '''' rs"
  have "visible (v_recs (view s)) (run_key run) = Some c" using assms(1,2) by (simp add: visible_def run_key_def)
  then have sp: "spec_transition (run_key run) (run_attempt run) StFailed '''' rs (v_recs (view s)) =
      (v_recs (view s), snd (snd ?T))"
    using Transition_stale[OF assms(3), of StFailed "''''" rs] assms(1)
    by (simp add: spec_transition_def fun_upd_idem)
  have "Superseded (snd (snd ?T))" using Transition_stale[OF assms(3)] by blast
  with proc_okD[OF st_failed p] sp have r: "view s1 = view s" "Superseded r \<or> (\<exists>e. r = Some e \<and> outage e)" by auto
  then show "view s1 = view s" "Superseded r \<or> (r \<noteq> None \<and> \<not> err_is r ErrJobNotFound)"
    using outage_not_found(1) by auto
qed

lemma record_failure_superseded:
  assumes "v_recs (view s) (slot_of (run_key run)) = Some c" "k_user (r_key c) = run_user run"
    and "run_attempt run \<noteq> r_attempt c"
  shows "view (fst (tail_RecordFailure B run e st ks s)) = view s"
proof -
  obtain s1 r where p: "sw_mark_failed (b_status B) (run_key run) (run_attempt run) (Reason e) s = (s1, r)" by force
  show ?thesis using failed_stale[OF assms p] p by (auto simp: tail_RecordFailure_def)
qed

text \<open>
  A recorded failure: the job is failed with the reason cut to length, and the document, if it is
  still there, is marked failed.
\<close>

lemma record_failure_done:
  assumes "tail_RecordFailure B run e st ks s = (s', None)"
    and "v_recs (view s) (slot_of (run_key run)) = Some c" "k_user (r_key c) = run_user run"
    and "run_attempt run = r_attempt c" "Active (r_status c)"
  shows "\<exists>f t. view s' = (view s)\<lparr>v_recs := (v_recs (view s))(slot_of (run_key run) \<mapsto>
           c\<lparr>r_status := StFailed, r_last_error := Reason e\<rparr>),
         v_docs := (case own_doc (view s) (run_user run) (run_doc run) of None \<Rightarrow> v_docs (view s)
            | Some d \<Rightarrow> (v_docs (view s))(run_doc run \<mapsto> d\<lparr>d_status := DocFailed, d_updated := t\<rparr>)),
         v_scratch := f\<rparr>"
proof -
  obtain s1 r where p: "sw_mark_failed (b_status B) (run_key run) (run_attempt run) (Reason e) s = (s1, r)"
    by (cases "sw_mark_failed (b_status B) (run_key run) (run_attempt run) (Reason e) s")
  have "visible (v_recs (view s)) (run_key run) = Some c" using assms(2,3) by (simp add: visible_def run_key_def)
  then have sp: "spec_transition (run_key run) (run_attempt run) StFailed '''' (Reason e) (v_recs (view s)) =
      ((v_recs (view s))(slot_of (run_key run) \<mapsto> c\<lparr>r_status := StFailed, r_last_error := Reason e\<rparr>), None)"
    using assms(4,5) by (simp add: spec_transition_def Transition_def Let_def)
  have r: "r = None"
  proof (rule ccontr)
    assume "r \<noteq> None"
    then obtain x where "r = Some x" "outage x" using proc_okD[OF st_failed p] sp by auto
    then show False using assms(1) p outage_not_superseded outage_not_found(1) by (auto simp: tail_RecordFailure_def)
  qed
  with proc_okD[OF st_failed p] sp have v1: "view s1 = (view s)\<lparr>v_recs := (v_recs (view s))(slot_of (run_key run) \<mapsto>
      c\<lparr>r_status := StFailed, r_last_error := Reason e\<rparr>)\<rparr>" by auto
  obtain s2 r2 where q: "b_doc_status B (run_user run) (run_doc run) DocFailed s1 = (s2, r2)"
    by (cases "b_doc_status B (run_user run) (run_doc run) DocFailed s1")
  have r2: "r2 = None \<or> err_is r2 ErrDocNotFound" and s': "s' = tail_Delete B st ks s2"
    using assms(1) p q r by (auto simp: tail_RecordFailure_def split: if_splits)
  have "\<not> (\<exists>x. r2 = Some x \<and> outage x)" using r2 outage_not_found(2) by auto
  then obtain t where v2: "view s2 = (view s1)\<lparr>v_docs := (case own_doc (view s) (run_user run) (run_doc run) of None \<Rightarrow> v_docs (view s)
            | Some d \<Rightarrow> (v_docs (view s))(run_doc run \<mapsto> d\<lparr>d_status := DocFailed, d_updated := t\<rparr>))\<rparr>"
    using proc_okD[OF doc_status q] by (auto simp: v1 own_doc_def split: option.splits if_splits)
  obtain f where "view s' = (view s2)\<lparr>v_scratch := f\<rparr>" using tail_Delete_view s' by blast
  then show ?thesis by (intro exI[of _ f] exI[of _ t]) (simp add: v1 v2)
qed

end

end
