(* ===== verification/Splitter.thy ===== *)
theory Splitter
  imports Repositories
begin

text \<open>
  \<^verbatim>\<open>internal/chunk/splitter.go\<close>: the fixed-window splitter every indexed document goes
  through. Offsets count bytes; a slice out of range is the panic \<open>None\<close>. The lemmas show that the
  loop ends, that the windows cover the text without a gap, and that with windows and steps of at
  least four bytes no window of valid UTF-8 text cuts a character.
\<close>

subsection \<open>The splitter\<close>

record fixed_window =
  fw_size :: int
  fw_overlap :: int

definition NewFixedWindow :: "int \<Rightarrow> int \<Rightarrow> fixed_window" where
  "NewFixedWindow sz ov = \<lparr>fw_size = sz, fw_overlap = ov\<rparr>"

definition DefaultFixedWindow :: fixed_window where
  "DefaultFixedWindow = NewFixedWindow 3000 300"

function alignToRuneBoundary :: "string \<Rightarrow> int \<Rightarrow> int" where
  "alignToRuneBoundary body i =
     (if i > 0 \<and> i < int (length body) \<and> \<not> rune_start (body ! nat i)
      then alignToRuneBoundary body (i - 1) else i)"
  by pat_completeness auto
termination
  by (relation "measure (\<lambda>(body, i). nat i)") auto

declare alignToRuneBoundary.simps [simp del]

definition int_slice :: "string \<Rightarrow> int \<Rightarrow> int \<Rightarrow> string option" where
  "int_slice s lo hi = (if 0 \<le> lo \<and> 0 \<le> hi then go_slice s (nat lo) (nat hi) else None)"

definition window_end :: "string \<Rightarrow> int \<Rightarrow> int \<Rightarrow> int" where
  "window_end body sz start =
     (let stop = start + sz in
      if stop \<ge> int (length body) then int (length body)
      else if alignToRuneBoundary body stop > start then alignToRuneBoundary body stop
      else stop)"

definition window_next :: "string \<Rightarrow> int \<Rightarrow> int \<Rightarrow> int" where
  "window_next body step start =
     (let nxt = start + step in
      if alignToRuneBoundary body nxt > start then alignToRuneBoundary body nxt else nxt)"

definition split_step :: "fixed_window \<Rightarrow> int" where
  "split_step f = (if fw_size f - fw_overlap f \<le> 0 then 1 else fw_size f - fw_overlap f)"

definition window_chunk :: "nat \<Rightarrow> string \<Rightarrow> int \<Rightarrow> int \<Rightarrow> chunk" where
  "window_chunk ordinal seg start stop =
     \<lparr>c_id = uuid_nil, c_doc = uuid_nil, c_kb = uuid_nil, c_user = uuid_nil, c_ordinal = ordinal,
      c_text = seg, c_tokens = length seg div 4, c_embedding = [], c_start = nat start, c_end = nat stop,
      c_region = None, c_page = None, c_box = None\<rparr>"

lemma split_step_pos: "0 < split_step f"
  by (simp add: split_step_def)

lemma window_next_gt: "0 < step \<Longrightarrow> start < window_next body step start"
  by (simp add: window_next_def Let_def)

function split_loop :: "fixed_window \<Rightarrow> string \<Rightarrow> nat \<Rightarrow> int \<Rightarrow> chunk list option" where
  "split_loop f body ordinal start =
     (if start < int (length body) then
        (let stop = window_end body (fw_size f) start in
         case int_slice body start stop of
           None \<Rightarrow> None
         | Some seg \<Rightarrow>
             if stop = int (length body) then Some [window_chunk ordinal seg start stop]
             else map_option (\<lambda>cs. window_chunk ordinal seg start stop # cs)
                    (split_loop f body (ordinal + 1) (window_next body (split_step f) start)))
      else Some [])"
  by pat_completeness auto
termination
proof (relation "measure (\<lambda>(f, body, ordinal, start). nat (int (length body) - start))")
  fix f :: fixed_window and body :: string and ordinal :: nat and start :: int
  assume "start < int (length body)"
  then show "((f, body, ordinal + 1, window_next body (split_step f) start), f, body, ordinal, start)
      \<in> measure (\<lambda>(f, body, ordinal, start). nat (int (length body) - start))"
    using window_next_gt[OF split_step_pos, of start body f] by simp
qed simp

declare split_loop.simps [simp del]

definition Split :: "fixed_window \<Rightarrow> string \<Rightarrow> chunk list option" where
  "Split f body = (if body = [] then Some [] else split_loop f body 0 0)"

subsection \<open>Rune boundaries\<close>

lemma align_stay:
  "\<not> (i > 0 \<and> i < int (length body) \<and> \<not> rune_start (body ! nat i)) \<Longrightarrow> alignToRuneBoundary body i = i"
  by (subst alignToRuneBoundary.simps) (rule if_not_P)

lemma align_le: "alignToRuneBoundary body i \<le> i"
proof (induction body i rule: alignToRuneBoundary.induct)
  case (1 body i)
  then show ?case by (subst alignToRuneBoundary.simps) auto
qed

lemma align_nonneg: "0 \<le> i \<Longrightarrow> 0 \<le> alignToRuneBoundary body i"
proof (induction body i rule: alignToRuneBoundary.induct)
  case (1 body i)
  then show ?case by (subst alignToRuneBoundary.simps) auto
qed

lemma align_boundary:
  "0 \<le> i \<Longrightarrow> alignToRuneBoundary body i = 0 \<or> alignToRuneBoundary body i \<ge> int (length body) \<or>
     rune_start (body ! nat (alignToRuneBoundary body i))"
proof (induction body i rule: alignToRuneBoundary.induct)
  case (1 body i)
  show ?case
  proof (cases "i > 0 \<and> i < int (length body) \<and> \<not> rune_start (body ! nat i)")
    case True
    then have "alignToRuneBoundary body i = alignToRuneBoundary body (i - 1)"
      by (subst alignToRuneBoundary.simps) simp
    then show ?thesis using "1.IH"[OF True] True by simp
  next
    case False
    then have "alignToRuneBoundary body i = i" by (rule align_stay)
    then show ?thesis using False "1.prems" by auto
  qed
qed

lemma align_ge_start:
  "0 \<le> j \<Longrightarrow> j \<le> i \<Longrightarrow> j = 0 \<or> rune_start (body ! nat j) \<Longrightarrow> j \<le> alignToRuneBoundary body i"
proof (induction body i rule: alignToRuneBoundary.induct)
  case (1 body i)
  show ?case
  proof (cases "i > 0 \<and> i < int (length body) \<and> \<not> rune_start (body ! nat i)")
    case True
    then have "alignToRuneBoundary body i = alignToRuneBoundary body (i - 1)"
      by (subst alignToRuneBoundary.simps) simp
    moreover have "j \<le> i - 1" using True "1.prems" by (cases "j = i") auto
    ultimately show ?thesis using "1.IH"[OF True] "1.prems" by simp
  next
    case False
    then have "alignToRuneBoundary body i = i" by (rule align_stay)
    then show ?thesis using "1.prems" by simp
  qed
qed

lemma align_mono: "0 \<le> i \<Longrightarrow> i \<le> j \<Longrightarrow> j < int (length body) \<Longrightarrow>
    alignToRuneBoundary body i \<le> alignToRuneBoundary body j"
  using align_ge_start[of "alignToRuneBoundary body i" j body] align_boundary[of i body] align_le[of body i]
    align_nonneg[of i body] by linarith

definition boundary :: "string \<Rightarrow> nat \<Rightarrow> bool" where
  "boundary body i \<longleftrightarrow> i = 0 \<or> i = length body \<or> (i < length body \<and> rune_start (body ! i))"

text \<open>Valid text has a boundary among any four positions, so aligning moves back three bytes at most.\<close>

lemma align_near:
  assumes "utf8_valid body" "4 \<le> i" "i < int (length body)"
  shows "i - 3 \<le> alignToRuneBoundary body i"
proof -
  have "\<exists>k\<le>3. rune_start (body ! (nat i - 3 + k))"
    by (rule utf8_valid_start_near[OF assms(1)]) (use assms(2,3) in linarith)
  then obtain k where k: "k \<le> 3" "rune_start (body ! (nat i - 3 + k))" by blast
  define j where "j = i - 3 + int k"
  have "nat j = nat i - 3 + k" using assms(2) by (simp add: j_def nat_eq_iff)
  then have "j \<le> alignToRuneBoundary body i"
    using k assms(2) by (intro align_ge_start) (auto simp: j_def)
  then show ?thesis by (simp add: j_def)
qed

lemma utf8_rune_split:
  assumes "utf8_valid (a # s)"
  shows "\<exists>k\<le>3. k \<le> length s \<and> utf8_valid (drop k s) \<and> list_all cont_byte (take k s) \<and>
     (\<forall>v. utf8_valid v \<longrightarrow> utf8_valid (a # take k s @ v))"
proof -
  consider (one) "byte a < 0x80" | (bad) "0x80 \<le> byte a" "byte a < 0xC2" | (two) "0xC2 \<le> byte a" "byte a < 0xE0"
    | (three) "0xE0 \<le> byte a" "byte a < 0xF0" | (four) "0xF0 \<le> byte a" "byte a < 0xF5" | (bad') "0xF5 \<le> byte a"
    by linarith
  then show ?thesis
  proof cases
    case one
    then show ?thesis using assms by (intro exI[of _ 0]) simp
  next
    case two
    then show ?thesis using assms by (intro exI[of _ 1]) (auto split: list.splits)
  next
    case three
    then show ?thesis using assms second_ok_cont by (intro exI[of _ 2]) (auto split: list.splits)
  next
    case four
    then show ?thesis using assms second_ok_cont by (intro exI[of _ 3]) (auto split: list.splits)
  qed (use assms in simp_all)
qed

lemma utf8_valid_cut:
  "utf8_valid s \<Longrightarrow> i \<le> length s \<Longrightarrow> i = length s \<or> rune_start (s ! i) \<Longrightarrow>
     utf8_valid (take i s) \<and> utf8_valid (drop i s)"
proof (induction s arbitrary: i rule: length_induct)
  case (1 s)
  show ?case
  proof (cases i)
    case 0
    then show ?thesis using "1.prems"(1) by simp
  next
    case (Suc j)
    then obtain a t where s: "s = a # t" using "1.prems"(2) by (cases s) auto
    obtain k where k: "k \<le> length t" "utf8_valid (drop k t)" "list_all cont_byte (take k t)"
      "\<And>v. utf8_valid v \<Longrightarrow> utf8_valid (a # take k t @ v)"
      using utf8_rune_split "1.prems"(1) s by blast
    have jk: "k \<le> j"
    proof (rule ccontr)
      assume "\<not> k \<le> j"
      then have j: "j < k" by simp
      then have "i < length s" "s ! i = take k t ! j" using s Suc k(1) by simp_all
      moreover have "cont_byte (take k t ! j)" using j k(1,3) by (simp add: list_all_length)
      ultimately show False using "1.prems"(3) by (simp add: rune_start_def)
    qed
    have "length (drop k t) < length s" "j - k \<le> length (drop k t)"
      "j - k = length (drop k t) \<or> rune_start (drop k t ! (j - k))"
      using "1.prems"(2,3) s Suc jk k(1) by auto
    then have "utf8_valid (take (j - k) (drop k t)) \<and> utf8_valid (drop (j - k) (drop k t))"
      using "1.IH" k(2) by blast
    moreover have "take i s = a # take k t @ take (j - k) (drop k t)"
      using s Suc jk by (simp add: take_add[symmetric])
    moreover have "drop i s = drop (j - k) (drop k t)" using s Suc jk by simp
    ultimately show ?thesis using k(4) by metis
  qed
qed

lemma utf8_valid_slice:
  assumes "utf8_valid s" "boundary s i" "boundary s j" "i \<le> j"
  shows "utf8_valid (take (j - i) (drop i s))"
proof -
  have j: "j \<le> length s" "j = length s \<or> rune_start (s ! j) \<or> j = 0" using assms(3) by (auto simp: boundary_def)
  have t: "utf8_valid (take j s)"
    using j utf8_valid_cut[OF assms(1) j(1)] by (cases "j = 0") auto
  show ?thesis
  proof (cases "i = 0 \<or> i = j")
    case True
    then show ?thesis using t by auto
  next
    case False
    then have "i < j" "rune_start (take j s ! i)" "i \<le> length (take j s)"
      using assms(2,4) j(1) by (auto simp: boundary_def)
    then have "utf8_valid (drop i (take j s))" using utf8_valid_cut[OF t] by blast
    then show ?thesis by (simp add: drop_take)
  qed
qed

subsection \<open>One window\<close>

lemma align_boundary_nat:
  assumes "0 \<le> i" "i < int (length body)"
  shows "boundary body (nat (alignToRuneBoundary body i))"
  using align_boundary[OF assms(1), of body] align_le[of body i] align_nonneg[OF assms(1), of body] assms(2)
  by (auto simp: boundary_def)

lemma window_end_bounds:
  assumes "0 \<le> start" "start < int (length body)" "1 \<le> sz"
  shows "start < window_end body sz start" "window_end body sz start \<le> int (length body)"
    "window_end body sz start \<le> start + sz \<or> start + sz < window_end body sz start \<and> window_end body sz start = int (length body)"
    "window_end body sz start \<le> start + sz"
  using assms align_le[of body "start + sz"] by (auto simp: window_end_def Let_def)

lemma window_next_le_end:
  assumes "0 \<le> start" "1 \<le> step" "step \<le> sz" and ne: "window_end body sz start \<noteq> int (length body)"
  shows "window_next body step start \<le> window_end body sz start"
proof -
  let ?n = "start + step" and ?e = "start + sz"
  have e: "?e < int (length body)" using ne by (auto simp: window_end_def Let_def split: if_splits)
  show ?thesis
  proof (cases "alignToRuneBoundary body ?e > start")
    case False
    then have "window_end body sz start = ?e" using e by (simp add: window_end_def Let_def)
    moreover have "window_next body step start \<le> ?n" using align_le[of body ?n] by (simp add: window_next_def Let_def)
    ultimately show ?thesis using assms(3) by simp
  next
    case True
    then have E: "window_end body sz start = alignToRuneBoundary body ?e" using e by (simp add: window_end_def Let_def)
    have mono: "alignToRuneBoundary body ?n \<le> alignToRuneBoundary body ?e"
      using assms e by (intro align_mono) auto
    show ?thesis
    proof (cases "alignToRuneBoundary body ?n > start")
      case N: True
      then show ?thesis using mono by (simp add: E window_next_def Let_def)
    next
      case N: False
      have "?n \<le> alignToRuneBoundary body ?e"
      proof (rule ccontr)
        assume n: "\<not> ?n \<le> alignToRuneBoundary body ?e"
        have "rune_start (body ! nat (alignToRuneBoundary body ?e))"
          using align_boundary[of ?e body] align_le[of body ?e] True assms e by auto
        then have "alignToRuneBoundary body ?e \<le> alignToRuneBoundary body ?n"
          using n True assms by (intro align_ge_start) auto
        then show False using N True by simp
      qed
      then show ?thesis using N by (simp add: E window_next_def Let_def)
    qed
  qed
qed

lemma int_slice_eq:
  "0 \<le> lo \<Longrightarrow> lo \<le> hi \<Longrightarrow> hi \<le> int (length s) \<Longrightarrow>
     int_slice s lo hi = Some (take (nat hi - nat lo) (drop (nat lo) s))"
  by (simp add: int_slice_def go_slice_def nat_mono nat_le_iff)

lemma split_step_le: "0 \<le> fw_overlap f \<Longrightarrow> 1 \<le> fw_size f \<Longrightarrow> 1 \<le> split_step f \<and> split_step f \<le> fw_size f"
  by (simp add: split_step_def)

subsection \<open>The whole loop\<close>

definition linked :: "chunk \<Rightarrow> chunk \<Rightarrow> bool" where
  "linked a b \<longleftrightarrow> c_start a < c_start b \<and> c_start b \<le> c_end a \<and> c_ordinal b = c_ordinal a + 1"

definition window_of :: "fixed_window \<Rightarrow> string \<Rightarrow> chunk \<Rightarrow> bool" where
  "window_of f body c \<longleftrightarrow>
     c_text c = take (c_end c - c_start c) (drop (c_start c) body) \<and> c_start c < c_end c \<and>
     c_end c \<le> length body \<and> c_end c - c_start c \<le> nat (fw_size f) \<and> c_tokens c = length (c_text c) div 4"

lemma split_loop_windows:
  assumes "0 \<le> fw_overlap f" "1 \<le> fw_size f"
  shows "0 \<le> start \<Longrightarrow> start < int (length body) \<Longrightarrow>
    \<exists>c cs. split_loop f body ordinal start = Some (c # cs) \<and> c_start c = nat start \<and> c_ordinal c = ordinal \<and>
      c_end (last (c # cs)) = length body \<and> successively linked (c # cs) \<and> list_all (window_of f body) (c # cs)"
  using assms
proof (induction f body ordinal start rule: split_loop.induct)
  case (1 f body ordinal start)
  let ?e = "window_end body (fw_size f) start"
  let ?n = "window_next body (split_step f) start"
  let ?seg = "take (nat ?e - nat start) (drop (nat start) body)"
  note eb = window_end_bounds[OF "1.prems"(1,2,4)]
  note st = split_step_le[OF "1.prems"(3,4)]
  have seg: "int_slice body start ?e = Some ?seg"
    by (rule int_slice_eq) (use eb "1.prems" in linarith)+
  define c where "c = window_chunk ordinal ?seg start ?e"
  have wc: "window_of f body c" "c_start c = nat start" "c_ordinal c = ordinal" "c_end c = nat ?e"
    using eb "1.prems" by (auto simp: c_def window_of_def window_chunk_def)
  show ?case
  proof (cases "?e = int (length body)")
    case True
    then have "split_loop f body ordinal start = Some [c]"
      using seg "1.prems" by (subst split_loop.simps) (simp add: Let_def c_def)
    then show ?thesis using wc True by (intro exI[of _ c] exI[of _ "[]"]) simp
  next
    case False
    have n: "start < ?n" "?n \<le> ?e" using window_next_gt[OF split_step_pos] window_next_le_end[OF "1.prems"(1)] st False by auto
    then have "0 \<le> ?n" "?n < int (length body)" using "1.prems"(1) eb(2) False by auto
    from "1.IH"[OF "1.prems"(2) refl seg False this "1.prems"(3,4)]
    obtain d ds where r: "split_loop f body (ordinal + 1) ?n = Some (d # ds)" "c_start d = nat ?n"
      "c_ordinal d = ordinal + 1" "c_end (last (d # ds)) = length body"
      "successively linked (d # ds)" "list_all (window_of f body) (d # ds)" by blast
    have "split_loop f body ordinal start = Some (c # d # ds)"
      using seg "1.prems" False r(1) by (subst split_loop.simps) (simp add: Let_def c_def)
    moreover have "linked c d"
      unfolding linked_def wc(2-4) r(2,3) using n "1.prems"(1) nat_mono[OF n(2)] by linarith
    ultimately show ?thesis using wc(1-3) r(4-6) by (intro exI[of _ c] exI[of _ "d # ds"]) (simp only: successively.simps list.pred_inject last.simps list.simps if_False simp_thms)
  qed
qed

lemma split_loop_utf8:
  assumes "utf8_valid body" "4 \<le> fw_size f" "4 \<le> fw_size f - fw_overlap f"
  shows "0 \<le> start \<Longrightarrow> boundary body (nat start) \<Longrightarrow> split_loop f body ordinal start = Some cs \<Longrightarrow>
    list_all (\<lambda>c. utf8_valid (c_text c)) cs"
  using assms
proof (induction f body ordinal start arbitrary: cs rule: split_loop.induct)
  case (1 f body ordinal start)
  let ?e = "window_end body (fw_size f) start"
  let ?n = "window_next body (split_step f) start"
  show ?case
  proof (cases "start < int (length body)")
    case False
    then show ?thesis using "1.prems"(3) by (subst (asm) split_loop.simps) simp
  next
    case lt: True
    have eb: "start < ?e" "?e \<le> int (length body)"
      using window_end_bounds[OF "1.prems"(1) lt, of "fw_size f"] "1.prems"(5) by auto
    have be: "boundary body (nat ?e)"
    proof (cases "start + fw_size f \<ge> int (length body)")
      case True
      then show ?thesis by (simp add: window_end_def Let_def boundary_def)
    next
      case False
      then have "?e = alignToRuneBoundary body (start + fw_size f)"
        using align_near[OF "1.prems"(4), of "start + fw_size f"] "1.prems"(1,5) by (simp add: window_end_def Let_def)
      then show ?thesis using align_boundary_nat[of "start + fw_size f" body] False "1.prems"(1,5) by simp
    qed
    have seg: "int_slice body start ?e = Some (take (nat ?e - nat start) (drop (nat start) body))"
      by (rule int_slice_eq) (use eb "1.prems"(1) in linarith)+
    have v: "utf8_valid (take (nat ?e - nat start) (drop (nat start) body))"
      using utf8_valid_slice[OF "1.prems"(4,2) be] eb(1) by (simp add: nat_le_eq_zle)
    show ?thesis
    proof (cases "?e = int (length body)")
      case True
      then show ?thesis using "1.prems"(3) seg lt v unfolding split_loop.simps[of f body ordinal start] Let_def
        by (auto simp: window_chunk_def)
    next
      case False
      then obtain ds where ds: "split_loop f body (ordinal + 1) ?n = Some ds"
        "cs = window_chunk ordinal (take (nat ?e - nat start) (drop (nat start) body)) start ?e # ds"
        using "1.prems"(3) seg lt False unfolding split_loop.simps[of f body ordinal start] Let_def by auto
      have step: "split_step f = fw_size f - fw_overlap f" using "1.prems"(6) by (simp add: split_step_def)
      have n0: "0 \<le> ?n" using window_next_gt[OF split_step_pos, of start body f] "1.prems"(1) by simp
      show ?thesis
      proof (cases "?n < int (length body)")
        case nlt: True
        have "boundary body (nat ?n)"
        proof (cases "start + split_step f < int (length body)")
          case True
          then have "?n = alignToRuneBoundary body (start + split_step f)"
            using align_near[OF "1.prems"(4), of "start + split_step f"] "1.prems"(1,6) step
            by (simp add: window_next_def Let_def)
          then show ?thesis using align_boundary_nat[of "start + split_step f" body] True "1.prems"(1,6) step by simp
        next
          case False
          then have "alignToRuneBoundary body (start + split_step f) = start + split_step f"
            by (intro align_stay) simp
          then show ?thesis using False nlt by (simp add: window_next_def Let_def split: if_splits)
        qed
        from "1.IH"[OF lt refl seg False n0 this ds(1) "1.prems"(4,5,6)] show ?thesis
          using ds(2) v by (simp add: window_chunk_def)
      next
        case False
        then have "ds = []" using ds(1) by (subst (asm) split_loop.simps) simp
        then show ?thesis using ds(2) v by (simp add: window_chunk_def)
      qed
    qed
  qed
qed

subsection \<open>Properties\<close>

text \<open>
  C10. Splitting never panics and always ends. For a non-empty text and a window of at least one
  byte with a non-negative overlap the windows start at the text's first byte, end at its last,
  each begins after the previous one began and not after it ended (so no byte is left out), each
  carries exactly the bytes its offsets name, no more than a window of them, and they are numbered in
  order from 0.
\<close>

theorem split_covers_text:
  assumes "1 \<le> fw_size f" "0 \<le> fw_overlap f" "body \<noteq> []"
  shows "\<exists>cs. Split f body = Some cs \<and> cs \<noteq> [] \<and> c_start (hd cs) = 0 \<and> c_ordinal (hd cs) = 0 \<and>
    c_end (last cs) = length body \<and>
    successively (\<lambda>a b. c_start a < c_start b \<and> c_start b \<le> c_end a \<and> c_ordinal b = c_ordinal a + 1) cs \<and>
    list_all (\<lambda>c. c_text c = take (c_end c - c_start c) (drop (c_start c) body) \<and> c_start c < c_end c \<and>
      c_end c - c_start c \<le> nat (fw_size f) \<and> c_tokens c = length (c_text c) div 4) cs"
proof -
  obtain c cs where r: "split_loop f body 0 0 = Some (c # cs)" "c_start c = 0" "c_ordinal c = 0"
    "c_end (last (c # cs)) = length body" "successively linked (c # cs)" "list_all (window_of f body) (c # cs)"
    using split_loop_windows[OF assms(2,1), of 0 body 0] assms(3) by auto
  have "successively (\<lambda>a b. c_start a < c_start b \<and> c_start b \<le> c_end a \<and> c_ordinal b = c_ordinal a + 1) (c # cs)"
    using r(5) by (rule successively_mono) (simp_all add: linked_def)
  moreover have "list_all (\<lambda>c. c_text c = take (c_end c - c_start c) (drop (c_start c) body) \<and> c_start c < c_end c \<and>
      c_end c - c_start c \<le> nat (fw_size f) \<and> c_tokens c = length (c_text c) div 4) (c # cs)"
    using r(6) by (rule list.pred_mono_strong) (simp add: window_of_def)
  ultimately show ?thesis using r(1-4) assms(3) by (intro exI[of _ "c # cs"]) (simp add: Split_def)
qed

theorem split_covers_text_witness:
  "\<exists>cs. Split (NewFixedWindow 4 1) ''abcdefghij'' = Some cs \<and> map c_text cs = [''abcd'', ''defg'', ''ghij''] \<and>
     c_end (last cs) = length ''abcdefghij''"
proof -
  have e: "map_option (map c_text) (Split (NewFixedWindow 4 1) ''abcdefghij'') = Some [''abcd'', ''defg'', ''ghij'']"
    by code_simp
  show ?thesis using split_covers_text[of "NewFixedWindow 4 1" "''abcdefghij''"] e
    by (auto simp: NewFixedWindow_def)
qed

text \<open>
  C11. When windows and the step between them are at least four bytes wide (the program's are 3000
  and 2700), splitting valid UTF-8 text gives chunks that are valid UTF-8 themselves, which is
  what the database's encoding check asks of them.
\<close>

theorem split_keeps_utf8:
  assumes "utf8_valid body" "4 \<le> fw_size f" "4 \<le> fw_size f - fw_overlap f" "Split f body = Some cs" "c \<in> set cs"
  shows "utf8_valid (c_text c)"
proof (cases "body = []")
  case True
  then show ?thesis using assms(4,5) by (simp add: Split_def)
next
  case False
  then have "split_loop f body 0 0 = Some cs" using assms(4) by (simp add: Split_def)
  then have "list_all (\<lambda>c. utf8_valid (c_text c)) cs"
    using split_loop_utf8[OF assms(1-3), of 0 0 cs] by (simp add: boundary_def)
  then show ?thesis using assms(5) by (simp add: list_all_iff)
qed

text \<open>A text of two-byte characters cut by five-byte windows.\<close>

definition accents :: string where
  "accents = concat (replicate 6 [char_of (0xC3 :: nat), char_of (0xA9 :: nat)])"

theorem split_keeps_utf8_witness:
  "\<exists>c cs. Split (NewFixedWindow 5 1) accents = Some (c # cs) \<and> length (c_text c) = 4 \<and> utf8_valid (c_text c)"
proof -
  have v: "utf8_valid accents" by code_simp
  have s: "map_option (map (\<lambda>c. length (c_text c))) (Split (NewFixedWindow 5 1) accents) = Some [4, 4, 4]" by code_simp
  then obtain c cs where c: "Split (NewFixedWindow 5 1) accents = Some (c # cs)" "length (c_text c) = 4"
    by (auto simp: Cons_eq_map_conv map_eq_Cons_conv)
  have "utf8_valid (c_text c)"
    by (rule split_keeps_utf8[OF v _ _ c(1)]) (simp_all add: NewFixedWindow_def)
  then show ?thesis using c by blast
qed

end
