(* ===== verification/DocIndex.thy ===== *)
theory DocIndex
  imports EmbedTail Splitter
begin

text \<open>
  \<^verbatim>\<open>internal/pipeline/docindex\<close>: the Lambda steps that index a plain-text document.
  \<open>di_Prepare\<close> splits and persists the chunks and stages their texts, \<open>di_Finalize\<close> backfills the
  embeddings and marks the document indexed, \<open>di_RecordFailure\<close> is where every failed state ends.
\<close>

subsection \<open>The handler\<close>

record prepared =
  pr_stale :: bool
  pr_already_indexed :: bool
  pr_embed :: bool
  pr_chunk_count :: nat
  pr_job_name :: string
  pr_texts_url :: string
  pr_result_url :: string
  pr_input_key :: string
  pr_result_key :: string

definition prepared_zero :: prepared where
  "prepared_zero = \<lparr>pr_stale = False, pr_already_indexed = False, pr_embed = False, pr_chunk_count = 0,
     pr_job_name = '''', pr_texts_url = '''', pr_result_url = '''', pr_input_key = '''', pr_result_key = ''''\<rparr>"

record di_input =
  di_doc :: uuid
  di_user :: uuid
  di_attempt :: int
  di_prepare :: "prepared option"
  di_error :: "step_error option"

definition di_run :: "di_input \<Rightarrow> job_run" where
  "di_run inp = \<lparr>run_type = DocumentIndexing, run_doc = di_doc inp, run_user = di_user inp, run_attempt = di_attempt inp\<rparr>"

definition prepared_staged :: "prepared option \<Rightarrow> staged option" where
  "prepared_staged p =
     (case p of
        None \<Rightarrow> None
      | Some p \<Rightarrow>
          if \<not> pr_embed p then None
          else Some \<lparr>sg_count = pr_chunk_count p, sg_job_name = pr_job_name p, sg_texts_url = pr_texts_url p,
                     sg_result_url = pr_result_url p, sg_input_key = pr_input_key p, sg_result_key = pr_result_key p\<rparr>)"

definition prepared_of :: "staged \<Rightarrow> prepared" where
  "prepared_of st = prepared_zero\<lparr>pr_embed := True, pr_chunk_count := sg_count st, pr_job_name := sg_job_name st,
     pr_texts_url := sg_texts_url st, pr_result_url := sg_result_url st, pr_input_key := sg_input_key st,
     pr_result_key := sg_result_key st\<rparr>"

definition publishEntityExtraction :: "'s backend \<Rightarrow> document \<Rightarrow> ('s \<Rightarrow> 'b) \<Rightarrow> 's \<Rightarrow> 'b" where
  "publishEntityExtraction B doc = ignore (b_publish B (EntityExtractionRequested (d_id doc) (d_user doc)))"

definition readObject :: "'s backend \<Rightarrow> string \<Rightarrow> ('s, string) call" where
  "readObject B key =
     try_call (b_up_get B key) (\<lambda>e s. (s, Inl (Wrapf ''read object'' (Transient e)))) (\<lambda>data s. (s, Inr data))"

definition di_Prepare :: "'s backend \<Rightarrow> pipeline_cfg \<Rightarrow> di_input \<Rightarrow> ('s, prepared) call" where
  "di_Prepare B cfg inp =
     try_proc (sw_mark_processing (b_status B) (run_key (di_run inp)) (di_attempt inp))
       (\<lambda>e s. if Superseded (Some e) then (s, Inr (prepared_zero\<lparr>pr_stale := True\<rparr>))
              else (s, Inl (Wrapf ''docindex: prepare: mark processing'' (TransientUnless e [ErrJobNotFound]))))
       (try_call (b_doc_get B (di_user inp) (di_doc inp))
          (\<lambda>e s. (s, Inl (Wrapf ''docindex: prepare: get document'' (TransientUnless e [ErrDocNotFound]))))
          (\<lambda>doc s.
             if d_status doc = DocIndexed then (s, Inr (prepared_zero\<lparr>pr_already_indexed := True\<rparr>))
             else try_proc (b_doc_status B (di_user inp) (di_doc inp) DocProcessing)
               (\<lambda>e s. (s, Inl (Wrapf ''docindex: prepare: mark document processing'' (Transient e))))
               (try_call (readObject B (d_s3key doc))
                  (\<lambda>e s. (s, Inl (Wrapf ''docindex: prepare'' e)))
                  (\<lambda>data s.
                     let splits = pc_split cfg data in
                     if splits = [] then publishEntityExtraction B doc (\<lambda>s. (s, Inr prepared_zero)) s
                     else try_proc (b_chunk_delete B (di_user inp) (di_doc inp))
                       (\<lambda>e s. (s, Inl (Wrapf ''docindex: prepare: clear existing chunks'' (Transient e))))
                       (let splits = map (\<lambda>c. c\<lparr>c_doc := d_id doc, c_kb := d_kb doc, c_user := d_user doc\<rparr>) splits;
                            texts = map c_text splits
                        in try_proc (b_chunk_create B splits)
                             (\<lambda>e s. (s, Inl (Wrapf ''docindex: prepare: persist chunks'' (Transient e))))
                             (publishEntityExtraction B doc
                                (try_call (Stage B cfg (di_run inp) texts)
                                   (\<lambda>e s. (s, Inl (Wrapf ''docindex: prepare'' e)))
                                   (\<lambda>st s. (s, Inr (prepared_of st)))))) s)) s))"

definition di_Finalize :: "'s backend \<Rightarrow> di_input \<Rightarrow> 's proc" where
  "di_Finalize B inp s =
     (case di_prepare inp of
        None \<Rightarrow> (s, Some (Plain ''docindex: finalize: missing prepare result''))
      | Some p \<Rightarrow>
          if pr_stale p then (s, None)
          else try_proc (tail_Finalize B (di_run inp) (prepared_staged (Some p)) (pr_already_indexed p) [])
                 (\<lambda>e s. (s, Some (Wrapf ''docindex: finalize'' e))) (\<lambda>s. (s, None)) s)"

definition di_RecordFailure :: "'s backend \<Rightarrow> di_input \<Rightarrow> 's proc" where
  "di_RecordFailure B inp =
     try_proc (tail_RecordFailure B (di_run inp) (di_error inp) (prepared_staged (di_prepare inp)) [])
       (\<lambda>e s. (s, Some (Wrapf ''docindex: record failure'' e))) (\<lambda>s. (s, None))"

definition StepPrepare :: string where "StepPrepare = ''prepare''"
definition StepFinalize :: string where "StepFinalize = ''finalize''"
definition StepRecordFailure :: string where "StepRecordFailure = ''record_failure''"

text \<open>The Lambda's result: the step's output, nil for the steps that have none, and the error.\<close>

definition di_Handle ::
  "'s backend \<Rightarrow> pipeline_cfg \<Rightarrow> string \<Rightarrow> di_input \<Rightarrow> 's \<Rightarrow> 's \<times> prepared option \<times> gerror option" where
  "di_Handle B cfg step inp s =
     (if step = StepPrepare then
        (case di_Prepare B cfg inp s of
           (s, Inr p) \<Rightarrow> (s, Some p, ForLambda None)
         | (s, Inl e) \<Rightarrow> (s, Some prepared_zero, ForLambda (Some e)))
      else if step = StepFinalize then (case di_Finalize B inp s of (s, r) \<Rightarrow> (s, None, ForLambda r))
      else if step = StepRecordFailure then (case di_RecordFailure B inp s of (s, r) \<Rightarrow> (s, None, ForLambda r))
      else (s, None, ForLambda (Some (Plain (''docindex: unknown step '' @ step)))))"

subsection \<open>What the steps do to the view\<close>

lemma run_key_di [simp]: "k_user (run_key (di_run inp)) = di_user inp" "run_user (di_run inp) = di_user inp"
  "run_doc (di_run inp) = di_doc inp" "run_attempt (di_run inp) = di_attempt inp"
  by (simp_all add: run_key_def di_run_def)

lemma list_other_doc: "chunk_ListByDocument u d (chunk_DeleteByDocument u d cs) = []"
  by (simp add: chunk_ListByDocument_def chunk_DeleteByDocument_def)

lemma list_created:
  assumes "length ids = length cs" "\<forall>c \<in> set cs. c_user c = u \<and> c_doc c = d"
  shows "chunk_ListByDocument u d (chunk_BulkCreate ids cs (chunk_DeleteByDocument u d r)) = map2 (\<lambda>i c. c\<lparr>c_id := i\<rparr>) ids cs"
proof -
  have "filter (\<lambda>c. c_user c = u \<and> c_doc c = d) (map2 (\<lambda>i c. c\<lparr>c_id := i\<rparr>) ids cs) = map2 (\<lambda>i c. c\<lparr>c_id := i\<rparr>) ids cs"
    using assms by (auto simp: filter_id_conv dest: set_zip_rightD)
  then show ?thesis
    by (simp add: chunk_ListByDocument_def chunk_BulkCreate_def chunk_DeleteByDocument_def filter_filter)
qed

lemma map2_id_text: "length ids = length cs \<Longrightarrow> map c_text (map2 (\<lambda>i c. c\<lparr>c_id := i\<rparr>) ids cs) = map c_text cs"
  by (induction ids cs rule: list_induct2) auto

lemma map2_id_ids: "length ids = length cs \<Longrightarrow> map c_id (map2 (\<lambda>i c. c\<lparr>c_id := i\<rparr>) ids cs) = ids"
  by (induction ids cs rule: list_induct2) auto

context backend_laws
begin

lemma publish_view: "b_publish B ev s = (s', r) \<Longrightarrow> \<exists>es. view s' = (view s)\<lparr>v_events := es\<rparr>"
proof -
  assume p: "b_publish B ev s = (s', r)"
  have "view s = (view s)\<lparr>v_events := v_events (view s)\<rparr>" by simp
  with proc_okD[OF publish p] show ?thesis by metis
qed

lemma Stage_done:
  assumes "Stage B cfg run texts s = (s', Inr st)"
  shows "view s' = (view s)\<lparr>v_scratch := (v_scratch (view s))(sg_input_key st \<mapsto> EmbedRequest texts)\<rparr>"
    "sg_count st = length texts"
    "sg_input_key st = ''batch-jobs/embeddings/'' @ pc_uuid cfg (run_doc run) @ ''-'' @ itoa (run_attempt run) @ ''/input.json''"
    "sg_result_key st = ''batch-jobs/embeddings/'' @ pc_uuid cfg (run_doc run) @ ''-'' @ itoa (run_attempt run) @ ''/result.json''"
proof -
  let ?i = "''batch-jobs/embeddings/'' @ pc_uuid cfg (run_doc run) @ ''-'' @ itoa (run_attempt run) @ ''/input.json''"
  let ?r = "''batch-jobs/embeddings/'' @ pc_uuid cfg (run_doc run) @ ''-'' @ itoa (run_attempt run) @ ''/result.json''"
  obtain s1 s2 tu ru where s1: "b_scr_put B ?i (EmbedRequest texts) s = (s1, None)"
    and s2: "b_scr_presign B ?i s1 = (s2, Inr tu)" and s3: "b_scr_presign_put B ?r s2 = (s', Inr ru)"
    and st: "st = \<lparr>sg_count = length texts, sg_job_name = ''embedding-'' @ pc_uuid cfg (run_doc run) @ ''-'' @ itoa (run_attempt run),
      sg_texts_url = tu, sg_result_url = ru, sg_input_key = ?i, sg_result_key = ?r\<rparr>"
    using assms by (auto simp: Stage_def Let_def try_proc_def try_call_def
        split: prod.splits option.splits sum.splits)
  show "view s' = (view s)\<lparr>v_scratch := (v_scratch (view s))(sg_input_key st \<mapsto> EmbedRequest texts)\<rparr>"
    using proc_okD[OF scr_put s1] call_okD[OF scr_presign s2] call_okD[OF scr_presign_put s3] by (auto simp: st)
  show "sg_count st = length texts" "sg_input_key st = ?i" "sg_result_key st = ?r" by (simp_all add: st)
qed

lemma stale_step:
  assumes "v_recs (view s) (slot_of (run_key run)) = Some c" "k_user (r_key c) = run_user run"
    and "run_attempt run \<noteq> r_attempt c"
    and p: "sw_mark_processing (b_status B) (run_key run) (run_attempt run) s = (s1, r)"
  shows "view s1 = view s" "r \<noteq> None"
proof -
  have "visible (v_recs (view s)) (run_key run) = Some c" using assms(1,2) by (simp add: visible_def run_key_def)
  then have sp: "spec_transition (run_key run) (run_attempt run) StProcessing '''' '''' (v_recs (view s)) =
      (v_recs (view s), snd (snd (Transition c (run_attempt run) StProcessing '''' '''')))"
    using Transition_stale[OF assms(3), of StProcessing "''''" "''''"] assms(1)
    by (simp add: spec_transition_def fun_upd_idem)
  have "snd (snd (Transition c (run_attempt run) StProcessing '''' '''')) \<noteq> None"
    using Transition_stale[OF assms(3), of StProcessing "''''" "''''"] Superseded_simps(1) by metis
  then show "view s1 = view s" "r \<noteq> None" using proc_okD[OF st_processing p] sp by auto
qed

lemma di_Prepare_stale:
  assumes "v_recs (view s) (slot_of (run_key (di_run inp))) = Some c" "k_user (r_key c) = di_user inp"
    and "di_attempt inp \<noteq> r_attempt c"
  shows "view (fst (di_Prepare B cfg inp s)) = view s"
proof -
  obtain s1 r where p: "sw_mark_processing (b_status B) (run_key (di_run inp)) (di_attempt inp) s = (s1, r)"
    by (cases "sw_mark_processing (b_status B) (run_key (di_run inp)) (di_attempt inp) s")
  have "view s1 = view s" "r \<noteq> None" using stale_step[of s "di_run inp" c s1 r] assms p by simp_all
  then show ?thesis using p by (auto simp: di_Prepare_def)
qed

text \<open>
  A preparation that asks for embedding has replaced the document's chunks by the splits of its
  file, with fresh identifiers, and staged their texts in the same order.
\<close>

lemma di_Prepare_embed:
  assumes "di_Prepare B cfg inp s = (s', Inr p)" "pr_embed p"
    and ok: "chunk_ids_ok (view s)" "doc_ids_ok (view s)"
  obtains d data where "own_doc (view s) (di_user inp) (di_doc inp) = Some d"
    "v_uploads (view s) (d_s3key d) = Some data" "chunk_ids_ok (view s')"
    "map c_text (chunk_ListByDocument (di_user inp) (di_doc inp) (v_chunks (view s'))) = map c_text (pc_split cfg data)"
    "v_scratch (view s') (pr_input_key p) = Some (EmbedRequest (map c_text (pc_split cfg data)))"
    "pr_chunk_count p = length (pc_split cfg data)"
    "pr_result_key p = ''batch-jobs/embeddings/'' @ pc_uuid cfg (di_doc inp) @ ''-'' @ itoa (di_attempt inp) @ ''/result.json''"
    "\<not> pr_stale p" "\<not> pr_already_indexed p"
    "\<exists>d'. own_doc (view s') (di_user inp) (di_doc inp) = Some d'"
proof -
  let ?u = "di_user inp" and ?i = "di_doc inp" and ?run = "di_run inp"
  from assms(1,2) obtain s1 s2 doc s3 s4 data s5 s6 where
    s1: "sw_mark_processing (b_status B) (run_key ?run) (di_attempt inp) s = (s1, None)" and
    s2: "b_doc_get B ?u ?i s1 = (s2, Inr doc)" and
    s3: "b_doc_status B ?u ?i DocProcessing s2 = (s3, None)" and
    s4: "b_up_get B (d_s3key doc) s3 = (s4, Inr data)" and
    s5: "b_chunk_delete B ?u ?i s4 = (s5, None)" and
    s6: "b_chunk_create B (map (\<lambda>c. c\<lparr>c_doc := d_id doc, c_kb := d_kb doc, c_user := d_user doc\<rparr>) (pc_split cfg data)) s5 = (s6, None)" and
    rest: "publishEntityExtraction B doc
       (try_call (Stage B cfg ?run (map c_text (map (\<lambda>c. c\<lparr>c_doc := d_id doc, c_kb := d_kb doc, c_user := d_user doc\<rparr>) (pc_split cfg data))))
          (\<lambda>e s. (s, Inl (Wrapf ''docindex: prepare'' e))) (\<lambda>st s. (s, Inr (prepared_of st)))) s6 = (s', Inr p)"
    by (auto simp: di_Prepare_def readObject_def try_proc_def try_call_def Let_def publishEntityExtraction_def ignore_def
        prepared_zero_def split: prod.splits option.splits sum.splits if_splits)
  let ?cs = "map (\<lambda>c. c\<lparr>c_doc := d_id doc, c_kb := d_kb doc, c_user := d_user doc\<rparr>) (pc_split cfg data)"
  have texts: "map c_text ?cs = map c_text (pc_split cfg data)" by simp
  obtain s7 r7 where s7: "b_publish B (EntityExtractionRequested (d_id doc) (d_user doc)) s6 = (s7, r7)"
    by (cases "b_publish B (EntityExtractionRequested (d_id doc) (d_user doc)) s6")
  with rest obtain st where st: "Stage B cfg ?run (map c_text (pc_split cfg data)) s7 = (s', Inr st)" "p = prepared_of st"
    unfolding texts by (auto simp: publishEntityExtraction_def ignore_def try_call_def split: prod.splits sum.splits)
  obtain rs where v1: "view s1 = (view s)\<lparr>v_recs := rs\<rparr>" using proc_okD[OF st_processing s1] by auto
  have own1: "own_doc (view s1) ?u ?i = own_doc (view s) ?u ?i" by (simp add: v1 own_doc_def)
  have v2: "view s2 = view s1" and d: "own_doc (view s) ?u ?i = Some doc"
    using call_okD[OF doc_get s2] own1 by (auto split: option.splits)
  have du: "d_user doc = ?u" "d_id doc = ?i"
    using d ok(2) by (auto simp: own_doc_def doc_ids_ok_def split: option.splits if_splits)
  obtain t where v3: "view s3 = (view s1)\<lparr>v_docs := (v_docs (view s))(?i \<mapsto> doc\<lparr>d_status := DocProcessing, d_updated := t\<rparr>)\<rparr>"
    using proc_okD[OF doc_status s3] d own1 by (auto simp: v2 v1)
  have v4: "view s4 = view s3" "v_uploads (view s) (d_s3key doc) = Some data"
    using call_okD[OF up_get s4] by (auto simp: v3 v1)
  have v5: "view s5 = (view s3)\<lparr>v_chunks := chunk_DeleteByDocument ?u ?i (v_chunks (view s))\<rparr>"
    using proc_okD[OF chunk_delete s5] by (auto simp: v4 v3 v1)
  obtain ids where ids: "fresh_ids ids ?cs (c_id ` set (chunk_DeleteByDocument ?u ?i (v_chunks (view s))))"
    and v6: "view s6 = (view s5)\<lparr>v_chunks := chunk_BulkCreate ids ?cs (chunk_DeleteByDocument ?u ?i (v_chunks (view s)))\<rparr>"
    using proc_okD[OF chunk_create s6] by (auto simp: v5)
  obtain es where v7: "view s7 = (view s6)\<lparr>v_events := es\<rparr>" using publish_view[OF s7] by blast
  note stage = Stage_done[OF st(1)]
  have len: "length ids = length ?cs" using ids by (simp add: fresh_ids_def)
  have chunks': "v_chunks (view s') = chunk_BulkCreate ids ?cs (chunk_DeleteByDocument ?u ?i (v_chunks (view s)))"
    by (simp add: stage(1) v7 v6)
  have "map c_text (chunk_ListByDocument ?u ?i (v_chunks (view s'))) = map c_text (pc_split cfg data)"
    using list_created[OF len, of ?u ?i "v_chunks (view s)"] map2_id_text[OF len] du by (simp add: chunks')
  moreover have "chunk_ids_ok (view s')"
    unfolding chunk_ids_ok_def chunks' chunk_BulkCreate_def map_append map2_id_ids[OF len] distinct_append
    using ok(1) ids by (auto simp: chunk_ids_ok_def chunk_DeleteByDocument_def fresh_ids_def distinct_map_filter)
  moreover have "\<exists>d'. own_doc (view s') ?u ?i = Some d'"
    using du by (simp add: stage(1) v7 v6 v5 v3 own_doc_def)
  moreover have "v_scratch (view s') (pr_input_key p) = Some (EmbedRequest (map c_text (pc_split cfg data)))"
    by (simp add: stage(1) st(2) prepared_of_def)
  moreover have "pr_chunk_count p = length (pc_split cfg data)"
    "pr_result_key p = ''batch-jobs/embeddings/'' @ pc_uuid cfg ?i @ ''-'' @ itoa (di_attempt inp) @ ''/result.json''"
    "\<not> pr_stale p" "\<not> pr_already_indexed p"
    using stage(2,4) by (simp_all add: st(2) prepared_of_def prepared_zero_def)
  ultimately show thesis using that[OF d v4(2)] by blast
qed

text \<open>A finalisation of staged work that returns has embedded every chunk and indexed the document.\<close>

lemma di_Finalize_done:
  assumes "di_Finalize B inp s = (s', None)" "di_prepare inp = Some p" "pr_embed p" "\<not> pr_stale p" "\<not> pr_already_indexed p"
    and "chunk_ids_ok (view s)"
  obtains body es d ps where "v_scratch (view s) (pr_result_key p) = Some body" "unmarshal_embeddings body = Some es"
    "length es = pr_chunk_count p"
    "map c_embedding (chunk_ListByDocument (di_user inp) (di_doc inp) (v_chunks (view s'))) = es"
    "v_chunks (view s') = map (put_embedding ps) (v_chunks (view s))"
    "own_doc (view s') (di_user inp) (di_doc inp) = Some d" "d_status d = DocIndexed"
    "v_recs (view s') = v_recs (view s) \<or> (v_recs (view s'), None) =
       spec_transition (run_key (di_run inp)) (di_attempt inp) StSucceeded '''' '''' (v_recs (view s))"
proof -
  let ?u = "di_user inp" and ?i = "di_doc inp" and ?run = "di_run inp"
  obtain st where st: "prepared_staged (Some p) = Some st" "sg_result_key st = pr_result_key p" "sg_count st = pr_chunk_count p"
    using assms(3) by (simp add: prepared_staged_def)
  have "tail_Finalize B ?run (Some st) False [] s = (s', None)"
    using assms(1,2,4,5) st(1)
    by (cases "tail_Finalize B ?run (Some st) False [] s"; cases "snd (tail_Finalize B ?run (Some st) False [] s)")
      (simp_all add: di_Finalize_def try_proc_def)
  then obtain s1 s2 where s1: "backfill B ?run st s = (s1, None)" and s2: "markIndexed B ?run s1 = (s2, None)"
    and s3: "tail_succeed B ?run (Some st) [] s2 = (s', None)"
    by (auto simp: tail_Finalize_def try_proc_def split: prod.splits option.splits)
  obtain body es ps where b: "v_scratch (view s) (sg_result_key st) = Some body" "unmarshal_embeddings body = Some es"
    "length es = sg_count st" "view s1 = (view s)\<lparr>v_chunks := map (put_embedding ps) (v_chunks (view s))\<rparr>"
    "map c_embedding (chunk_ListByDocument ?u ?i (v_chunks (view s1))) = es"
    by (rule backfill_done[OF s1 assms(6)]) auto
  obtain d docs n where m: "own_doc (view s1) ?u ?i = Some d" "view s2 = (view s1)\<lparr>v_docs := docs, v_indexed := n\<rparr>"
    "\<exists>t. docs ?i = Some (d\<lparr>d_status := DocIndexed, d_updated := t\<rparr>)"
    by (rule markIndexed_done[OF s2]) auto
  obtain rs f where r: "view s' = (view s2)\<lparr>v_recs := rs, v_scratch := f\<rparr>"
    "(rs, None) = spec_transition (run_key ?run) (di_attempt inp) StSucceeded '''' '''' (v_recs (view s2)) \<or> rs = v_recs (view s2)"
    by (rule tail_succeed_done[OF s3]) auto
  obtain t where "docs ?i = Some (d\<lparr>d_status := DocIndexed, d_updated := t\<rparr>)" using m(3) by blast
  moreover have "d_user d = ?u" using m(1) by (auto simp: own_doc_def split: option.splits if_splits)
  ultimately have "own_doc (view s') ?u ?i = Some (d\<lparr>d_status := DocIndexed, d_updated := t\<rparr>)"
    by (simp add: r(1) m(2) own_doc_def)
  then show thesis
    using that[of body es ps "d\<lparr>d_status := DocIndexed, d_updated := t\<rparr>"] b r st(2,3) by (auto simp: m(2))
qed

end

subsection \<open>A small world for the witnesses\<close>

definition demo_split :: "string \<Rightarrow> chunk list" where
  "demo_split body = (case Split (NewFixedWindow 4 1) body of None \<Rightarrow> [] | Some cs \<Rightarrow> cs)"

definition demo_cfg :: pipeline_cfg where
  "demo_cfg = \<lparr>pc_split = demo_split, pc_uuid = nat_str, pc_parse = (\<lambda>s. map_option nat (atoi s)),
     pc_allowed = [''person''], pc_batch = 2\<rparr>"

definition demo_doc :: document where
  "demo_doc = \<lparr>d_id = 7, d_kb = 3, d_user = 1, d_filename = ''a.txt'', d_s3key = ''k'',
     d_content_type = ''text/plain'', d_size = 7, d_status = DocPending, d_created = 0, d_updated = 0\<rparr>"

definition demo_key :: "job_type \<Rightarrow> jkey" where
  "demo_key t = \<lparr>k_user = 1, k_doc = 7, k_type = t\<rparr>"

definition demo_world :: "jstore_op list \<Rightarrow> bool list \<Rightarrow> world" where
  "demo_world ops fs =
     \<lparr>w_docs = [(7, demo_doc)], w_uploads = [(''k'', ''abcdefg'')], w_scratch = [], w_chunks = [], w_ents = [],
      w_regions = [], w_canon = canon_new, w_jobs = js_run ops js_new, w_pub = mem_publisher_new, w_sent = [],
      w_stats = stats_new, w_clock = 5, w_faults = fs\<rparr>"

definition demo_input :: "int \<Rightarrow> prepared option \<Rightarrow> di_input" where
  "demo_input a p = \<lparr>di_doc = 7, di_user = 1, di_attempt = a, di_prepare = p, di_error = None\<rparr>"

definition demo_prepared :: prepared where
  "demo_prepared = \<lparr>pr_stale = False, pr_already_indexed = False, pr_embed = True, pr_chunk_count = 2,
     pr_job_name = ''embedding-7-1'', pr_texts_url = ''http://mock/batch-jobs/embeddings/7-1/input.json'',
     pr_result_url = ''http://mock/batch-jobs/embeddings/7-1/result.json'',
     pr_input_key = ''batch-jobs/embeddings/7-1/input.json'', pr_result_key = ''batch-jobs/embeddings/7-1/result.json''\<rparr>"

definition world_ok :: "world \<Rightarrow> bool" where
  "world_ok w \<longleftrightarrow> distinct (map c_id (w_chunks w)) \<and> list_all (\<lambda>(i, d). d_id d = i) (w_docs w)"

lemma world_okD: "world_ok w \<Longrightarrow> chunk_ids_ok (world_view w) \<and> doc_ids_ok (world_view w)"
  by (auto simp: world_ok_def chunk_ids_ok_def doc_ids_ok_def list_all_iff dest!: map_of_SomeD)

text \<open>The embedding job: it writes one vector per text to the result object.\<close>

definition job_writes :: "string \<Rightarrow> blob \<Rightarrow> bool list \<Rightarrow> world \<Rightarrow> world" where
  "job_writes key b fs w = w\<lparr>w_scratch := gm_put key b (w_scratch w), w_faults := fs\<rparr>"

lemma job_writes_view: "world_view (job_writes key b fs w) = (world_view w)\<lparr>v_scratch := (gm_get (w_scratch w))(key \<mapsto> b)\<rparr>"
  by (simp add: job_writes_def world_view_def fun_eq_iff)

lemma own_doc_Get: "doc_Get u i (w_docs w) = (case own_doc (world_view w) u i of None \<Rightarrow> Inl ErrDocNotFound | Some d \<Rightarrow> Inr d)"
  by (simp add: doc_Get_def own_doc_def split: option.split)

subsection \<open>Properties\<close>

text \<open>
  C12. Indexing a document end to end, under any pattern of outages: when preparation returned
  staged work, the embedding job wrote its result, and finalisation returned without error, the
  document's chunks are exactly the splits of its file, the job was given their texts in order,
  the i-th chunk carries the i-th vector the job returned, and the document is marked indexed.
\<close>

theorem indexing_embeds_every_chunk:
  assumes "world_ok w"
    and "di_Prepare mem_backend cfg inp w = (w1, Inr p)" and "pr_embed p"
    and "w2 = job_writes (pr_result_key p) (EmbedResponse es) fs w1"
    and "di_Finalize mem_backend (inp\<lparr>di_prepare := Some p\<rparr>) w2 = (w3, None)"
  shows "let cs = chunk_ListByDocument (di_user inp) (di_doc inp) (w_chunks w3) in
     gm_get (w_scratch w1) (pr_input_key p) = Some (EmbedRequest (map c_text cs)) \<and>
     map c_embedding cs = es \<and>
     (\<exists>doc data. doc_Get (di_user inp) (di_doc inp) (w_docs w) = Inr doc \<and>
        gm_get (w_uploads w) (d_s3key doc) = Some data \<and> map c_text cs = map c_text (pc_split cfg data)) \<and>
     (\<exists>doc. doc_Get (di_user inp) (di_doc inp) (w_docs w3) = Inr doc \<and> d_status doc = DocIndexed)"
proof -
  let ?u = "di_user inp" and ?i = "di_doc inp"
  note ok = world_okD[OF assms(1)]
  obtain d data where d: "own_doc (world_view w) ?u ?i = Some d" "gm_get (w_uploads w) (d_s3key d) = Some data"
    "chunk_ids_ok (world_view w1)"
    "map c_text (chunk_ListByDocument ?u ?i (w_chunks w1)) = map c_text (pc_split cfg data)"
    "gm_get (w_scratch w1) (pr_input_key p) = Some (EmbedRequest (map c_text (pc_split cfg data)))"
    "\<not> pr_stale p" "\<not> pr_already_indexed p"
    by (rule mem.di_Prepare_embed[OF assms(2,3) conjunct1[OF ok] conjunct2[OF ok]]) auto
  have ids2: "chunk_ids_ok (world_view w2)" using d(3) by (simp add: assms(4) job_writes_view chunk_ids_ok_def)
  have c2: "w_chunks w2 = w_chunks w1" by (simp add: assms(4) job_writes_def)
  obtain body es' d' ps where f: "v_scratch (world_view w2) (pr_result_key p) = Some body"
    "unmarshal_embeddings body = Some es'"
    "map c_embedding (chunk_ListByDocument ?u ?i (w_chunks w3)) = es'"
    "w_chunks w3 = map (put_embedding ps) (w_chunks w2)"
    "own_doc (world_view w3) ?u ?i = Some d'" "d_status d' = DocIndexed"
    by (rule mem.di_Finalize_done[OF assms(5) _ assms(3) d(6,7) ids2]) auto
  have "es' = es" using f(1,2) by (auto simp: assms(4) job_writes_view)
  moreover have "map c_text (chunk_ListByDocument ?u ?i (w_chunks w3)) = map c_text (pc_split cfg data)"
    using d(4) by (simp add: f(4) c2 list_map_put comp_def)
  ultimately show ?thesis using d f(3,5,6) by (simp add: own_doc_Get Let_def)
qed

definition demo_prepared_world :: world where
  "demo_prepared_world = fst (di_Prepare mem_backend demo_cfg (demo_input 1 None) (demo_world [OpEnqueue (demo_key DocumentIndexing)] []))"

theorem indexing_embeds_every_chunk_witness:
  "let w2 = job_writes ''batch-jobs/embeddings/7-1/result.json'' (EmbedResponse [[1], [2]]) [] demo_prepared_world;
       w3 = fst (di_Finalize mem_backend (demo_input 1 (Some demo_prepared)) w2)
   in map (\<lambda>c. (c_text c, c_embedding c)) (chunk_ListByDocument 1 7 (w_chunks w3)) = [(''abcd'', [1]), (''defg'', [2])]
      \<and> (\<exists>doc. doc_Get 1 7 (w_docs w3) = Inr doc \<and> d_status doc = DocIndexed)"
proof -
  let ?w = "demo_world [OpEnqueue (demo_key DocumentIndexing)] []"
  let ?w2 = "job_writes ''batch-jobs/embeddings/7-1/result.json'' (EmbedResponse [[1], [2]]) [] demo_prepared_world"
  let ?r = "di_Finalize mem_backend (demo_input 1 (Some demo_prepared)) ?w2"
  have ok: "world_ok ?w" by code_simp
  have "snd (di_Prepare mem_backend demo_cfg (demo_input 1 None) ?w) = Inr demo_prepared" by code_simp
  then have prep: "di_Prepare mem_backend demo_cfg (demo_input 1 None) ?w = (demo_prepared_world, Inr demo_prepared)"
    by (simp add: demo_prepared_world_def prod_eq_iff)
  have emb: "pr_embed demo_prepared" by (simp add: demo_prepared_def)
  have "snd ?r = None" by code_simp
  then have fin: "di_Finalize mem_backend ((demo_input 1 None)\<lparr>di_prepare := Some demo_prepared\<rparr>) ?w2 = (fst ?r, None)"
    by (simp add: demo_input_def prod_eq_iff)
  have w2: "?w2 = job_writes (pr_result_key demo_prepared) (EmbedResponse [[1], [2]]) [] demo_prepared_world"
    by (simp add: demo_prepared_def)
  have "map (\<lambda>c. (c_text c, c_embedding c)) (chunk_ListByDocument 1 7 (w_chunks (fst ?r))) = [(''abcd'', [1]), (''defg'', [2])]"
    by code_simp
  with indexing_embeds_every_chunk[OF ok prep emb w2 fin] show ?thesis
    by (simp add: Let_def demo_input_def)
qed

text \<open>
  A preparation or a failure record of a superseded attempt does nothing: whatever faults
  occur, documents, chunks, objects, job records and published events stay as they were.
\<close>

theorem superseded_step_does_nothing:
  assumes "js_Get (w_jobs w) (run_key (di_run inp)) = Inr c" and "di_attempt inp \<noteq> r_attempt c"
  shows "world_view (fst (di_Prepare mem_backend cfg inp w)) = world_view w
    \<and> world_view (fst (di_RecordFailure mem_backend inp w)) = world_view w"
proof -
  have c: "v_recs (world_view w) (slot_of (run_key (di_run inp))) = Some c" "k_user (r_key c) = di_user inp"
    using assms(1) by (auto simp: js_Get_def js_recs_def split: option.splits if_splits)
  have "world_view (fst (tail_RecordFailure mem_backend (di_run inp) e st ks w)) = world_view w" for e st ks
    using mem.record_failure_superseded[of w "di_run inp" c] c assms(2) by simp
  then have "world_view (fst (di_RecordFailure mem_backend inp w)) = world_view w"
    by (simp add: di_RecordFailure_def try_proc_def split: prod.split option.split) (metis fst_conv)
  then show ?thesis using mem.di_Prepare_stale[OF c assms(2)] by blast
qed

theorem superseded_step_does_nothing_witness:
  "let w = demo_world [OpEnqueue (demo_key DocumentIndexing), OpFailed (demo_key DocumentIndexing) 1 ''x'',
             OpEnqueue (demo_key DocumentIndexing)] []
   in world_view (fst (di_Prepare mem_backend demo_cfg (demo_input 1 None) w)) = world_view w"
proof -
  let ?w = "demo_world [OpEnqueue (demo_key DocumentIndexing), OpFailed (demo_key DocumentIndexing) 1 ''x'',
             OpEnqueue (demo_key DocumentIndexing)] []"
  have "js_Get (w_jobs ?w) (run_key (di_run (demo_input 1 None))) =
      Inr \<lparr>r_key = demo_key DocumentIndexing, r_status = StPending, r_phase = '''', r_attempt = 2, r_last_error = ''''\<rparr>"
    by code_simp
  from superseded_step_does_nothing[OF this] show ?thesis by (simp add: Let_def demo_input_def)
qed

text \<open>
  C13. Finalisation is the exception: it never asks whether its attempt is still current. A
  superseded attempt's finalisation that finds its own result object overwrites the embeddings of
  the newer attempt's chunks and marks the document indexed.
\<close>

theorem superseded_finalize_still_indexes:
  assumes "world_ok w" and "js_Get (w_jobs w) (run_key (di_run inp)) = Inr c" and "di_attempt inp \<noteq> r_attempt c"
    and "di_prepare inp = Some p" "pr_embed p" "\<not> pr_stale p" "\<not> pr_already_indexed p"
    and "gm_get (w_scratch w) (pr_result_key p) = Some (EmbedResponse es)"
    and "di_Finalize mem_backend inp w = (w', None)"
  shows "map c_embedding (chunk_ListByDocument (di_user inp) (di_doc inp) (w_chunks w')) = es
    \<and> (\<exists>doc. doc_Get (di_user inp) (di_doc inp) (w_docs w') = Inr doc \<and> d_status doc = DocIndexed)"
proof -
  obtain body es' d' ps where f: "v_scratch (world_view w) (pr_result_key p) = Some body"
    "unmarshal_embeddings body = Some es'"
    "map c_embedding (chunk_ListByDocument (di_user inp) (di_doc inp) (w_chunks w')) = es'"
    "w_chunks w' = map (put_embedding ps) (w_chunks w)"
    "own_doc (world_view w') (di_user inp) (di_doc inp) = Some d'" "d_status d' = DocIndexed"
    by (rule mem.di_Finalize_done[OF assms(9,4-7) conjunct1[OF world_okD[OF assms(1)]]]) auto
  have "es' = es" using f(1,2) assms(8) by auto
  then show ?thesis using f(3,5,6) by (simp add: own_doc_Get)
qed

definition demo_superseded_world :: world where
  "demo_superseded_world =
     (job_writes ''batch-jobs/embeddings/7-1/result.json'' (EmbedResponse [[1], [2]]) [] demo_prepared_world)
       \<lparr>w_jobs := js_run [OpEnqueue (demo_key DocumentIndexing), OpFailed (demo_key DocumentIndexing) 1 ''x'',
          OpEnqueue (demo_key DocumentIndexing)] js_new\<rparr>"

theorem superseded_finalize_still_indexes_witness:
  "let w' = fst (di_Finalize mem_backend (demo_input 1 (Some demo_prepared)) demo_superseded_world)
   in map c_embedding (chunk_ListByDocument 1 7 (w_chunks w')) = [[1], [2]]
      \<and> (\<exists>doc. doc_Get 1 7 (w_docs w') = Inr doc \<and> d_status doc = DocIndexed)"
proof -
  let ?i = "demo_input 1 (Some demo_prepared)"
  let ?r = "di_Finalize mem_backend ?i demo_superseded_world"
  have ok: "world_ok demo_superseded_world" by code_simp
  have get: "js_Get (w_jobs demo_superseded_world) (run_key (di_run ?i)) =
      Inr \<lparr>r_key = demo_key DocumentIndexing, r_status = StPending, r_phase = '''', r_attempt = 2, r_last_error = ''''\<rparr>"
    by code_simp
  have scr: "gm_get (w_scratch demo_superseded_world) (pr_result_key demo_prepared) = Some (EmbedResponse [[1], [2]])"
    by code_simp
  have "snd ?r = None" by code_simp
  then have fin: "di_Finalize mem_backend ?i demo_superseded_world = (fst ?r, None)" by (simp add: prod_eq_iff)
  have "map c_embedding (chunk_ListByDocument (di_user ?i) (di_doc ?i) (w_chunks (fst ?r))) = [[1], [2]]
    \<and> (\<exists>doc. doc_Get (di_user ?i) (di_doc ?i) (w_docs (fst ?r)) = Inr doc \<and> d_status doc = DocIndexed)"
    by (rule superseded_finalize_still_indexes[OF ok get _ _ _ _ _ scr fin]) (simp_all add: demo_input_def demo_prepared_def)
  then show ?thesis by (simp add: Let_def demo_input_def)
qed

text \<open>
  C14. Recording the failure of the current attempt, when it returns, leaves the job failed with
  the recorded reason and the document, if it still exists, marked failed; it changes no chunk and
  publishes nothing.
\<close>

theorem failure_recorded:
  assumes "js_Get (w_jobs w) (run_key (di_run inp)) = Inr c" and "di_attempt inp = r_attempt c" and "Active (r_status c)"
    and "di_RecordFailure mem_backend inp w = (w', None)"
  shows "js_recs (w_jobs w') = (js_recs (w_jobs w))(slot_of (run_key (di_run inp)) \<mapsto>
       c\<lparr>r_status := StFailed, r_last_error := Reason (di_error inp)\<rparr>)
     \<and> (case doc_Get (di_user inp) (di_doc inp) (w_docs w) of
          Inl e \<Rightarrow> gm_get (w_docs w') = gm_get (w_docs w)
        | Inr d \<Rightarrow> (\<exists>t. gm_get (w_docs w') = (gm_get (w_docs w))(di_doc inp \<mapsto> d\<lparr>d_status := DocFailed, d_updated := t\<rparr>)))
     \<and> w_chunks w' = w_chunks w \<and> w_sent w' = w_sent w"
proof -
  have c: "v_recs (world_view w) (slot_of (run_key (di_run inp))) = Some c" "k_user (r_key c) = di_user inp"
    using assms(1) by (auto simp: js_Get_def js_recs_def split: option.splits if_splits)
  have "tail_RecordFailure mem_backend (di_run inp) (di_error inp) (prepared_staged (di_prepare inp)) [] w = (w', None)"
    using assms(4) by (auto simp: di_RecordFailure_def try_proc_def split: prod.splits option.splits)
  from mem.record_failure_done[OF this, of c, unfolded run_key_di] c assms(2,3)
  have "\<exists>f t. world_view w' = (world_view w)\<lparr>v_recs := (v_recs (world_view w))(slot_of (run_key (di_run inp)) \<mapsto>
           c\<lparr>r_status := StFailed, r_last_error := Reason (di_error inp)\<rparr>),
         v_docs := (case own_doc (world_view w) (di_user inp) (di_doc inp) of None \<Rightarrow> v_docs (world_view w)
            | Some d \<Rightarrow> (v_docs (world_view w))(di_doc inp \<mapsto> d\<lparr>d_status := DocFailed, d_updated := t\<rparr>)),
         v_scratch := f\<rparr>" by simp
  then obtain f t where v: "world_view w' = (world_view w)\<lparr>v_recs := (v_recs (world_view w))(slot_of (run_key (di_run inp)) \<mapsto>
           c\<lparr>r_status := StFailed, r_last_error := Reason (di_error inp)\<rparr>),
         v_docs := (case own_doc (world_view w) (di_user inp) (di_doc inp) of None \<Rightarrow> v_docs (world_view w)
            | Some d \<Rightarrow> (v_docs (world_view w))(di_doc inp \<mapsto> d\<lparr>d_status := DocFailed, d_updated := t\<rparr>)),
         v_scratch := f\<rparr>" by blast
  have "js_recs (w_jobs w') = (js_recs (w_jobs w))(slot_of (run_key (di_run inp)) \<mapsto>
       c\<lparr>r_status := StFailed, r_last_error := Reason (di_error inp)\<rparr>)"
    "w_chunks w' = w_chunks w" "w_sent w' = w_sent w"
    using arg_cong[OF v, of v_recs] arg_cong[OF v, of v_chunks] arg_cong[OF v, of v_events] by simp_all
  moreover have "case doc_Get (di_user inp) (di_doc inp) (w_docs w) of
          Inl e \<Rightarrow> gm_get (w_docs w') = gm_get (w_docs w)
        | Inr d \<Rightarrow> (\<exists>t. gm_get (w_docs w') = (gm_get (w_docs w))(di_doc inp \<mapsto> d\<lparr>d_status := DocFailed, d_updated := t\<rparr>))"
    using arg_cong[OF v, of v_docs] by (auto simp: own_doc_Get split: option.splits)
  ultimately show ?thesis by blast
qed

theorem failure_recorded_witness:
  "let w = demo_world [OpEnqueue (demo_key DocumentIndexing)] [];
       w' = fst (di_RecordFailure mem_backend (demo_input 1 None) w)
   in js_recs (w_jobs w') (7, DocumentIndexing) = Some \<lparr>r_key = demo_key DocumentIndexing, r_status = StFailed,
        r_phase = '''', r_attempt = 1, r_last_error = ''unknown failure''\<rparr>"
proof -
  let ?w = "demo_world [OpEnqueue (demo_key DocumentIndexing)] []"
  let ?i = "demo_input 1 None"
  have get: "js_Get (w_jobs ?w) (run_key (di_run ?i)) =
      Inr \<lparr>r_key = demo_key DocumentIndexing, r_status = StPending, r_phase = '''', r_attempt = 1, r_last_error = ''''\<rparr>"
    by code_simp
  have "snd (di_RecordFailure mem_backend ?i ?w) = None" by code_simp
  then have fin: "di_RecordFailure mem_backend ?i ?w = (fst (di_RecordFailure mem_backend ?i ?w), None)" by (simp add: prod_eq_iff)
  from failure_recorded[OF get _ _ fin] show ?thesis
    by (simp add: Let_def demo_input_def run_key_def di_run_def slot_of_def Reason_def)
qed

end
