(* ===== verification/RegionClassify.thy ===== *)
theory RegionClassify
  imports DocIndex
begin

text \<open>
  \<^verbatim>\<open>internal/pipeline/regionclassify\<close>: the Lambda steps that index PDFs and images.
  \<open>rc_StageLayout\<close> presigns the layout job's objects, \<open>rc_BuildChunks\<close> turns its regions into
  manifest rows and chunks and stages the embedding job, and the last two steps are the shared
  tail. The properties show which chunks and manifest rows a layout result becomes, when a chunk's
  region identifier is right, and that it is wrong for the order the layout job really returns.
\<close>

subsection \<open>The handler\<close>

record layout =
  ly_stale :: bool
  ly_already_indexed :: bool
  ly_needs_layout :: bool
  ly_job_name :: string
  ly_pdf_url :: string
  ly_result_url :: string
  ly_result_key :: string

definition layout_zero :: layout where
  "layout_zero = \<lparr>ly_stale = False, ly_already_indexed = False, ly_needs_layout = False, ly_job_name = '''',
     ly_pdf_url = '''', ly_result_url = '''', ly_result_key = ''''\<rparr>"

record rc_input =
  ri_doc :: uuid
  ri_user :: uuid
  ri_attempt :: int
  ri_layout :: "layout option"
  ri_prepare :: "prepared option"
  ri_error :: "step_error option"

definition rc_run :: "rc_input \<Rightarrow> job_run" where
  "rc_run inp = \<lparr>run_type = RegionClassification, run_doc = ri_doc inp, run_user = ri_user inp, run_attempt = ri_attempt inp\<rparr>"

definition isImage :: "document \<Rightarrow> bool" where
  "isImage doc = has_prefix (d_content_type doc) ''image/''"

definition extractorVersion :: string where
  "extractorVersion = ''v1''"

definition rc_StageLayout :: "'s backend \<Rightarrow> pipeline_cfg \<Rightarrow> rc_input \<Rightarrow> ('s, layout) call" where
  "rc_StageLayout B cfg inp =
     try_proc (sw_mark_processing (b_status B) (run_key (rc_run inp)) (ri_attempt inp))
       (\<lambda>e s. if Superseded (Some e) then (s, Inr (layout_zero\<lparr>ly_stale := True\<rparr>))
              else (s, Inl (Wrapf ''regionclassify: stage layout: mark processing'' (TransientUnless e [ErrJobNotFound]))))
       (try_call (b_doc_get B (ri_user inp) (ri_doc inp))
          (\<lambda>e s. (s, Inl (Wrapf ''regionclassify: stage layout: get document'' (TransientUnless e [ErrDocNotFound]))))
          (\<lambda>doc s.
             if d_status doc = DocIndexed then (s, Inr (layout_zero\<lparr>ly_already_indexed := True\<rparr>))
             else try_proc (b_doc_status B (ri_user inp) (ri_doc inp) DocProcessing)
               (\<lambda>e s. (s, Inl (Wrapf ''regionclassify: stage layout: mark document processing'' (Transient e))))
               (\<lambda>s.
                  if isImage doc then (s, Inr layout_zero)
                  else
                    (let name = pc_uuid cfg (ri_doc inp) @ ''-'' @ itoa (ri_attempt inp);
                         l = layout_zero\<lparr>ly_needs_layout := True, ly_job_name := ''region-extraction-'' @ name,
                               ly_result_key := ''batch-jobs/regions/'' @ name @ ''/result.json''\<rparr>
                     in try_call (b_up_presign B (d_s3key doc))
                          (\<lambda>e s. (s, Inl (Wrapf ''regionclassify: stage layout: presign upload'' (Transient e))))
                          (\<lambda>pdf_url. try_call (b_scr_presign_put B (ly_result_key l))
                             (\<lambda>e s. (s, Inl (Wrapf ''regionclassify: stage layout: presign layout result'' (Transient e))))
                             (\<lambda>result_url s. (s, Inr (l\<lparr>ly_pdf_url := pdf_url, ly_result_url := result_url\<rparr>)))) s)) s))"

record resolved_region =
  rs_raw :: raw_region
  rs_type :: region_type
  rs_status :: region_status

definition resolve_one :: "raw_region \<Rightarrow> resolved_region" where
  "resolve_one r =
     (if rr_needs_vlm r = ''describe'' then
        \<lparr>rs_raw = r, rs_type = Figure, rs_status = RegionSkipped\<rparr>
      else if rr_needs_vlm r = ''confirm_scan'' then
        \<lparr>rs_raw = r, rs_type = (if rr_type r = ''unconfirmed_table'' then ScannedTable else ScannedText),
         rs_status = RegionSkipped\<rparr>
      else
        \<lparr>rs_raw = r, rs_type = (if rr_type r = ''native_table'' then NativeTable else NativeText),
         rs_status = (if rr_text r \<noteq> '''' then RegionIndexed else RegionSkipped)\<rparr>)"

definition resolve :: "raw_region list \<Rightarrow> resolved_region list" where
  "resolve raws = map resolve_one raws"

definition region_row :: "document \<Rightarrow> resolved_region \<Rightarrow> region" where
  "region_row doc res =
     \<lparr>rg_id = uuid_nil, rg_doc = d_id doc, rg_kb = d_kb doc, rg_user = d_user doc, rg_type = rs_type res,
      rg_page = rr_page (rs_raw res), rg_box = rr_box (rs_raw res), rg_status = rs_status res,
      rg_version = extractorVersion, rg_created = 0\<rparr>"

definition replaceManifest :: "'s backend \<Rightarrow> document \<Rightarrow> resolved_region list \<Rightarrow> ('s, region list) call" where
  "replaceManifest B doc resolved =
     try_proc (b_man_delete B (d_user doc) (d_id doc))
       (\<lambda>e s. (s, Inl (Wrapf ''clear existing manifest'' (Transient e))))
       (try_proc (b_man_create B (map (region_row doc) resolved))
          (\<lambda>e s. (s, Inl (Wrapf ''persist manifest'' (Transient e))))
          (try_call (b_man_list B (d_user doc) (d_id doc))
             (\<lambda>e s. (s, Inl (Wrapf ''list manifest'' (Transient e))))
             (\<lambda>persisted s. (s, Inr persisted))))"

text \<open>The inner loop: the splits of one region, numbered from the length of what came before.\<close>

definition region_chunk :: "document \<Rightarrow> resolved_region \<Rightarrow> region list \<Rightarrow> nat \<Rightarrow> nat \<Rightarrow> chunk \<Rightarrow> chunk" where
  "region_chunk doc res persisted i ordinal c =
     c\<lparr>c_doc := d_id doc, c_kb := d_kb doc, c_user := d_user doc, c_ordinal := ordinal,
       c_page := Some (rr_page (rs_raw res)), c_box := Some (rr_box (rs_raw res)),
       c_region := (if i < length persisted then Some (rg_id (persisted ! i)) else c_region c)\<rparr>"

definition build_region ::
  "pipeline_cfg \<Rightarrow> document \<Rightarrow> region list \<Rightarrow> chunk list \<Rightarrow> nat \<times> resolved_region \<Rightarrow> chunk list" where
  "build_region cfg doc persisted out p =
     (case p of (i, res) \<Rightarrow>
        if rs_status res \<noteq> RegionIndexed then out
        else foldl (\<lambda>out c. out @ [region_chunk doc res persisted i (length out) c]) out
               (pc_split cfg (rr_text (rs_raw res))))"

definition buildChunks :: "pipeline_cfg \<Rightarrow> document \<Rightarrow> resolved_region list \<Rightarrow> region list \<Rightarrow> chunk list" where
  "buildChunks cfg doc resolved persisted =
     foldl (build_region cfg doc persisted) [] (zip [0 ..< length resolved] resolved)"

definition readLayoutResult :: "'s backend \<Rightarrow> string \<Rightarrow> ('s, raw_region list) call" where
  "readLayoutResult B key =
     try_call (b_scr_get B key) (\<lambda>e s. (s, Inl (Wrapf ''read layout result'' (Transient e))))
       (\<lambda>body s.
          case unmarshal_regions body of
            None \<Rightarrow> (s, Inl (Plain ''decode layout result''))
          | Some rs \<Rightarrow> (s, Inr rs))"

text \<open>An image is one figure region covering its page.\<close>

definition image_region :: raw_region where
  "image_region = \<lparr>rr_type = ''figure'', rr_page = 1,
     rr_box = \<lparr>bb_x0 = 0, bb_y0 = 0, bb_x1 = 1, bb_y1 = 1\<rparr>, rr_text = '''', rr_needs_vlm = ''describe''\<rparr>"

definition rc_persist ::
  "'s backend \<Rightarrow> pipeline_cfg \<Rightarrow> rc_input \<Rightarrow> document \<Rightarrow> raw_region list \<Rightarrow> ('s, prepared) call" where
  "rc_persist B cfg inp doc raws =
     (let resolved = resolve raws in
      try_call (replaceManifest B doc resolved)
        (\<lambda>e s. (s, Inl (Wrapf ''regionclassify: build chunks'' e)))
        (\<lambda>persisted.
           let chunks = buildChunks cfg doc resolved persisted in
           try_proc (b_chunk_delete B (ri_user inp) (ri_doc inp))
             (\<lambda>e s. (s, Inl (Wrapf ''regionclassify: build chunks: clear existing chunks'' (Transient e))))
             (if chunks = [] then publishEntityExtraction B doc (\<lambda>s. (s, Inr prepared_zero))
              else try_proc (b_chunk_create B chunks)
                (\<lambda>e s. (s, Inl (Wrapf ''regionclassify: build chunks: persist chunks'' (Transient e))))
                (publishEntityExtraction B doc
                   (\<lambda>s. case sw_set_phase (b_status B) (run_key (rc_run inp)) (ri_attempt inp) PhaseEmbedding s of
                      (s, r) \<Rightarrow>
                        if r \<noteq> None \<and> \<not> Superseded r
                        then (s, Inl (Wrapf ''regionclassify: build chunks: set phase'' (TransientUnless (the r) [ErrJobNotFound])))
                        else try_call (Stage B cfg (rc_run inp) (map c_text chunks))
                               (\<lambda>e s. (s, Inl (Wrapf ''regionclassify: build chunks'' e)))
                               (\<lambda>st s. (s, Inr (prepared_of st))) s)))))"

definition rc_BuildChunks :: "'s backend \<Rightarrow> pipeline_cfg \<Rightarrow> rc_input \<Rightarrow> ('s, prepared) call" where
  "rc_BuildChunks B cfg inp s =
     (case ri_layout inp of
        None \<Rightarrow> (s, Inl (Plain ''regionclassify: build chunks: missing layout result''))
      | Some l \<Rightarrow>
          if ly_stale l then (s, Inr (prepared_zero\<lparr>pr_stale := True\<rparr>))
          else if ly_already_indexed l then (s, Inr (prepared_zero\<lparr>pr_already_indexed := True\<rparr>))
          else try_proc (sw_mark_processing (b_status B) (run_key (rc_run inp)) (ri_attempt inp))
            (\<lambda>e s. if Superseded (Some e) then (s, Inr (prepared_zero\<lparr>pr_stale := True\<rparr>))
                   else (s, Inl (Wrapf ''regionclassify: build chunks: check attempt'' (TransientUnless e [ErrJobNotFound]))))
            (try_call (b_doc_get B (ri_user inp) (ri_doc inp))
               (\<lambda>e s. (s, Inl (Wrapf ''regionclassify: build chunks: get document'' (TransientUnless e [ErrDocNotFound]))))
               (\<lambda>doc. if ly_needs_layout l
                      then try_call (readLayoutResult B (ly_result_key l))
                             (\<lambda>e s. (s, Inl (Wrapf ''regionclassify: build chunks'' e)))
                             (\<lambda>raws. rc_persist B cfg inp doc raws)
                      else rc_persist B cfg inp doc [image_region])) s)"

definition layoutResultKey :: "rc_input \<Rightarrow> string" where
  "layoutResultKey inp = (case ri_layout inp of None \<Rightarrow> '''' | Some l \<Rightarrow> ly_result_key l)"

definition rc_Finalize :: "'s backend \<Rightarrow> rc_input \<Rightarrow> 's proc" where
  "rc_Finalize B inp s =
     (case ri_prepare inp of
        None \<Rightarrow> (s, Some (Plain ''regionclassify: finalize: missing build_chunks result''))
      | Some p \<Rightarrow>
          if pr_stale p then (s, None)
          else try_proc (tail_Finalize B (rc_run inp) (prepared_staged (Some p)) (pr_already_indexed p) [layoutResultKey inp])
                 (\<lambda>e s. (s, Some (Wrapf ''regionclassify: finalize'' e))) (\<lambda>s. (s, None)) s)"

definition rc_RecordFailure :: "'s backend \<Rightarrow> rc_input \<Rightarrow> 's proc" where
  "rc_RecordFailure B inp =
     try_proc (tail_RecordFailure B (rc_run inp) (ri_error inp) (prepared_staged (ri_prepare inp)) [layoutResultKey inp])
       (\<lambda>e s. (s, Some (Wrapf ''regionclassify: record failure'' e))) (\<lambda>s. (s, None))"

datatype rc_output = RcNone | RcLayout layout | RcPrepared prepared

definition rc_Handle ::
  "'s backend \<Rightarrow> pipeline_cfg \<Rightarrow> string \<Rightarrow> rc_input \<Rightarrow> 's \<Rightarrow> 's \<times> rc_output \<times> gerror option" where
  "rc_Handle B cfg step inp s =
     (if step = ''stage_layout'' then
        (case rc_StageLayout B cfg inp s of
           (s, Inr l) \<Rightarrow> (s, RcLayout l, ForLambda None)
         | (s, Inl e) \<Rightarrow> (s, RcLayout layout_zero, ForLambda (Some e)))
      else if step = ''build_chunks'' then
        (case rc_BuildChunks B cfg inp s of
           (s, Inr p) \<Rightarrow> (s, RcPrepared p, ForLambda None)
         | (s, Inl e) \<Rightarrow> (s, RcPrepared prepared_zero, ForLambda (Some e)))
      else if step = ''finalize'' then (case rc_Finalize B inp s of (s, r) \<Rightarrow> (s, RcNone, ForLambda r))
      else if step = ''record_failure'' then (case rc_RecordFailure B inp s of (s, r) \<Rightarrow> (s, RcNone, ForLambda r))
      else (s, RcNone, ForLambda (Some (Plain (''regionclassify: unknown step '' @ step)))))"

subsection \<open>Chunk building\<close>

lemma number_chunks:
  "foldl (\<lambda>out c. out @ [f (length out) c]) out cs =
     out @ map2 f [length out ..< length out + length cs] cs"
proof (induction cs arbitrary: out)
  case (Cons c cs)
  have "[length out ..< length out + length (c # cs)] = length out # [Suc (length out) ..< Suc (length out) + length cs]"
    by (subst upt_rec) simp
  then show ?case by (simp add: Cons[of "out @ [f (length out) c]"] del: upt_Suc)
qed simp

lemma build_region_eq:
  "build_region cfg doc persisted out (i, res) =
     (if rs_status res \<noteq> RegionIndexed then out
      else out @ map2 (region_chunk doc res persisted i) [length out ..< length out + length (pc_split cfg (rr_text (rs_raw res)))]
                   (pc_split cfg (rr_text (rs_raw res))))"
  by (simp add: build_region_def number_chunks)

definition ordinals_ok :: "chunk list \<Rightarrow> bool" where
  "ordinals_ok cs \<longleftrightarrow> map c_ordinal cs = [0 ..< length cs]"

lemma build_region_ordinals: "ordinals_ok out \<Longrightarrow> ordinals_ok (build_region cfg doc persisted out (i, res))"
proof -
  assume o: "ordinals_ok out"
  let ?cs = "pc_split cfg (rr_text (rs_raw res))" and ?n = "length out"
  have "map c_ordinal (map2 (region_chunk doc res persisted i) [?n ..< ?n + length ?cs] ?cs) = [?n ..< ?n + length ?cs]"
    by (rule nth_equalityI) (simp_all add: region_chunk_def)
  then show ?thesis using o by (simp add: build_region_eq ordinals_ok_def upt_add_eq_append[of 0])
qed

lemma build_regions_ordinals: "ordinals_ok out \<Longrightarrow> ordinals_ok (foldl (build_region cfg doc persisted) out ps)"
proof (induction ps arbitrary: out)
  case (Cons p ps)
  then show ?case using build_region_ordinals by (cases p) simp
qed simp

definition indexed_texts :: "pipeline_cfg \<Rightarrow> raw_region list \<Rightarrow> string list" where
  "indexed_texts cfg raws =
     concat (map (\<lambda>r. map c_text (pc_split cfg (rr_text r)))
       (filter (\<lambda>r. rr_needs_vlm r \<notin> {''describe'', ''confirm_scan''} \<and> rr_text r \<noteq> '''') raws))"

lemma resolve_one_indexed:
  "rs_status (resolve_one r) = RegionIndexed \<longleftrightarrow> rr_needs_vlm r \<notin> {''describe'', ''confirm_scan''} \<and> rr_text r \<noteq> ''''"
  "rs_raw (resolve_one r) = r"
  by (simp_all add: resolve_one_def)

lemma build_region_texts:
  "map c_text (build_region cfg doc persisted out (i, resolve_one r)) = map c_text out @ indexed_texts cfg [r]"
proof -
  let ?cs = "pc_split cfg (rr_text r)" and ?n = "length out"
  have "map c_text (map2 (region_chunk doc (resolve_one r) persisted i) [?n ..< ?n + length ?cs] ?cs) = map c_text ?cs"
    by (rule map2_nth_eq) (simp_all add: region_chunk_def)
  then show ?thesis unfolding build_region_eq resolve_one_indexed by (simp add: indexed_texts_def)
qed

lemma indexed_texts_Cons: "indexed_texts cfg (r # xs) = indexed_texts cfg [r] @ indexed_texts cfg xs"
  by (simp add: indexed_texts_def)

lemma build_regions_texts:
  "length js = length raws \<Longrightarrow>
   map c_text (foldl (build_region cfg doc persisted) out (zip js (resolve raws))) = map c_text out @ indexed_texts cfg raws"
proof (induction js raws arbitrary: out rule: list_induct2)
  case (Cons j js r raws)
  have "zip (j # js) (resolve (r # raws)) = (j, resolve_one r) # zip js (resolve raws)" by (simp add: resolve_def)
  then show ?case
    by (simp only: foldl_Cons Cons.IH build_region_texts indexed_texts_Cons[of cfg r raws] append_assoc)
qed (simp add: resolve_def indexed_texts_def)

text \<open>Each chunk comes from an indexed region and is tagged with its page and box.\<close>

definition made_from :: "pipeline_cfg \<Rightarrow> document \<Rightarrow> region list \<Rightarrow> (nat \<times> resolved_region) list \<Rightarrow> chunk \<Rightarrow> bool" where
  "made_from cfg doc persisted ps c \<longleftrightarrow>
     (\<exists>(i, res) \<in> set ps. rs_status res = RegionIndexed \<and>
        (\<exists>n. \<exists>c0 \<in> set (pc_split cfg (rr_text (rs_raw res))). c = region_chunk doc res persisted i n c0))"

lemma build_region_origin:
  assumes "c \<in> set (build_region cfg doc persisted out (i, res))" "c \<notin> set out"
  shows "rs_status res = RegionIndexed \<and>
     (\<exists>n. \<exists>c0 \<in> set (pc_split cfg (rr_text (rs_raw res))). c = region_chunk doc res persisted i n c0)"
  using assms by (auto simp: build_region_eq split: if_splits) (metis set_zip_rightD)

lemma build_regions_origin:
  "c \<in> set (foldl (build_region cfg doc persisted) out ps) \<Longrightarrow> c \<in> set out \<or> made_from cfg doc persisted ps c"
proof (induction ps arbitrary: out)
  case (Cons p ps)
  obtain i res where p: "p = (i, res)" by force
  from Cons.prems have "c \<in> set (build_region cfg doc persisted out p) \<or> made_from cfg doc persisted ps c"
    using Cons.IH by simp
  moreover have "c \<in> set out \<or> made_from cfg doc persisted (p # ps) c"
    if "c \<in> set (build_region cfg doc persisted out p)"
    using build_region_origin[OF that[unfolded p]] by (auto simp: made_from_def p)
  ultimately show ?case by (auto simp: made_from_def)
qed simp

subsection \<open>The manifest\<close>

text \<open>Regions as \<open>region_ListByDocument\<close> orders them, and strictly so.\<close>

definition region_before :: "region \<Rightarrow> region \<Rightarrow> bool" where
  "region_before a b = (if rg_page a \<noteq> rg_page b then rg_page a < rg_page b else bb_y0 (rg_box a) < bb_y0 (rg_box b))"

definition raw_before :: "raw_region \<Rightarrow> raw_region \<Rightarrow> bool" where
  "raw_before a b = (if rr_page a \<noteq> rr_page b then rr_page a < rr_page b else bb_y0 (rr_box a) < bb_y0 (rr_box b))"

definition with_ids :: "uuid list \<Rightarrow> region list \<Rightarrow> region list" where
  "with_ids ids rs = map2 (\<lambda>i g. g\<lparr>rg_id := i\<rparr>) ids rs"

lemma manifest_replaced:
  assumes "fresh_ids ids rs (set (gm_keys (region_DeleteByDocument u d r)))"
  shows "region_BulkCreate ids rs (region_DeleteByDocument u d r) = region_DeleteByDocument u d r @ zip ids (with_ids ids rs)"
proof -
  from assms have "length ids = length rs" "distinct ids" "set ids \<inter> set (gm_keys (region_DeleteByDocument u d r)) = {}"
    by (auto simp: fresh_ids_def)
  from foldl_put_fresh[OF this, of "\<lambda>i g. g\<lparr>rg_id := i\<rparr>"] show ?thesis
    using \<open>length ids = length rs\<close> by (auto simp: region_BulkCreate_def with_ids_def)
qed

lemma manifest_listed:
  assumes "fresh_ids ids rs (set (gm_keys (region_DeleteByDocument u d r)))"
    and "\<forall>g \<in> set rs. rg_user g = u \<and> rg_doc g = d"
  shows "region_ListByDocument u d (region_BulkCreate ids rs (region_DeleteByDocument u d r)) =
    sort_slice region_before (with_ids ids rs)"
proof -
  have l: "length ids = length (with_ids ids rs)" using assms(1) by (simp add: fresh_ids_def with_ids_def)
  have "filter (\<lambda>g. rg_user g = u \<and> rg_doc g = d) (gm_vals (region_DeleteByDocument u d r)) = []"
    by (auto simp: region_DeleteByDocument_def filter_empty_conv)
  moreover have "filter (\<lambda>g. rg_user g = u \<and> rg_doc g = d) (with_ids ids rs) = with_ids ids rs"
    using assms(2) by (auto simp: with_ids_def filter_id_conv dest!: set_zip_rightD)
  ultimately show ?thesis
    by (simp add: manifest_replaced[OF assms(1)] region_ListByDocument_def region_before_def[abs_def] l)
qed

lemma with_ids_sorted:
  assumes "length ids = length rs" "sorted_wrt region_before rs"
  shows "sort_slice region_before (with_ids ids rs) = with_ids ids rs"
proof (rule sort_slice_id)
  have "sorted_wrt region_before (with_ids ids rs)"
    using assms unfolding sorted_wrt_iff_nth_less by (simp add: with_ids_def region_before_def)
  then show "sorted_wrt (\<lambda>a b. \<not> region_before b a) (with_ids ids rs)"
    by (rule sorted_wrt_mono_rel[rotated]) (auto simp: region_before_def split: if_splits)
qed

lemma rows_sorted: "sorted_wrt raw_before raws \<Longrightarrow> sorted_wrt region_before (map (region_row doc) (resolve raws))"
  by (simp add: sorted_wrt_iff_nth_less region_row_def region_before_def raw_before_def resolve_def resolve_one_indexed(2))

text \<open>A chunk is tagged right when its region is in the manifest, indexed, with the chunk's page and box.\<close>

definition region_tag_ok :: "region_repo \<Rightarrow> chunk \<Rightarrow> bool" where
  "region_tag_ok r c =
     (case c_region c of
        None \<Rightarrow> False
      | Some i \<Rightarrow> (case gm_get r i of
            None \<Rightarrow> False
          | Some g \<Rightarrow> c_page c = Some (rg_page g) \<and> c_box c = Some (rg_box g) \<and> rg_status g = RegionIndexed))"

lemma region_tags_right:
  assumes "fresh_ids ids rows (set (gm_keys r0))" "rows = map (region_row doc) (resolve raws)"
    and c: "c \<in> set (buildChunks cfg doc (resolve raws) (with_ids ids rows))"
  shows "region_tag_ok (r0 @ zip ids (with_ids ids rows)) c"
proof -
  let ?res = "resolve raws" and ?p = "with_ids ids rows"
  have len: "length ids = length ?res" "distinct ids" "set ids \<inter> set (gm_keys r0) = {}" "length ?p = length ?res"
    using assms(1,2) by (auto simp: fresh_ids_def with_ids_def)
  from build_regions_origin[OF c[unfolded buildChunks_def]]
  obtain i n c0 where i: "i < length ?res" "rs_status (?res ! i) = RegionIndexed"
    and c0: "c = region_chunk doc (?res ! i) ?p i n c0"
    by (auto simp: made_from_def in_set_zip)
  have row: "?p ! i = (region_row doc (?res ! i))\<lparr>rg_id := ids ! i\<rparr>"
    using i(1) len by (simp add: with_ids_def assms(2))
  have "gm_get r0 (ids ! i) = None" using i(1) len(1,3) by (force simp: map_of_eq_None_iff)
  moreover have "map_of (zip ids ?p) (ids ! i) = Some (?p ! i)"
    using i(1) len by (intro map_of_zip_nth) simp_all
  ultimately have "gm_get (r0 @ zip ids ?p) (ids ! i) = Some (?p ! i)" by (simp add: map_add_def)
  moreover have "c_region c = Some (ids ! i)" using i(1) len by (simp add: c0 region_chunk_def row)
  ultimately show ?thesis using i(2) by (simp add: region_tag_ok_def row c0 region_chunk_def region_row_def)
qed

lemma region_tag_id [simp]: "region_tag_ok r (c\<lparr>c_id := i\<rparr>) = region_tag_ok r c"
  by (simp add: region_tag_ok_def split: option.split)


subsection \<open>What building the chunks does to the view\<close>

lemma buildChunks_owner: "c \<in> set (buildChunks cfg doc resolved persisted) \<Longrightarrow> c_user c = d_user doc \<and> c_doc c = d_id doc"
  unfolding buildChunks_def by (drule build_regions_origin) (auto simp: made_from_def region_chunk_def)

lemma buildChunks_texts: "map c_text (buildChunks cfg doc (resolve raws) persisted) = indexed_texts cfg raws"
  using build_regions_texts[of "[0 ..< length (resolve raws)]" raws cfg doc persisted "[]"]
  by (simp add: buildChunks_def resolve_def)

lemma buildChunks_ordinals: "map c_ordinal (buildChunks cfg doc resolved persisted) = [0 ..< length (buildChunks cfg doc resolved persisted)]"
  using build_regions_ordinals[of "[]"] by (simp add: buildChunks_def ordinals_ok_def)

context backend_laws
begin

lemma replaceManifest_done:
  assumes "replaceManifest B doc resolved s = (s', Inr persisted)"
  obtains ids where "fresh_ids ids (map (region_row doc) resolved)
       (set (gm_keys (region_DeleteByDocument (d_user doc) (d_id doc) (v_regions (view s)))))"
    "view s' = (view s)\<lparr>v_regions := region_BulkCreate ids (map (region_row doc) resolved)
       (region_DeleteByDocument (d_user doc) (d_id doc) (v_regions (view s)))\<rparr>"
    "persisted = sort_slice region_before (with_ids ids (map (region_row doc) resolved))"
proof -
  let ?u = "d_user doc" and ?d = "d_id doc" and ?rows = "map (region_row doc) resolved"
  obtain s1 s2 where s1: "b_man_delete B ?u ?d s = (s1, None)" and s2: "b_man_create B ?rows s1 = (s2, None)"
    and s3: "b_man_list B ?u ?d s2 = (s', Inr persisted)"
    using assms by (auto simp: replaceManifest_def try_proc_def try_call_def split: prod.splits option.splits sum.splits)
  have v1: "view s1 = (view s)\<lparr>v_regions := region_DeleteByDocument ?u ?d (v_regions (view s))\<rparr>"
    using proc_okD[OF man_delete s1] by auto
  obtain ids where ids: "fresh_ids ids ?rows (set (gm_keys (region_DeleteByDocument ?u ?d (v_regions (view s)))))"
    and v2: "view s2 = (view s)\<lparr>v_regions := region_BulkCreate ids ?rows (region_DeleteByDocument ?u ?d (v_regions (view s)))\<rparr>"
    using proc_okD[OF man_create s2] by (auto simp: v1)
  have "view s' = view s2" "persisted = region_ListByDocument ?u ?d (v_regions (view s2))"
    using call_okD[OF man_list s3] by auto
  moreover have "region_ListByDocument ?u ?d (v_regions (view s2)) = sort_slice region_before (with_ids ids ?rows)"
    using manifest_listed[OF ids] by (simp add: v2 region_row_def)
  ultimately show thesis using that[OF ids] v2 by simp
qed

lemma rc_persist_embed:
  assumes "rc_persist B cfg inp doc raws s = (s', Inr p)" "pr_embed p"
    and "d_user doc = ri_user inp" "d_id doc = ri_doc inp"
  obtains ids persisted where
    "fresh_ids ids (map (region_row doc) (resolve raws)) (set (gm_keys (region_DeleteByDocument (d_user doc) (d_id doc) (v_regions (view s)))))"
    "v_regions (view s') = region_BulkCreate ids (map (region_row doc) (resolve raws))
       (region_DeleteByDocument (d_user doc) (d_id doc) (v_regions (view s)))"
    "persisted = sort_slice region_before (with_ids ids (map (region_row doc) (resolve raws)))"
    "\<exists>cids. length cids = length (buildChunks cfg doc (resolve raws) persisted) \<and>
       chunk_ListByDocument (ri_user inp) (ri_doc inp) (v_chunks (view s')) =
         map2 (\<lambda>i c. c\<lparr>c_id := i\<rparr>) cids (buildChunks cfg doc (resolve raws) persisted)"
    "v_scratch (view s') (pr_input_key p) = Some (EmbedRequest (indexed_texts cfg raws))"
proof -
  let ?u = "ri_user inp" and ?i = "ri_doc inp"
  obtain s1 persisted where s1: "replaceManifest B doc (resolve raws) s = (s1, Inr persisted)"
    using assms(1) by (auto simp: rc_persist_def try_call_def Let_def split: prod.splits sum.splits)
  define cs where "cs = buildChunks cfg doc (resolve raws) persisted"
  define tail where "tail = publishEntityExtraction B doc
     (\<lambda>s. case sw_set_phase (b_status B) (run_key (rc_run inp)) (ri_attempt inp) PhaseEmbedding s of
        (s, r) \<Rightarrow>
          if r \<noteq> None \<and> \<not> Superseded r
          then (s, Inl (Wrapf ''regionclassify: build chunks: set phase'' (TransientUnless (the r) [ErrJobNotFound])))
          else try_call (Stage B cfg (rc_run inp) (map c_text cs))
                 (\<lambda>e s. (s, Inl (Wrapf ''regionclassify: build chunks'' e)))
                 (\<lambda>st s. (s, Inr (prepared_of st))) s)"
  obtain s2 s3 where s2: "b_chunk_delete B ?u ?i s1 = (s2, None)" and s3: "b_chunk_create B cs s2 = (s3, None)"
    and tail: "tail s3 = (s', Inr p)"
    using assms(1,2) s1 unfolding tail_def
    by (auto simp: rc_persist_def try_call_eval[of _ _ s1] Let_def try_proc_def publishEntityExtraction_def ignore_def
        prepared_zero_def cs_def[symmetric] split: prod.splits option.splits if_splits)
  obtain s4 r4 where s4: "b_publish B (EntityExtractionRequested (d_id doc) (d_user doc)) s3 = (s4, r4)" by force
  obtain s5 r5 where s5: "sw_set_phase (b_status B) (run_key (rc_run inp)) (ri_attempt inp) PhaseEmbedding s4 = (s5, r5)" by force
  obtain st where s6: "Stage B cfg (rc_run inp) (map c_text cs) s5 = (s', Inr st)" and p: "p = prepared_of st"
    using tail by (auto simp: tail_def publishEntityExtraction_def ignore_def s4 s5 try_call_def
        split: prod.splits sum.splits if_splits)
  obtain ids where ids: "fresh_ids ids (map (region_row doc) (resolve raws))
       (set (gm_keys (region_DeleteByDocument (d_user doc) (d_id doc) (v_regions (view s)))))"
    and v1: "view s1 = (view s)\<lparr>v_regions := region_BulkCreate ids (map (region_row doc) (resolve raws))
       (region_DeleteByDocument (d_user doc) (d_id doc) (v_regions (view s)))\<rparr>"
    and persisted: "persisted = sort_slice region_before (with_ids ids (map (region_row doc) (resolve raws)))"
    by (rule replaceManifest_done[OF s1])
  have v2: "view s2 = (view s1)\<lparr>v_chunks := chunk_DeleteByDocument ?u ?i (v_chunks (view s1))\<rparr>"
    using proc_okD[OF chunk_delete s2] by auto
  obtain cids where cids: "length cids = length cs"
    and v3: "view s3 = (view s1)\<lparr>v_chunks := chunk_BulkCreate cids cs (chunk_DeleteByDocument ?u ?i (v_chunks (view s1)))\<rparr>"
    using proc_okD[OF chunk_create s3] by (auto simp: v2 fresh_ids_def)
  obtain es where v4: "view s4 = (view s3)\<lparr>v_events := es\<rparr>" using publish_view[OF s4] by blast
  have "view s5 = (view s4)\<lparr>v_recs := v_recs (view s5)\<rparr>" using proc_okD[OF st_phase s5] by auto
  then obtain rs where v5: "view s5 = (view s4)\<lparr>v_recs := rs\<rparr>" by blast
  note v6 = Stage_done(1)[OF s6]
  have "\<forall>c \<in> set cs. c_user c = ?u \<and> c_doc c = ?i" using buildChunks_owner assms(3,4) by (fastforce simp: cs_def)
  from list_created[OF cids this] have "chunk_ListByDocument ?u ?i (v_chunks (view s')) = map2 (\<lambda>i c. c\<lparr>c_id := i\<rparr>) cids cs"
    by (simp add: v6 v5 v4 v3)
  moreover have "v_scratch (view s') (pr_input_key p) = Some (EmbedRequest (indexed_texts cfg raws))"
    by (simp add: v6 p prepared_of_def cs_def buildChunks_texts)
  moreover have "v_regions (view s') = region_BulkCreate ids (map (region_row doc) (resolve raws))
       (region_DeleteByDocument (d_user doc) (d_id doc) (v_regions (view s)))"
    by (simp add: v6 v5 v4 v3 v1)
  ultimately show thesis using that[OF ids _ persisted] cids cs_def by blast
qed

lemma rc_BuildChunks_embed:
  assumes "rc_BuildChunks B cfg inp s = (s', Inr p)" "pr_embed p" "ri_layout inp = Some l" "ly_needs_layout l"
    and "v_scratch (view s) (ly_result_key l) = Some (LayoutResult raws)" "doc_ids_ok (view s)"
  obtains doc s0 where "own_doc (view s) (ri_user inp) (ri_doc inp) = Some doc"
    "d_user doc = ri_user inp" "d_id doc = ri_doc inp"
    "\<exists>rs. view s0 = (view s)\<lparr>v_recs := rs\<rparr>" "rc_persist B cfg inp doc raws s0 = (s', Inr p)"
proof -
  obtain s1 s2 s3 doc body raws' where
    s1: "sw_mark_processing (b_status B) (run_key (rc_run inp)) (ri_attempt inp) s = (s1, None)" and
    s2: "b_doc_get B (ri_user inp) (ri_doc inp) s1 = (s2, Inr doc)" and
    s3: "b_scr_get B (ly_result_key l) s2 = (s3, Inr body)" and body: "unmarshal_regions body = Some raws'" and
    rest: "rc_persist B cfg inp doc raws' s3 = (s', Inr p)"
    using assms(1-4) by (auto simp: rc_BuildChunks_def readLayoutResult_def try_proc_def try_call_def prepared_zero_def
        split: prod.splits option.splits sum.splits if_splits)
  obtain rs where v1: "view s1 = (view s)\<lparr>v_recs := rs\<rparr>" using proc_okD[OF st_processing s1] by auto
  have own1: "own_doc (view s1) (ri_user inp) (ri_doc inp) = own_doc (view s) (ri_user inp) (ri_doc inp)"
    by (simp add: v1 own_doc_def)
  have v2: "view s2 = view s1" and d: "own_doc (view s) (ri_user inp) (ri_doc inp) = Some doc"
    using call_okD[OF doc_get s2] own1 by (auto split: option.splits)
  have v3: "view s3 = view s2" "v_scratch (view s2) (ly_result_key l) = Some body"
    using call_okD[OF scr_get s3] by auto
  have "raws' = raws" using body v3 assms(5) by (auto simp: v2 v1)
  moreover have "d_user doc = ri_user inp" "d_id doc = ri_doc inp"
    using d assms(6) by (auto simp: own_doc_def doc_ids_ok_def split: option.splits if_splits)
  ultimately show thesis using that[OF d] v1 v2 v3 rest by auto
qed

end


subsection \<open>Properties\<close>

text \<open>
  C15. Building chunks from a layout result, under any pattern of outages: when the step returns
  staged work, the document's chunks are, in order, the splits of the text of every region that
  needs no vision model, they are numbered from zero, their texts are what the embedding job is
  given, and the manifest holds exactly one row per region of the result.
\<close>

theorem layout_becomes_chunks:
  assumes "world_ok w" and "rc_BuildChunks mem_backend cfg inp w = (w', Inr p)" and "pr_embed p"
    and "ri_layout inp = Some l" and "ly_needs_layout l"
    and "gm_get (w_scratch w) (ly_result_key l) = Some (LayoutResult raws)"
  shows "let cs = chunk_ListByDocument (ri_user inp) (ri_doc inp) (w_chunks w') in
     map c_text cs = indexed_texts cfg raws \<and> map c_ordinal cs = [0 ..< length cs] \<and>
     gm_get (w_scratch w') (pr_input_key p) = Some (EmbedRequest (map c_text cs)) \<and>
     mset (map (\<lambda>g. (rg_type g, rg_page g, rg_box g, rg_status g))
       (region_ListByDocument (ri_user inp) (ri_doc inp) (w_regions w'))) =
     mset (map (\<lambda>r. (rs_type (resolve_one r), rr_page r, rr_box r, rs_status (resolve_one r))) raws)"
proof -
  let ?u = "ri_user inp" and ?i = "ri_doc inp"
  from assms(6) have scr: "v_scratch (world_view w) (ly_result_key l) = Some (LayoutResult raws)" by simp
  obtain doc s0 where d: "d_user doc = ?u" "d_id doc = ?i" and s0: "\<exists>rs. world_view s0 = (world_view w)\<lparr>v_recs := rs\<rparr>"
    and per: "rc_persist mem_backend cfg inp doc raws s0 = (w', Inr p)"
    by (rule mem.rc_BuildChunks_embed[OF assms(2-5) scr conjunct2[OF world_okD[OF assms(1)]]])
  let ?rows = "map (region_row doc) (resolve raws)"
  obtain ids persisted where r: "fresh_ids ids ?rows (set (gm_keys (region_DeleteByDocument ?u ?i (w_regions s0))))"
    "w_regions w' = region_BulkCreate ids ?rows (region_DeleteByDocument ?u ?i (w_regions s0))"
    and c: "\<exists>cids. length cids = length (buildChunks cfg doc (resolve raws) persisted) \<and>
       chunk_ListByDocument ?u ?i (w_chunks w') = map2 (\<lambda>i c. c\<lparr>c_id := i\<rparr>) cids (buildChunks cfg doc (resolve raws) persisted)"
    and e: "gm_get (w_scratch w') (pr_input_key p) = Some (EmbedRequest (indexed_texts cfg raws))"
    by (rule mem.rc_persist_embed[OF per assms(3) d]) (auto simp: d)
  define built where "built = buildChunks cfg doc (resolve raws) persisted"
  obtain cids where cids: "length cids = length built"
    "chunk_ListByDocument ?u ?i (w_chunks w') = map2 (\<lambda>i c. c\<lparr>c_id := i\<rparr>) cids built"
    using c unfolding built_def by blast
  have ords: "map c_ordinal (map2 (\<lambda>i c. c\<lparr>c_id := i\<rparr>) cids built) = map c_ordinal built"
    by (rule map2_nth_eq) (simp_all add: cids(1))
  have texts: "map c_text (map2 (\<lambda>i c. c\<lparr>c_id := i\<rparr>) cids built) = indexed_texts cfg raws"
    using map2_id_text[OF cids(1)] buildChunks_texts[of cfg doc raws persisted] by (simp add: built_def)
  have "map c_ordinal built = [0 ..< length built]" using buildChunks_ordinals by (simp add: built_def)
  then have ord: "map c_ordinal (map2 (\<lambda>i c. c\<lparr>c_id := i\<rparr>) cids built) = [0 ..< length (map2 (\<lambda>i c. c\<lparr>c_id := i\<rparr>) cids built)]"
    by (simp only: ords) (simp add: cids(1))
  have "region_ListByDocument ?u ?i (w_regions w') = sort_slice region_before (with_ids ids ?rows)"
    using manifest_listed[OF r(1)] d by (simp add: r(2) region_row_def)
  moreover have "map (\<lambda>g. (rg_type g, rg_page g, rg_box g, rg_status g)) (with_ids ids ?rows) =
      map (\<lambda>g. (rg_type g, rg_page g, rg_box g, rg_status g)) ?rows"
    unfolding with_ids_def by (rule map2_nth_eq) (use r(1) in \<open>simp_all add: fresh_ids_def\<close>)
  moreover have "map (\<lambda>g. (rg_type g, rg_page g, rg_box g, rg_status g)) ?rows =
      map (\<lambda>r. (rs_type (resolve_one r), rr_page r, rr_box r, rs_status (resolve_one r))) raws"
    by (simp add: resolve_def region_row_def resolve_one_indexed(2))
  ultimately have man: "mset (map (\<lambda>g. (rg_type g, rg_page g, rg_box g, rg_status g))
       (region_ListByDocument ?u ?i (w_regions w'))) =
     mset (map (\<lambda>r. (rs_type (resolve_one r), rr_page r, rr_box r, rs_status (resolve_one r))) raws)"
    by (simp only: mset_map_sort)
  show ?thesis unfolding Let_def cids(2) using ord texts e man[unfolded d] by simp
qed

definition demo_raw :: "string \<Rightarrow> int \<Rightarrow> float \<Rightarrow> string \<Rightarrow> string \<Rightarrow> raw_region" where
  "demo_raw t p y0 body vlm = \<lparr>rr_type = t, rr_page = p,
     rr_box = \<lparr>bb_x0 = 0, bb_y0 = y0, bb_x1 = 1, bb_y1 = 1\<rparr>, rr_text = body, rr_needs_vlm = vlm\<rparr>"

definition demo_rc_input :: rc_input where
  "demo_rc_input = \<lparr>ri_doc = 7, ri_user = 1, ri_attempt = 1,
     ri_layout = Some (layout_zero\<lparr>ly_needs_layout := True, ly_result_key := ''layout''\<rparr>), ri_prepare = None, ri_error = None\<rparr>"

definition demo_rc_world :: "raw_region list \<Rightarrow> world" where
  "demo_rc_world raws = job_writes ''layout'' (LayoutResult raws) []
     (demo_world [OpEnqueue \<lparr>k_user = 1, k_doc = 7, k_type = RegionClassification\<rparr>] [])"

definition demo_rc_prepared :: prepared where
  "demo_rc_prepared = (case snd (rc_BuildChunks mem_backend demo_cfg demo_rc_input
      (demo_rc_world [demo_raw ''native_text'' 1 0 ''abcdef'' '''', demo_raw ''figure'' 1 (1/2) '''' ''describe'',
         demo_raw ''native_table'' 2 0 ''xy'' ''''])) of Inr p \<Rightarrow> p | Inl _ \<Rightarrow> prepared_zero)"

theorem layout_becomes_chunks_witness:
  "let w' = fst (rc_BuildChunks mem_backend demo_cfg demo_rc_input
      (demo_rc_world [demo_raw ''native_text'' 1 0 ''abcdef'' '''', demo_raw ''figure'' 1 (1/2) '''' ''describe'',
         demo_raw ''native_table'' 2 0 ''xy'' '''']))
   in map c_text (chunk_ListByDocument 1 7 (w_chunks w')) = [''abcd'', ''def'', ''xy'']
      \<and> length (region_ListByDocument 1 7 (w_regions w')) = 3"
proof -
  let ?raws = "[demo_raw ''native_text'' 1 0 ''abcdef'' '''', demo_raw ''figure'' 1 (1/2) '''' ''describe'',
         demo_raw ''native_table'' 2 0 ''xy'' '''']"
  let ?r = "rc_BuildChunks mem_backend demo_cfg demo_rc_input (demo_rc_world ?raws)"
  have ok: "world_ok (demo_rc_world ?raws)" by code_simp
  have "snd ?r = Inr demo_rc_prepared" by code_simp
  then have run: "?r = (fst ?r, Inr demo_rc_prepared)" by (simp add: prod_eq_iff)
  have emb: "pr_embed demo_rc_prepared" by code_simp
  have lay: "ri_layout demo_rc_input = Some (layout_zero\<lparr>ly_needs_layout := True, ly_result_key := ''layout''\<rparr>)"
    by (simp add: demo_rc_input_def)
  have scr: "gm_get (w_scratch (demo_rc_world ?raws)) ''layout'' = Some (LayoutResult ?raws)" by code_simp
  have texts: "indexed_texts demo_cfg ?raws = [''abcd'', ''def'', ''xy'']" by code_simp
  have ri: "ri_user demo_rc_input = 1" "ri_doc demo_rc_input = 7" by (simp_all add: demo_rc_input_def)
  from layout_becomes_chunks[OF ok run emb lay] scr texts
  have "map c_text (chunk_ListByDocument 1 7 (w_chunks (fst ?r))) = [''abcd'', ''def'', ''xy'']"
    and m: "mset (map (\<lambda>g. (rg_type g, rg_page g, rg_box g, rg_status g)) (region_ListByDocument 1 7 (w_regions (fst ?r)))) =
     mset (map (\<lambda>r. (rs_type (resolve_one r), rr_page r, rr_box r, rs_status (resolve_one r))) ?raws)"
    by (simp_all only: Let_def ri layout.simps) simp_all
  moreover have "length (region_ListByDocument 1 7 (w_regions (fst ?r))) = 3"
    using mset_eq_length[OF m] by simp
  ultimately show ?thesis by (simp add: Let_def)
qed

text \<open>
  When the layout result lists its regions strictly by page and then by top edge, every chunk
  carries the identifier of a manifest row that is indexed and has the chunk's page and box.
\<close>

theorem ordered_layout_tags_right:
  assumes "world_ok w" and "rc_BuildChunks mem_backend cfg inp w = (w', Inr p)" and "pr_embed p"
    and "ri_layout inp = Some l" and "ly_needs_layout l"
    and "gm_get (w_scratch w) (ly_result_key l) = Some (LayoutResult raws)"
    and "sorted_wrt raw_before raws"
  shows "list_all (region_tag_ok (w_regions w')) (chunk_ListByDocument (ri_user inp) (ri_doc inp) (w_chunks w'))"
proof -
  let ?u = "ri_user inp" and ?i = "ri_doc inp"
  from assms(6) have scr: "v_scratch (world_view w) (ly_result_key l) = Some (LayoutResult raws)" by simp
  obtain doc s0 where d: "d_user doc = ?u" "d_id doc = ?i"
    and per: "rc_persist mem_backend cfg inp doc raws s0 = (w', Inr p)"
    by (rule mem.rc_BuildChunks_embed[OF assms(2-5) scr conjunct2[OF world_okD[OF assms(1)]]])
  let ?rows = "map (region_row doc) (resolve raws)"
  obtain ids where r: "fresh_ids ids ?rows (set (gm_keys (region_DeleteByDocument ?u ?i (w_regions s0))))"
    "w_regions w' = region_BulkCreate ids ?rows (region_DeleteByDocument ?u ?i (w_regions s0))"
    and c: "\<exists>cids. length cids = length (buildChunks cfg doc (resolve raws) (sort_slice region_before (with_ids ids ?rows))) \<and>
       chunk_ListByDocument ?u ?i (w_chunks w') =
         map2 (\<lambda>i c. c\<lparr>c_id := i\<rparr>) cids (buildChunks cfg doc (resolve raws) (sort_slice region_before (with_ids ids ?rows)))"
    by (rule mem.rc_persist_embed[OF per assms(3) d]) (auto simp: d)
  have "length ids = length ?rows" using r(1) by (simp add: fresh_ids_def)
  note srt = with_ids_sorted[OF this rows_sorted[OF assms(7)]]
  define built where "built = buildChunks cfg doc (resolve raws) (with_ids ids ?rows)"
  have "region_tag_ok (w_regions w') x" if "x \<in> set built" for x
    using region_tags_right[OF r(1) refl] that manifest_replaced[OF r(1)] by (simp add: built_def r(2))
  moreover obtain cids where "chunk_ListByDocument ?u ?i (w_chunks w') = map2 (\<lambda>i c. c\<lparr>c_id := i\<rparr>) cids built"
    using c unfolding srt built_def by blast
  ultimately show ?thesis by (auto simp: list_all_iff dest!: set_zip_rightD)
qed

theorem ordered_layout_tags_right_witness:
  "let raws = [demo_raw ''native_text'' 1 0 ''abcdef'' '''', demo_raw ''figure'' 1 (1/2) '''' ''describe'',
         demo_raw ''native_table'' 2 0 ''xy'' ''''];
       w' = fst (rc_BuildChunks mem_backend demo_cfg demo_rc_input (demo_rc_world raws))
   in list_all (region_tag_ok (w_regions w')) (chunk_ListByDocument 1 7 (w_chunks w'))"
proof -
  let ?raws = "[demo_raw ''native_text'' 1 0 ''abcdef'' '''', demo_raw ''figure'' 1 (1/2) '''' ''describe'',
         demo_raw ''native_table'' 2 0 ''xy'' '''']"
  let ?r = "rc_BuildChunks mem_backend demo_cfg demo_rc_input (demo_rc_world ?raws)"
  have ok: "world_ok (demo_rc_world ?raws)" by code_simp
  have "snd ?r = Inr demo_rc_prepared" by code_simp
  then have run: "?r = (fst ?r, Inr demo_rc_prepared)" by (simp add: prod_eq_iff)
  have emb: "pr_embed demo_rc_prepared" by code_simp
  have lay: "ri_layout demo_rc_input = Some (layout_zero\<lparr>ly_needs_layout := True, ly_result_key := ''layout''\<rparr>)"
    by (simp add: demo_rc_input_def)
  have scr: "gm_get (w_scratch (demo_rc_world ?raws)) ''layout'' = Some (LayoutResult ?raws)" by code_simp
  have srt: "sorted_wrt raw_before ?raws" by code_simp
  from ordered_layout_tags_right[OF ok run emb lay _ _ srt] scr show ?thesis
    by (simp add: Let_def demo_rc_input_def)
qed

text \<open>
  Where the identifiers come from: the chunks of the layout result's \<open>i\<close>th region get the \<open>i\<close>th row
  of the manifest listing, which goes by page. So the page of a chunk's row is fixed by the pages
  alone, whatever the order of rows of equal page and top edge.
\<close>

definition page_tags :: "pipeline_cfg \<Rightarrow> raw_region list \<Rightarrow> (int option \<times> int option) list" where
  "page_tags cfg raws =
     concat (map2 (\<lambda>r listed. replicate (length (indexed_texts cfg [r])) (Some (rr_page r), Some listed))
       raws (sort (map rr_page raws)))"

lemma build_region_tags:
  assumes "i < length persisted"
  shows "map (\<lambda>c. (c_page c, c_region c)) (build_region cfg doc persisted out (i, resolve_one r)) =
    map (\<lambda>c. (c_page c, c_region c)) out @ replicate (length (indexed_texts cfg [r])) (Some (rr_page r), Some (rg_id (persisted ! i)))"
proof -
  let ?cs = "pc_split cfg (rr_text r)" and ?n = "length out"
  have "map (\<lambda>c. (c_page c, c_region c)) (map2 (region_chunk doc (resolve_one r) persisted i) [?n ..< ?n + length ?cs] ?cs) =
      replicate (length ?cs) (Some (rr_page r), Some (rg_id (persisted ! i)))"
    by (rule nth_equalityI) (use assms in \<open>simp_all add: region_chunk_def resolve_one_indexed(2)\<close>)
  then show ?thesis unfolding build_region_eq resolve_one_indexed by (simp add: indexed_texts_def)
qed

lemma build_regions_tags:
  "length js = length raws \<Longrightarrow> \<forall>j\<in>set js. j < length persisted \<Longrightarrow>
   map (\<lambda>c. (c_page c, c_region c)) (foldl (build_region cfg doc persisted) out (zip js (resolve raws))) =
   map (\<lambda>c. (c_page c, c_region c)) out @
   concat (map2 (\<lambda>j r. replicate (length (indexed_texts cfg [r])) (Some (rr_page r), Some (rg_id (persisted ! j)))) js raws)"
proof (induction js raws arbitrary: out rule: list_induct2)
  case (Cons j js r raws)
  have "zip (j # js) (resolve (r # raws)) = (j, resolve_one r) # zip js (resolve raws)" by (simp add: resolve_def)
  then show ?case using Cons.prems by (simp add: Cons.IH build_region_tags)
qed (simp add: resolve_def)

lemma buildChunks_tags:
  assumes "length persisted = length raws"
  shows "map (\<lambda>c. (c_page c, c_region c)) (buildChunks cfg doc (resolve raws) persisted) =
    concat (map2 (\<lambda>r g. replicate (length (indexed_texts cfg [r])) (Some (rr_page r), Some (rg_id g))) raws persisted)"
proof -
  have "map2 (\<lambda>j r. replicate (length (indexed_texts cfg [r])) (Some (rr_page r), Some (rg_id (persisted ! j)))) [0 ..< length raws] raws =
      map2 (\<lambda>r g. replicate (length (indexed_texts cfg [r])) (Some (rr_page r), Some (rg_id g))) raws persisted"
    by (rule nth_equalityI) (use assms in simp_all)
  then show ?thesis
    using build_regions_tags[of "[0 ..< length raws]" raws persisted cfg doc "[]"] assms
    by (simp add: buildChunks_def resolve_def)
qed

lemma listed_pages:
  assumes "length ids = length raws"
  shows "map rg_page (sort_slice region_before (with_ids ids (map (region_row doc) (resolve raws)))) = sort (map rr_page raws)"
proof -
  let ?rows = "with_ids ids (map (region_row doc) (resolve raws))"
  have s: "sorted_wrt (\<lambda>a b. \<not> region_before b a) (sort_slice region_before ?rows)"
    by (rule sort_slice_sorted, rule weak_orderI) (auto simp: region_before_def split: if_splits)
  have "sorted (map rg_page (sort_slice region_before ?rows))"
    unfolding sorted_map by (rule sorted_wrt_mono_rel[OF _ s]) (auto simp: region_before_def split: if_splits)
  moreover have "map rg_page ?rows = map rr_page raws"
    by (rule nth_equalityI) (use assms in \<open>simp_all add: with_ids_def resolve_def region_row_def resolve_one_indexed(2)\<close>)
  then have "mset (map rg_page (sort_slice region_before ?rows)) = mset (map rr_page raws)"
    by (metis mset_map mset_sort_slice)
  ultimately show ?thesis by (metis properties_for_sort)
qed

lemma manifest_row:
  assumes "fresh_ids ids rows (set (gm_keys (region_DeleteByDocument u d r)))" "g \<in> set (with_ids ids rows)"
  shows "gm_get (region_BulkCreate ids rows (region_DeleteByDocument u d r)) (rg_id g) = Some g"
proof -
  let ?r0 = "region_DeleteByDocument u d r" and ?p = "with_ids ids rows"
  have len: "length ids = length ?p" "distinct ids" "set ids \<inter> set (gm_keys ?r0) = {}"
    using assms(1) by (auto simp: fresh_ids_def with_ids_def)
  obtain i where i: "i < length ?p" "g = ?p ! i" using assms(2) by (auto simp: in_set_conv_nth)
  moreover have "length ids = length rows" using assms(1) by (simp add: fresh_ids_def)
  ultimately have id: "rg_id g = ids ! i" by (simp add: with_ids_def)
  have "gm_get ?r0 (ids ! i) = None" using i(1) len(1,3) by (force simp: map_of_eq_None_iff)
  moreover have "map_of (zip ids ?p) (ids ! i) = Some (?p ! i)" using i(1) len by (intro map_of_zip_nth) simp_all
  ultimately have "gm_get (?r0 @ zip ids ?p) (ids ! i) = Some (?p ! i)" by (simp add: map_add_def)
  then show ?thesis unfolding manifest_replaced[OF assms(1)] id by (simp only: i(2))
qed

text \<open>
  C16. A chunk's region goes by its place. After building the chunks of a layout result, in any
  order, the row a chunk is tagged with has the page that stands at the chunk's region's place in the
  list of all pages in ascending order; so every chunk carries a region of its own page exactly when
  every region with text stands where its page sorts to.
\<close>

theorem regions_tagged_by_place:
  assumes "world_ok w" and "rc_BuildChunks mem_backend cfg inp w = (w', Inr p)" and "pr_embed p"
    and "ri_layout inp = Some l" and "ly_needs_layout l"
    and "gm_get (w_scratch w) (ly_result_key l) = Some (LayoutResult raws)"
  shows "let tags = map (\<lambda>c. (c_page c, map_option rg_page (Option.bind (c_region c) (gm_get (w_regions w')))))
                      (chunk_ListByDocument (ri_user inp) (ri_doc inp) (w_chunks w'))
    in tags = page_tags cfg raws \<and>
       (list_all (\<lambda>(page, listed). page = listed) tags \<longleftrightarrow>
        list_all2 (\<lambda>r page. indexed_texts cfg [r] = [] \<or> rr_page r = page) raws (sort (map rr_page raws)))"
proof -
  let ?u = "ri_user inp" and ?i = "ri_doc inp"
  from assms(6) have scr: "v_scratch (world_view w) (ly_result_key l) = Some (LayoutResult raws)" by simp
  obtain doc s0 where d: "d_user doc = ?u" "d_id doc = ?i"
    and per: "rc_persist mem_backend cfg inp doc raws s0 = (w', Inr p)"
    by (rule mem.rc_BuildChunks_embed[OF assms(2-5) scr conjunct2[OF world_okD[OF assms(1)]]])
  let ?rows = "map (region_row doc) (resolve raws)"
  obtain ids where r: "fresh_ids ids ?rows (set (gm_keys (region_DeleteByDocument ?u ?i (w_regions s0))))"
    "w_regions w' = region_BulkCreate ids ?rows (region_DeleteByDocument ?u ?i (w_regions s0))"
    and c: "\<exists>cids. length cids = length (buildChunks cfg doc (resolve raws) (sort_slice region_before (with_ids ids ?rows))) \<and>
       chunk_ListByDocument ?u ?i (w_chunks w') =
         map2 (\<lambda>i c. c\<lparr>c_id := i\<rparr>) cids (buildChunks cfg doc (resolve raws) (sort_slice region_before (with_ids ids ?rows)))"
    by (rule mem.rc_persist_embed[OF per assms(3) d]) (auto simp: d)
  define listed where "listed = sort_slice region_before (with_ids ids ?rows)"
  define tag where "tag = (\<lambda>(page, g). (page :: int option, map_option rg_page (Option.bind g (gm_get (w_regions w')))))"
  have len: "length ids = length raws" "length listed = length raws"
    using r(1) by (simp_all add: fresh_ids_def listed_def with_ids_def resolve_def)
  have row: "gm_get (w_regions w') (rg_id g) = Some g" if "g \<in> set listed" for g
    using manifest_row[OF r(1)] that by (simp add: listed_def r(2))
  obtain cids where cs: "length cids = length (buildChunks cfg doc (resolve raws) listed)"
    "chunk_ListByDocument ?u ?i (w_chunks w') = map2 (\<lambda>i c. c\<lparr>c_id := i\<rparr>) cids (buildChunks cfg doc (resolve raws) listed)"
    using c unfolding listed_def by blast
  have "map (\<lambda>c. (c_page c, map_option rg_page (Option.bind (c_region c) (gm_get (w_regions w'))))) (chunk_ListByDocument ?u ?i (w_chunks w')) =
      map tag (map (\<lambda>c. (c_page c, c_region c)) (buildChunks cfg doc (resolve raws) listed))"
    unfolding cs(2) by (rule nth_equalityI) (simp_all add: cs(1) tag_def)
  also have "\<dots> = concat (map2 (\<lambda>r g. replicate (length (indexed_texts cfg [r])) (Some (rr_page r), Some (rg_page g))) raws listed)"
  proof -
    have "map (\<lambda>(r, g). map tag (replicate (length (indexed_texts cfg [r])) (Some (rr_page r), Some (rg_id g)))) (zip raws listed) =
        map2 (\<lambda>r g. replicate (length (indexed_texts cfg [r])) (Some (rr_page r), Some (rg_page g))) raws listed"
      using row by (intro map_cong refl) (auto simp: tag_def dest!: set_zip_rightD)
    moreover have "map (map tag) (map2 (\<lambda>r g. replicate (length (indexed_texts cfg [r])) (Some (rr_page r), Some (rg_id g))) raws listed) =
        map (\<lambda>(r, g). map tag (replicate (length (indexed_texts cfg [r])) (Some (rr_page r), Some (rg_id g)))) (zip raws listed)"
      by (simp add: comp_def case_prod_beta')
    ultimately show ?thesis unfolding buildChunks_tags[OF len(2)] map_concat by (simp only:)
  qed
  also have "\<dots> = page_tags cfg raws"
    unfolding page_tags_def listed_pages[OF len(1), of doc, folded listed_def, symmetric] zip_map2 map_map
    by (simp add: comp_def case_prod_beta')
  finally have tags: "map (\<lambda>c. (c_page c, map_option rg_page (Option.bind (c_region c) (gm_get (w_regions w')))))
      (chunk_ListByDocument ?u ?i (w_chunks w')) = page_tags cfg raws" .
  have "list_all (\<lambda>(page, listed). page = listed) (page_tags cfg raws) \<longleftrightarrow>
      list_all2 (\<lambda>r page. indexed_texts cfg [r] = [] \<or> rr_page r = page) raws (sort (map rr_page raws))"
    unfolding page_tags_def list_all_iff list_all2_iff by fastforce
  with tags show ?thesis by (simp add: Let_def)
qed

text \<open>
  The layout job lists the text of every page before the tables. With text on two pages and a table
  on the first, the second page's text is tagged with a region of the first page.
\<close>

theorem regions_tagged_by_place_witness:
  "let raws = [demo_raw ''native_text'' 1 0 ''aa'' '''', demo_raw ''native_text'' 2 0 ''bb'' '''',
         demo_raw ''native_table'' 1 0 ''cc'' ''''];
       w' = fst (rc_BuildChunks mem_backend demo_cfg demo_rc_input (demo_rc_world raws))
   in map (\<lambda>c. (c_page c, map_option rg_page (Option.bind (c_region c) (gm_get (w_regions w')))))
        (chunk_ListByDocument 1 7 (w_chunks w')) =
      [(Some 1, Some 1), (Some 2, Some 1), (Some 1, Some 2)]"
proof -
  let ?raws = "[demo_raw ''native_text'' 1 0 ''aa'' '''', demo_raw ''native_text'' 2 0 ''bb'' '''',
         demo_raw ''native_table'' 1 0 ''cc'' '''']"
  let ?r = "rc_BuildChunks mem_backend demo_cfg demo_rc_input (demo_rc_world ?raws)"
  have ok: "world_ok (demo_rc_world ?raws)" by code_simp
  obtain p where p: "snd ?r = Inr p" "pr_embed p"
  proof -
    have "case snd ?r of Inl e \<Rightarrow> False | Inr p \<Rightarrow> pr_embed p" by code_simp
    then show thesis using that by (auto split: sum.splits)
  qed
  then have run: "?r = (fst ?r, Inr p)" by (simp add: prod_eq_iff)
  have lay: "ri_layout demo_rc_input = Some (layout_zero\<lparr>ly_needs_layout := True, ly_result_key := ''layout''\<rparr>)"
    by (simp add: demo_rc_input_def)
  have scr: "gm_get (w_scratch (demo_rc_world ?raws)) ''layout'' = Some (LayoutResult ?raws)" by code_simp
  have tags: "page_tags demo_cfg ?raws = [(Some 1, Some 1), (Some 2, Some 1), (Some 1, Some 2)]" by code_simp
  have ri: "ri_user demo_rc_input = 1" "ri_doc demo_rc_input = 7" by (simp_all add: demo_rc_input_def)
  from regions_tagged_by_place[OF ok run p(2) lay] scr tags show ?thesis
    by (simp only: Let_def ri layout.simps) simp
qed


end
