(* ===== verification/EntityExtract.thy ===== *)
theory EntityExtract
  imports DocIndex
begin

text \<open>
  \<^verbatim>\<open>internal/pipeline/entityextract\<close>: the Lambda steps that extract a document's
  entities in batches of chunks. \<open>Plan\<close> clears the previous run and stages one input object per
  batch, \<open>PresignBatch\<close> and \<open>PersistBatch\<close> run for every batch of the state machine's Map state, and
  the last two steps end the run. The properties: the batches partition the chunks, a batch is
  saved once however often its step is repeated, and a superseded attempt does nothing.
\<close>

subsection \<open>The handler\<close>

record ee_batch =
  eb_index :: nat
  eb_input :: string
  eb_result :: string

record plan =
  pl_stale :: bool
  pl_no_chunks :: bool
  pl_batches :: "ee_batch list"

definition empty_plan :: plan where
  "empty_plan = \<lparr>pl_stale = False, pl_no_chunks = False, pl_batches = []\<rparr>"

record ee_input =
  ei_doc :: uuid
  ei_user :: uuid
  ei_attempt :: int
  ei_plan :: "plan option"
  ei_error :: "step_error option"

record batch_urls =
  bu_job_name :: string
  bu_chunks_url :: string
  bu_result_url :: string

definition ee_run :: "ee_input \<Rightarrow> job_run" where
  "ee_run inp = \<lparr>run_type = EntityExtraction, run_doc = ei_doc inp, run_user = ei_user inp, run_attempt = ei_attempt inp\<rparr>"

definition ee_key :: "ee_input \<Rightarrow> jkey" where
  "ee_key inp = \<lparr>k_user = ei_user inp, k_doc = ei_doc inp, k_type = EntityExtraction\<rparr>"

text \<open>The constructor replaces a batch size that is not positive by 50.\<close>

definition ee_batch_size :: "pipeline_cfg \<Rightarrow> nat" where
  "ee_batch_size cfg = (if pc_batch cfg \<le> 0 then 50 else nat (pc_batch cfg))"

lemma ee_batch_size_pos [simp]: "0 < ee_batch_size cfg"
  by (simp add: ee_batch_size_def)

definition batch_prefix :: "pipeline_cfg \<Rightarrow> ee_input \<Rightarrow> nat \<Rightarrow> string" where
  "batch_prefix cfg inp index =
     ''batch-jobs/entities/'' @ pc_uuid cfg (ei_doc inp) @ ''-'' @ itoa (ei_attempt inp) @ ''/batch-'' @ itoa (int index)"

definition chunk_request :: "pipeline_cfg \<Rightarrow> chunk \<Rightarrow> string \<times> string" where
  "chunk_request cfg c = (pc_uuid cfg (c_id c), c_text c)"

definition stageBatch :: "'s backend \<Rightarrow> pipeline_cfg \<Rightarrow> ee_input \<Rightarrow> nat \<Rightarrow> chunk list \<Rightarrow> ('s, ee_batch) call" where
  "stageBatch B cfg inp index chunks =
     (let body = EntitiesRequest (pc_allowed cfg) (map (chunk_request cfg) chunks);
          prefix = batch_prefix cfg inp index;
          b = \<lparr>eb_index = index, eb_input = prefix @ ''/input.json'', eb_result = prefix @ ''/result.json''\<rparr>
      in try_proc (b_scr_put B (eb_input b) body)
           (\<lambda>e s. (s, Inl (Wrapf ''upload batch input'' (Transient e))))
           (\<lambda>s. (s, Inr b)))"

function plan_batches ::
  "'s backend \<Rightarrow> pipeline_cfg \<Rightarrow> ee_input \<Rightarrow> chunk list \<Rightarrow> nat \<Rightarrow> ee_batch list \<Rightarrow> ('s, ee_batch list) call" where
  "plan_batches B cfg inp chunks start batches s =
     (if start < length chunks then
        (let stop = min (start + ee_batch_size cfg) (length chunks)
         in try_call (stageBatch B cfg inp (length batches) (take (stop - start) (drop start chunks)))
              (\<lambda>e s. (s, Inl (Wrapf ''entityextract: plan'' e)))
              (\<lambda>b s. plan_batches B cfg inp chunks (start + ee_batch_size cfg) (batches @ [b]) s) s)
      else (s, Inr batches))"
  by pat_completeness auto
termination
  by (relation "measure (\<lambda>(B, cfg, inp, chunks, start, batches, s). length chunks - start)")
    (auto intro: diff_less_mono2)

declare plan_batches.simps [simp del]

definition Plan :: "'s backend \<Rightarrow> pipeline_cfg \<Rightarrow> ee_input \<Rightarrow> ('s, plan) call" where
  "Plan B cfg inp =
     try_proc (sw_mark_processing (b_status B) (ee_key inp) (ei_attempt inp))
       (\<lambda>e s. if Superseded (Some e) then (s, Inr (empty_plan\<lparr>pl_stale := True\<rparr>))
              else (s, Inl (Wrapf ''entityextract: plan: mark processing'' (TransientUnless e [ErrJobNotFound]))))
       (try_call (b_doc_get B (ei_user inp) (ei_doc inp))
          (\<lambda>e s. (s, Inl (Wrapf ''entityextract: plan: get document'' (TransientUnless e [ErrDocNotFound]))))
          (\<lambda>_. try_call (b_chunk_list B (ei_user inp) (ei_doc inp))
             (\<lambda>e s. (s, Inl (Wrapf ''entityextract: plan: list chunks'' (Transient e))))
             (\<lambda>chunks s.
                if chunks = [] then (s, Inr (empty_plan\<lparr>pl_no_chunks := True\<rparr>))
                else try_proc (b_canon_decrement B (ei_user inp) (ei_doc inp))
                  (\<lambda>e s. (s, Inl (Wrapf ''entityextract: plan: decrement canonical entities'' (Transient e))))
                  (try_proc (b_ent_delete B (ei_user inp) (ei_doc inp))
                     (\<lambda>e s. (s, Inl (Wrapf ''entityextract: plan: clear existing entities'' (Transient e))))
                     (\<lambda>s. case plan_batches B cfg inp chunks 0 [] s of
                            (s, Inl e) \<Rightarrow> (s, Inl e)
                          | (s, Inr bs) \<Rightarrow> (s, Inr (empty_plan\<lparr>pl_batches := bs\<rparr>)))) s)))"

definition PresignBatch :: "'s backend \<Rightarrow> pipeline_cfg \<Rightarrow> ee_input \<Rightarrow> ee_batch \<Rightarrow> ('s, batch_urls) call" where
  "PresignBatch B cfg inp b =
     try_call (b_scr_presign B (eb_input b))
       (\<lambda>e s. (s, Inl (Wrapf ''entityextract: presign batch input'' (Transient e))))
       (\<lambda>chunks_url. try_call (b_scr_presign_put B (eb_result b))
          (\<lambda>e s. (s, Inl (Wrapf ''entityextract: presign batch result'' (Transient e))))
          (\<lambda>result_url s. (s, Inr \<lparr>bu_job_name = ''entity-extraction-'' @ pc_uuid cfg (ei_doc inp) @ ''-'' @
              itoa (ei_attempt inp) @ ''-batch-'' @ itoa (int (eb_index b)),
            bu_chunks_url = chunks_url, bu_result_url = result_url\<rparr>)))"

text \<open>Reading an object and decoding it as one of the two protocols.\<close>

definition readJSON :: "'s backend \<Rightarrow> string \<Rightarrow> (blob \<Rightarrow> 'a option) \<Rightarrow> ('s, 'a) call" where
  "readJSON B key unmarshal =
     try_call (b_scr_get B key) (\<lambda>e s. (s, Inl (Wrapf ''read'' (Transient e))))
       (\<lambda>body s. case unmarshal body of None \<Rightarrow> (s, Inl (Plain ''decode'')) | Some v \<Rightarrow> (s, Inr v))"

text \<open>
  The loop over the staged input: \<open>Inl\<close> is a bad identifier, \<open>Inr None\<close> a batch that was already
  saved, and \<open>Inr (Some ids)\<close> the identifiers of the batch.
\<close>

fun batch_ids ::
  "pipeline_cfg \<Rightarrow> (uuid, bool) gomap \<Rightarrow> (string \<times> string) list \<Rightarrow> uuid list \<Rightarrow> gerror + uuid list option" where
  "batch_ids cfg finished [] inBatch = Inr (Some inBatch)"
| "batch_ids cfg finished (c # cs) inBatch =
     (case pc_parse cfg (fst c) of
        None \<Rightarrow> Inl (Plain ''entityextract: persist batch: bad chunk ID in staged input'')
      | Some i \<Rightarrow> if gm_get_or False finished i then Inr None else batch_ids cfg finished cs (i # inBatch))"

fun batch_entities :: "pipeline_cfg \<Rightarrow> ee_input \<Rightarrow> document \<Rightarrow> uuid list \<Rightarrow> entity_json list \<Rightarrow> entity list" where
  "batch_entities cfg inp doc inBatch [] = []"
| "batch_entities cfg inp doc inBatch (e # es) =
     (case pc_parse cfg (ej_chunk e) of
        None \<Rightarrow> batch_entities cfg inp doc inBatch es
      | Some i \<Rightarrow>
          if i \<notin> set inBatch then batch_entities cfg inp doc inBatch es
          else \<lparr>e_id = uuid_nil, e_doc = ei_doc inp, e_kb = d_kb doc, e_user = ei_user inp, e_chunk = i,
                e_type = ej_type e, e_text = ej_text e, e_start = ej_start e, e_end = ej_end e,
                e_score = ej_score e, e_canonical = None\<rparr> # batch_entities cfg inp doc inBatch es)"

definition PersistBatch :: "'s backend \<Rightarrow> pipeline_cfg \<Rightarrow> ee_input \<Rightarrow> ee_batch \<Rightarrow> 's proc" where
  "PersistBatch B cfg inp b =
     try_proc (sw_mark_processing (b_status B) (ee_key inp) (ei_attempt inp))
       (\<lambda>e s. if Superseded (Some e) then (s, None)
              else (s, Some (Wrapf ''entityextract: persist batch: check attempt'' (TransientUnless e [ErrJobNotFound]))))
       (try_call (readJSON B (eb_input b) unmarshal_entities_request)
          (\<lambda>e s. (s, Some (Wrapf ''entityextract: persist batch: input'' e)))
          (\<lambda>req. try_call (readJSON B (eb_result b) unmarshal_entities_response)
             (\<lambda>e s. (s, Some (Wrapf ''entityextract: persist batch: result'' e)))
             (\<lambda>resp. try_call (b_doc_get B (ei_user inp) (ei_doc inp))
                (\<lambda>e s. (s, Some (Wrapf ''entityextract: persist batch: get document'' (TransientUnless e [ErrDocNotFound]))))
                (\<lambda>doc. try_call (b_ent_chunks B (ei_user inp) (ei_doc inp))
                   (\<lambda>e s. (s, Some (Wrapf ''entityextract: persist batch: list extracted chunks'' (Transient e))))
                   (\<lambda>finished s.
                      case batch_ids cfg finished req [] of
                        Inl e \<Rightarrow> (s, Some e)
                      | Inr None \<Rightarrow> (s, None)
                      | Inr (Some inBatch) \<Rightarrow>
                          (let entities = batch_entities cfg inp doc inBatch resp in
                           if entities = [] then (s, None)
                           else try_proc (b_ent_create B entities)
                                  (\<lambda>e s. (s, Some (Wrapf ''entityextract: persist batch: save entities'' (Transient e))))
                                  (\<lambda>s. (s, None)) s))))))"

definition deleteStaged :: "'s backend \<Rightarrow> plan \<Rightarrow> 's \<Rightarrow> 's" where
  "deleteStaged B p = each_ignore (b_scr_delete B) (concat (map (\<lambda>b. [eb_input b, eb_result b]) (pl_batches p)))"

definition ee_succeed :: "'s backend \<Rightarrow> ee_input \<Rightarrow> plan \<Rightarrow> 's proc" where
  "ee_succeed B inp p s =
     (case sw_mark_succeeded (b_status B) (ee_key inp) (ei_attempt inp) s of
        (s, r) \<Rightarrow>
          if r \<noteq> None \<and> \<not> Superseded r
          then (s, Some (Wrapf ''entityextract: finalize: mark succeeded'' (TransientUnless (the r) [ErrJobNotFound])))
          else (deleteStaged B p s, None))"

definition ee_Finalize :: "'s backend \<Rightarrow> ee_input \<Rightarrow> 's proc" where
  "ee_Finalize B inp s =
     (case ei_plan inp of
        None \<Rightarrow> (s, Some (Plain ''entityextract: finalize: missing plan result''))
      | Some p \<Rightarrow>
          if pl_stale p then (s, None)
          else if \<not> pl_no_chunks p
          then ignore (b_publish B (EdgeExtractionRequested (ei_doc inp) (ei_user inp)))
                 (ignore (b_publish B (CanonicalizationRequested (ei_doc inp) (ei_user inp)))
                    (ee_succeed B inp p)) s
          else ee_succeed B inp p s)"

definition ee_RecordFailure :: "'s backend \<Rightarrow> ee_input \<Rightarrow> 's proc" where
  "ee_RecordFailure B inp s =
     (case sw_mark_failed (b_status B) (ee_key inp) (ei_attempt inp) (Reason (ei_error inp)) s of
        (s, err) \<Rightarrow>
          if Superseded err then (s, None)
          else if err \<noteq> None \<and> \<not> err_is err ErrJobNotFound
          then (s, Some (Wrapf ''entityextract: record failure: mark attempt failed'' (Transient (the err))))
          else (case ei_plan inp of None \<Rightarrow> (s, None) | Some p \<Rightarrow> (deleteStaged B p s, None)))"

datatype ee_output = EeNone | EePlan plan | EeURLs batch_urls

definition batch_urls_zero :: batch_urls where
  "batch_urls_zero = \<lparr>bu_job_name = '''', bu_chunks_url = '''', bu_result_url = ''''\<rparr>"

definition ee_Handle ::
  "'s backend \<Rightarrow> pipeline_cfg \<Rightarrow> string \<Rightarrow> ee_input \<Rightarrow> ee_batch option \<Rightarrow> 's \<Rightarrow> 's \<times> ee_output \<times> gerror option" where
  "ee_Handle B cfg step inp batch s =
     (if step = ''plan'' then
        (case Plan B cfg inp s of
           (s, Inr p) \<Rightarrow> (s, EePlan p, ForLambda None)
         | (s, Inl e) \<Rightarrow> (s, EePlan empty_plan, ForLambda (Some e)))
      else if step = ''presign_batch'' \<or> step = ''persist_batch'' then
        (case batch of
           None \<Rightarrow> (s, EeNone, ForLambda (Some (Plain (''entityextract: step '' @ step @ '' needs a batch''))))
         | Some b \<Rightarrow>
             if step = ''presign_batch'' then
               (case PresignBatch B cfg inp b s of
                  (s, Inr u) \<Rightarrow> (s, EeURLs u, ForLambda None)
                | (s, Inl e) \<Rightarrow> (s, EeURLs batch_urls_zero, ForLambda (Some e)))
             else (case PersistBatch B cfg inp b s of (s, r) \<Rightarrow> (s, EeNone, ForLambda r)))
      else if step = ''finalize'' then (case ee_Finalize B inp s of (s, r) \<Rightarrow> (s, EeNone, ForLambda r))
      else if step = ''record_failure'' then (case ee_RecordFailure B inp s of (s, r) \<Rightarrow> (s, EeNone, ForLambda r))
      else (s, EeNone, ForLambda (Some (Plain (''entityextract: unknown step '' @ step)))))"

subsection \<open>The plan\<close>

text \<open>
  The reference is \<open>windows\<close>: the chunks cut into lists of the batch size, the last one possibly
  shorter.
\<close>

lemma windows_Nil [simp]: "windows n [] = []"
  by (subst windows.simps) simp

lemma windows_step: "0 < n \<Longrightarrow> xs \<noteq> [] \<Longrightarrow> windows n xs = take n xs # windows n (drop n xs)"
  by (subst windows.simps) simp

definition batch_at :: "pipeline_cfg \<Rightarrow> ee_input \<Rightarrow> nat \<Rightarrow> ee_batch" where
  "batch_at cfg inp i =
     \<lparr>eb_index = i, eb_input = batch_prefix cfg inp i @ ''/input.json'', eb_result = batch_prefix cfg inp i @ ''/result.json''\<rparr>"

lemma batch_at_inj: "eb_input (batch_at cfg inp i) = eb_input (batch_at cfg inp j) \<longleftrightarrow> i = j"
  by (auto simp: batch_at_def batch_prefix_def dest: itoa_inj)

definition batch_request :: "pipeline_cfg \<Rightarrow> chunk list \<Rightarrow> blob" where
  "batch_request cfg cs = EntitiesRequest (pc_allowed cfg) (map (chunk_request cfg) cs)"

lemma ent_delete_none:
  "entity_ListByDocument u d (entity_DeleteByDocument u d r) = []"
  by (auto simp: entity_ListByDocument_def entity_DeleteByDocument_def filter_empty_conv)

text \<open>The scratch bucket after staging windows from index \<open>i\<close> on.\<close>

fun staged_from :: "pipeline_cfg \<Rightarrow> ee_input \<Rightarrow> nat \<Rightarrow> chunk list list \<Rightarrow> (string \<Rightarrow> blob option) \<Rightarrow> (string \<Rightarrow> blob option)" where
  "staged_from cfg inp i [] f = f"
| "staged_from cfg inp i (w # ws) f =
     staged_from cfg inp (Suc i) ws (f(eb_input (batch_at cfg inp i) \<mapsto> batch_request cfg w))"

lemma staged_from_other:
  "\<forall>j. i \<le> j \<longrightarrow> k \<noteq> eb_input (batch_at cfg inp j) \<Longrightarrow> staged_from cfg inp i ws f k = f k"
  by (induction ws arbitrary: i f) auto

lemma staged_from_nth:
  "n < length ws \<Longrightarrow> staged_from cfg inp i ws f (eb_input (batch_at cfg inp (i + n))) = Some (batch_request cfg (ws ! n))"
proof (induction ws arbitrary: i f n)
  case (Cons w ws)
  show ?case
  proof (cases n)
    case 0
    have "staged_from cfg inp (Suc i) ws (f(eb_input (batch_at cfg inp i) \<mapsto> batch_request cfg w))
        (eb_input (batch_at cfg inp i)) = Some (batch_request cfg w)"
      by (subst staged_from_other) (auto simp: batch_at_inj)
    then show ?thesis by (simp add: 0)
  next
    case (Suc m)
    then show ?thesis using Cons.IH[of m "Suc i"] Cons.prems by simp
  qed
qed simp

context backend_laws
begin

lemma stageBatch_done:
  assumes "stageBatch B cfg inp i cs s = (s', Inr b)"
  shows "b = batch_at cfg inp i" "view s' = (view s)\<lparr>v_scratch := (v_scratch (view s))(eb_input b \<mapsto> batch_request cfg cs)\<rparr>"
proof -
  obtain s1 where s1: "b_scr_put B (batch_prefix cfg inp i @ ''/input.json'') (batch_request cfg cs) s = (s1, None)"
    and b: "b = batch_at cfg inp i" "s' = s1"
    using assms by (auto simp: stageBatch_def try_proc_def Let_def batch_at_def batch_request_def
        split: prod.splits option.splits)
  show "b = batch_at cfg inp i" by (rule b)
  show "view s' = (view s)\<lparr>v_scratch := (v_scratch (view s))(eb_input b \<mapsto> batch_request cfg cs)\<rparr>"
    using proc_okD[OF scr_put s1] by (auto simp: b batch_at_def)
qed

text \<open>The loop of the code stages the windows of the reference, with consecutive indices.\<close>

lemma plan_batches_done:
  assumes "plan_batches B cfg inp chunks start batches s = (s', Inr bs)"
  shows "bs = batches @ map (batch_at cfg inp) [length batches ..< length batches + length (windows (ee_batch_size cfg) (drop start chunks))]
    \<and> view s' = (view s)\<lparr>v_scratch := staged_from cfg inp (length batches) (windows (ee_batch_size cfg) (drop start chunks)) (v_scratch (view s))\<rparr>"
  using assms
proof (induction "length chunks - start" arbitrary: start batches s rule: less_induct)
  case less
  let ?n = "ee_batch_size cfg" and ?i = "length batches"
  show ?case
  proof (cases "start < length chunks")
    case False
    then have "s' = s" "bs = batches" using less.prems by (simp_all add: plan_batches.simps)
    then show ?thesis using False by simp
  next
    case True
    define w where "w = take (min (start + ?n) (length chunks) - start) (drop start chunks)"
    have w: "w = take ?n (drop start chunks)" by (simp add: w_def min_def)
    from less.prems True obtain s1 b where s1: "stageBatch B cfg inp ?i w s = (s1, Inr b)"
      and rest: "plan_batches B cfg inp chunks (start + ?n) (batches @ [b]) s1 = (s', Inr bs)"
      by (subst (asm) plan_batches.simps) (auto simp: try_call_def Let_def w_def split: prod.splits sum.splits)
    note st = stageBatch_done[OF s1]
    have dec: "length chunks - (start + ?n) < length chunks - start" using True by (simp add: diff_less_mono2)
    note ih = less.hyps[OF dec rest]
    have ws: "windows ?n (drop start chunks) = w # windows ?n (drop (start + ?n) chunks)"
      using True windows_step[of ?n "drop start chunks"] by (simp add: w add.commute)
    have up: "[?i ..< ?i + length (windows ?n (drop start chunks))] =
        ?i # [Suc ?i ..< Suc ?i + length (windows ?n (drop (start + ?n) chunks))]"
      unfolding ws by (subst upt_rec) simp
    show ?thesis unfolding up using ih by (simp add: ws st del: upt_Suc)
  qed
qed

text \<open>A plan that asks for batches.\<close>

lemma Plan_done:
  assumes "Plan B cfg inp s = (s', Inr p)" "\<not> pl_stale p" "\<not> pl_no_chunks p"
  obtains "pl_batches p = map (batch_at cfg inp) [0 ..< length (windows (ee_batch_size cfg)
      (chunk_ListByDocument (ei_user inp) (ei_doc inp) (v_chunks (view s))))]"
    "v_scratch (view s') = staged_from cfg inp 0 (windows (ee_batch_size cfg)
      (chunk_ListByDocument (ei_user inp) (ei_doc inp) (v_chunks (view s)))) (v_scratch (view s))"
    "v_ents (view s') = entity_DeleteByDocument (ei_user inp) (ei_doc inp) (v_ents (view s))"
    "v_canon (view s') = canon_DecrementForDocument (ei_user inp) (ei_doc inp) (v_canon (view s))"
    "v_chunks (view s') = v_chunks (view s)" "v_docs (view s') = v_docs (view s)"
proof -
  let ?u = "ei_user inp" and ?i = "ei_doc inp"
  obtain s1 s2 d s3 chunks s4 s5 bs where
    s1: "sw_mark_processing (b_status B) (ee_key inp) (ei_attempt inp) s = (s1, None)" and
    s2: "b_doc_get B ?u ?i s1 = (s2, Inr d)" and s3: "b_chunk_list B ?u ?i s2 = (s3, Inr chunks)" and
    s4: "b_canon_decrement B ?u ?i s3 = (s4, None)" and s5: "b_ent_delete B ?u ?i s4 = (s5, None)" and
    s6: "plan_batches B cfg inp chunks 0 [] s5 = (s', Inr bs)" and p: "p = empty_plan\<lparr>pl_batches := bs\<rparr>"
    using assms by (auto simp: Plan_def try_proc_def try_call_def empty_plan_def
        split: prod.splits option.splits sum.splits if_splits)
  obtain rs where v1: "view s1 = (view s)\<lparr>v_recs := rs\<rparr>" using proc_okD[OF st_processing s1] by auto
  have v2: "view s2 = view s1" using call_okD[OF doc_get s2] by auto
  have v3: "view s3 = view s1" "chunks = chunk_ListByDocument ?u ?i (v_chunks (view s))"
    using call_okD[OF chunk_list s3] by (auto simp: v2 v1)
  have v4: "view s4 = (view s1)\<lparr>v_canon := canon_DecrementForDocument ?u ?i (v_canon (view s))\<rparr>"
    using proc_okD[OF canon_decrement s4] by (auto simp: v3(1) v1)
  have v5: "view s5 = (view s4)\<lparr>v_ents := entity_DeleteByDocument ?u ?i (v_ents (view s))\<rparr>"
    using proc_okD[OF ent_delete s5] by (auto simp: v4 v1)
  note pb = plan_batches_done[OF s6, simplified]
  show thesis
  proof (rule that)
    show "pl_batches p = map (batch_at cfg inp) [0 ..< length (windows (ee_batch_size cfg) (chunk_ListByDocument ?u ?i (v_chunks (view s))))]"
      using pb by (simp add: p v3(2))
    show "v_scratch (view s') = staged_from cfg inp 0 (windows (ee_batch_size cfg)
      (chunk_ListByDocument ?u ?i (v_chunks (view s)))) (v_scratch (view s))"
      using pb by (simp add: v5 v4 v3(2) v1)
  qed (simp_all add: pb v5 v4 v1)
qed

end


subsection \<open>Saving a batch\<close>

lemma foldl_put_flag:
  "gm_get_or False (foldl (\<lambda>out e. gm_put (f e) True out) out es) i \<longleftrightarrow> gm_get_or False out i \<or> i \<in> f ` set es"
  by (induction es arbitrary: out) (auto simp: gm_get_or_def)

lemma finished_iff:
  "gm_get_or False (entity_ChunkIDsWithEntities u d r) i \<longleftrightarrow>
     (\<exists>e \<in> set (gm_vals r). e_user e = u \<and> e_doc e = d \<and> e_chunk e = i)"
  unfolding entity_ChunkIDsWithEntities_def foldl_put_flag by (auto simp: gm_get_or_def)

lemma batch_ids_SomeD:
  "batch_ids cfg fin req acc = Inr (Some ids) \<Longrightarrow>
     set ids = set acc \<union> (the \<circ> pc_parse cfg \<circ> fst) ` set req \<and>
     (\<forall>c \<in> set req. \<exists>i. pc_parse cfg (fst c) = Some i \<and> \<not> gm_get_or False fin i)"
  by (induction cfg fin req acc rule: batch_ids.induct) (auto split: option.splits if_splits)

lemma batch_ids_None:
  "\<forall>c \<in> set req. pc_parse cfg (fst c) \<noteq> None \<Longrightarrow>
   \<exists>c \<in> set req. gm_get_or False fin (the (pc_parse cfg (fst c))) \<Longrightarrow> batch_ids cfg fin req acc = Inr None"
proof (induction req arbitrary: acc)
  case (Cons c req)
  show ?case
  proof (cases "gm_get_or False fin (the (pc_parse cfg (fst c)))")
    case True
    then show ?thesis using Cons.prems(1) by auto
  next
    case False
    then have "batch_ids cfg fin req acc = Inr None" for acc using Cons.IH Cons.prems by simp
    then show ?thesis using False Cons.prems(1) by auto
  qed
qed simp

lemma batch_ids_total:
  "\<forall>c \<in> set req. \<exists>i. pc_parse cfg (fst c) = Some i \<and> \<not> gm_get_or False fin i \<Longrightarrow>
     \<exists>ids. batch_ids cfg fin req acc = Inr (Some ids)"
  by (induction req arbitrary: acc) auto

lemma batch_entities_own:
  "e \<in> set (batch_entities cfg inp doc ids es) \<Longrightarrow> e_user e = ei_user inp \<and> e_doc e = ei_doc inp \<and> e_chunk e \<in> set ids"
  by (induction cfg inp doc ids es rule: batch_entities.induct) (auto split: option.splits if_splits)

lemma batch_entities_cong: "set ids = set ids' \<Longrightarrow> batch_entities cfg inp doc ids es = batch_entities cfg inp doc ids' es"
  by (induction es) (auto split: option.splits)

text \<open>What a batch would save in a given view.\<close>

definition batch_saves :: "pipeline_cfg \<Rightarrow> ee_input \<Rightarrow> ee_batch \<Rightarrow> bview \<Rightarrow> entity list" where
  "batch_saves cfg inp b v =
     (case (own_doc v (ei_user inp) (ei_doc inp), Option.bind (v_scratch v (eb_input b)) unmarshal_entities_request,
            Option.bind (v_scratch v (eb_result b)) unmarshal_entities_response) of
        (Some doc, Some req, Some resp) \<Rightarrow>
          (case batch_ids cfg (entity_ChunkIDsWithEntities (ei_user inp) (ei_doc inp) (v_ents v)) req [] of
             Inr (Some ids) \<Rightarrow> batch_entities cfg inp doc ids resp
           | _ \<Rightarrow> [])
      | _ \<Rightarrow> [])"

definition processing :: "ee_input \<Rightarrow> (slot \<Rightarrow> jrecord option) \<Rightarrow> (slot \<Rightarrow> jrecord option) \<times> gerror option" where
  "processing inp = spec_transition (ee_key inp) (ei_attempt inp) StProcessing '''' ''''"

lemma Transition_again: "fst (Transition (fst (Transition c a to '''' '''')) a to '''' '''') = fst (Transition c a to '''' '''')"
  by (auto simp: Transition_def Let_def split: jstatus.splits)

lemma processing_again: "fst (processing inp (fst (processing inp recs))) = fst (processing inp recs)"
  by (auto simp: processing_def spec_transition_def visible_def Transition_again split: option.splits if_splits)

definition with_entities :: "uuid list \<Rightarrow> entity list \<Rightarrow> entity list" where
  "with_entities ids es = map2 (\<lambda>i e. e\<lparr>e_id := i\<rparr>) ids es"

lemma entities_created:
  assumes "fresh_ids ids es (set (gm_keys r))"
  shows "entity_BulkCreate ids es r = r @ zip ids (with_entities ids es)"
proof -
  from assms have "length ids = length es" "distinct ids" "set ids \<inter> set (gm_keys r) = {}"
    by (auto simp: fresh_ids_def)
  from foldl_put_fresh[OF this, of "\<lambda>i e. e\<lparr>e_id := i\<rparr>"] show ?thesis
    using \<open>length ids = length es\<close> by (auto simp: entity_BulkCreate_def with_entities_def)
qed

context backend_laws
begin

lemma readJSON_view: "readJSON B k um s = (s', r) \<Longrightarrow> view s' = view s"
  unfolding readJSON_def try_call_def using call_okD[OF scr_get]
  by (fastforce split: prod.splits sum.splits option.splits)

lemma readJSON_ok:
  assumes "readJSON B k um s = (s', Inr v)"
  shows "Option.bind (v_scratch (view s) k) um = Some v"
proof -
  obtain body where b: "b_scr_get B k s = (s', Inr body)" "um body = Some v"
    using assms by (auto simp: readJSON_def try_call_def split: prod.splits sum.splits option.splits)
  then show ?thesis using call_okD[OF scr_get b(1)] by auto
qed

text \<open>
  A persist step that returns: the attempt's record was reported processing, and what was saved is
  exactly what the batch would save, unless the attempt is superseded.
\<close>

lemma PersistBatch_saves:
  assumes "PersistBatch B cfg inp b s = (s', None)"
    and s1: "sw_mark_processing (b_status B) (ee_key inp) (ei_attempt inp) s = (s1, None)"
    and v1: "view s1 = (view s)\<lparr>v_recs := R\<rparr>"
  obtains s5 where "view s5 = view s1" "batch_saves cfg inp b (view s) = []" "s' = s5"
    | s5 where "view s5 = view s1" "b_ent_create B (batch_saves cfg inp b (view s)) s5 = (s', None)"
proof -
  let ?u = "ei_user inp" and ?i = "ei_doc inp"
  obtain s2 req s3 resp s4 doc s5 fin where
    s2: "readJSON B (eb_input b) unmarshal_entities_request s1 = (s2, Inr req)" and
    s3: "readJSON B (eb_result b) unmarshal_entities_response s2 = (s3, Inr resp)" and
    s4: "b_doc_get B ?u ?i s3 = (s4, Inr doc)" and s5: "b_ent_chunks B ?u ?i s4 = (s5, Inr fin)"
    using assms(1) s1 by (auto simp: PersistBatch_def try_call_def[of "readJSON B k um" for k um]
        try_call_def[of "b_doc_get B u i" for u i] try_call_def[of "b_ent_chunks B u i" for u i]
        split: prod.splits sum.splits)
  have rest: "(case batch_ids cfg fin req [] of
                      Inl e \<Rightarrow> (s5, Some e)
                    | Inr None \<Rightarrow> (s5, None)
                    | Inr (Some inBatch) \<Rightarrow>
                        (let entities = batch_entities cfg inp doc inBatch resp in
                         if entities = [] then (s5, None)
                         else try_proc (b_ent_create B entities)
                                (\<lambda>e s. (s, Some (Wrapf ''entityextract: persist batch: save entities'' (Transient e))))
                                (\<lambda>s. (s, None)) s5)) = (s', None)"
    using assms(1) s1 s2 s3 s4 s5 by (simp add: PersistBatch_def)
  have v3: "view s3 = view s1" using readJSON_view[OF s2] readJSON_view[OF s3] by simp
  have req: "Option.bind (v_scratch (view s) (eb_input b)) unmarshal_entities_request = Some req"
    and resp: "Option.bind (v_scratch (view s) (eb_result b)) unmarshal_entities_response = Some resp"
    using readJSON_ok[OF s2] readJSON_ok[OF s3] readJSON_view[OF s2] by (simp_all add: v1)
  have v4: "view s4 = view s1" and doc: "own_doc (view s) ?u ?i = Some doc"
    using call_okD[OF doc_get s4] by (auto simp: v3 v1 own_doc_def split: option.splits)
  have v5: "view s5 = view s1" and fin: "fin = entity_ChunkIDsWithEntities ?u ?i (v_ents (view s))"
    using call_okD[OF ent_chunks s5] by (auto simp: v4 v1)
  have saves: "batch_saves cfg inp b (view s) = (case batch_ids cfg fin req [] of
      Inr (Some inBatch) \<Rightarrow> batch_entities cfg inp doc inBatch resp | _ \<Rightarrow> [])"
    by (simp add: batch_saves_def doc req resp fin)
  consider (err) e where "batch_ids cfg fin req [] = Inl e" | (finished) "batch_ids cfg fin req [] = Inr None"
    | (ids) inBatch where "batch_ids cfg fin req [] = Inr (Some inBatch)"
    by (metis not_None_eq old.sum.exhaust)
  then show thesis
  proof cases
    case err
    then show ?thesis using rest by simp
  next
    case finished
    then show ?thesis using rest saves that(1)[OF v5] by simp
  next
    case (ids inBatch)
    then have sv: "batch_saves cfg inp b (view s) = batch_entities cfg inp doc inBatch resp" using saves by simp
    show ?thesis
    proof (cases "batch_entities cfg inp doc inBatch resp = []")
      case True
      then show ?thesis using rest ids sv that(1)[OF v5] by simp
    next
      case False
      then have "b_ent_create B (batch_saves cfg inp b (view s)) s5 = (s', None)"
        using rest ids by (auto simp: sv try_proc_def split: prod.splits option.splits)
      then show ?thesis by (rule that(2)[OF v5])
    qed
  qed
qed

lemma PersistBatch_done:
  assumes "PersistBatch B cfg inp b s = (s', None)"
  shows "(Superseded (snd (processing inp (v_recs (view s)))) \<and> view s' = (view s)\<lparr>v_recs := fst (processing inp (v_recs (view s)))\<rparr>)
    \<or> (snd (processing inp (v_recs (view s))) = None \<and>
       (\<exists>ids. fresh_ids ids (batch_saves cfg inp b (view s)) (set (gm_keys (v_ents (view s)))) \<and>
          view s' = (view s)\<lparr>v_recs := fst (processing inp (v_recs (view s))),
             v_ents := v_ents (view s) @ zip ids (with_entities ids (batch_saves cfg inp b (view s)))\<rparr>))"
proof -
  let ?u = "ei_user inp" and ?i = "ei_doc inp"
  obtain s1 r1 where s1: "sw_mark_processing (b_status B) (ee_key inp) (ei_attempt inp) s = (s1, r1)" by force
  have v1: "(view s1 = (view s)\<lparr>v_recs := fst (processing inp (v_recs (view s)))\<rparr> \<and> r1 = snd (processing inp (v_recs (view s))))
      \<or> (\<exists>e. r1 = Some e \<and> outage e)"
    using proc_okD[OF st_processing s1] by (auto simp: processing_def)
  show ?thesis
  proof (cases r1)
    case (Some e)
    then have e: "Superseded (Some e)" "s' = s1"
      using assms s1 by (auto simp: PersistBatch_def split: if_splits)
    then show ?thesis using v1 Some outage_not_superseded by auto
  next
    case None
    with v1 have v1: "view s1 = (view s)\<lparr>v_recs := fst (processing inp (v_recs (view s)))\<rparr>"
      "snd (processing inp (v_recs (view s))) = None" by auto
    define saves where "saves = batch_saves cfg inp b (view s)"
    from PersistBatch_saves[OF assms s1[unfolded None] v1(1)] show ?thesis
    proof cases
      case (1 s5)
      then show ?thesis using v1 by (auto intro!: exI[of _ "[]"] simp: fresh_ids_def)
    next
      case (2 s5)
      from proc_okD[OF ent_create 2(2)] obtain ids where
        ids: "fresh_ids ids saves (set (gm_keys (v_ents (view s))))"
        "view s' = (view s5)\<lparr>v_ents := entity_BulkCreate ids saves (v_ents (view s))\<rparr>"
        by (auto simp: 2 v1 saves_def)
      then show ?thesis using v1(2) entities_created[OF ids(1)] by (auto simp: 2 v1 saves_def)
    qed
  qed
qed

text \<open>A persist step that reports an error has saved nothing.\<close>

lemma PersistBatch_failed:
  assumes "PersistBatch B cfg inp b s = (s', Some e)"
  shows "view s' = view s \<or> view s' = (view s)\<lparr>v_recs := fst (processing inp (v_recs (view s)))\<rparr>"
proof -
  let ?u = "ei_user inp" and ?i = "ei_doc inp"
  obtain s1 r1 where s1: "sw_mark_processing (b_status B) (ee_key inp) (ei_attempt inp) s = (s1, r1)" by force
  have v1: "view s1 = (view s)\<lparr>v_recs := fst (processing inp (v_recs (view s)))\<rparr> \<or> view s1 = view s"
    using proc_okD[OF st_processing s1] by (auto simp: processing_def)
  have doc: "view x' = view x" if "b_doc_get B ?u ?i x = (x', r)" for x x' r using call_okD[OF doc_get that] by auto
  have chk: "view x' = view x" if "b_ent_chunks B ?u ?i x = (x', r)" for x x' r using call_okD[OF ent_chunks that] by auto
  have cre: "view x' = view x" if "b_ent_create B es x = (x', Some e)" for es x x' e using proc_okD[OF ent_create that] by auto
  have "view s' = view s1"
    using assms s1 by (auto simp: PersistBatch_def try_call_def try_proc_def Let_def
        split: prod.splits sum.splits option.splits if_splits dest!: readJSON_view doc chk cre)
  then show ?thesis using v1 by auto
qed

end

text \<open>Once saved, a batch has nothing more to save.\<close>

lemma batch_saves_recs [simp]: "batch_saves cfg inp b (v\<lparr>v_recs := rs\<rparr>) = batch_saves cfg inp b v"
  by (simp add: batch_saves_def own_doc_def split: option.split sum.split)

lemma batch_saves_again:
  assumes "fresh_ids ids (batch_saves cfg inp b v) (set (gm_keys (v_ents v)))"
  shows "batch_saves cfg inp b (v\<lparr>v_recs := rs, v_ents := v_ents v @ zip ids (with_entities ids (batch_saves cfg inp b v))\<rparr>) = []"
proof (cases "batch_saves cfg inp b v")
  case Nil
  then have "v\<lparr>v_recs := rs, v_ents := v_ents v @ zip ids (with_entities ids (batch_saves cfg inp b v))\<rparr> = v\<lparr>v_recs := rs\<rparr>"
    by (cases v) (simp add: with_entities_def)
  then show ?thesis using Nil by simp
next
  case (Cons e es)
  define saves where "saves = batch_saves cfg inp b v"
  let ?u = "ei_user inp" and ?d = "ei_doc inp"
  from Cons obtain doc req resp inBatch where
    r: "own_doc v ?u ?d = Some doc" "Option.bind (v_scratch v (eb_input b)) unmarshal_entities_request = Some req"
    "Option.bind (v_scratch v (eb_result b)) unmarshal_entities_response = Some resp"
    "batch_ids cfg (entity_ChunkIDsWithEntities ?u ?d (v_ents v)) req [] = Inr (Some inBatch)"
    and s: "saves = batch_entities cfg inp doc inBatch resp"
    by (auto simp: saves_def batch_saves_def split: option.splits sum.splits)
  define ents where "ents = v_ents v @ zip ids (with_entities ids saves)"
  have len: "length ids = length saves" using assms by (simp add: fresh_ids_def saves_def)
  have ne: "saves \<noteq> []" using Cons by (simp add: saves_def)
  have e0: "saves ! 0 \<in> set (batch_entities cfg inp doc inBatch resp)" using ne by (simp add: s)
  note own = batch_entities_own[OF e0]
  have "with_entities ids saves ! 0 = (saves ! 0)\<lparr>e_id := ids ! 0\<rparr>" using ne len by (simp add: with_entities_def)
  moreover have "length (with_entities ids saves) = length saves" using len by (simp add: with_entities_def)
  then have "with_entities ids saves ! 0 \<in> set (gm_vals ents)"
    using ne len nth_mem[of 0 "with_entities ids saves"] by (simp add: ents_def)
  ultimately have fin: "gm_get_or False (entity_ChunkIDsWithEntities ?u ?d ents) (e_chunk (saves ! 0))"
    unfolding finished_iff using own by (metis entity.select_convs(2,4,5) entity.surjective entity.update_convs(1))
  note bs = batch_ids_SomeD[OF r(4)]
  obtain c where c: "c \<in> set req" "the (pc_parse cfg (fst c)) = e_chunk (saves ! 0)"
    using own bs by auto
  have "batch_ids cfg (entity_ChunkIDsWithEntities ?u ?d ents) req [] = Inr None"
    by (rule batch_ids_None) (use bs in auto, metis c fin)
  moreover have "v_ents v @ zip ids (with_entities ids (batch_saves cfg inp b v)) = ents" by (simp add: ents_def saves_def)
  ultimately show ?thesis using r by (simp only: batch_saves_def own_doc_def) simp
qed


subsection \<open>The Map state\<close>

text \<open>
  The state machine runs \<open>PersistBatch\<close> for every batch, in any order and again after a failure.
  A run is a list of such steps, each under its own faults; its second result lists the batches
  whose step returned without error.
\<close>

fun persist_run :: "pipeline_cfg \<Rightarrow> ee_input \<Rightarrow> (ee_batch \<times> bool list) list \<Rightarrow> world \<Rightarrow> world \<times> ee_batch list" where
  "persist_run cfg inp [] w = (w, [])"
| "persist_run cfg inp ((b, fs) # steps) w =
     (case PersistBatch mem_backend cfg inp b (w\<lparr>w_faults := fs\<rparr>) of
        (w', r) \<Rightarrow> (case persist_run cfg inp steps w' of
           (w'', oks) \<Rightarrow> (w'', if r = None then b # oks else oks)))"

definition doc_entities :: "ee_input \<Rightarrow> bview \<Rightarrow> entity multiset" where
  "doc_entities inp v = mset (map (\<lambda>e. e\<lparr>e_id := uuid_nil\<rparr>)
     (filter (\<lambda>e. e_user e = ei_user inp \<and> e_doc e = ei_doc inp) (gm_vals (v_ents v))))"

text \<open>The job's entities for one batch: those naming one of its chunks.\<close>

definition job_entities :: "pipeline_cfg \<Rightarrow> ee_input \<Rightarrow> document \<Rightarrow> chunk list \<Rightarrow> entity_json list \<Rightarrow> entity list" where
  "job_entities cfg inp doc cs es = batch_entities cfg inp doc (map c_id cs) es"

definition batches_ready ::
  "pipeline_cfg \<Rightarrow> ee_input \<Rightarrow> document \<Rightarrow> chunk list list \<Rightarrow> entity_json list list \<Rightarrow> bview \<Rightarrow> bool" where
  "batches_ready cfg inp doc wins resps v \<longleftrightarrow>
     own_doc v (ei_user inp) (ei_doc inp) = Some doc \<and> length resps = length wins \<and>
     (\<forall>j < length wins. v_scratch v (eb_input (batch_at cfg inp j)) = Some (batch_request cfg (wins ! j)) \<and>
        v_scratch v (eb_result (batch_at cfg inp j)) = Some (EntitiesResponse (resps ! j))) \<and>
     distinct (map c_id (concat wins)) \<and> processing inp (v_recs v) = (v_recs v, None)"

definition saved_batches ::
  "pipeline_cfg \<Rightarrow> ee_input \<Rightarrow> document \<Rightarrow> chunk list list \<Rightarrow> entity_json list list \<Rightarrow> nat set \<Rightarrow> bview \<Rightarrow> bool" where
  "saved_batches cfg inp doc wins resps S v \<longleftrightarrow>
     S \<subseteq> {..<length wins} \<and> doc_entities inp v = (\<Sum>j\<in>S. mset (job_entities cfg inp doc (wins ! j) (resps ! j)))"

lemma concat_distinct_nth:
  "distinct (concat xss) \<Longrightarrow> i < length xss \<Longrightarrow> j < length xss \<Longrightarrow> x \<in> set (xss ! i) \<Longrightarrow> x \<in> set (xss ! j) \<Longrightarrow> i = j"
proof (induction xss arbitrary: i j)
  case (Cons xs xss)
  then show ?case by (cases i; cases j) (auto dest!: nth_mem)
qed simp

lemma finished_mset: "gm_get_or False (entity_ChunkIDsWithEntities (ei_user inp) (ei_doc inp) (v_ents v)) i \<longleftrightarrow>
    (\<exists>e. e \<in># doc_entities inp v \<and> e_chunk e = i)"
  unfolding finished_iff doc_entities_def by force

lemma saved_elem:
  assumes "saved_batches cfg inp doc wins resps S v"
  shows "e \<in># doc_entities inp v \<longleftrightarrow> (\<exists>j \<in> S. e \<in> set (job_entities cfg inp doc (wins ! j) (resps ! j)))"
proof -
  have "finite S" using assms finite_subset by (auto simp: saved_batches_def)
  then show ?thesis using assms unfolding saved_batches_def by (simp add: set_mset_sum)
qed

lemma finished_batch:
  assumes "distinct (map c_id (concat wins))" "saved_batches cfg inp doc wins resps S v"
    and j: "j < length wins" "i \<in> c_id ` set (wins ! j)"
    and fin: "gm_get_or False (entity_ChunkIDsWithEntities (ei_user inp) (ei_doc inp) (v_ents v)) i"
  shows "j \<in> S \<and> job_entities cfg inp doc (wins ! j) (resps ! j) \<noteq> []"
proof -
  have fS: "finite S" "S \<subseteq> {..<length wins}" using assms(2) finite_subset by (auto simp: saved_batches_def)
  obtain e j' where e: "e_chunk e = i" "j' \<in> S" "e \<in> set (job_entities cfg inp doc (wins ! j') (resps ! j'))"
    using fin saved_elem[OF assms(2)] unfolding finished_mset by blast
  then have "i \<in> c_id ` set (wins ! j')" using batch_entities_own by (fastforce simp: job_entities_def)
  moreover have "distinct (concat (map (map c_id) wins))" using assms(1) by (simp add: map_concat)
  ultimately have "j' = j"
    using concat_distinct_nth[of "map (map c_id) wins" j' j i] j e(2) fS(2) by auto
  then show ?thesis using e by auto
qed

lemma batch_saves_value:
  assumes ready: "batches_ready cfg inp doc wins resps v" and inv: "saved_batches cfg inp doc wins resps S v"
    and j: "j < length wins" and parse: "\<forall>i. pc_parse cfg (pc_uuid cfg i) = Some i"
  shows "batch_saves cfg inp (batch_at cfg inp j) v =
    (if j \<in> S then [] else job_entities cfg inp doc (wins ! j) (resps ! j))"
proof -
  let ?fin = "entity_ChunkIDsWithEntities (ei_user inp) (ei_doc inp) (v_ents v)"
  let ?req = "map (chunk_request cfg) (wins ! j)" and ?save = "job_entities cfg inp doc (wins ! j) (resps ! j)"
  have bs: "batch_saves cfg inp (batch_at cfg inp j) v =
      (case batch_ids cfg ?fin ?req [] of Inr (Some ids) \<Rightarrow> batch_entities cfg inp doc ids (resps ! j) | _ \<Rightarrow> [])"
    using ready j by (simp add: batches_ready_def batch_saves_def batch_request_def)
  have parsed: "pc_parse cfg (fst (chunk_request cfg c)) = Some (c_id c)" for c
    using parse by (simp add: chunk_request_def)
  have dist: "distinct (map c_id (concat wins))" using ready by (simp add: batches_ready_def)
  have fS: "finite S" using inv finite_subset by (auto simp: saved_batches_def)
  show ?thesis
  proof (cases "\<exists>c \<in> set (wins ! j). gm_get_or False ?fin (c_id c)")
    case True
    then have "j \<in> S" using finished_batch[OF dist inv j] by blast
    moreover have "batch_ids cfg ?fin ?req [] = Inr None"
      by (rule batch_ids_None) (use True parsed in auto)
    ultimately show ?thesis by (simp add: bs)
  next
    case False
    then obtain ids where ids: "batch_ids cfg ?fin ?req [] = Inr (Some ids)"
      using batch_ids_total[of ?req cfg ?fin "[]"] parsed by auto
    have "set ids = (the \<circ> pc_parse cfg \<circ> fst) ` set ?req" using batch_ids_SomeD[OF ids] by simp
    also have "\<dots> = set (map c_id (wins ! j))" by (simp add: image_image parsed)
    finally have "set ids = set (map c_id (wins ! j))" .
    then have val: "batch_saves cfg inp (batch_at cfg inp j) v = ?save"
      unfolding bs ids by (simp only: sum.case option.case job_entities_def) (rule batch_entities_cong)
    have "?save = []" if "j \<in> S"
    proof (rule ccontr)
      assume "?save \<noteq> []"
      then obtain e where e: "e \<in> set ?save" by (cases ?save) auto
      then have "e \<in># doc_entities inp v" using saved_elem[OF inv] that by blast
      moreover have "e_chunk e \<in> c_id ` set (wins ! j)" using batch_entities_own e by (fastforce simp: job_entities_def)
      ultimately show False using False finished_mset by fastforce
    qed
    then show ?thesis using val by simp
  qed
qed

lemma with_entities_fresh:
  assumes "length ids = length es" "\<forall>e \<in> set es. e_id e = uuid_nil \<and> e_user e = ei_user inp \<and> e_doc e = ei_doc inp"
  shows "doc_entities inp (v\<lparr>v_ents := v_ents v @ zip ids (with_entities ids es)\<rparr>) = doc_entities inp v + mset es"
proof -
  have "gm_vals (zip ids (with_entities ids es)) = with_entities ids es" using assms(1) by (simp add: with_entities_def)
  moreover have "filter (\<lambda>e. e_user e = ei_user inp \<and> e_doc e = ei_doc inp) (with_entities ids es) = with_entities ids es"
    using assms(2) by (auto simp: with_entities_def filter_id_conv dest!: set_zip_rightD)
  moreover have "map (\<lambda>e. e\<lparr>e_id := uuid_nil\<rparr>) (with_entities ids es) = map (\<lambda>e. e) es"
    unfolding with_entities_def by (rule map2_nth_eq) (use assms in \<open>auto simp: dest!: nth_mem\<close>)
  ultimately show ?thesis by (simp add: doc_entities_def)
qed

lemma batch_entities_nil_id: "e \<in> set (batch_entities cfg inp doc ids es) \<Longrightarrow> e_id e = uuid_nil"
  by (induction cfg inp doc ids es rule: batch_entities.induct) (auto split: option.splits if_splits)

text \<open>One step of the run.\<close>

lemma persist_step:
  assumes "PersistBatch mem_backend cfg inp (batch_at cfg inp j) w = (w', r)"
    and ready: "batches_ready cfg inp doc wins resps (world_view w)"
    and inv: "saved_batches cfg inp doc wins resps S (world_view w)"
    and j: "j < length wins" and parse: "\<forall>i. pc_parse cfg (pc_uuid cfg i) = Some i"
  shows "batches_ready cfg inp doc wins resps (world_view w') \<and>
    saved_batches cfg inp doc wins resps (if r = None then insert j S else S) (world_view w')"
proof (cases r)
  case (Some e)
  have "processing inp (v_recs (world_view w)) = (v_recs (world_view w), None)" using ready by (simp add: batches_ready_def)
  then have "world_view w' = world_view w" using mem.PersistBatch_failed assms(1) Some by fastforce
  then show ?thesis using ready inv Some by simp
next
  case None
  let ?save = "job_entities cfg inp doc (wins ! j) (resps ! j)"
  define saves where "saves = batch_saves cfg inp (batch_at cfg inp j) (world_view w)"
  have pr: "processing inp (v_recs (world_view w)) = (v_recs (world_view w), None)" using ready by (simp add: batches_ready_def)
  from mem.PersistBatch_done[OF assms(1)[unfolded None]] pr obtain ids where
    ids: "fresh_ids ids saves (set (gm_keys (v_ents (world_view w))))"
    and v: "world_view w' = (world_view w)\<lparr>v_recs := v_recs (world_view w), v_ents := v_ents (world_view w) @ zip ids (with_entities ids saves)\<rparr>"
    by (auto simp: saves_def)
  have v: "world_view w' = (world_view w)\<lparr>v_ents := v_ents (world_view w) @ zip ids (with_entities ids saves)\<rparr>"
    using v by (cases "world_view w") simp
  have sv: "saves = (if j \<in> S then [] else ?save)" unfolding saves_def by (rule batch_saves_value[OF ready inv j parse])
  have "\<forall>e \<in> set saves. e_id e = uuid_nil \<and> e_user e = ei_user inp \<and> e_doc e = ei_doc inp"
    by (auto simp: sv job_entities_def dest: batch_entities_nil_id batch_entities_own split: if_splits)
  with ids have "doc_entities inp (world_view w') = doc_entities inp (world_view w) + mset saves"
    unfolding v by (intro with_entities_fresh) (auto simp: fresh_ids_def)
  moreover have "finite S" using inv finite_subset by (auto simp: saved_batches_def)
  ultimately have "saved_batches cfg inp doc wins resps (insert j S) (world_view w')"
    using inv j by (auto simp: saved_batches_def sv insert_absorb add.commute)
  moreover have "batches_ready cfg inp doc wins resps (world_view w')"
    using ready by (simp add: v batches_ready_def own_doc_def)
  ultimately show ?thesis by (simp add: None)
qed

lemma batches_ready_faults: "world_view (w\<lparr>w_faults := fs\<rparr>) = world_view w"
  by simp

lemma persist_run_saves:
  assumes "\<forall>i. pc_parse cfg (pc_uuid cfg i) = Some i"
  shows "persist_run cfg inp steps w = (w', oks) \<Longrightarrow>
    batches_ready cfg inp doc wins resps (world_view w) \<Longrightarrow> saved_batches cfg inp doc wins resps S (world_view w) \<Longrightarrow>
    fst ` set steps \<subseteq> batch_at cfg inp ` {..<length wins} \<Longrightarrow>
    saved_batches cfg inp doc wins resps (S \<union> {j. j < length wins \<and> batch_at cfg inp j \<in> set oks}) (world_view w')"
proof (induction steps arbitrary: w S oks)
  case Nil
  then show ?case by simp
next
  case (Cons st steps)
  obtain b fs where st: "st = (b, fs)" by force
  obtain j where j: "b = batch_at cfg inp j" "j < length wins" using Cons.prems(4) by (auto simp: st)
  obtain w1 r where p: "PersistBatch mem_backend cfg inp b (w\<lparr>w_faults := fs\<rparr>) = (w1, r)" by force
  obtain oks' where rest: "persist_run cfg inp steps w1 = (w', oks')" "oks = (if r = None then b # oks' else oks')"
    using Cons.prems(1) p by (auto simp: st split: prod.splits)
  note s = persist_step[OF p[unfolded j(1)] _ _ j(2) assms, of doc resps S]
  have "batches_ready cfg inp doc wins resps (world_view w1)"
    "saved_batches cfg inp doc wins resps (if r = None then insert j S else S) (world_view w1)"
    using s Cons.prems(2,3) by auto
  from Cons.IH[OF rest(1) this] Cons.prems(4)
  have i: "saved_batches cfg inp doc wins resps ((if r = None then insert j S else S) \<union>
      {j. j < length wins \<and> batch_at cfg inp j \<in> set oks'}) (world_view w')" by auto
  have "(if r = None then insert j S else S) \<union> {j. j < length wins \<and> batch_at cfg inp j \<in> set oks'} =
      S \<union> {j. j < length wins \<and> batch_at cfg inp j \<in> set oks}"
    using j rest(2) by (auto simp: batch_at_def)
  then show ?case using i by simp
qed


lemma processing_settled:
  assumes "snd (processing inp recs) = None"
  shows "processing inp (fst (processing inp recs)) = (fst (processing inp recs), None)"
proof -
  obtain c where c: "visible recs (ee_key inp) = Some c"
    using assms by (auto simp: processing_def spec_transition_def split: option.splits)
  let ?c = "fst (Transition c (ei_attempt inp) StProcessing '''' '''')"
  have "snd (snd (Transition c (ei_attempt inp) StProcessing '''' '''')) = None"
    using assms c by (simp add: processing_def spec_transition_def)
  then have "snd (snd (Transition ?c (ei_attempt inp) StProcessing '''' '''')) = None"
    by (auto simp: Transition_def Let_def split: if_splits)
  moreover have "fst (processing inp recs) = recs(slot_of (ee_key inp) \<mapsto> ?c)" using c by (simp add: processing_def spec_transition_def)
  moreover have "visible (recs(slot_of (ee_key inp) \<mapsto> ?c)) (ee_key inp) = Some ?c"
    using c by (auto simp: visible_def split: option.splits if_splits)
  ultimately show ?thesis by (simp add: processing_def spec_transition_def Transition_again)
qed

lemma sum_mset_map2:
  "length xs = length ys \<Longrightarrow> (\<Sum>j<length xs. mset (f (xs ! j) (ys ! j))) = mset (concat (map2 f xs ys))"
  by (induction xs ys rule: list_induct2) (simp_all add: sum.lessThan_Suc_shift del: sum.lessThan_Suc)

context backend_laws
begin

lemma Plan_current:
  assumes "Plan B cfg inp s = (s', Inr p)" "\<not> pl_stale p" "\<not> pl_no_chunks p"
  obtains doc where "own_doc (view s) (ei_user inp) (ei_doc inp) = Some doc"
    "processing inp (v_recs (view s')) = (v_recs (view s'), None)"
proof -
  let ?u = "ei_user inp" and ?i = "ei_doc inp"
  obtain s1 s2 d s3 chunks s4 s5 bs where
    s1: "sw_mark_processing (b_status B) (ee_key inp) (ei_attempt inp) s = (s1, None)" and
    s2: "b_doc_get B ?u ?i s1 = (s2, Inr d)" and s3: "b_chunk_list B ?u ?i s2 = (s3, Inr chunks)" and
    s4: "b_canon_decrement B ?u ?i s3 = (s4, None)" and s5: "b_ent_delete B ?u ?i s4 = (s5, None)" and
    s6: "plan_batches B cfg inp chunks 0 [] s5 = (s', Inr bs)"
    using assms by (auto simp: Plan_def try_proc_def try_call_def empty_plan_def
        split: prod.splits option.splits sum.splits if_splits)
  have v1: "view s1 = (view s)\<lparr>v_recs := fst (processing inp (v_recs (view s)))\<rparr>" "snd (processing inp (v_recs (view s))) = None"
    using proc_okD[OF st_processing s1] by (auto simp: processing_def)
  have "own_doc (view s) ?u ?i = Some d"
    using call_okD[OF doc_get s2] by (auto simp: v1 own_doc_def split: option.splits)
  moreover have "v_recs (view s') = v_recs (view s1)"
    using plan_batches_done[OF s6] call_okD[OF doc_get s2] call_okD[OF chunk_list s3] proc_okD[OF canon_decrement s4]
      proc_okD[OF ent_delete s5] by auto
  ultimately show thesis using that processing_settled[OF v1(2)] by (simp add: v1(1))
qed

end

subsection \<open>Properties\<close>

text \<open>
  C17. Planning an extraction, under any pattern of outages: when the step returns batches, they are
  numbered from zero, the object staged for the i-th one asks for exactly the i-th window of the
  document's chunks, the windows put together are the chunks in order, none is empty or longer
  than the batch size, and no entity of an earlier run is left.
\<close>

theorem plan_stages_every_chunk:
  assumes "Plan mem_backend cfg inp w = (w', Inr p)" "\<not> pl_stale p" "\<not> pl_no_chunks p"
  shows "let cs = chunk_ListByDocument (ei_user inp) (ei_doc inp) (w_chunks w); ws = windows (ee_batch_size cfg) cs in
     map eb_index (pl_batches p) = [0 ..< length ws] \<and>
     map (\<lambda>b. gm_get (w_scratch w') (eb_input b)) (pl_batches p) =
       map (\<lambda>cs. Some (EntitiesRequest (pc_allowed cfg) (map (chunk_request cfg) cs))) ws \<and>
     concat ws = cs \<and> list_all (\<lambda>cs. 0 < length cs \<and> length cs \<le> ee_batch_size cfg) ws \<and>
     entity_ListByDocument (ei_user inp) (ei_doc inp) (w_ents w') = []"
proof -
  let ?cs = "chunk_ListByDocument (ei_user inp) (ei_doc inp) (w_chunks w)"
  let ?ws = "windows (ee_batch_size cfg) ?cs"
  have b: "pl_batches p = map (batch_at cfg inp) [0 ..< length ?ws]"
    and s: "gm_get (w_scratch w') = staged_from cfg inp 0 ?ws (gm_get (w_scratch w))"
    and e: "w_ents w' = entity_DeleteByDocument (ei_user inp) (ei_doc inp) (w_ents w)"
    by (rule mem.Plan_done[OF assms]; simp)+
  have "map (\<lambda>b. gm_get (w_scratch w') (eb_input b)) (pl_batches p) = map (\<lambda>cs. Some (batch_request cfg cs)) ?ws"
    by (rule nth_equalityI)
      (use staged_from_nth[of _ ?ws cfg inp 0 "gm_get (w_scratch w)"] in \<open>simp_all add: b s\<close>)
  moreover have "list_all (\<lambda>cs. 0 < length cs \<and> length cs \<le> ee_batch_size cfg) ?ws"
    using windows_bounds by (fastforce simp: list_all_iff)
  moreover have "map eb_index (pl_batches p) = [0 ..< length ?ws]"
    by (rule nth_equalityI) (simp_all add: b batch_at_def)
  ultimately show ?thesis
    using concat_windows[of "ee_batch_size cfg" ?cs] by (simp add: Let_def batch_request_def[abs_def] e ent_delete_none)
qed

definition demo_chunk :: "uuid \<Rightarrow> string \<Rightarrow> chunk" where
  "demo_chunk i body = \<lparr>c_id = i, c_doc = 7, c_kb = 3, c_user = 1, c_ordinal = i, c_text = body, c_tokens = 0,
     c_embedding = [], c_start = 0, c_end = 0, c_region = None, c_page = None, c_box = None\<rparr>"

definition demo_ee_cfg :: pipeline_cfg where
  "demo_ee_cfg = demo_cfg\<lparr>pc_parse := (\<lambda>s. if s \<noteq> [] \<and> list_all is_digit s then Some (digits_val s) else None)\<rparr>"

definition demo_ee_input :: "int \<Rightarrow> ee_input" where
  "demo_ee_input a = \<lparr>ei_doc = 7, ei_user = 1, ei_attempt = a, ei_plan = None, ei_error = None\<rparr>"

definition demo_ee_world :: "jstore_op list \<Rightarrow> world" where
  "demo_ee_world ops = (demo_world ops [])\<lparr>w_chunks := [demo_chunk 10 ''Ann'', demo_chunk 11 ''Bob'', demo_chunk 12 ''Cid'']\<rparr>"

definition demo_plan :: plan where
  "demo_plan = empty_plan\<lparr>pl_batches := map (batch_at demo_ee_cfg (demo_ee_input 1)) [0, 1]\<rparr>"

theorem plan_stages_every_chunk_witness:
  "let w' = fst (Plan mem_backend demo_ee_cfg (demo_ee_input 1) (demo_ee_world [OpEnqueue (demo_key EntityExtraction)]))
   in map (\<lambda>b. gm_get (w_scratch w') (eb_input b)) (pl_batches demo_plan) =
      [Some (EntitiesRequest [''person''] [(''10'', ''Ann''), (''11'', ''Bob'')]),
       Some (EntitiesRequest [''person''] [(''12'', ''Cid'')])]"
proof -
  let ?w = "demo_ee_world [OpEnqueue (demo_key EntityExtraction)]"
  let ?r = "Plan mem_backend demo_ee_cfg (demo_ee_input 1) ?w"
  have "snd ?r = Inr demo_plan" by code_simp
  then have run: "?r = (fst ?r, Inr demo_plan)" by (simp add: prod_eq_iff)
  have p: "\<not> pl_stale demo_plan" "\<not> pl_no_chunks demo_plan" by (simp_all add: demo_plan_def empty_plan_def)
  have ws: "map (\<lambda>cs. Some (EntitiesRequest (pc_allowed demo_ee_cfg) (map (chunk_request demo_ee_cfg) cs)))
      (windows (ee_batch_size demo_ee_cfg) (chunk_ListByDocument (ei_user (demo_ee_input 1)) (ei_doc (demo_ee_input 1)) (w_chunks ?w))) =
     [Some (EntitiesRequest [''person''] [(''10'', ''Ann''), (''11'', ''Bob'')]),
      Some (EntitiesRequest [''person''] [(''12'', ''Cid'')])]" by code_simp
  from plan_stages_every_chunk[OF run p] ws show ?thesis by (simp add: Let_def)
qed

text \<open>The Batch jobs of a plan: each writes its result object.\<close>

definition jobs_write :: "ee_batch list \<Rightarrow> entity_json list list \<Rightarrow> world \<Rightarrow> world" where
  "jobs_write bs resps w = foldl (\<lambda>w (b, es). job_writes (eb_result b) (EntitiesResponse es) [] w) w (zip bs resps)"

lemma result_not_input: "eb_result (batch_at cfg inp i) \<noteq> eb_input (batch_at cfg inp j)"
proof
  assume "eb_result (batch_at cfg inp i) = eb_input (batch_at cfg inp j)"
  then have "rev (eb_result (batch_at cfg inp i)) = rev (eb_input (batch_at cfg inp j))" by simp
  then show False by (simp add: batch_at_def)
qed

lemma result_inj: "eb_result (batch_at cfg inp i) = eb_result (batch_at cfg inp j) \<longleftrightarrow> i = j"
  by (auto simp: batch_at_def batch_prefix_def dest: itoa_inj)

lemma jobs_write_view:
  "length bs = length resps \<Longrightarrow> distinct (map eb_result bs) \<Longrightarrow>
   \<exists>f. world_view (jobs_write bs resps w) = (world_view w)\<lparr>v_scratch := f\<rparr> \<and>
     (\<forall>i < length bs. f (eb_result (bs ! i)) = Some (EntitiesResponse (resps ! i))) \<and>
     (\<forall>k. k \<notin> eb_result ` set bs \<longrightarrow> f k = gm_get (w_scratch w) k)"
proof (induction bs resps arbitrary: w rule: list_induct2)
  case Nil
  have "world_view w = (world_view w)\<lparr>v_scratch := gm_get (w_scratch w)\<rparr>" by (simp add: world_view_def)
  then show ?case by (intro exI[of _ "gm_get (w_scratch w)"]) (simp add: jobs_write_def)
next
  case (Cons b bs es resps)
  let ?w = "job_writes (eb_result b) (EntitiesResponse es) [] w"
  obtain f where f: "world_view (jobs_write bs resps ?w) = (world_view ?w)\<lparr>v_scratch := f\<rparr>"
    "\<forall>i < length bs. f (eb_result (bs ! i)) = Some (EntitiesResponse (resps ! i))"
    "\<forall>k. k \<notin> eb_result ` set bs \<longrightarrow> f k = gm_get (w_scratch ?w) k"
    using Cons.IH[of ?w] Cons.prems by auto
  have "jobs_write (b # bs) (es # resps) w = jobs_write bs resps ?w" by (simp add: jobs_write_def)
  moreover have "gm_get (w_scratch ?w) k = (if k = eb_result b then Some (EntitiesResponse es) else gm_get (w_scratch w) k)" for k
    by (simp add: job_writes_def)
  ultimately show ?case using f Cons.prems
    by (intro exI[of _ f]) (auto simp: job_writes_view less_Suc_eq_0_disj)
qed

text \<open>
  C18. The Map state of an extraction: the batches of a plan are persisted in any order, repeated
  any number of times, each step under its own outages. Once every batch's step has returned, the
  document's entities are exactly those its jobs reported for chunks of their own batch, each
  saved once.
\<close>

theorem map_state_saves_each_entity_once:
  assumes "world_ok w" and "\<forall>i. pc_parse cfg (pc_uuid cfg i) = Some i"
    and "Plan mem_backend cfg inp w = (w1, Inr p)" "\<not> pl_stale p" "\<not> pl_no_chunks p"
    and "length resps = length (pl_batches p)"
    and "persist_run cfg inp steps (jobs_write (pl_batches p) resps w1) = (w2, oks)"
    and "fst ` set steps \<subseteq> set (pl_batches p)" and "set (pl_batches p) \<subseteq> set oks"
  shows "\<exists>doc. doc_Get (ei_user inp) (ei_doc inp) (w_docs w) = Inr doc \<and>
     doc_entities inp (world_view w2) = mset (concat (map2 (job_entities cfg inp doc)
       (windows (ee_batch_size cfg) (chunk_ListByDocument (ei_user inp) (ei_doc inp) (w_chunks w))) resps))"
proof -
  let ?u = "ei_user inp" and ?d = "ei_doc inp"
  let ?ws = "windows (ee_batch_size cfg) (chunk_ListByDocument ?u ?d (w_chunks w))"
  have b: "pl_batches p = map (batch_at cfg inp) [0 ..< length ?ws]"
    and s: "gm_get (w_scratch w1) = staged_from cfg inp 0 ?ws (gm_get (w_scratch w))"
    and e: "w_ents w1 = entity_DeleteByDocument ?u ?d (w_ents w)" and d: "gm_get (w_docs w1) = gm_get (w_docs w)"
    by (rule mem.Plan_done[OF assms(3-5)]; simp)+
  obtain doc where doc: "own_doc (world_view w) ?u ?d = Some doc"
    and proc: "processing inp (js_recs (w_jobs w1)) = (js_recs (w_jobs w1), None)"
    by (rule mem.Plan_current[OF assms(3-5)]) auto
  have len: "length resps = length ?ws" using assms(6) b by simp
  have "distinct (map eb_result (pl_batches p))" by (simp add: b distinct_map inj_on_def result_inj)
  from jobs_write_view[OF assms(6)[symmetric] this, of w1] obtain f where
    v: "world_view (jobs_write (pl_batches p) resps w1) = (world_view w1)\<lparr>v_scratch := f\<rparr>"
    and f1: "\<forall>i < length (pl_batches p). f (eb_result (pl_batches p ! i)) = Some (EntitiesResponse (resps ! i))"
    and f2: "\<forall>k. k \<notin> eb_result ` set (pl_batches p) \<longrightarrow> f k = gm_get (w_scratch w1) k" by blast
  have "f (eb_input (batch_at cfg inp j)) = Some (batch_request cfg (?ws ! j))" if "j < length ?ws" for j
  proof -
    have "eb_input (batch_at cfg inp j) \<notin> eb_result ` set (pl_batches p)" by (auto simp: b result_not_input[symmetric])
    with f2 have "f (eb_input (batch_at cfg inp j)) = gm_get (w_scratch w1) (eb_input (batch_at cfg inp j))" by blast
    then show ?thesis using staged_from_nth[OF that, of cfg inp 0 "gm_get (w_scratch w)"] by (simp add: s)
  qed
  moreover have "f (eb_result (batch_at cfg inp j)) = Some (EntitiesResponse (resps ! j))" if "j < length ?ws" for j
    using f1 that by (simp add: b)
  moreover have "distinct (map c_id (concat ?ws))"
    using assms(1) by (simp add: concat_windows world_ok_def chunk_ListByDocument_def distinct_map_filter)
  ultimately have ready: "batches_ready cfg inp doc ?ws resps (world_view (jobs_write (pl_batches p) resps w1))"
    using doc len proc by (simp add: batches_ready_def v own_doc_def d)
  have "saved_batches cfg inp doc ?ws resps {} (world_view (jobs_write (pl_batches p) resps w1))"
    by (auto simp: saved_batches_def v doc_entities_def e entity_DeleteByDocument_def filter_empty_conv)
  from persist_run_saves[OF assms(2,7) ready this] assms(8)
  have fin: "saved_batches cfg inp doc ?ws resps {j. j < length ?ws \<and> batch_at cfg inp j \<in> set oks} (world_view w2)"
    by (auto simp: b lessThan_atLeast0)
  have "{j. j < length ?ws \<and> batch_at cfg inp j \<in> set oks} = {..<length ?ws}" using assms(9) by (auto simp: b)
  with fin have "doc_entities inp (world_view w2) = (\<Sum>j<length ?ws. mset (job_entities cfg inp doc (?ws ! j) (resps ! j)))"
    by (simp add: saved_batches_def)
  also have "\<dots> = mset (concat (map2 (job_entities cfg inp doc) ?ws resps))"
    using len by (simp add: sum_mset_map2)
  finally show ?thesis using doc by (auto simp: own_doc_Get)
qed


definition demo_ents :: "entity_json list list" where
  "demo_ents =
     [[\<lparr>ej_chunk = ''10'', ej_type = ''person'', ej_text = ''Ann'', ej_start = 0, ej_end = 3, ej_score = 1\<rparr>,
       \<lparr>ej_chunk = ''12'', ej_type = ''person'', ej_text = ''stray'', ej_start = 0, ej_end = 3, ej_score = 1\<rparr>],
      [\<lparr>ej_chunk = ''12'', ej_type = ''person'', ej_text = ''Cid'', ej_start = 0, ej_end = 3, ej_score = 1\<rparr>]]"

definition demo_planned :: world where
  "demo_planned = fst (Plan mem_backend demo_ee_cfg (demo_ee_input 1) (demo_ee_world [OpEnqueue (demo_key EntityExtraction)]))"

text \<open>The second batch first, then the first one with an outage at its fourth call, again, and once too often.\<close>

definition demo_steps :: "(ee_batch \<times> bool list) list" where
  "demo_steps = (let b = batch_at demo_ee_cfg (demo_ee_input 1) in
     [(b 1, []), (b 0, [False, False, False, True]), (b 0, []), (b 1, []), (b 0, [])])"

theorem map_state_saves_each_entity_once_witness:
  "image_mset e_text (doc_entities (demo_ee_input 1)
     (world_view (fst (persist_run demo_ee_cfg (demo_ee_input 1) demo_steps (jobs_write (pl_batches demo_plan) demo_ents demo_planned)))))
   = {#''Ann'', ''Cid''#}"
proof -
  let ?w = "demo_ee_world [OpEnqueue (demo_key EntityExtraction)]" and ?i = "demo_ee_input 1"
  let ?run = "persist_run demo_ee_cfg ?i demo_steps (jobs_write (pl_batches demo_plan) demo_ents demo_planned)"
  let ?b = "batch_at demo_ee_cfg ?i"
  have ok: "world_ok ?w" by code_simp
  have parse: "\<forall>i. pc_parse demo_ee_cfg (pc_uuid demo_ee_cfg i) = Some i"
    by (simp add: demo_ee_cfg_def demo_cfg_def nat_str_digits digits_val_nat_str)
  have "snd (Plan mem_backend demo_ee_cfg ?i ?w) = Inr demo_plan" by code_simp
  then have plan: "Plan mem_backend demo_ee_cfg ?i ?w = (demo_planned, Inr demo_plan)"
    by (simp add: demo_planned_def prod_eq_iff)
  have p: "\<not> pl_stale demo_plan" "\<not> pl_no_chunks demo_plan" by (simp_all add: demo_plan_def empty_plan_def)
  have bs: "pl_batches demo_plan = [?b 0, ?b 1]" by (simp add: demo_plan_def empty_plan_def)
  have len: "length demo_ents = length (pl_batches demo_plan)" by (simp add: bs demo_ents_def)
  have "snd ?run = [?b 1, ?b 0, ?b 1, ?b 0]" by code_simp
  then have run: "?run = (fst ?run, [?b 1, ?b 0, ?b 1, ?b 0])" by (simp add: prod_eq_iff)
  have st: "fst ` set demo_steps \<subseteq> set (pl_batches demo_plan)" by (simp add: demo_steps_def bs Let_def)
  have done': "set (pl_batches demo_plan) \<subseteq> set [?b 1, ?b 0, ?b 1, ?b 0]" by (simp add: bs)
  obtain doc where m: "doc_entities ?i (world_view (fst ?run)) = mset (concat (map2 (job_entities demo_ee_cfg ?i doc)
       (windows (ee_batch_size demo_ee_cfg) (chunk_ListByDocument (ei_user ?i) (ei_doc ?i) (w_chunks ?w))) demo_ents))"
    using map_state_saves_each_entity_once[OF ok parse plan p len run st done'] by blast
  have ws: "windows (ee_batch_size demo_ee_cfg) (chunk_ListByDocument (ei_user ?i) (ei_doc ?i) (w_chunks ?w)) =
      [[demo_chunk 10 ''Ann'', demo_chunk 11 ''Bob''], [demo_chunk 12 ''Cid'']]" by code_simp
  have ps: "pc_parse demo_ee_cfg ''10'' = Some 10" "pc_parse demo_ee_cfg ''12'' = Some 12" by code_simp+
  have "image_mset e_text (doc_entities ?i (world_view (fst ?run))) =
      mset (map e_text (concat (map2 (job_entities demo_ee_cfg ?i doc)
        [[demo_chunk 10 ''Ann'', demo_chunk 11 ''Bob''], [demo_chunk 12 ''Cid'']] demo_ents)))"
    unfolding m ws by simp
  also have "\<dots> = {#''Ann'', ''Cid''#}" by (simp add: demo_ents_def job_entities_def ps demo_chunk_def)
  finally show ?thesis .
qed

lemma mark_stale:
  assumes "js_Get (w_jobs w) (ee_key inp) = Inr c" and "ei_attempt inp \<noteq> r_attempt c"
    and "sw_mark_processing (b_status mem_backend) (ee_key inp) (ei_attempt inp) w = (w1, r)"
  shows "world_view w1 = world_view w" "r \<noteq> None"
proof -
  have c: "v_recs (world_view w) (slot_of (run_key (ee_run inp))) = Some c" "k_user (r_key c) = run_user (ee_run inp)"
    using assms(1) by (auto simp: js_Get_def js_recs_def ee_key_def ee_run_def run_key_def split: option.splits if_splits)
  have k: "ee_key inp = run_key (ee_run inp)" "ei_attempt inp = run_attempt (ee_run inp)"
    by (simp_all add: ee_key_def ee_run_def run_key_def)
  show "world_view w1 = world_view w" "r \<noteq> None"
    using mem.stale_step[OF c, of w1 r] assms(2,3) by (simp_all add: k)
qed

text \<open>
  A plan, a persist step or a failure record of a superseded attempt changes nothing, under any
  pattern of outages: entities, identities, objects, job records and events stay as they were.
\<close>

theorem superseded_extraction_does_nothing:
  assumes "js_Get (w_jobs w) (ee_key inp) = Inr c" and "ei_attempt inp \<noteq> r_attempt c"
  shows "world_view (fst (Plan mem_backend cfg inp w)) = world_view w
    \<and> world_view (fst (PersistBatch mem_backend cfg inp b w)) = world_view w
    \<and> world_view (fst (ee_RecordFailure mem_backend inp w)) = world_view w"
proof -
  obtain w1 r where p: "sw_mark_processing (b_status mem_backend) (ee_key inp) (ei_attempt inp) w = (w1, r)" by force
  note st = mark_stale[OF assms p]
  have c: "v_recs (world_view w) (slot_of (run_key (ee_run inp))) = Some c" "k_user (r_key c) = run_user (ee_run inp)"
    using assms(1) by (auto simp: js_Get_def js_recs_def ee_key_def ee_run_def run_key_def split: option.splits if_splits)
  have k: "ee_key inp = run_key (ee_run inp)" "ei_attempt inp = run_attempt (ee_run inp)"
    by (simp_all add: ee_key_def ee_run_def run_key_def)
  have "world_view (fst (ee_RecordFailure mem_backend inp w)) = world_view w"
    using mem.failed_stale[OF c, of "Reason (ei_error inp)"] assms(2)
    by (auto simp: ee_RecordFailure_def k split: prod.split)
  moreover have "world_view (fst (Plan mem_backend cfg inp w)) = world_view w"
    using p st by (auto simp: Plan_def)
  moreover have "world_view (fst (PersistBatch mem_backend cfg inp b w)) = world_view w"
    using p st by (auto simp: PersistBatch_def)
  ultimately show ?thesis by blast
qed

theorem superseded_extraction_does_nothing_witness:
  "let w = demo_ee_world [OpEnqueue (demo_key EntityExtraction), OpFailed (demo_key EntityExtraction) 1 ''x'',
             OpEnqueue (demo_key EntityExtraction)]
   in world_view (fst (Plan mem_backend demo_ee_cfg (demo_ee_input 1) w)) = world_view w"
proof -
  let ?w = "demo_ee_world [OpEnqueue (demo_key EntityExtraction), OpFailed (demo_key EntityExtraction) 1 ''x'',
             OpEnqueue (demo_key EntityExtraction)]"
  have "js_Get (w_jobs ?w) (ee_key (demo_ee_input 1)) =
      Inr \<lparr>r_key = demo_key EntityExtraction, r_status = StPending, r_phase = '''', r_attempt = 2, r_last_error = ''''\<rparr>"
    by code_simp
  from superseded_extraction_does_nothing[OF this] show ?thesis by (simp add: Let_def demo_ee_input_def)
qed


end
