(* ===== verification/Pagination.thy ===== *)
theory Pagination
  imports Repositories GoStrings
begin

text \<open>
  \<^verbatim>\<open>internal/server/pagination.go\<close>: list pages sorted by creation time, then identifier,
  with the last item's identifier as the cursor of the next page. An identifier's \<open>String()\<close>
  and \<open>uuid.Parse\<close> are parameters; identifiers are compared as numbers, which is the order of
  their fixed-width hexadecimal strings. The property: following the cursors lists every item
  exactly once, in order.
\<close>

subsection \<open>The query parameters\<close>

definition defaultPageLimit :: int where
  "defaultPageLimit = 50"

definition maxPageLimit :: int where
  "maxPageLimit = 200"

definition parsePagination :: "(string \<Rightarrow> uuid option) \<Rightarrow> string \<Rightarrow> string \<Rightarrow> nat \<times> uuid" where
  "parsePagination parse limit_s after_s =
     (let limit = (if limit_s = '''' then defaultPageLimit
                   else case atoi limit_s of None \<Rightarrow> defaultPageLimit | Some n \<Rightarrow> if n > 0 then n else defaultPageLimit);
          limit = (if limit > maxPageLimit then maxPageLimit else limit);
          after = (if after_s = '''' then uuid_nil else case parse after_s of None \<Rightarrow> uuid_nil | Some i \<Rightarrow> i)
      in (nat limit, after))"

lemma parsePagination_limit:
  "parsePagination parse l a = (limit, after) \<Longrightarrow> 0 < limit \<and> limit \<le> 200"
  by (auto simp: parsePagination_def Let_def defaultPageLimit_def maxPageLimit_def split: option.splits if_splits)

lemma parsePagination_after:
  "snd (parsePagination parse l a) = (if a = '''' then uuid_nil else case parse a of None \<Rightarrow> uuid_nil | Some i \<Rightarrow> i)"
  by (simp add: parsePagination_def Let_def)

lemma parsePagination_fst: "fst (parsePagination parse l a) = fst (parsePagination parse l b)"
  by (simp add: parsePagination_def Let_def)

subsection \<open>Pages\<close>

record 'a page =
  pg_items :: "'a list"
  pg_next :: string

text \<open>\<open>created_at\<close>, then the identifier.\<close>

definition page_less :: "('a \<Rightarrow> timestamp) \<Rightarrow> ('a \<Rightarrow> uuid) \<Rightarrow> 'a \<Rightarrow> 'a \<Rightarrow> bool" where
  "page_less created ident a b \<longleftrightarrow>
     (if created a = created b then ident a < ident b else created a < created b)"

fun cursor_after :: "('a \<Rightarrow> uuid) \<Rightarrow> 'a list \<Rightarrow> uuid \<Rightarrow> nat option" where
  "cursor_after ident [] after = None"
| "cursor_after ident (x # xs) after =
     (if ident x = after then Some 1 else map_option Suc (cursor_after ident xs after))"

definition cursor_pos :: "('a \<Rightarrow> uuid) \<Rightarrow> 'a list \<Rightarrow> uuid \<Rightarrow> nat" where
  "cursor_pos ident items after =
     (if after = uuid_nil then 0 else case cursor_after ident items after of None \<Rightarrow> 0 | Some i \<Rightarrow> i)"

definition page_from :: "(uuid \<Rightarrow> string) \<Rightarrow> ('a \<Rightarrow> uuid) \<Rightarrow> 'a list \<Rightarrow> nat \<Rightarrow> nat \<Rightarrow> 'a page" where
  "page_from us ident items start limit =
     (let hasMore = start + limit < length items;
          end' = (if start + limit > length items then length items else start + limit);
          slice = drop start (take end' items)
      in \<lparr>pg_items = slice, pg_next = (if hasMore \<and> slice \<noteq> [] then us (ident (last slice)) else '''')\<rparr>)"

definition kbCursorPos :: "kbase list \<Rightarrow> uuid \<Rightarrow> nat" where
  "kbCursorPos = cursor_pos kb_id"

definition docCursorPos :: "document list \<Rightarrow> uuid \<Rightarrow> nat" where
  "docCursorPos = cursor_pos d_id"

definition paginateKBs :: "(uuid \<Rightarrow> string) \<Rightarrow> kbase list \<Rightarrow> nat \<Rightarrow> uuid \<Rightarrow> kbase page" where
  "paginateKBs us items limit after =
     (let items = sort_slice (page_less kb_created kb_id) items
      in page_from us kb_id items (kbCursorPos items after) limit)"

definition paginateDocs :: "(uuid \<Rightarrow> string) \<Rightarrow> document list \<Rightarrow> nat \<Rightarrow> uuid \<Rightarrow> document page" where
  "paginateDocs us items limit after =
     (let items = sort_slice (page_less d_created d_id) items
      in page_from us d_id items (docCursorPos items after) limit)"

subsection \<open>One page\<close>

lemma weak_order_page: "weak_order (page_less created ident)"
  by (rule weak_orderI) (auto simp: page_less_def split: if_splits)

lemma page_from_items: "pg_items (page_from us ident xs start limit) = take limit (drop start xs)"
  by (simp add: page_from_def Let_def drop_take)

lemma page_from_next:
  assumes "0 < limit"
  shows "pg_next (page_from us ident xs start limit) =
    (if start + limit < length xs then us (ident (xs ! (start + limit - 1))) else '''')"
proof (cases "start + limit < length xs")
  case True
  then have "take limit (drop start xs) \<noteq> []" "last (take limit (drop start xs)) = xs ! (start + limit - 1)"
    using assms by (auto simp: last_conv_nth)
  then show ?thesis using True by (simp add: page_from_def Let_def drop_take)
qed (simp add: page_from_def Let_def)

lemma cursor_after_nth:
  "distinct (map ident xs) \<Longrightarrow> j < length xs \<Longrightarrow> cursor_after ident xs (ident (xs ! j)) = Some (Suc j)"
proof (induction xs arbitrary: j)
  case (Cons x xs)
  then show ?case by (cases j) (auto simp: image_iff)
qed simp

text \<open>A page never lists something that is not there, and never more than the limit.\<close>

lemma paginateDocs_sub:
  "set (pg_items (paginateDocs us xs limit after)) \<subseteq> set xs" "length (pg_items (paginateDocs us xs limit after)) \<le> limit"
  by (auto simp: paginateDocs_def Let_def page_from_items dest!: in_set_takeD in_set_dropD)

lemma paginateKBs_sub:
  "set (pg_items (paginateKBs us xs limit after)) \<subseteq> set xs" "length (pg_items (paginateKBs us xs limit after)) \<le> limit"
  by (auto simp: paginateKBs_def Let_def page_from_items dest!: in_set_takeD in_set_dropD)

subsection \<open>Following the cursors\<close>

text \<open>A client that asks for the page after each cursor it is given, \<open>n\<close> times at most.\<close>

fun follow :: "(string \<Rightarrow> 'a page) \<Rightarrow> nat \<Rightarrow> string \<Rightarrow> 'a page list" where
  "follow fetch 0 cur = []"
| "follow fetch (Suc n) cur =
     (let p = fetch cur in p # (if pg_next p = '''' then [] else follow fetch n (pg_next p)))"

definition fetch_kbs :: "(uuid \<Rightarrow> string) \<Rightarrow> (string \<Rightarrow> uuid option) \<Rightarrow> kbase list \<Rightarrow> string \<Rightarrow> string \<Rightarrow> kbase page" where
  "fetch_kbs us parse items limit_s cur =
     (case parsePagination parse limit_s cur of (limit, after) \<Rightarrow> paginateKBs us items limit after)"

definition fetch_docs :: "(uuid \<Rightarrow> string) \<Rightarrow> (string \<Rightarrow> uuid option) \<Rightarrow> document list \<Rightarrow> string \<Rightarrow> string \<Rightarrow> document page" where
  "fetch_docs us parse items limit_s cur =
     (case parsePagination parse limit_s cur of (limit, after) \<Rightarrow> paginateDocs us items limit after)"

text \<open>The walk from position \<open>start\<close> lists the rest.\<close>

lemma follow_from:
  assumes fetch: "\<And>start. start \<le> length xs \<Longrightarrow> fetch (c start) = page_from us ident xs start limit"
    and cur: "\<And>j. j < length xs \<Longrightarrow> us (ident (xs ! j)) = c (Suc j) \<and> us (ident (xs ! j)) \<noteq> ''''"
    and limit: "0 < limit"
  shows "start \<le> length xs \<Longrightarrow> length xs - start < n \<Longrightarrow>
    concat (map pg_items (follow fetch n (c start))) = drop start xs \<and>
    pg_next (last (follow fetch n (c start))) = ''''"
proof (induction n arbitrary: start)
  case (Suc n)
  let ?p = "page_from us ident xs start limit"
  show ?case
  proof (cases "start + limit < length xs")
    case False
    then have "pg_next ?p = ''''" "pg_items ?p = drop start xs"
      using limit by (simp_all add: page_from_next page_from_items)
    then show ?thesis using fetch Suc.prems(1) by (simp add: Let_def)
  next
    case True
    then have "pg_next ?p = us (ident (xs ! (start + limit - 1)))" using limit by (simp add: page_from_next)
    moreover have "us (ident (xs ! (start + limit - 1))) = c (start + limit)" "us (ident (xs ! (start + limit - 1))) \<noteq> ''''"
      using cur[of "start + limit - 1"] True limit by (simp, metis One_nat_def Suc_lessD Suc_pred add_gr_0)+
    moreover have "concat (map pg_items (follow fetch n (c (start + limit)))) = drop (start + limit) xs \<and>
      pg_next (last (follow fetch n (c (start + limit)))) = ''''"
      using Suc.IH[of "start + limit"] Suc.prems True limit by simp
    moreover have "follow fetch n (c (start + limit)) \<noteq> []"
      using Suc.prems True limit by (cases n) (auto simp: Let_def)
    ultimately show ?thesis using fetch Suc.prems(1)
      by (simp add: Let_def page_from_items) (metis append_take_drop_id drop_drop add.commute)
  qed
qed simp

text \<open>
  The same through the code's cursor: every identifier is printed, parsed back and found again.
\<close>

lemma follow_cursor:
  assumes "distinct (map ident xs)" and "uuid_nil \<notin> ident ` set xs"
    and "\<And>x. x \<in> set xs \<Longrightarrow> parse (us (ident x)) = Some (ident x) \<and> us (ident x) \<noteq> ''''"
    and fetch: "\<And>cur. fetch cur = page_from us ident xs
          (cursor_pos ident xs (snd (parsePagination parse limit_s cur))) (fst (parsePagination parse limit_s ''''))"
    and "length xs < n"
  shows "concat (map pg_items (follow fetch n '''')) = xs \<and> pg_next (last (follow fetch n '''')) = ''''"
proof -
  define c where "c start = (if start = 0 then '''' else us (ident (xs ! (start - 1))))" for start
  let ?limit = "fst (parsePagination parse limit_s '''')"
  have pos: "0 < ?limit"
    using parsePagination_limit[of parse limit_s "''''"] by (cases "parsePagination parse limit_s ''''") auto
  have f: "fetch (c start) = page_from us ident xs start ?limit" if "start \<le> length xs" for start
  proof (cases start)
    case 0
    then show ?thesis by (simp add: fetch c_def parsePagination_after cursor_pos_def)
  next
    case (Suc j)
    then have "j < length xs" using that by simp
    then have m: "xs ! j \<in> set xs" by simp
    then have "ident (xs ! j) \<noteq> uuid_nil" using assms(2) by (metis imageI)
    then show ?thesis using Suc assms(1,3) \<open>j < length xs\<close>
      by (simp add: fetch c_def parsePagination_after cursor_pos_def cursor_after_nth)
  qed
  have cur: "us (ident (xs ! j)) = c (Suc j) \<and> us (ident (xs ! j)) \<noteq> ''''" if "j < length xs" for j
    using assms(3)[of "xs ! j"] that by (simp add: c_def)
  have "concat (map pg_items (follow fetch n (c 0))) = drop 0 xs \<and> pg_next (last (follow fetch n (c 0))) = ''''"
    by (rule follow_from[OF f cur pos]) (use assms(5) in simp_all)
  then show ?thesis by (simp add: c_def)
qed

lemma sort_page_props:
  "distinct (map ident xs) \<Longrightarrow> distinct (map ident (sort_slice lt xs))"
  by (metis mset_map_sort mset_eq_imp_distinct_iff)

lemma page_less_total:
  assumes "distinct (map ident xs)" "x \<in> set xs" "y \<in> set xs" "x \<noteq> y"
  shows "page_less created ident x y \<or> page_less created ident y x"
proof -
  have "ident x \<noteq> ident y" using assms by (auto simp: distinct_map dest: inj_onD)
  then show ?thesis by (auto simp: page_less_def)
qed

lemma sort_page_sorted:
  assumes "distinct (map ident xs)"
  shows "sorted_wrt (page_less created ident) (sort_slice (page_less created ident) xs)"
proof -
  let ?ys = "sort_slice (page_less created ident) xs"
  have d: "distinct ?ys" using sort_page_props[OF assms] by (simp add: distinct_map)
  have s: "sorted_wrt (\<lambda>a b. \<not> page_less created ident b a) ?ys" by (rule sort_slice_sorted[OF weak_order_page])
  show ?thesis unfolding sorted_wrt_iff_nth_less
  proof (intro allI impI)
    fix i j assume ij: "i < j" "j < length ?ys"
    then have "?ys ! i \<noteq> ?ys ! j" using d by (simp add: nth_eq_iff_index_eq)
    moreover have "?ys ! i \<in> set ?ys" "?ys ! j \<in> set ?ys" using ij by (simp_all del: set_sort_slice)
    then have "?ys ! i \<in> set xs" "?ys ! j \<in> set xs" unfolding set_sort_slice by auto
    moreover have "\<not> page_less created ident (?ys ! j) (?ys ! i)"
      using s ij by (simp add: sorted_wrt_iff_nth_less)
    ultimately show "page_less created ident (?ys ! i) (?ys ! j)" using page_less_total[OF assms] by blast
  qed
qed

lemma follow_limit:
  "(\<And>cur. length (pg_items (fetch cur)) \<le> m) \<Longrightarrow> list_all (\<lambda>p. length (pg_items p) \<le> m) (follow fetch n cur)"
  by (induction n arbitrary: cur) (auto simp: Let_def)

text \<open>
  C22. A client that follows the cursors of the document list, with any limit parameter, is given
  every document exactly once, in creation order, in pages of at most 200, and the last page has no
  cursor. The identifiers' printer and parser are the uuid library's.
\<close>

theorem pages_list_everything_once:
  assumes "distinct (map d_id docs)" and "uuid_nil \<notin> d_id ` set docs"
    and "\<And>i. parse (us i) = Some i" and "\<And>i. us i \<noteq> ''''" and "length docs < n"
  shows "let ps = follow (fetch_docs us parse docs limit_s) n ''''; listed = concat (map pg_items ps) in
    mset listed = mset docs \<and> sorted_wrt (page_less d_created d_id) listed \<and>
    pg_next (last ps) = '''' \<and> list_all (\<lambda>p. length (pg_items p) \<le> 200) ps"
proof -
  let ?xs = "sort_slice (page_less d_created d_id) docs" and ?f = "fetch_docs us parse docs limit_s"
  have fetch: "?f cur = page_from us d_id ?xs (cursor_pos d_id ?xs (snd (parsePagination parse limit_s cur)))
      (fst (parsePagination parse limit_s ''''))" for cur
    by (simp add: fetch_docs_def paginateDocs_def Let_def docCursorPos_def case_prod_beta
        parsePagination_fst[of parse limit_s cur "''''"])
  have "concat (map pg_items (follow ?f n '''')) = ?xs \<and> pg_next (last (follow ?f n '''')) = ''''"
    using assms(2-5) sort_page_props[OF assms(1)]
    by (intro follow_cursor[of d_id ?xs parse us ?f limit_s n]) (auto simp: fetch)
  moreover have "length (pg_items (?f cur)) \<le> 200" for cur
  proof -
    obtain limit after where l: "parsePagination parse limit_s cur = (limit, after)" by force
    show ?thesis
      using parsePagination_limit[OF l] paginateDocs_sub(2)[of us docs limit after] by (simp add: fetch_docs_def l)
  qed
  ultimately show ?thesis
    using sort_page_sorted[OF assms(1), of d_created]
    by (simp only: Let_def follow_limit mset_sort_slice simp_thms)
qed

definition demo_doc :: "uuid \<Rightarrow> timestamp \<Rightarrow> document" where
  "demo_doc i t = \<lparr>d_id = i, d_kb = 3, d_user = 1, d_filename = ''a.pdf'', d_s3key = nat_str i,
     d_content_type = ''application/pdf'', d_size = 4, d_status = DocPending, d_created = t, d_updated = t\<rparr>"

theorem pages_list_everything_once_witness:
  "let docs = [demo_doc 7 2, demo_doc 8 1, demo_doc 9 2];
       ps = follow (fetch_docs nat_str digits_parse docs ''2'') 4 ''''
   in map (map d_id \<circ> pg_items) ps = [[8, 7], [9]] \<and> mset (concat (map pg_items ps)) = mset docs"
proof -
  let ?docs = "[demo_doc 7 2, demo_doc 8 1, demo_doc 9 2]"
  have "map (map d_id \<circ> pg_items) (follow (fetch_docs nat_str digits_parse ?docs ''2'') 4 '''') = [[8, 7], [9]]" by code_simp
  moreover have "distinct (map d_id ?docs)" "uuid_nil \<notin> d_id ` set ?docs" by (simp_all add: demo_doc_def uuid_nil_def)
  ultimately show ?thesis
    using pages_list_everything_once[of ?docs digits_parse nat_str 4 "''2''"] by (simp add: Let_def)
qed

end
