(* ===== verification/Dispatch.thy ===== *)
theory Dispatch
  imports JobStatus Calls
begin

text \<open>
  \<^verbatim>\<open>internal/queue/dispatch\<close> and \<^verbatim>\<open>internal/queue/stepfunctions\<close>: publishing an
  event records the job and starts one state machine execution per attempt. The AWS client is a
  parameter; the locale \<open>dispatcher\<close> states what the publisher relies on: the status store's
  contract, and that a name is started at most once. A start that fails may still have taken
  effect, as a timed-out call can.
\<close>

subsection \<open>The Step Functions adapter\<close>

datatype exec_input = RunInput job_run | TimeoutInput uuid uuid

record execution =
  ex_arn :: string
  ex_name :: string
  ex_input :: exec_input

type_synonym 's start_client = "string \<Rightarrow> string \<Rightarrow> exec_input \<Rightarrow> 's proc"

record sf_config =
  sf_indexing :: string
  sf_entities :: string
  sf_regions :: string
  sf_edges :: string
  sf_canon :: string

definition ExecutionName :: "(uuid \<Rightarrow> string) \<Rightarrow> job_run \<Rightarrow> string" where
  "ExecutionName uuid_str run =
     job_type_str (run_type run) @ ''-'' @ uuid_str (run_doc run) @ ''-'' @ itoa (run_attempt run)"

definition configured_arn :: "job_type \<Rightarrow> string \<Rightarrow> gerror + string" where
  "configured_arn t arn =
     (if arn = '''' then Inl (Plain (''stepfunctions: state machine ARN for '' @ job_type_str t @ '' is not configured''))
      else Inr arn)"

fun stateMachineFor :: "sf_config \<Rightarrow> job_type \<Rightarrow> gerror + string" where
  "stateMachineFor cfg DocumentIndexing = configured_arn DocumentIndexing (sf_indexing cfg)"
| "stateMachineFor cfg EntityExtraction = configured_arn EntityExtraction (sf_entities cfg)"
| "stateMachineFor cfg RegionClassification = configured_arn RegionClassification (sf_regions cfg)"
| "stateMachineFor cfg EdgeExtraction = configured_arn EdgeExtraction (sf_edges cfg)"
| "stateMachineFor cfg Canonicalization = configured_arn Canonicalization (sf_canon cfg)"
| "stateMachineFor cfg t = Inl (Plain (''stepfunctions: no state machine for job type '' @ job_type_str t))"

definition sf_Dispatch :: "'s start_client \<Rightarrow> (uuid \<Rightarrow> string) \<Rightarrow> sf_config \<Rightarrow> job_run \<Rightarrow> 's proc" where
  "sf_Dispatch start uuid_str cfg run s =
     (case stateMachineFor cfg (run_type run) of
        Inl e \<Rightarrow> (s, Some e)
      | Inr arn \<Rightarrow>
          (case start arn (ExecutionName uuid_str run) (RunInput run) s of
             (s, err) \<Rightarrow>
               if err \<noteq> None \<and> \<not> err_is err ErrExecutionAlreadyExists
               then (s, Some (Wrapf ''stepfunctions: start'' (the err)))
               else (s, None)))"

subsection \<open>The publisher\<close>

definition event_key :: "event \<Rightarrow> jkey" where
  "event_key ev = \<lparr>k_user = event_user ev, k_doc = event_doc ev, k_type = event_type ev\<rparr>"

definition event_run :: "event \<Rightarrow> int \<Rightarrow> job_run" where
  "event_run ev attempt =
     \<lparr>run_type = event_type ev, run_doc = event_doc ev, run_user = event_user ev, run_attempt = attempt\<rparr>"

definition publish :: "'s status_writer \<Rightarrow> (job_run \<Rightarrow> 's proc) \<Rightarrow> event \<Rightarrow> 's proc" where
  "publish W target ev =
     try_call (sw_enqueue W (event_key ev))
       (\<lambda>e s. (s, Some (Wrapf ''dispatch: record job for document'' e)))
       (\<lambda>res s.
          if \<not> enq_started res then (s, None)
          else try_proc (target (event_run ev (enq_attempt res)))
            (\<lambda>dispatchErr s.
               let err = Wrapf ''dispatch: attempt for document'' dispatchErr in
               try_proc (sw_mark_failed W (event_key ev) (enq_attempt res) (err_text err))
                 (\<lambda>markErr s. (s, Some (Joined [err, Wrapf ''dispatch: mark attempt failed'' markErr])))
                 (\<lambda>s. (s, Some err)) s)
            (\<lambda>s. (s, None)) s)"

subsection \<open>What the publisher relies on\<close>

definition start_ok :: "('s \<Rightarrow> execution list) \<Rightarrow> 's start_client \<Rightarrow> bool" where
  "start_ok execs start \<longleftrightarrow>
     (\<forall>arn name inp s s' r. start arn name inp s = (s', r) \<longrightarrow>
        (let new = \<lparr>ex_arn = arn, ex_name = name, ex_input = inp\<rparr>;
             taken = (\<exists>x \<in> set (execs s). ex_arn x = arn \<and> ex_name x = name)
         in if taken then execs s' = execs s \<and> r \<noteq> None
            else (execs s' = execs s @ [new] \<and> \<not> err_is r ErrExecutionAlreadyExists) \<or>
                 (execs s' = execs s \<and> r \<noteq> None \<and> \<not> err_is r ErrExecutionAlreadyExists)))"

locale dispatcher = job_status_store W recs for W :: "'s status_writer" and recs +
  fixes start :: "'s start_client" and execs :: "'s \<Rightarrow> execution list"
  assumes start_law: "start_ok execs start"
    and start_recs: "start arn name inp s = (s', r) \<Longrightarrow> recs s' = recs s"
    and enqueue_execs: "sw_enqueue W k s = (s', q) \<Longrightarrow> execs s' = execs s"
    and failed_execs: "sw_mark_failed W k a rs s = (s', r) \<Longrightarrow> execs s' = execs s"
begin

definition started :: "'s \<Rightarrow> string \<Rightarrow> bool" where
  "started s name \<longleftrightarrow> (\<exists>x \<in> set (execs s). ex_name x = name)"

lemma start_cases:
  assumes "start arn name inp s = (s', r)"
  shows "execs s' = execs s \<or> execs s' = execs s @ [\<lparr>ex_arn = arn, ex_name = name, ex_input = inp\<rparr>]"
    and "r = None \<or> err_is r ErrExecutionAlreadyExists \<Longrightarrow> \<exists>x \<in> set (execs s'). ex_arn x = arn \<and> ex_name x = name"
proof -
  let ?new = "\<lparr>ex_arn = arn, ex_name = name, ex_input = inp\<rparr>" and ?hit = "\<lambda>x. ex_arn x = arn \<and> ex_name x = name"
  have l: "if \<exists>x \<in> set (execs s). ?hit x then execs s' = execs s \<and> r \<noteq> None
     else (execs s' = execs s @ [?new] \<and> \<not> err_is r ErrExecutionAlreadyExists) \<or>
          (execs s' = execs s \<and> r \<noteq> None \<and> \<not> err_is r ErrExecutionAlreadyExists)"
    using start_law[unfolded start_ok_def Let_def, rule_format, OF assms] .
  show "execs s' = execs s \<or> execs s' = execs s @ [?new]"
    using l by (cases "\<exists>x \<in> set (execs s). ?hit x") (simp_all only: if_True if_False, blast+)
  show "\<exists>x \<in> set (execs s'). ?hit x" if "r = None \<or> err_is r ErrExecutionAlreadyExists"
  proof (cases "\<exists>x \<in> set (execs s). ?hit x")
    case True
    then show ?thesis using l by simp
  next
    case False
    then have "execs s' = execs s @ [?new]" using l that by (simp only: if_False) blast
    then show ?thesis by simp
  qed
qed

lemma dispatch_cases:
  assumes "sf_Dispatch start us cfg run s = (s', r)"
  shows "recs s' = recs s"
    and "r = None \<Longrightarrow> started s' (ExecutionName us run)"
    and "execs s' = execs s \<or> (\<exists>arn. execs s' = execs s @ [\<lparr>ex_arn = arn, ex_name = ExecutionName us run, ex_input = RunInput run\<rparr>])"
proof -
  have "recs s' = recs s \<and> (r = None \<longrightarrow> started s' (ExecutionName us run)) \<and>
    (execs s' = execs s \<or> (\<exists>arn. execs s' = execs s @ [\<lparr>ex_arn = arn, ex_name = ExecutionName us run, ex_input = RunInput run\<rparr>]))"
  proof (cases "stateMachineFor cfg (run_type run)")
    case (Inl e)
    then show ?thesis using assms by (auto simp: sf_Dispatch_def)
  next
    case (Inr arn)
    obtain s1 r1 where s1: "start arn (ExecutionName us run) (RunInput run) s = (s1, r1)" by force
    then have "s' = s1" "r = None \<Longrightarrow> r1 = None \<or> err_is r1 ErrExecutionAlreadyExists"
      using assms Inr by (auto simp: sf_Dispatch_def split: if_splits)
    then show ?thesis using start_recs[OF s1] start_cases[OF s1] by (auto simp: started_def)
  qed
  then show "recs s' = recs s" "r = None \<Longrightarrow> started s' (ExecutionName us run)"
    "execs s' = execs s \<or> (\<exists>arn. execs s' = execs s @ [\<lparr>ex_arn = arn, ex_name = ExecutionName us run, ex_input = RunInput run\<rparr>])"
    by auto
qed

text \<open>
  A publish that returns: where the job was active nothing has changed; where it was not, its next
  attempt is recorded and has an execution.
\<close>

lemma publish_returns:
  assumes "publish W (sf_Dispatch start us cfg) ev s = (s', None)"
  shows "visible (recs s') (event_key ev) = Some (fst (Enqueue (visible (recs s) (event_key ev)) (event_key ev)))"
    and "if \<exists>c. visible (recs s) (event_key ev) = Some c \<and> Active (r_status c) then recs s' = recs s \<and> execs s' = execs s
      else started s' (ExecutionName us (event_run ev (r_attempt (fst (Enqueue (visible (recs s) (event_key ev)) (event_key ev))))))"
proof -
  let ?k = "event_key ev"
  obtain s1 q where s1: "sw_enqueue W ?k s = (s1, Inr q)"
    using assms by (auto simp: publish_def try_call_def split: prod.splits sum.splits)
  then have "(recs s1, Inr q) = spec_enqueue ?k (recs s)"
    using enqueue_law[of ?k] unfolding enqueue_refines_def by fastforce
  then have r1: "recs s1 = (recs s)(slot_of ?k \<mapsto> fst (Enqueue (visible (recs s) ?k) ?k))"
    "q = snd (Enqueue (visible (recs s) ?k) ?k)"
    by (auto simp: spec_enqueue_def split: if_splits)
  let ?c = "fst (Enqueue (visible (recs s) ?k) ?k)"
  have key: "k_user (r_key ?c) = k_user ?k"
    by (auto simp: Enqueue_def visible_def Let_def split: option.splits)
  then have vis: "visible (recs s1) ?k = Some ?c" by (simp add: visible_def r1)
  have att: "enq_attempt q = r_attempt ?c" and st: "enq_started q \<longleftrightarrow> \<not> (\<exists>c. visible (recs s) ?k = Some c \<and> Active (r_status c))"
    by (auto simp: r1 Enqueue_def Let_def split: option.splits)
  have "visible (recs s') ?k = Some ?c \<and>
    (if \<exists>c. visible (recs s) ?k = Some c \<and> Active (r_status c) then recs s' = recs s \<and> execs s' = execs s
     else started s' (ExecutionName us (event_run ev (r_attempt ?c))))"
  proof (cases "enq_started q")
    case False
    then have "s' = s1" using assms s1 by (simp add: publish_def)
    moreover have "visible (recs s) ?k = Some ?c" using False by (auto simp: r1 Enqueue_def Let_def split: option.splits if_splits)
    then have "recs s1 = recs s" by (auto simp: r1 visible_def fun_upd_idem split: option.splits if_splits)
    ultimately show ?thesis using vis enqueue_execs[OF s1] False st by auto
  next
    case True
    then have d: "sf_Dispatch start us cfg (event_run ev (enq_attempt q)) s1 = (s', None)"
      using assms s1 by (auto simp: publish_def try_proc_def Let_def split: prod.splits option.splits)
    show ?thesis using True st vis dispatch_cases[OF d] by (auto simp: att)
  qed
  then show "visible (recs s') ?k = Some ?c"
    "if \<exists>c. visible (recs s) ?k = Some c \<and> Active (r_status c) then recs s' = recs s \<and> execs s' = execs s
     else started s' (ExecutionName us (event_run ev (r_attempt ?c)))" by blast+
qed

lemma publish_done:
  assumes "publish W (sf_Dispatch start us cfg) ev s = (s', None)"
  obtains c where "visible (recs s') (event_key ev) = Some c" "Active (r_status c)"
    "(recs s' = recs s \<and> execs s' = execs s) \<or> started s' (ExecutionName us (event_run ev (r_attempt c)))"
proof -
  let ?c = "fst (Enqueue (visible (recs s) (event_key ev)) (event_key ev))"
  have "Active (r_status ?c)" by (auto simp: Enqueue_def Let_def split: option.split)
  with publish_returns[OF assms] that[of ?c] show thesis by (auto split: if_splits)
qed

text \<open>
  A publish that fails leaves no job waiting silently: a job it made active has an execution, or
  the failure to record the failure is part of the error.
\<close>

lemma publish_failed:
  assumes "publish W (sf_Dispatch start us cfg) ev s = (s', Some e)"
  shows "recs s' = recs s \<or> (\<exists>c. visible (recs s') (event_key ev) = Some c \<and> r_status c = StFailed) \<or>
    (\<exists>e1 m e2. e = Joined [e1, Wrapf m e2])"
proof -
  let ?k = "event_key ev"
  obtain s1 q where s1: "sw_enqueue W ?k s = (s1, q)" by force
  show ?thesis
  proof (cases q)
    case (Inl e1)
    then have "s' = s1" using assms s1 by (simp add: publish_def)
    moreover have "recs s1 = recs s"
      using enqueue_law[of ?k] s1 Inl unfolding enqueue_refines_def spec_enqueue_def by (force split: if_splits)
    ultimately show ?thesis by simp
  next
    case (Inr q)
    then have st: "enq_started q" using assms s1 by (auto simp: publish_def split: if_splits)
    obtain s2 e2 where s2: "sf_Dispatch start us cfg (event_run ev (enq_attempt q)) s1 = (s2, Some e2)"
      using assms s1 Inr st by (auto simp: publish_def try_proc_def Let_def split: prod.splits option.splits)
    let ?err = "Wrapf ''dispatch: attempt for document'' e2"
    obtain s3 r3 where s3: "sw_mark_failed W ?k (enq_attempt q) (err_text ?err) s2 = (s3, r3)" by force
    show ?thesis
    proof (cases r3)
      case None
      then have "s' = s3" using assms s1 Inr st s2 s3 by (simp add: publish_def Let_def)
      moreover have "is_write ?k (enq_attempt q) StFailed (sw_mark_failed W ?k (enq_attempt q) (err_text ?err))"
        by (auto simp: is_write_def)
      ultimately show ?thesis using success_write_status s3 None by metis
    next
      case (Some e3)
      then show ?thesis using assms s1 Inr st s2 s3 by (auto simp: publish_def Let_def)
    qed
  qed
qed

text \<open>What a publish leaves alone, whatever its outcome.\<close>

lemma publish_frame:
  assumes "publish W (sf_Dispatch start us cfg) ev s = (s', r)"
  shows "sl \<noteq> slot_of (event_key ev) \<Longrightarrow> recs s' sl = recs s sl"
    and "execs s' = execs s \<or> (\<exists>arn name a. execs s' = execs s @ [\<lparr>ex_arn = arn, ex_name = name, ex_input = RunInput (event_run ev a)\<rparr>])"
proof -
  let ?k = "event_key ev"
  obtain s1 q where s1: "sw_enqueue W ?k s = (s1, q)" by force
  have r1: "sl \<noteq> slot_of ?k \<Longrightarrow> recs s1 sl = recs s sl" for sl
    using enqueue_law[of ?k] s1 unfolding enqueue_refines_def spec_enqueue_def by (force split: if_splits)
  note e1 = enqueue_execs[OF s1]
  have "(sl \<noteq> slot_of ?k \<longrightarrow> recs s' sl = recs s sl) \<and>
    (execs s' = execs s \<or> (\<exists>arn name a. execs s' = execs s @ [\<lparr>ex_arn = arn, ex_name = name, ex_input = RunInput (event_run ev a)\<rparr>]))"
  proof (cases "\<exists>v. q = Inr v \<and> enq_started v")
    case False
    then have "s' = s1" using assms s1 by (cases q) (auto simp: publish_def)
    then show ?thesis using r1 e1 by auto
  next
    case True
    then obtain v where v: "q = Inr v" "enq_started v" by blast
    obtain s2 r2 where s2: "sf_Dispatch start us cfg (event_run ev (enq_attempt v)) s1 = (s2, r2)" by force
    note d2 = dispatch_cases[OF s2]
    show ?thesis
    proof (cases r2)
      case None
      then have "s' = s2" using assms s1 v s2 by (simp add: publish_def)
      then show ?thesis using d2 r1 e1 by auto
    next
      case (Some e)
      obtain s3 r3 where s3: "sw_mark_failed W ?k (enq_attempt v) (err_text (Wrapf ''dispatch: attempt for document'' e)) s2 = (s3, r3)" by force
      have "s' = s3" using assms s1 v s2 Some s3 by (cases r3) (auto simp: publish_def Let_def)
      moreover have "sl \<noteq> slot_of ?k \<Longrightarrow> recs s3 sl = recs s2 sl" for sl
        by (rule write_frame[where p = "sw_mark_failed W ?k (enq_attempt v) (err_text (Wrapf ''dispatch: attempt for document'' e))"
            and k = ?k and a = "enq_attempt v" and to = StFailed, OF _ s3]) (auto simp: is_write_def)
      ultimately show ?thesis using d2 r1 e1 failed_execs[OF s3] by auto
    qed
  qed
  then show "sl \<noteq> slot_of (event_key ev) \<Longrightarrow> recs s' sl = recs s sl"
    "execs s' = execs s \<or> (\<exists>arn name a. execs s' = execs s @ [\<lparr>ex_arn = arn, ex_name = name, ex_input = RunInput (event_run ev a)\<rparr>])"
    by auto
qed

end

end
