(* ===== verification/Front.thy ===== *)
theory Front
  imports Dispatch Repositories Canonical
begin

text \<open>
  The collaborators of the API handlers and of the malware scan, as one record of operations
  polymorphic in the state behind them, and their in-memory implementation. \<open>front\<close> holds every
  memory repository, the object store, the started executions, a supply of new identifiers, a
  clock, and a tape of faults: each call reads one element, and \<open>True\<close> makes it fail with a plain
  error before it does anything. The Step Functions service is the one the client's comments
  describe: it rejects a name it has already started. The last section shows that this
  implementation meets the publisher's contract.
\<close>

subsection \<open>The operations\<close>

record 's front_ops =
  fo_kb_get :: "uuid \<Rightarrow> uuid \<Rightarrow> ('s, kbase) call"
  fo_kb_create :: "uuid \<Rightarrow> string \<Rightarrow> ('s, kbase) call"
  fo_kb_list :: "uuid \<Rightarrow> ('s, kbase list) call"
  fo_kb_rename :: "uuid \<Rightarrow> uuid \<Rightarrow> string \<Rightarrow> ('s, kbase) call"
  fo_kb_delete :: "uuid \<Rightarrow> uuid \<Rightarrow> 's proc"
  fo_doc_create :: "document \<Rightarrow> ('s, document) call"
  fo_doc_get :: "uuid \<Rightarrow> uuid \<Rightarrow> ('s, document) call"
  fo_doc_by_key :: "uuid \<Rightarrow> string \<Rightarrow> ('s, document) call"
  fo_doc_list_kb :: "uuid \<Rightarrow> uuid \<Rightarrow> ('s, document list) call"
  fo_doc_list_user :: "uuid \<Rightarrow> ('s, document list) call"
  fo_doc_status :: "uuid \<Rightarrow> uuid \<Rightarrow> doc_status \<Rightarrow> 's proc"
  fo_doc_delete :: "uuid \<Rightarrow> uuid \<Rightarrow> 's proc"
  fo_put :: "string \<Rightarrow> string \<Rightarrow> 's proc"
  fo_get :: "string \<Rightarrow> ('s, string) call"
  fo_del :: "string \<Rightarrow> 's proc"
  fo_status :: "'s status_writer"
  fo_status_get :: "jkey \<Rightarrow> ('s, jrecord) call"
  fo_active :: "uuid \<Rightarrow> uuid list \<Rightarrow> ('s, (uuid, job_status list) gomap) call"
  fo_manifest :: "uuid \<Rightarrow> uuid \<Rightarrow> ('s, region list) call"
  fo_canon :: "uuid \<Rightarrow> uuid \<Rightarrow> 's proc"
  fo_start :: "'s start_client"
  fo_publish :: "event \<Rightarrow> 's proc"
  fo_new_uuid :: "'s \<Rightarrow> 's \<times> uuid"

subsection \<open>The in-memory implementation\<close>

record front =
  fr_kbs :: kb_repo
  fr_docs :: doc_repo
  fr_objects :: "(string, string) gomap"
  fr_jobs :: jstore
  fr_execs :: "execution list"
  fr_regions :: region_repo
  fr_canon :: canon_repo
  fr_next :: uuid
  fr_clock :: timestamp
  fr_faults :: "bool list"

definition front_fault :: gerror where
  "front_fault = Plain ''connection refused''"

definition ff_call :: "(front, 'a) call \<Rightarrow> (front, 'a) call" where
  "ff_call p w =
     (case fr_faults w of
        [] \<Rightarrow> p w
      | True # fs \<Rightarrow> (w\<lparr>fr_faults := fs\<rparr>, Inl front_fault)
      | False # fs \<Rightarrow> p (w\<lparr>fr_faults := fs\<rparr>))"

definition ff_proc :: "front proc \<Rightarrow> front proc" where
  "ff_proc p w =
     (case fr_faults w of
        [] \<Rightarrow> p w
      | True # fs \<Rightarrow> (w\<lparr>fr_faults := fs\<rparr>, Some front_fault)
      | False # fs \<Rightarrow> p (w\<lparr>fr_faults := fs\<rparr>))"

definition front_status :: "front status_writer" where
  "front_status =
     \<lparr>sw_enqueue = \<lambda>k. ff_call (\<lambda>w. case js_Enqueue k (fr_jobs w) of (j, r) \<Rightarrow> (w\<lparr>fr_jobs := j\<rparr>, r)),
      sw_mark_processing = \<lambda>k a. ff_proc (\<lambda>w. case js_MarkProcessing k a (fr_jobs w) of (j, e) \<Rightarrow> (w\<lparr>fr_jobs := j\<rparr>, e)),
      sw_set_phase = \<lambda>k a ph. ff_proc (\<lambda>w. case js_SetPhase k a ph (fr_jobs w) of (j, e) \<Rightarrow> (w\<lparr>fr_jobs := j\<rparr>, e)),
      sw_mark_succeeded = \<lambda>k a. ff_proc (\<lambda>w. case js_MarkSucceeded k a (fr_jobs w) of (j, e) \<Rightarrow> (w\<lparr>fr_jobs := j\<rparr>, e)),
      sw_mark_failed = \<lambda>k a rs. ff_proc (\<lambda>w. case js_MarkFailed k a rs (fr_jobs w) of (j, e) \<Rightarrow> (w\<lparr>fr_jobs := j\<rparr>, e))\<rparr>"

definition front_start :: "front start_client" where
  "front_start arn name inp = ff_proc (\<lambda>w.
     if list_ex (\<lambda>x. ex_arn x = arn \<and> ex_name x = name) (fr_execs w)
     then (w, Some (Wrapf ''ExecutionAlreadyExists'' ErrExecutionAlreadyExists))
     else (w\<lparr>fr_execs := fr_execs w @ [\<lparr>ex_arn = arn, ex_name = name, ex_input = inp\<rparr>]\<rparr>, None))"

definition with_docs :: "(doc_repo \<Rightarrow> doc_repo \<times> gerror option) \<Rightarrow> front proc" where
  "with_docs f w = (case f (fr_docs w) of (d, e) \<Rightarrow> (w\<lparr>fr_docs := d\<rparr>, e))"

definition front_mem :: "(uuid \<Rightarrow> string) \<Rightarrow> sf_config \<Rightarrow> front front_ops" where
  "front_mem us cfg =
     \<lparr>fo_kb_get = \<lambda>u i. ff_call (\<lambda>w. (w, kb_Get u i (fr_kbs w))),
      fo_kb_create = \<lambda>u name. ff_call (\<lambda>w. case kb_Create (fr_next w) (fr_clock w) u name (fr_kbs w) of
        (r, k) \<Rightarrow> (w\<lparr>fr_kbs := r, fr_next := Suc (fr_next w)\<rparr>, Inr k)),
      fo_kb_list = \<lambda>u. ff_call (\<lambda>w. (w, Inr (kb_List u (fr_kbs w)))),
      fo_kb_rename = \<lambda>u i name. ff_call (\<lambda>w. case kb_Rename (fr_clock w) u i name (fr_kbs w) of (r, x) \<Rightarrow> (w\<lparr>fr_kbs := r\<rparr>, x)),
      fo_kb_delete = \<lambda>u i. ff_proc (\<lambda>w. case kb_Delete u i (fr_kbs w) of (r, e) \<Rightarrow> (w\<lparr>fr_kbs := r\<rparr>, e)),
      fo_doc_create = \<lambda>d. ff_call (\<lambda>w. case doc_Create (fr_next w) (fr_clock w) d (fr_docs w) of
        (r, x) \<Rightarrow> (w\<lparr>fr_docs := r, fr_next := Suc (fr_next w)\<rparr>, Inr x)),
      fo_doc_get = \<lambda>u i. ff_call (\<lambda>w. (w, doc_Get u i (fr_docs w))),
      fo_doc_by_key = \<lambda>u k. ff_call (\<lambda>w. (w, doc_GetByS3Key u k (fr_docs w))),
      fo_doc_list_kb = \<lambda>u i. ff_call (\<lambda>w. (w, Inr (doc_ListByKB u i (fr_docs w)))),
      fo_doc_list_user = \<lambda>u. ff_call (\<lambda>w. (w, Inr (doc_ListByUserID u (fr_docs w)))),
      fo_doc_status = \<lambda>u i st. ff_proc (\<lambda>w. with_docs (doc_UpdateStatus (fr_clock w) u i st) w),
      fo_doc_delete = \<lambda>u i. ff_proc (with_docs (doc_Delete u i)),
      fo_put = \<lambda>k b. ff_proc (\<lambda>w. (w\<lparr>fr_objects := gm_put k b (fr_objects w)\<rparr>, None)),
      fo_get = \<lambda>k. ff_call (\<lambda>w. (w, case gm_get (fr_objects w) k of
        None \<Rightarrow> Inl (Plain (''mock store: key '' @ k @ '' not found'')) | Some b \<Rightarrow> Inr b)),
      fo_del = \<lambda>k. ff_proc (\<lambda>w. (w\<lparr>fr_objects := gm_del k (fr_objects w)\<rparr>, None)),
      fo_status = front_status,
      fo_status_get = \<lambda>k. ff_call (\<lambda>w. (w, js_Get (fr_jobs w) k)),
      fo_active = \<lambda>u ds. ff_call (\<lambda>w. (w, Inr (js_ActiveJobsForDocuments (fr_jobs w) u ds))),
      fo_manifest = \<lambda>u d. ff_call (\<lambda>w. (w, Inr (region_ListByDocument u d (fr_regions w)))),
      fo_canon = \<lambda>u d. ff_proc (\<lambda>w. (w\<lparr>fr_canon := canon_DecrementForDocument u d (fr_canon w)\<rparr>, None)),
      fo_start = front_start,
      fo_publish = publish front_status (sf_Dispatch front_start us cfg),
      fo_new_uuid = \<lambda>w. (w\<lparr>fr_next := Suc (fr_next w)\<rparr>, fr_next w)\<rparr>"

subsection \<open>Calls behind the tape\<close>

text \<open>A call either acts or is hit by an outage that changes only the tape.\<close>

definition same_front :: "front \<Rightarrow> front \<Rightarrow> bool" where
  "same_front w w' \<longleftrightarrow> w'\<lparr>fr_faults := fr_faults w\<rparr> = w"

lemma same_front_refl [simp]: "same_front w w"
  by (simp add: same_front_def)

lemma same_front_faults [simp]: "same_front w (w\<lparr>fr_faults := fs\<rparr>)"
  by (simp add: same_front_def)

lemma same_front_sel:
  "same_front w w' \<Longrightarrow> fr_kbs w' = fr_kbs w \<and> fr_docs w' = fr_docs w \<and> fr_objects w' = fr_objects w \<and>
     fr_jobs w' = fr_jobs w \<and> fr_execs w' = fr_execs w \<and> fr_regions w' = fr_regions w \<and>
     fr_canon w' = fr_canon w \<and> fr_next w' = fr_next w \<and> fr_clock w' = fr_clock w"
  unfolding same_front_def by (metis front.select_convs front.surjective front.update_convs(10))

lemma front_fault_simps [simp]:
  "\<not> errors_is front_fault ErrDocNotFound" "\<not> errors_is front_fault ErrKBNotFound" "\<not> errors_is front_fault ErrJobNotFound"
  "\<not> errors_is front_fault ErrNotActive" "\<not> errors_is front_fault ErrAttemptSuperseded"
  "\<not> errors_is front_fault ErrExecutionAlreadyExists" "\<not> errors_is front_fault ErrInvalidTransition"
  "\<not> status_error front_fault"
  by (simp_all add: front_fault_def status_error_def)

lemma ff_call_cases:
  assumes "ff_call p w = (w', r)"
  obtains (acts) fs where "p (w\<lparr>fr_faults := fs\<rparr>) = (w', r)"
    | (fault) fs where "w' = w\<lparr>fr_faults := fs\<rparr>" "r = Inl front_fault"
proof (cases "fr_faults w")
  case Nil
  then have "p (w\<lparr>fr_faults := []\<rparr>) = (w', r)" using assms by (cases w) (simp add: ff_call_def)
  then show ?thesis by (rule acts)
next
  case (Cons b fs)
  then show ?thesis using assms acts[of fs] fault[of fs] by (cases b) (auto simp: ff_call_def)
qed

lemma ff_proc_cases:
  assumes "ff_proc p w = (w', r)"
  obtains (acts) fs where "p (w\<lparr>fr_faults := fs\<rparr>) = (w', r)"
    | (fault) fs where "w' = w\<lparr>fr_faults := fs\<rparr>" "r = Some front_fault"
proof (cases "fr_faults w")
  case Nil
  then have "p (w\<lparr>fr_faults := []\<rparr>) = (w', r)" using assms by (cases w) (simp add: ff_proc_def)
  then show ?thesis by (rule acts)
next
  case (Cons b fs)
  then show ?thesis using assms acts[of fs] fault[of fs] by (cases b) (auto simp: ff_proc_def)
qed

subsection \<open>The publisher's contract\<close>

definition front_recs :: "front \<Rightarrow> slot \<Rightarrow> jrecord option" where
  "front_recs w = js_recs (fr_jobs w)"

lemma front_write:
  assumes "\<And>j j' e. op j = (j', e) \<Longrightarrow> (js_recs j', e) = sp (js_recs j)"
  shows "write_refines sp front_recs (ff_proc (\<lambda>w. case op (fr_jobs w) of (j, e) \<Rightarrow> (w\<lparr>fr_jobs := j\<rparr>, e)))"
  unfolding write_refines_def
proof (intro allI impI)
  fix w w' r assume "ff_proc (\<lambda>w. case op (fr_jobs w) of (j, e) \<Rightarrow> (w\<lparr>fr_jobs := j\<rparr>, e)) w = (w', r)"
  then show "(front_recs w', r) = sp (front_recs w) \<or> front_recs w' = front_recs w \<and> (\<exists>e. r = Some e \<and> \<not> status_error e)"
  proof (cases rule: ff_proc_cases)
    case (acts fs)
    then show ?thesis using assms[of "fr_jobs w"] by (auto simp: front_recs_def split: prod.splits)
  qed (simp add: front_recs_def)
qed

lemma front_enqueue: "enqueue_refines k front_recs (sw_enqueue front_status k)"
  unfolding enqueue_refines_def
proof (intro allI impI)
  fix w w' r assume "sw_enqueue front_status k w = (w', r)"
  then have "ff_call (\<lambda>w. case js_Enqueue k (fr_jobs w) of (j, r) \<Rightarrow> (w\<lparr>fr_jobs := j\<rparr>, r)) w = (w', r)"
    by (simp add: front_status_def)
  then show "(front_recs w', r) = spec_enqueue k (front_recs w) \<or> front_recs w' = front_recs w \<and> (\<exists>e. r = Inl e \<and> \<not> status_error e)"
  proof (cases rule: ff_call_cases)
    case (acts fs)
    then show ?thesis using js_recs_Enqueue[of k "fr_jobs w"] by (auto simp: front_recs_def split: prod.splits)
  qed (simp add: front_recs_def)
qed

lemma front_start_ok: "start_ok fr_execs front_start"
  unfolding start_ok_def
proof (intro allI impI)
  fix arn name inp w w' r assume a: "front_start arn name inp w = (w', r)"
  show "let new = \<lparr>ex_arn = arn, ex_name = name, ex_input = inp\<rparr>;
             taken = (\<exists>x \<in> set (fr_execs w). ex_arn x = arn \<and> ex_name x = name)
         in if taken then fr_execs w' = fr_execs w \<and> r \<noteq> None
            else (fr_execs w' = fr_execs w @ [new] \<and> \<not> err_is r ErrExecutionAlreadyExists) \<or>
                 (fr_execs w' = fr_execs w \<and> r \<noteq> None \<and> \<not> err_is r ErrExecutionAlreadyExists)"
    using a[unfolded front_start_def]
    by (cases rule: ff_proc_cases) (auto simp: Let_def list_ex_iff split: if_splits)
qed

interpretation fr: dispatcher front_status front_recs front_start fr_execs
proof unfold_locales
  show "enqueue_refines k front_recs (sw_enqueue front_status k)" for k by (rule front_enqueue)
  show "write_refines (spec_transition k a StProcessing '''' '''') front_recs (sw_mark_processing front_status k a)" for k a
    unfolding front_status_def js_MarkProcessing_def by (simp, rule front_write) (rule js_recs_transition)
  show "write_refines (spec_transition k a StProcessing ph '''') front_recs (sw_set_phase front_status k a ph)" for k a ph
    unfolding front_status_def js_SetPhase_def by (simp, rule front_write) (rule js_recs_transition)
  show "write_refines (spec_transition k a StSucceeded '''' '''') front_recs (sw_mark_succeeded front_status k a)" for k a
    unfolding front_status_def js_MarkSucceeded_def by (simp, rule front_write) (rule js_recs_transition)
  show "write_refines (spec_transition k a StFailed '''' rs) front_recs (sw_mark_failed front_status k a rs)" for k a rs
    unfolding front_status_def js_MarkFailed_def by (simp, rule front_write) (rule js_recs_transition)
  show "start_ok fr_execs front_start" by (rule front_start_ok)
  show "front_recs w' = front_recs w" if "front_start arn name inp w = (w', r)" for arn name inp w w' r
    using that[unfolded front_start_def] by (cases rule: ff_proc_cases) (auto simp: front_recs_def split: if_splits)
  show "fr_execs w' = fr_execs w" if "sw_enqueue front_status k w = (w', q)" for k w w' q
    using that[unfolded front_status_def, simplified] by (cases rule: ff_call_cases) (auto split: prod.splits)
  show "fr_execs w' = fr_execs w" if "sw_mark_failed front_status k a rs w = (w', r)" for k a rs w w' r
    using that[unfolded front_status_def, simplified] by (cases rule: ff_proc_cases) (auto split: prod.splits)
qed

subsection \<open>What the status writes and the publisher leave alone\<close>

definition rest :: "front \<Rightarrow> kb_repo \<times> doc_repo \<times> (string, string) gomap \<times> region_repo \<times> canon_repo \<times> uuid \<times> timestamp" where
  "rest w = (fr_kbs w, fr_docs w, fr_objects w, fr_regions w, fr_canon w, fr_next w, fr_clock w)"

lemma rest_upd [simp]:
  "rest (w\<lparr>fr_faults := fs\<rparr>) = rest w" "rest (w\<lparr>fr_jobs := j\<rparr>) = rest w" "rest (w\<lparr>fr_execs := es\<rparr>) = rest w"
  by (simp_all add: rest_def)

lemma front_recs_upd [simp]:
  "front_recs (w\<lparr>fr_faults := fs\<rparr>) = front_recs w" "front_recs (w\<lparr>fr_docs := d\<rparr>) = front_recs w"
  "front_recs (w\<lparr>fr_objects := b\<rparr>) = front_recs w" "front_recs (w\<lparr>fr_jobs := j\<rparr>) = js_recs j"
  by (simp_all add: front_recs_def)

lemma enqueue_rest: "sw_enqueue front_status k w = (w', r) \<Longrightarrow> rest w' = rest w"
  unfolding front_status_def by simp (erule ff_call_cases, auto split: prod.splits)

lemma start_rest: "front_start arn name inp w = (w', r) \<Longrightarrow> rest w' = rest w"
  unfolding front_start_def by (erule ff_proc_cases) (auto split: if_splits)

lemma front_failed:
  assumes "sw_mark_failed front_status k a rs w = (w', r)"
  shows "rest w' = rest w" "fr_execs w' = fr_execs w"
    "(front_recs w', r) = spec_transition k a StFailed '''' rs (front_recs w) \<or> (front_recs w' = front_recs w \<and> r = Some front_fault)"
  using assms[unfolded front_status_def js_MarkFailed_def, simplified]
  by (cases rule: ff_proc_cases; force simp: front_recs_def dest: js_recs_transition split: prod.splits)+

lemma front_succeeded:
  assumes "sw_mark_succeeded front_status k a w = (w', r)"
  shows "rest w' = rest w" "fr_execs w' = fr_execs w"
    "(front_recs w', r) = spec_transition k a StSucceeded '''' '''' (front_recs w) \<or> (front_recs w' = front_recs w \<and> r = Some front_fault)"
  using assms[unfolded front_status_def js_MarkSucceeded_def, simplified]
  by (cases rule: ff_proc_cases; force simp: front_recs_def dest: js_recs_transition split: prod.splits)+

lemma sf_dispatch_rest: "sf_Dispatch front_start us cfg run w = (w', r) \<Longrightarrow> rest w' = rest w"
  by (auto simp: sf_Dispatch_def dest: start_rest split: sum.splits prod.splits if_splits)

lemma publish_rest: "publish front_status (sf_Dispatch front_start us cfg) ev w = (w', r) \<Longrightarrow> rest w' = rest w"
  by (auto simp: publish_def try_call_def try_proc_def Let_def dest!: enqueue_rest sf_dispatch_rest front_failed(1)
      split: prod.splits sum.splits option.splits if_splits)


subsection \<open>Property\<close>

lemma visible_js_Get: "visible (js_recs j) k = Some c \<longleftrightarrow> js_Get j k = Inr c"
  by (auto simp: visible_def js_recs_def js_Get_def split: option.splits if_splits)



end
