(* ===== verification/MalwareScan.thy ===== *)
theory MalwareScan
  imports Front
begin

text \<open>
  \<^verbatim>\<open>internal/ingest\<close> and \<^verbatim>\<open>internal/malwarescan\<close>: an upload is stored at once and
  processed only when its scan reports it clean; an infected, unscannable or timed-out one is
  deleted. The JSON of the Lambda's events is kept decoded. The properties: over any run of scan
  events and outages a document is never both processed and deleted, and each verdict, once its
  handler returns, has had its full effect.
\<close>

subsection \<open>Starting a document\<close>

definition regionClassificationTypes :: "string list" where
  "regionClassificationTypes = [''application/pdf'', ''image/png'', ''image/jpeg'']"

definition NeedsRegionClassification :: "string \<Rightarrow> bool" where
  "NeedsRegionClassification contentType \<longleftrightarrow> List.member regionClassificationTypes contentType"

definition start_event :: "document \<Rightarrow> event" where
  "start_event doc =
     (if NeedsRegionClassification (d_content_type doc) then RegionClassificationRequested (d_id doc) (d_user doc)
      else DocumentUploaded (d_id doc) (d_user doc))"

definition ingest_Start :: "'s front_ops \<Rightarrow> document \<Rightarrow> 's proc" where
  "ingest_Start F doc = fo_publish F (start_event doc)"

subsection \<open>Scan results\<close>

definition StatusNoThreatsFound :: string where "StatusNoThreatsFound = ''NO_THREATS_FOUND''"
definition StatusThreatsFound :: string where "StatusThreatsFound = ''THREATS_FOUND''"

definition scanAttempt :: int where
  "scanAttempt = 1"

definition reasonTimeout :: string where
  "reasonTimeout = ''The malware scan didn't complete in time, so the file was deleted. Upload it again.''"

definition reasonThreats :: "string list \<Rightarrow> string" where
  "reasonThreats threats =
     (let found = (if threats \<noteq> [] then join_with '', '' threats else ''malware'')
      in ''Malware detected ('' @ found @ ''), so the file was deleted. Upload a clean copy.'')"

definition reasonUnscannable :: "string \<Rightarrow> string" where
  "reasonUnscannable status = ''This file couldn't be scanned for malware ('' @ status @ ''), so it was deleted.''"

record scan_result =
  sr_key :: string
  sr_status :: string
  sr_threats :: "string list"

definition scanKeyOf :: "uuid \<Rightarrow> uuid \<Rightarrow> jkey" where
  "scanKeyOf userID documentID = \<lparr>k_user = userID, k_doc = documentID, k_type = MalwareScan\<rparr>"

definition scanKey :: "document \<Rightarrow> jkey" where
  "scanKey doc = scanKeyOf (d_user doc) (d_id doc)"

definition userFromKey :: "(string \<Rightarrow> uuid option) \<Rightarrow> string \<Rightarrow> uuid option" where
  "userFromKey parse key =
     (let parts = split_n 3 CHR ''/'' key in
      if length parts < 3 \<or> parts ! 0 \<noteq> ''documents'' then None else parse (parts ! 1))"

definition ms_clean :: "'s front_ops \<Rightarrow> document \<Rightarrow> 's proc" where
  "ms_clean F doc s =
     (case sw_mark_succeeded (fo_status F) (scanKey doc) scanAttempt s of
        (s, err) \<Rightarrow>
          if err_is err ErrNotActive \<or> err_is err ErrJobNotFound then (s, None)
          else if err \<noteq> None then (s, Some (Wrapf ''malware scan: mark clean'' (the err)))
          else try_proc (ingest_Start F doc)
                 (\<lambda>e s. (s, Some (Wrapf ''malware scan: start processing'' e))) (\<lambda>s. (s, None)) s)"

definition ms_remove :: "'s front_ops \<Rightarrow> document \<Rightarrow> 's proc" where
  "ms_remove F doc =
     try_proc (fo_del F (d_s3key doc))
       (\<lambda>e s. (s, Some (Wrapf ''malware scan: delete rejected file'' e)))
       (try_proc (fo_doc_status F (d_user doc) (d_id doc) DocFailed)
          (\<lambda>e s. (s, Some (Wrapf ''malware scan: fail document'' e)))
          (\<lambda>s. (s, None)))"

definition ms_reject :: "'s front_ops \<Rightarrow> document \<Rightarrow> string \<Rightarrow> bool \<Rightarrow> 's proc" where
  "ms_reject F doc reason fromScan s =
     (case sw_mark_failed (fo_status F) (scanKey doc) scanAttempt reason s of
        (s, err) \<Rightarrow>
          if err_is err ErrNotActive then (s, None)
          else if err_is err ErrJobNotFound then (if \<not> fromScan then (s, None) else ms_remove F doc s)
          else if err \<noteq> None then (s, Some (Wrapf ''malware scan: record rejection'' (the err)))
          else ms_remove F doc s)"

definition HandleResult :: "'s front_ops \<Rightarrow> (string \<Rightarrow> uuid option) \<Rightarrow> scan_result \<Rightarrow> 's proc" where
  "HandleResult F parse r s =
     (case userFromKey parse (sr_key r) of
        None \<Rightarrow> (s, None)
      | Some userID \<Rightarrow>
          (case fo_doc_by_key F userID (sr_key r) s of
             (s, Inl e) \<Rightarrow> if errors_is e ErrDocNotFound then (s, None)
                           else (s, Some (Wrapf ''malware scan: find document'' e))
           | (s, Inr doc) \<Rightarrow>
               if sr_status r = StatusNoThreatsFound then ms_clean F doc s
               else if sr_status r = StatusThreatsFound then ms_reject F doc (reasonThreats (sr_threats r)) True s
               else ms_reject F doc (reasonUnscannable (sr_status r)) True s))"

definition HandleTimeout :: "'s front_ops \<Rightarrow> uuid \<Rightarrow> uuid \<Rightarrow> 's proc" where
  "HandleTimeout F documentID userID s =
     (case fo_doc_get F userID documentID s of
        (s, Inl e) \<Rightarrow> if errors_is e ErrDocNotFound then (s, None)
                      else (s, Some (Wrapf ''malware scan timeout: find document'' e))
      | (s, Inr doc) \<Rightarrow> ms_reject F doc reasonTimeout False s)"

text \<open>One raw invocation, decoded: an EventBridge event, a timeout message, or neither.\<close>

datatype raw_event =
    RawNotJSON
  | RawScan string string string "string list"
  | RawBadScan
  | RawTimeout uuid uuid
  | RawBadTimeout
  | RawOther

definition scanResultDetailType :: string where
  "scanResultDetailType = ''GuardDuty Malware Protection Object Scan Result''"

fun HandleEvent :: "'s front_ops \<Rightarrow> (string \<Rightarrow> uuid option) \<Rightarrow> raw_event \<Rightarrow> 's proc" where
  "HandleEvent F parse RawNotJSON s = (s, Some (Plain ''malware scan: decode event''))"
| "HandleEvent F parse RawBadScan s = (s, Some (Plain ''malware scan: decode scan result''))"
| "HandleEvent F parse (RawScan detail key status threats) s =
     (if detail \<noteq> scanResultDetailType then (s, Some (Plain (''malware scan: unexpected event '' @ detail)))
      else HandleResult F parse \<lparr>sr_key = key, sr_status = status, sr_threats = threats\<rparr> s)"
| "HandleEvent F parse (RawTimeout d u) s = HandleTimeout F d u s"
| "HandleEvent F parse RawBadTimeout s = (s, Some (Plain ''malware scan: decode timeout''))"
| "HandleEvent F parse RawOther s = (s, Some (Plain ''malware scan: unrecognized event''))"

subsection \<open>The upload's side\<close>

definition reasonBeginFailed :: string where
  "reasonBeginFailed = ''The malware scan couldn't start. Upload the file again.''"

definition TimeoutExecutionName :: "(uuid \<Rightarrow> string) \<Rightarrow> uuid \<Rightarrow> string" where
  "TimeoutExecutionName us documentID = ''malware-scan-timeout-'' @ us documentID"

definition scans_Begin :: "'s front_ops \<Rightarrow> (uuid \<Rightarrow> string) \<Rightarrow> string \<Rightarrow> document \<Rightarrow> 's proc" where
  "scans_Begin F us arn doc =
     try_call (sw_enqueue (fo_status F) (scanKey doc))
       (\<lambda>e s. (s, Some (Wrapf ''malware scan: record pending scan'' e)))
       (\<lambda>started s.
          case fo_start F arn (TimeoutExecutionName us (d_id doc)) (TimeoutInput (d_id doc) (d_user doc)) s of
            (s, err) \<Rightarrow>
              if err \<noteq> None \<and> \<not> err_is err ErrExecutionAlreadyExists then
                try_proc (sw_mark_failed (fo_status F) (scanKey doc) (enq_attempt started) reasonBeginFailed)
                  (\<lambda>markErr s. (s, Some (Wrapf ''malware scan: start timeout'' (Joined [the err, markErr]))))
                  (\<lambda>s. (s, Some (Wrapf ''malware scan: start timeout'' (the err)))) s
              else (s, None))"

definition scans_Rejection :: "'s front_ops \<Rightarrow> uuid \<Rightarrow> uuid \<Rightarrow> ('s, string \<times> bool) call" where
  "scans_Rejection F userID documentID s =
     (case fo_status_get F (scanKeyOf userID documentID) s of
        (s, Inl e) \<Rightarrow> if errors_is e ErrJobNotFound then (s, Inr ('''', False))
                      else (s, Inl (Wrapf ''malware scan: read scan status'' e))
      | (s, Inr rec) \<Rightarrow> if r_status rec \<noteq> StFailed then (s, Inr ('''', False)) else (s, Inr (r_last_error rec, True)))"

subsection \<open>Runs of scan events\<close>

definition scan_step ::
  "(uuid \<Rightarrow> string) \<Rightarrow> sf_config \<Rightarrow> (string \<Rightarrow> uuid option) \<Rightarrow> front \<Rightarrow> raw_event \<times> bool list \<Rightarrow> front" where
  "scan_step us cfg parse w e = fst (HandleEvent (front_mem us cfg) parse (fst e) (w\<lparr>fr_faults := snd e\<rparr>))"

definition processing_of :: "uuid \<Rightarrow> execution list \<Rightarrow> execution list" where
  "processing_of d xs = filter (\<lambda>x. case ex_input x of RunInput run \<Rightarrow> run_doc run = d | TimeoutInput _ _ \<Rightarrow> False) xs"

text \<open>Every document under its own identifier and key.\<close>

definition docs_wf :: "doc_repo \<Rightarrow> bool" where
  "docs_wf r \<longleftrightarrow> distinct (gm_keys r) \<and> (\<forall>i x. gm_get r i = Some x \<longrightarrow> d_id x = i) \<and>
     (\<forall>i j x y. gm_get r i = Some x \<longrightarrow> gm_get r j = Some y \<longrightarrow> d_s3key x = d_s3key y \<longrightarrow> i = j)"

text \<open>The gate of one document: processing needs a clean verdict, and only a bad one deletes the file.\<close>

definition gate :: "document \<Rightarrow> front \<Rightarrow> bool" where
  "gate row w \<longleftrightarrow>
     docs_wf (fr_docs w) \<and>
     (\<exists>x. gm_get (fr_docs w) (d_id row) = Some x \<and> d_user x = d_user row \<and> d_s3key x = d_s3key row) \<and>
     (\<exists>rec. front_recs w (slot_of (scanKey row)) = Some rec \<and> k_user (r_key rec) = d_user row \<and> r_attempt rec = 1 \<and>
        (if processing_of (d_id row) (fr_execs w) = [] then True else r_status rec = StSucceeded) \<and>
        (if gm_get (fr_objects w) (d_s3key row) = None then r_status rec = StFailed else True))"

lemma gate_faults [simp]: "gate row (w\<lparr>fr_faults := fs\<rparr>) = gate row w"
  by (simp add: gate_def)

lemma gate_cong:
  "rest w' = rest w \<Longrightarrow> front_recs w' (slot_of (scanKey row)) = front_recs w (slot_of (scanKey row)) \<Longrightarrow>
     processing_of (d_id row) (fr_execs w') = processing_of (d_id row) (fr_execs w) \<Longrightarrow> gate row w' = gate row w"
  by (simp add: gate_def rest_def)

lemma docs_wf_status:
  assumes "docs_wf r"
  shows "docs_wf (fst (doc_UpdateStatus now u i st r))"
proof (cases "\<exists>x. gm_get r i = Some x \<and> d_user x = u")
  case False
  then have "fst (doc_UpdateStatus now u i st r) = r" by (auto simp: doc_UpdateStatus_def split: option.splits)
  then show ?thesis using assms by simp
next
  case True
  then obtain x where x: "gm_get r i = Some x" "d_user x = u" by blast
  let ?x = "x\<lparr>d_status := st, d_updated := now\<rparr>"
  have r': "fst (doc_UpdateStatus now u i st r) = gm_put i ?x r" using x by (simp add: doc_UpdateStatus_def)
  have get: "gm_get (gm_put i ?x r) j = Some y \<Longrightarrow> \<exists>y'. gm_get r j = Some y' \<and> d_id y' = d_id y \<and> d_s3key y' = d_s3key y" for j y
    using x(1) by (cases "j = i") (clarsimp simp: gm_get_put)+
  have "distinct (gm_keys (gm_put i ?x r))" using assms by (simp add: docs_wf_def distinct_update)
  moreover have "\<forall>j y. gm_get (gm_put i ?x r) j = Some y \<longrightarrow> d_id y = j"
    using get assms unfolding docs_wf_def by metis
  moreover have "\<forall>j k y z. gm_get (gm_put i ?x r) j = Some y \<longrightarrow> gm_get (gm_put i ?x r) k = Some z \<longrightarrow> d_s3key y = d_s3key z \<longrightarrow> j = k"
    using get assms unfolding docs_wf_def by metis
  ultimately show ?thesis unfolding r' docs_wf_def by blast
qed

text \<open>The same, checked entry by entry.\<close>

lemma docs_wf_entries:
  assumes "distinct (gm_keys r)" "list_all (\<lambda>(i, x). d_id x = i) r" "distinct (map d_s3key (gm_vals r))"
  shows "docs_wf r"
proof -
  have inj: "inj_on (d_s3key \<circ> snd) (set r)" using assms(3) by (simp add: distinct_map)
  have "i = j" if "(i, x) \<in> set r" "(j, y) \<in> set r" "d_s3key x = d_s3key y" for i j x y
    using inj_onD[OF inj, of "(i, x)" "(j, y)"] that by simp
  moreover have "d_id x = i" if "gm_get r i = Some x" for i x
    using assms(2) map_of_SomeD[OF that] by (auto simp: list_all_iff)
  ultimately show ?thesis using assms(1) map_of_SomeD[of r] unfolding docs_wf_def by blast
qed

lemma docs_wf_key:
  assumes "docs_wf r" "doc_GetByS3Key u k r = Inr doc"
  shows "gm_get r (d_id doc) = Some doc" "d_user doc = u" "d_s3key doc = k"
proof -
  have d: "doc \<in> set (gm_vals r)" "d_user doc = u" "d_s3key doc = k"
    using assms(2) by (auto simp: doc_GetByS3Key_def find_Some_iff split: option.splits)
  then show "d_user doc = u" "d_s3key doc = k" by simp_all
  from d(1) obtain i where "(i, doc) \<in> set r" by auto
  then have "gm_get r i = Some doc" using assms(1) by (simp add: docs_wf_def)
  then show "gm_get r (d_id doc) = Some doc" using assms(1) by (metis docs_wf_def)
qed

lemma slot_scan [simp]: "slot_of (scanKey doc) = (d_id doc, MalwareScan)" "k_user (scanKey doc) = d_user doc"
  by (simp_all add: slot_of_def scanKey_def scanKeyOf_def)

lemma start_event_key [simp]: "event_doc (start_event doc) = d_id doc" "event_user (start_event doc) = d_user doc"
  "event_type (start_event doc) \<noteq> MalwareScan"
  by (simp_all add: start_event_def)

lemma slot_event: "slot_of (event_key (start_event doc)) \<noteq> (i, MalwareScan)"
  by (simp add: event_key_def slot_of_def)

text \<open>Starting a document's processing keeps the gates of all others, and its own if it is clean.\<close>

lemma gate_start:
  assumes "ingest_Start (front_mem us cfg) doc w = (w', r)" "gate row w"
    and "d_id doc = d_id row \<Longrightarrow> \<exists>rec. front_recs w (slot_of (scanKey row)) = Some rec \<and> r_status rec = StSucceeded"
  shows "gate row w'"
proof -
  have p: "publish front_status (sf_Dispatch front_start us cfg) (start_event doc) w = (w', r)"
    using assms(1) by (simp add: ingest_Start_def front_mem_def)
  have recs: "front_recs w' (d_id row, MalwareScan) = front_recs w (d_id row, MalwareScan)"
    using fr.publish_frame(1)[OF p slot_event[symmetric]] .
  note rst = publish_rest[OF p]
  show ?thesis
  proof (cases "d_id doc = d_id row")
    case True
    then show ?thesis using assms(2,3) recs rst by (auto simp: gate_def rest_def)
  next
    case False
    have "processing_of (d_id row) (fr_execs w') = processing_of (d_id row) (fr_execs w)"
      using fr.publish_frame(2)[OF p] False by (auto simp: processing_of_def event_run_def)
    then show ?thesis using gate_cong[OF rst _ ] recs assms(2) by simp
  qed
qed

text \<open>Removing a file keeps the gates of all others, and its own if it was rejected.\<close>

lemma gate_remove:
  assumes "ms_remove (front_mem us cfg) doc w = (w', r)" "gate row w" "gm_get (fr_docs w) (d_id doc) = Some doc"
    and "d_id doc = d_id row \<Longrightarrow> \<exists>rec. front_recs w (slot_of (scanKey row)) = Some rec \<and> r_status rec = StFailed"
  shows "gate row w'"
proof -
  let ?F = "front_mem us cfg"
  obtain w1 r1 where w1: "fo_del ?F (d_s3key doc) w = (w1, r1)" by force
  have g1: "gate row w1 \<and> gm_get (fr_docs w1) (d_id doc) = Some doc"
    using w1[unfolded front_mem_def, simplified]
  proof (cases rule: ff_proc_cases)
    case (acts fs)
    then have eq: "w1 = w\<lparr>fr_faults := fs, fr_objects := gm_del (d_s3key doc) (fr_objects w)\<rparr>" by auto
    show ?thesis
    proof (cases "d_id doc = d_id row")
      case True
      then show ?thesis using assms(2-4) by (auto simp: eq gate_def)
    next
      case False
      obtain x where "gm_get (fr_docs w) (d_id row) = Some x" "d_s3key x = d_s3key row" "docs_wf (fr_docs w)"
        using assms(2) by (auto simp: gate_def)
      then have "d_s3key doc \<noteq> d_s3key row" using assms(3) False by (metis docs_wf_def)
      then show ?thesis using assms(2,3) by (auto simp: eq gate_def)
    qed
  next
    case (fault fs)
    then show ?thesis using assms(2,3) by simp
  qed
  show ?thesis
  proof (cases r1)
    case (Some e)
    then show ?thesis using assms(1) w1 g1 by (simp add: ms_remove_def)
  next
    case None
    obtain w2 r2 where w2: "fo_doc_status ?F (d_user doc) (d_id doc) DocFailed w1 = (w2, r2)" by force
    then have "w' = w2" using assms(1) w1 None by (cases r2) (simp_all add: ms_remove_def)
    moreover have "gate row w2"
      using w2[unfolded front_mem_def, simplified]
    proof (cases rule: ff_proc_cases)
      case (acts fs)
      then have eq: "w2 = w1\<lparr>fr_faults := fs, fr_docs := fst (doc_UpdateStatus (fr_clock w1) (d_user doc) (d_id doc) DocFailed (fr_docs w1))\<rparr>"
        by (auto simp: with_docs_def split: prod.splits)
      have "docs_wf (fr_docs w1)" using g1 by (simp add: gate_def)
      note wf = docs_wf_status[OF this, of "fr_clock w1" "d_user doc" "d_id doc" DocFailed]
      have "\<exists>x. gm_get (fst (doc_UpdateStatus (fr_clock w1) (d_user doc) (d_id doc) DocFailed (fr_docs w1))) (d_id row) = Some x \<and>
          d_user x = d_user row \<and> d_s3key x = d_s3key row"
        using g1 by (auto simp: gate_def doc_UpdateStatus_def)
      then show ?thesis using g1 wf by (simp add: eq gate_def)
    next
      case (fault fs)
      then show ?thesis using g1 by simp
    qed
    ultimately show ?thesis by simp
  qed
qed


lemma gate_after_mark:
  assumes "gate row w" "rest w' = rest w" "fr_execs w' = fr_execs w"
    and "(front_recs w', r) = spec_transition (scanKey doc) 1 to '''' rs (front_recs w) \<or> front_recs w' = front_recs w"
    and "to = StSucceeded \<or> to = StFailed"
  shows "gate row w'"
proof -
  obtain rec where rec: "front_recs w (slot_of (scanKey row)) = Some rec" "k_user (r_key rec) = d_user row" "r_attempt rec = 1"
    "if processing_of (d_id row) (fr_execs w) = [] then True else r_status rec = StSucceeded"
    "if gm_get (fr_objects w) (d_s3key row) = None then r_status rec = StFailed else True"
    using assms(1) by (auto simp: gate_def)
  show ?thesis
  proof (cases "front_recs w' (slot_of (scanKey row)) = front_recs w (slot_of (scanKey row))")
    case True
    then show ?thesis using gate_cong[OF assms(2) True] assms(1,3) by simp
  next
    case False
    then have id: "d_id doc = d_id row" and tr: "(front_recs w', r) = spec_transition (scanKey doc) 1 to '''' rs (front_recs w)"
      using assms(4) by (auto simp: spec_transition_def split: option.splits if_splits)
    have "front_recs w' (slot_of (scanKey row)) = Some (fst (Transition rec 1 to '''' rs))"
      using tr rec(1) False id by (auto simp: spec_transition_def visible_def split: if_splits)
    moreover have "r_status (fst (Transition rec 1 to '''' rs)) = r_status rec \<or> Active (r_status rec)"
      using Transition_finished by metis
    ultimately show ?thesis using assms(1-3) rec
      by (auto simp: gate_def rest_def split: if_splits)
  qed
qed

lemma mark_status:
  assumes "(recs', r) = spec_transition (scanKey doc) 1 to '''' rs recs" "r = None" "recs (slot_of (scanKey doc)) = Some rec"
  shows "\<exists>rec'. recs' (slot_of (scanKey doc)) = Some rec' \<and> r_status rec' = to"
  using assms by (auto simp: spec_transition_def visible_def Transition_def Let_def split: if_splits jstatus.splits)

lemma gate_own_rec: "gate row w \<Longrightarrow> d_id doc = d_id row \<Longrightarrow> gm_get (fr_docs w) (d_id doc) = Some doc \<Longrightarrow>
    \<exists>rec. visible (front_recs w) (scanKey doc) = Some rec"
  by (auto simp: gate_def visible_def)

lemma gate_clean:
  assumes "ms_clean (front_mem us cfg) doc w = (w', r)" "gate row w" "gm_get (fr_docs w) (d_id doc) = Some doc"
  shows "gate row w'"
proof -
  obtain w1 r1 where w1: "sw_mark_succeeded front_status (scanKey doc) 1 w = (w1, r1)" by force
  note m = front_succeeded[OF w1]
  have g1: "gate row w1" by (rule gate_after_mark[OF assms(2) m(1,2)]) (use m(3) in auto)
  show ?thesis
  proof (cases r1)
    case (Some e)
    then have "w' = w1" using assms(1) w1 by (auto simp: ms_clean_def front_mem_def scanAttempt_def split: if_splits)
    then show ?thesis using g1 by simp
  next
    case None
    then obtain r2 where st: "ingest_Start (front_mem us cfg) doc w1 = (w', r2)"
      using assms(1) w1 by (auto simp: ms_clean_def scanAttempt_def try_proc_def front_mem_def split: prod.splits option.splits)
    show ?thesis
    proof (rule gate_start[OF st g1])
      assume id: "d_id doc = d_id row"
      obtain rec where "front_recs w (slot_of (scanKey row)) = Some rec" using assms(2) by (auto simp: gate_def)
      then show "\<exists>rec. front_recs w1 (slot_of (scanKey row)) = Some rec \<and> r_status rec = StSucceeded"
        using mark_status[of "front_recs w1" r1 doc StSucceeded "''''" "front_recs w" rec] m(3) None id by auto
    qed
  qed
qed

lemma gate_reject:
  assumes "ms_reject (front_mem us cfg) doc reason fromScan w = (w', r)" "gate row w" "gm_get (fr_docs w) (d_id doc) = Some doc"
  shows "gate row w'"
proof -
  obtain w1 r1 where w1: "sw_mark_failed front_status (scanKey doc) 1 reason w = (w1, r1)" by force
  note m = front_failed[OF w1]
  have g1: "gate row w1" by (rule gate_after_mark[OF assms(2) m(1,2)]) (use m(3) in auto)
  have d1: "gm_get (fr_docs w1) (d_id doc) = Some doc" using m(1) assms(3) by (simp add: rest_def)
  have removed: "gate row w'" if "ms_remove (front_mem us cfg) doc w1 = (w', r')" "r1 = None \<or> err_is r1 ErrJobNotFound" for r'
  proof (rule gate_remove[OF that(1) g1 d1])
    assume id: "d_id doc = d_id row"
    obtain rec where rec: "front_recs w (slot_of (scanKey row)) = Some rec" using assms(2) by (auto simp: gate_def)
    obtain rec' where vis: "visible (front_recs w) (scanKey doc) = Some rec'"
      using gate_own_rec[OF assms(2) id assms(3)] by blast
    have "r1 = None"
    proof (rule ccontr)
      assume "r1 \<noteq> None"
      then have "err_is r1 ErrJobNotFound" using that(2) by auto
      then show False using m(3) vis
        by (auto simp: spec_transition_def Transition_def Let_def split: if_splits)
    qed
    then show "\<exists>rec. front_recs w1 (slot_of (scanKey row)) = Some rec \<and> r_status rec = StFailed"
      using mark_status[of "front_recs w1" r1 doc StFailed reason "front_recs w" rec] m(3) rec id by auto
  qed
  show ?thesis
  proof (cases "w' = w1")
    case True
    then show ?thesis using g1 by simp
  next
    case False
    then show ?thesis using assms(1) w1 removed
      by (auto simp: ms_reject_def scanAttempt_def front_mem_def split: if_splits)
  qed
qed

lemma gate_event:
  assumes "gate row w"
  shows "gate row (fst (HandleEvent (front_mem us cfg) parse ev w))"
proof -
  let ?F = "front_mem us cfg"
  have rej: "gate row (fst (ms_reject ?F doc reason b w1))"
    if "gate row w1" "gm_get (fr_docs w1) (d_id doc) = Some doc" for doc reason b w1
    using gate_reject[OF _ that, of us cfg reason b] by (metis prod.collapse)
  have cln: "gate row (fst (ms_clean ?F doc w1))"
    if "gate row w1" "gm_get (fr_docs w1) (d_id doc) = Some doc" for doc w1
    using gate_clean[OF _ that, of us cfg] by (metis prod.collapse)
  have wf: "docs_wf (fr_docs w)" using assms by (simp add: gate_def)
  have res: "gate row (fst (HandleResult ?F parse r w))" for r
  proof (cases "userFromKey parse (sr_key r)")
    case None
    then show ?thesis using assms by (simp add: HandleResult_def)
  next
    case (Some u)
    obtain w1 q where q: "fo_doc_by_key ?F u (sr_key r) w = (w1, q)" by force
    have "gate row w1 \<and> (\<forall>doc. q = Inr doc \<longrightarrow> gm_get (fr_docs w1) (d_id doc) = Some doc)"
      using q[unfolded front_mem_def, simplified] assms docs_wf_key(1)[OF wf]
      by (cases rule: ff_call_cases) auto
    then show ?thesis using Some q rej cln assms by (cases q) (auto simp: HandleResult_def)
  qed
  have tim: "gate row (fst (HandleTimeout ?F d u w))" for d u
  proof -
    obtain w1 q where q: "fo_doc_get ?F u d w = (w1, q)" by force
    have "gate row w1 \<and> (\<forall>doc. q = Inr doc \<longrightarrow> gm_get (fr_docs w1) (d_id doc) = Some doc)"
      using q[unfolded front_mem_def, simplified] assms
    proof (cases rule: ff_call_cases)
      case (acts fs)
      have "gm_get (fr_docs w) (d_id doc) = Some doc" if "doc_Get u d (fr_docs w) = Inr doc" for doc
      proof -
        have "gm_get (fr_docs w) d = Some doc" using that by (auto simp: doc_Get_def split: option.splits if_splits)
        moreover from this have "d_id doc = d" using wf by (metis docs_wf_def)
        ultimately show ?thesis by simp
      qed
      then show ?thesis using acts assms by auto
    qed auto
    then show ?thesis using q rej by (cases q) (auto simp: HandleTimeout_def)
  qed
  show ?thesis using assms res tim by (cases ev) auto
qed

lemma gate_run: "gate row w \<Longrightarrow> gate row (foldl (scan_step us cfg parse) w evs)"
  by (induction evs arbitrary: w) (auto simp: scan_step_def gate_event)

subsection \<open>Properties\<close>



definition demo_sf :: sf_config where
  "demo_sf = \<lparr>sf_indexing = ''arn:di'', sf_entities = ''arn:ee'', sf_regions = ''arn:rc'', sf_edges = ''arn:ed'', sf_canon = ''arn:ca''\<rparr>"

definition demo_upload :: document where
  "demo_upload = \<lparr>d_id = 7, d_kb = 3, d_user = 1, d_filename = ''a.pdf'', d_s3key = ''documents/1/3/9/a.pdf'',
     d_content_type = ''application/pdf'', d_size = 4, d_status = DocPending, d_created = 0, d_updated = 0\<rparr>"

definition demo_front :: front where
  "demo_front = \<lparr>fr_kbs = [], fr_docs = [(7, demo_upload)], fr_objects = [(''documents/1/3/9/a.pdf'', ''data'')],
     fr_jobs = js_run [OpEnqueue (scanKey demo_upload)] js_new, fr_execs = [], fr_regions = [], fr_canon = canon_new,
     fr_next = 10, fr_clock = 5, fr_faults = []\<rparr>"

definition demo_pending :: jrecord where
  "demo_pending = \<lparr>r_key = scanKey demo_upload, r_status = StPending, r_phase = '''', r_attempt = 1, r_last_error = ''''\<rparr>"

definition demo_scan :: "string \<Rightarrow> raw_event" where
  "demo_scan status = RawScan scanResultDetailType ''documents/1/3/9/a.pdf'' status [''EICAR'']"

lemma demo_front_ok:
  "docs_wf (fr_docs demo_front)" "gm_get (fr_docs demo_front) (d_id demo_upload) = Some demo_upload"
  "js_Get (fr_jobs demo_front) (scanKey demo_upload) = Inr demo_pending"
proof -
  show "docs_wf (fr_docs demo_front)" by (rule docs_wf_entries) (code_simp, code_simp, code_simp)
  show "gm_get (fr_docs demo_front) (d_id demo_upload) = Some demo_upload" by code_simp
  show "js_Get (fr_jobs demo_front) (scanKey demo_upload) = Inr demo_pending" by code_simp
qed


lemma result_found:
  assumes "HandleResult (front_mem us cfg) parse r w = (w', None)"
    and "userFromKey parse (sr_key r) = Some u" and "doc_GetByS3Key u (sr_key r) (fr_docs w) = Inr doc"
  obtains fs where "(if sr_status r = StatusNoThreatsFound then ms_clean (front_mem us cfg) doc
      else ms_reject (front_mem us cfg) doc
        (if sr_status r = StatusThreatsFound then reasonThreats (sr_threats r) else reasonUnscannable (sr_status r)) True)
      (w\<lparr>fr_faults := fs\<rparr>) = (w', None)"
proof -
  obtain w1 q where q: "fo_doc_by_key (front_mem us cfg) u (sr_key r) w = (w1, q)" by force
  show thesis
    using q[unfolded front_mem_def, simplified]
  proof (cases rule: ff_call_cases)
    case (acts fs)
    then have "w1 = w\<lparr>fr_faults := fs\<rparr>" "q = Inr doc" using assms(3) by auto
    then show ?thesis using that[of fs] assms(1,2) q by (auto simp: HandleResult_def split: if_splits)
  next
    case (fault fs)
    then show ?thesis using assms(1,2) q by (simp add: HandleResult_def)
  qed
qed

text \<open>
  C21. A clean verdict takes effect even when an earlier delivery of it was cut short. If the scan
  is still open, or already succeeded, at its only attempt 1 and the handler returns, the scan has
  succeeded; where the processing job was not recorded as active, its next attempt is recorded as
  active and has an execution; where it was, the handler changes neither the record nor the
  executions. The second case is the gap the publisher's comment admits: a delivery cut short
  between the record and the start leaves an active record that no redelivery will start.
\<close>

theorem clean_verdict_starts:
  assumes "userFromKey parse key = Some u" and "doc_GetByS3Key u key (fr_docs w) = Inr doc"
    and "js_Get (fr_jobs w) (scanKey doc) = Inr rec" and "r_attempt rec = 1"
    and "Active (r_status rec) \<or> r_status rec = StSucceeded"
    and "HandleResult (front_mem us cfg) parse \<lparr>sr_key = key, sr_status = StatusNoThreatsFound, sr_threats = ts\<rparr> w = (w', None)"
  shows "(\<exists>rec'. js_Get (fr_jobs w') (scanKey doc) = Inr rec' \<and> r_status rec' = StSucceeded) \<and>
     (let old = js_Get (fr_jobs w) (event_key (start_event doc));
          n = (case old of Inl e \<Rightarrow> 1 | Inr c0 \<Rightarrow> r_attempt c0 + 1)
      in if (case old of Inl e \<Rightarrow> False | Inr c0 \<Rightarrow> Active (r_status c0))
         then js_Get (fr_jobs w') (event_key (start_event doc)) = old \<and> fr_execs w' = fr_execs w
         else (\<exists>c. js_Get (fr_jobs w') (event_key (start_event doc)) = Inr c \<and> Active (r_status c) \<and> r_attempt c = n) \<and>
              list_ex (\<lambda>x. ex_name x = ExecutionName us (event_run (start_event doc) n)) (fr_execs w'))"
proof -
  let ?k = "event_key (start_event doc)"
  obtain fs where cl: "ms_clean (front_mem us cfg) doc (w\<lparr>fr_faults := fs\<rparr>) = (w', None)"
    using result_found[OF assms(6), of u doc] assms(1,2) by auto
  obtain w1 r1 where w1: "sw_mark_succeeded front_status (scanKey doc) 1 (w\<lparr>fr_faults := fs\<rparr>) = (w1, r1)" by force
  note m = front_succeeded[OF w1]
  have vis: "visible (front_recs w) (scanKey doc) = Some rec" using assms(3) by (simp add: visible_js_Get front_recs_def)
  then have sp: "spec_transition (scanKey doc) 1 StSucceeded '''' '''' (front_recs w) =
      ((front_recs w)(slot_of (scanKey doc) \<mapsto> fst (Transition rec 1 StSucceeded '''' '''')), None)"
    using assms(4,5) by (auto simp: spec_transition_def Transition_def Let_def)
  have r1: "r1 = None"
  proof (rule ccontr)
    assume "r1 \<noteq> None"
    then have "r1 = Some front_fault" using m(3) sp by auto
    then show False using cl w1 by (simp add: ms_clean_def front_mem_def scanAttempt_def)
  qed
  with m(3) sp have recs1: "front_recs w1 = (front_recs w)(slot_of (scanKey doc) \<mapsto> fst (Transition rec 1 StSucceeded '''' ''''))"
    by auto
  have st1: "r_status (fst (Transition rec 1 StSucceeded '''' '''')) = StSucceeded"
    using assms(4,5) by (auto simp: Transition_def Let_def)
  have pub: "publish front_status (sf_Dispatch front_start us cfg) (start_event doc) w1 = (w', None)"
    using cl w1 r1 by (auto simp: ms_clean_def scanAttempt_def try_proc_def front_mem_def ingest_Start_def split: prod.splits option.splits)
  note p = fr.publish_returns[OF pub]
  have same: "visible (front_recs w1) ?k = visible (front_recs w) ?k"
    using slot_event[of doc "d_id doc"] by (simp add: visible_def recs1 split: option.splits)
  have old: "visible (front_recs w) ?k = (case js_Get (fr_jobs w) ?k of Inl e \<Rightarrow> None | Inr c \<Rightarrow> Some c)"
    by (simp add: js_Get_visible front_recs_def split: option.split)
  have "front_recs w' (d_id doc, MalwareScan) = front_recs w1 (d_id doc, MalwareScan)"
    using fr.publish_frame(1)[OF pub slot_event[symmetric]] .
  then have "visible (front_recs w') (scanKey doc) = Some (fst (Transition rec 1 StSucceeded '''' ''''))"
    using vis by (simp add: visible_def recs1 split: option.splits if_splits)
  then have scan: "\<exists>rec'. js_Get (fr_jobs w') (scanKey doc) = Inr rec' \<and> r_status rec' = StSucceeded"
    using st1 by (auto simp: front_recs_def visible_js_Get)
  have new: "js_Get (fr_jobs w') ?k = Inr (fst (Enqueue (visible (front_recs w) ?k) ?k))"
    using p(1) same by (simp add: front_recs_def visible_js_Get)
  have ex1: "fr_execs w1 = fr_execs w" using m(2) by simp
  note run = p(2)[unfolded same ex1 fr.started_def]
  show ?thesis
  proof (cases "js_Get (fr_jobs w) ?k")
    case (Inl e)
    with old new run show ?thesis using scan by (auto simp: Enqueue_def list_ex_iff)
  next
    case (Inr c0)
    show ?thesis
    proof (cases "Active (r_status c0)")
      case True
      with Inr old new run show ?thesis using scan by (simp add: Enqueue_def)
    next
      case False
      with Inr old new run show ?thesis using scan by (auto simp: Enqueue_def Let_def list_ex_iff)
    qed
  qed
qed

text \<open>A redelivery: the scan was marked clean, but the first publish met an outage.\<close>

theorem clean_verdict_starts_witness:
  "let w = scan_step nat_str demo_sf digits_parse demo_front (demo_scan StatusNoThreatsFound, [False, False, True]);
       w' = fst (HandleResult (front_mem nat_str demo_sf) digits_parse
              \<lparr>sr_key = ''documents/1/3/9/a.pdf'', sr_status = StatusNoThreatsFound, sr_threats = []\<rparr> w)
   in (\<exists>c. js_Get (fr_jobs w') (event_key (start_event demo_upload)) = Inr c \<and> Active (r_status c) \<and> r_attempt c = 1) \<and>
      list_ex (\<lambda>x. ex_name x = ExecutionName nat_str (event_run (start_event demo_upload) 1)) (fr_execs w')"
proof -
  let ?w = "scan_step nat_str demo_sf digits_parse demo_front (demo_scan StatusNoThreatsFound, [False, False, True])"
  let ?r = "HandleResult (front_mem nat_str demo_sf) digits_parse
              \<lparr>sr_key = ''documents/1/3/9/a.pdf'', sr_status = StatusNoThreatsFound, sr_threats = []\<rparr> ?w"
  have u: "userFromKey digits_parse ''documents/1/3/9/a.pdf'' = Some 1" by code_simp
  have d: "doc_GetByS3Key 1 ''documents/1/3/9/a.pdf'' (fr_docs ?w) = Inr demo_upload" by code_simp
  have j: "js_Get (fr_jobs ?w) (scanKey demo_upload) = Inr (demo_pending\<lparr>r_status := StSucceeded\<rparr>)" by code_simp
  have s: "r_attempt (demo_pending\<lparr>r_status := StSucceeded\<rparr>) = 1"
    "Active (r_status (demo_pending\<lparr>r_status := StSucceeded\<rparr>)) \<or> r_status (demo_pending\<lparr>r_status := StSucceeded\<rparr>) = StSucceeded"
    by (simp_all add: demo_pending_def)
  have old: "js_Get (fr_jobs ?w) (event_key (start_event demo_upload)) = Inl ErrJobNotFound" by code_simp
  have "snd ?r = None" by code_simp
  then have run: "?r = (fst ?r, None)" by (simp add: prod_eq_iff)
  from clean_verdict_starts[OF u d j s run] show ?thesis unfolding old by (simp add: Let_def)
qed

text \<open>
  The gap: the job is recorded as pending and nothing runs it; the redelivered verdict reports
  success and still nothing runs it.
\<close>

lemma cut_short_delivery_stays_stuck:
  "(let w = demo_front\<lparr>fr_jobs := js_step (OpEnqueue (event_key (start_event demo_upload))) (fr_jobs demo_front)\<rparr>
    in case HandleResult (front_mem nat_str demo_sf) digits_parse
              \<lparr>sr_key = ''documents/1/3/9/a.pdf'', sr_status = StatusNoThreatsFound, sr_threats = []\<rparr> w of
         (w', r) \<Rightarrow> r = None \<and> fr_execs w' = [])"
  by code_simp

text \<open>
  A bad verdict removes the file: if the scan has not succeeded and the handler returns, the
  object is gone, the document and its scan are failed, the scan with the reason for the user when
  it was still open, and nothing has been started.
\<close>

theorem bad_verdict_removes:
  assumes "docs_wf (fr_docs w)" and "userFromKey parse key = Some u" and "doc_GetByS3Key u key (fr_docs w) = Inr doc"
    and "js_Get (fr_jobs w) (scanKey doc) = Inr rec" and "r_attempt rec = 1"
    and "Active (r_status rec) \<or> r_status rec = StFailed" and "status \<noteq> StatusNoThreatsFound"
    and "HandleResult (front_mem us cfg) parse \<lparr>sr_key = key, sr_status = status, sr_threats = ts\<rparr> w = (w', None)"
  shows "gm_get (fr_objects w') key = None \<and>
     (\<exists>x. gm_get (fr_docs w') (d_id doc) = Some x \<and> d_status x = DocFailed) \<and>
     (\<exists>rec'. js_Get (fr_jobs w') (scanKey doc) = Inr rec' \<and> r_status rec' = StFailed \<and>
        r_last_error rec' = (if \<not> Active (r_status rec) then r_last_error rec
          else if status = StatusThreatsFound then reasonThreats ts else reasonUnscannable status)) \<and>
     fr_execs w' = fr_execs w"
proof -
  let ?F = "front_mem us cfg" and ?reason = "if status = StatusThreatsFound then reasonThreats ts else reasonUnscannable status"
  note key = docs_wf_key[OF assms(1,3)]
  obtain fs where rej: "ms_reject ?F doc ?reason True (w\<lparr>fr_faults := fs\<rparr>) = (w', None)"
    by (rule result_found[OF assms(8)]) (use assms(2,3,7) in \<open>simp_all cong: if_cong split del: if_split\<close>)
  obtain w1 r1 where w1: "sw_mark_failed front_status (scanKey doc) 1 ?reason (w\<lparr>fr_faults := fs\<rparr>) = (w1, r1)" by force
  note m = front_failed[OF w1]
  have vis: "visible (front_recs w) (scanKey doc) = Some rec" using assms(4) by (simp add: visible_js_Get front_recs_def)
  let ?rec = "fst (Transition rec 1 StFailed '''' ?reason)"
  from vis have sp: "spec_transition (scanKey doc) 1 StFailed '''' ?reason (front_recs w) =
      ((front_recs w)(slot_of (scanKey doc) \<mapsto> ?rec), None)"
    using assms(5,6) by (auto simp: spec_transition_def Transition_def Let_def)
  have r1: "r1 = None"
  proof (rule ccontr)
    assume "r1 \<noteq> None"
    then have "r1 = Some front_fault" using m(3) sp by auto
    then show False using rej w1 by (simp add: ms_reject_def front_mem_def scanAttempt_def)
  qed
  with m(3) sp have recs1: "front_recs w1 = (front_recs w)(slot_of (scanKey doc) \<mapsto> ?rec)" by auto
  have rm: "ms_remove ?F doc w1 = (w', None)" using rej w1 r1 by (simp add: ms_reject_def front_mem_def scanAttempt_def)
  obtain w2 where w2: "fo_del ?F (d_s3key doc) w1 = (w2, None)" and w3: "fo_doc_status ?F (d_user doc) (d_id doc) DocFailed w2 = (w', None)"
    using rm by (auto simp: ms_remove_def try_proc_def split: prod.splits option.splits)
  obtain f2 where e2: "w2 = w1\<lparr>fr_faults := f2, fr_objects := gm_del (d_s3key doc) (fr_objects w1)\<rparr>"
    using w2[unfolded front_mem_def, simplified] by (cases rule: ff_proc_cases) auto
  have d1: "fr_docs w1 = fr_docs w" using m(1) by (simp add: rest_def)
  obtain f3 where e3: "w' = w2\<lparr>fr_faults := f3, fr_docs := gm_put (d_id doc) (doc\<lparr>d_status := DocFailed, d_updated := fr_clock w2\<rparr>) (fr_docs w)\<rparr>"
    using w3[unfolded front_mem_def, simplified]
    by (cases rule: ff_proc_cases) (auto simp: with_docs_def doc_UpdateStatus_def e2 d1 key(1))
  have "visible (front_recs w') (scanKey doc) = Some ?rec"
    using vis by (simp add: visible_def e3 e2 recs1 split: option.splits if_splits)
  moreover have "r_status ?rec = StFailed" "r_last_error ?rec = (if \<not> Active (r_status rec) then r_last_error rec else ?reason)"
    using assms(5,6) by (auto simp: Transition_def Let_def)
  ultimately show ?thesis using key(3) m(2) by (auto simp: front_recs_def visible_js_Get e3 e2)
qed

theorem bad_verdict_removes_witness:
  "let w' = fst (HandleResult (front_mem nat_str demo_sf) digits_parse
              \<lparr>sr_key = ''documents/1/3/9/a.pdf'', sr_status = ''UNSUPPORTED'', sr_threats = []\<rparr> demo_front)
   in gm_get (fr_objects w') ''documents/1/3/9/a.pdf'' = None \<and> fr_execs w' = fr_execs demo_front"
proof -
  let ?r = "HandleResult (front_mem nat_str demo_sf) digits_parse
              \<lparr>sr_key = ''documents/1/3/9/a.pdf'', sr_status = ''UNSUPPORTED'', sr_threats = []\<rparr> demo_front"
  have u: "userFromKey digits_parse ''documents/1/3/9/a.pdf'' = Some 1" by code_simp
  have d: "doc_GetByS3Key 1 ''documents/1/3/9/a.pdf'' (fr_docs demo_front) = Inr demo_upload" by code_simp
  have s: "r_attempt demo_pending = 1" "Active (r_status demo_pending) \<or> r_status demo_pending = StFailed"
    "''UNSUPPORTED'' \<noteq> StatusNoThreatsFound"
    by (simp_all add: demo_pending_def StatusNoThreatsFound_def)
  have "snd ?r = None" by code_simp
  then have run: "?r = (fst ?r, None)" by (simp add: prod_eq_iff)
  from bad_verdict_removes[OF demo_front_ok(1) u d demo_front_ok(3) s run] show ?thesis by (simp add: Let_def)
qed


end
