(* ===== verification/Server.thy ===== *)
theory Server
  imports Pagination MalwareScan
begin

text \<open>
  \<^verbatim>\<open>internal/server/kbhandler.go\<close> and \<^verbatim>\<open>dochandler.go\<close>: the handlers of the
  knowledge-base and document routes over the operations of \<open>front_ops\<close>. A request carries the
  authenticated identity (absent when the middleware stored none), the path values and the query
  parameters; a body is given as the standard library decodes it. A response is its status with
  the value or the error message written.
\<close>

subsection \<open>Requests and responses\<close>

datatype 'a response = Reply nat 'a | Problem nat string

type_synonym ('s, 'a) handler = "'s \<Rightarrow> 's \<times> 'a response"

record request =
  rq_user :: "uuid option"
  rq_kb :: string
  rq_doc :: string
  rq_limit :: string
  rq_after :: string

definition requireUserID :: "request \<Rightarrow> (uuid \<Rightarrow> ('s, 'a) handler) \<Rightarrow> ('s, 'a) handler" where
  "requireUserID r k s = (case rq_user r of None \<Rightarrow> (s, Problem 401 ''unauthorized'') | Some u \<Rightarrow> k u s)"

definition parseUUID :: "(string \<Rightarrow> uuid option) \<Rightarrow> string \<Rightarrow> (uuid \<Rightarrow> ('s, 'a) handler) \<Rightarrow> ('s, 'a) handler" where
  "parseUUID parse str k s = (case parse str of None \<Rightarrow> (s, Problem 400 ''invalid id'') | Some i \<Rightarrow> k i s)"

definition writeKBError :: "gerror \<Rightarrow> 'a response" where
  "writeKBError e = (if errors_is e ErrKBNotFound then Problem 404 ''knowledge base not found''
                     else Problem 500 ''internal error'')"

definition writeDocError :: "gerror \<Rightarrow> 'a response" where
  "writeDocError e = (if errors_is e ErrDocNotFound then Problem 404 ''document not found''
                      else Problem 500 ''internal error'')"

subsection \<open>Knowledge bases\<close>

text \<open>The body of a create or rename, decoded: \<open>None\<close> where it is not the expected JSON.\<close>

definition kbh_create :: "'s front_ops \<Rightarrow> request \<Rightarrow> string option \<Rightarrow> ('s, kbase) handler" where
  "kbh_create F r body =
     requireUserID r (\<lambda>userID s.
       if body = None \<or> body = Some '''' then (s, Problem 400 ''name is required'')
       else try_call (fo_kb_create F userID (the body))
              (\<lambda>e s. (s, Problem 500 ''failed to create knowledge base''))
              (\<lambda>created s. (s, Reply 201 created)) s)"

definition kbh_list :: "'s front_ops \<Rightarrow> (uuid \<Rightarrow> string) \<Rightarrow> (string \<Rightarrow> uuid option) \<Rightarrow> request \<Rightarrow> ('s, kbase page) handler" where
  "kbh_list F us parse r =
     requireUserID r (\<lambda>userID.
       case parsePagination parse (rq_limit r) (rq_after r) of (limit, after) \<Rightarrow>
         try_call (fo_kb_list F userID)
           (\<lambda>e s. (s, Problem 500 ''failed to list knowledge bases''))
           (\<lambda>kbs s. (s, Reply 200 (paginateKBs us kbs limit after))))"

definition kbh_get :: "'s front_ops \<Rightarrow> (string \<Rightarrow> uuid option) \<Rightarrow> request \<Rightarrow> ('s, kbase) handler" where
  "kbh_get F parse r =
     requireUserID r (\<lambda>userID. parseUUID parse (rq_kb r) (\<lambda>i.
       try_call (fo_kb_get F userID i) (\<lambda>e s. (s, writeKBError e)) (\<lambda>k s. (s, Reply 200 k))))"

definition kbh_rename :: "'s front_ops \<Rightarrow> (string \<Rightarrow> uuid option) \<Rightarrow> request \<Rightarrow> string option \<Rightarrow> ('s, kbase) handler" where
  "kbh_rename F parse r body =
     requireUserID r (\<lambda>userID. parseUUID parse (rq_kb r) (\<lambda>i s.
       if body = None \<or> body = Some '''' then (s, Problem 400 ''name is required'')
       else try_call (fo_kb_rename F userID i (the body)) (\<lambda>e s. (s, writeKBError e)) (\<lambda>k s. (s, Reply 200 k)) s))"

definition kbh_delete :: "'s front_ops \<Rightarrow> (string \<Rightarrow> uuid option) \<Rightarrow> request \<Rightarrow> ('s, unit) handler" where
  "kbh_delete F parse r =
     requireUserID r (\<lambda>userID. parseUUID parse (rq_kb r) (\<lambda>i.
       try_proc (fo_kb_delete F userID i) (\<lambda>e s. (s, writeKBError e)) (\<lambda>s. (s, Reply 204 ()))))"

subsection \<open>File names\<close>

text \<open>\<^verbatim>\<open>path.Base\<close> and \<^verbatim>\<open>path.Ext\<close>.\<close>

definition path_base :: "string \<Rightarrow> string" where
  "path_base p =
     (if p = '''' then ''.''
      else let q = rev (dropWhile (\<lambda>c. c = CHR ''/'') (rev p));
               b = rev (takeWhile (\<lambda>c. c \<noteq> CHR ''/'') (rev q))
           in if b = '''' then ''/'' else b)"

definition path_ext :: "string \<Rightarrow> string" where
  "path_ext p =
     (let last_elem = takeWhile (\<lambda>c. c \<noteq> CHR ''/'') (rev p)
      in if List.member last_elem CHR ''.''
         then CHR ''.'' # rev (takeWhile (\<lambda>c. c \<noteq> CHR ''.'') last_elem) else '''')"

definition allowedContentTypes :: "(string, string) gomap" where
  "allowedContentTypes =
     [(''.txt'', ''text/plain''), (''.md'', ''text/markdown''), (''.pdf'', ''application/pdf''),
      (''.png'', ''image/png''), (''.jpg'', ''image/jpeg''), (''.jpeg'', ''image/jpeg'')]"

definition contentTypeFor :: "string \<Rightarrow> string option" where
  "contentTypeFor filename = gm_get allowedContentTypes (to_lower (path_ext filename))"

definition upload_key :: "(uuid \<Rightarrow> string) \<Rightarrow> uuid \<Rightarrow> uuid \<Rightarrow> uuid \<Rightarrow> string \<Rightarrow> string" where
  "upload_key us userID kbID objectID filename =
     ''documents/'' @ us userID @ ''/'' @ us kbID @ ''/'' @ us objectID @ ''/'' @ filename"

subsection \<open>The document handler\<close>

record doc_config =
  dc_max_upload :: int
  dc_max_docs :: int
  dc_jobs :: bool
  dc_manifest :: bool
  dc_canonical :: bool
  dc_timeout_arn :: string

definition defaultMaxUploadBytes :: int where
  "defaultMaxUploadBytes = 32 * 2 ^ 20"

definition defaultMaxDocsPerSession :: int where
  "defaultMaxDocsPerSession = 20"

definition registerDocRoutes :: "doc_config \<Rightarrow> doc_config" where
  "registerDocRoutes c =
     c\<lparr>dc_max_upload := (if dc_max_upload c \<le> 0 then defaultMaxUploadBytes else dc_max_upload c),
       dc_max_docs := (if dc_max_docs c \<le> 0 then defaultMaxDocsPerSession else dc_max_docs c)\<rparr>"

text \<open>What the multipart parser makes of the body, cut off at the upload limit.\<close>

datatype upload_form =
    FormTooLarge
  | FormInvalid
  | FormNoFile
  | FormFile (form_name: string) (form_size: int) (form_bytes: string)

definition abandonUpload :: "'s front_ops \<Rightarrow> document \<Rightarrow> 's \<Rightarrow> 's" where
  "abandonUpload F doc =
     try_proc (fo_doc_delete F (d_user doc) (d_id doc))
       (\<lambda>e. ignore (fo_doc_status F (d_user doc) (d_id doc) DocFailed) id)
       id"

definition upload_row :: "uuid \<Rightarrow> uuid \<Rightarrow> string \<Rightarrow> string \<Rightarrow> string \<Rightarrow> int \<Rightarrow> document" where
  "upload_row kbID userID filename s3Key contentType fsize =
     \<lparr>d_id = uuid_nil, d_kb = kbID, d_user = userID, d_filename = filename, d_s3key = s3Key,
      d_content_type = contentType, d_size = fsize, d_status = DocPending, d_created = 0, d_updated = 0\<rparr>"

definition store_upload ::
  "'s front_ops \<Rightarrow> (uuid \<Rightarrow> string) \<Rightarrow> doc_config \<Rightarrow> uuid \<Rightarrow> uuid \<Rightarrow> string \<Rightarrow> string \<Rightarrow> int \<Rightarrow> string \<Rightarrow>
     ('s, document) handler" where
  "store_upload F us C userID kbID filename contentType fsize content s =
     (case fo_new_uuid F s of (s, objectID) \<Rightarrow>
        let s3Key = upload_key us userID kbID objectID filename
        in try_call (fo_doc_create F (upload_row kbID userID filename s3Key contentType fsize))
             (\<lambda>e s. (s, Problem 500 ''failed to create document record''))
             (\<lambda>doc. try_proc (scans_Begin F us (dc_timeout_arn C) doc)
                (\<lambda>e s. (abandonUpload F doc s, Problem 500 ''failed to start the malware scan''))
                (try_proc (fo_put F s3Key content)
                   (\<lambda>e s. (abandonUpload F doc s, Problem 500 ''failed to store file''))
                   (\<lambda>s. (s, Reply 201 doc)))) s)"

text \<open>
  \<^verbatim>\<open>upload\<close> in two parts, because the body arrives between them: first the caller, the knowledge
  base and the document cap are checked, then the body is read and the file stored. \<open>k\<close> is what
  happens to a request that passes the checks.
\<close>

definition upload_checked ::
  "'s front_ops \<Rightarrow> (string \<Rightarrow> uuid option) \<Rightarrow> doc_config \<Rightarrow> request \<Rightarrow> (uuid \<Rightarrow> uuid \<Rightarrow> ('s, 'a) handler) \<Rightarrow>
     ('s, 'a) handler" where
  "upload_checked F parse C r k =
     requireUserID r (\<lambda>userID. parseUUID parse (rq_kb r) (\<lambda>kbID.
       try_call (fo_kb_get F userID kbID) (\<lambda>e s. (s, writeKBError e)) (\<lambda>_.
       try_call (fo_doc_list_user F userID) (\<lambda>e s. (s, Problem 500 ''failed to check document quota'')) (\<lambda>existing s.
         if int (length existing) \<ge> dc_max_docs C
         then (s, Problem 422 (''session document limit of '' @ itoa (dc_max_docs C) @ '' reached''))
         else k userID kbID s))))"

definition upload_body ::
  "'s front_ops \<Rightarrow> (uuid \<Rightarrow> string) \<Rightarrow> doc_config \<Rightarrow> upload_form \<Rightarrow> uuid \<Rightarrow> uuid \<Rightarrow> ('s, document) handler" where
  "upload_body F us C form userID kbID s =
     (case form of
        FormTooLarge \<Rightarrow> (s, Problem 413 (''file exceeds '' @ itoa (dc_max_upload C) @ '' byte limit''))
      | FormInvalid \<Rightarrow> (s, Problem 400 ''invalid multipart form'')
      | FormNoFile \<Rightarrow> (s, Problem 400 ''missing file field'')
      | FormFile name fsize content \<Rightarrow>
          (let filename = path_base name
           in if filename = ''.'' \<or> filename = '''' then (s, Problem 400 ''invalid filename'')
              else (case contentTypeFor filename of
                  None \<Rightarrow> (s, Problem 422 ''unsupported file type; accepted: .txt, .md, .pdf, .png, .jpg'')
                | Some contentType \<Rightarrow> store_upload F us C userID kbID filename contentType fsize content s)))"

definition upload ::
  "'s front_ops \<Rightarrow> (uuid \<Rightarrow> string) \<Rightarrow> (string \<Rightarrow> uuid option) \<Rightarrow> doc_config \<Rightarrow> request \<Rightarrow> upload_form \<Rightarrow>
     ('s, document) handler" where
  "upload F us parse C r form = upload_checked F parse C r (upload_body F us C form)"

definition rejectionReason :: "'s front_ops \<Rightarrow> document \<Rightarrow> 's \<Rightarrow> 's \<times> string" where
  "rejectionReason F d s =
     (if d_status d \<noteq> DocFailed then (s, '''')
      else try_call (scans_Rejection F (d_user d) (d_id d)) (\<lambda>e s. (s, '''')) (\<lambda>q s. (s, fst q)) s)"

definition hasActiveJobForDocument :: "'s front_ops \<Rightarrow> doc_config \<Rightarrow> uuid \<Rightarrow> uuid \<Rightarrow> ('s, bool) call" where
  "hasActiveJobForDocument F C userID documentID s =
     (if \<not> dc_jobs C then (s, Inr False)
      else try_call (fo_active F userID [documentID]) (\<lambda>e s. (s, Inl e))
             (\<lambda>active s. (s, Inr (gm_get_or [] active documentID \<noteq> []))) s)"

subsubsection \<open>Listing\<close>

record progress =
  pr_stages :: "display_stage list"
  pr_active :: "string list"

record doc_item =
  it_doc :: document
  it_progress :: "progress option"
  it_rejection :: string

record doc_page =
  dp_items :: "doc_item list"
  dp_next :: string

fun reject_reasons :: "'s front_ops \<Rightarrow> document list \<Rightarrow> 's \<Rightarrow> 's \<times> string list" where
  "reject_reasons F [] s = (s, [])"
| "reject_reasons F (d # ds) s =
     (case rejectionReason F d s of (s, r) \<Rightarrow> case reject_reasons F ds s of (s, rs) \<Rightarrow> (s, r # rs))"

definition doc_progress :: "(uuid, job_status list) gomap \<Rightarrow> document \<Rightarrow> progress option" where
  "doc_progress activeByDoc d =
     (if d_status d = DocFailed then None
      else let hasRegions = NeedsRegionClassification (d_content_type d);
               activeStages = ActiveStageKeys hasRegions (gm_get_or [] activeByDoc (d_id d))
           in Some \<lparr>pr_stages = StagesForDocument hasRegions,
                    pr_active = (if activeStages \<noteq> [] then activeStages
                                 else if d_status d = DocIndexed then [StageKeyComplete] else [])\<rparr>)"

definition enrichPage :: "'s front_ops \<Rightarrow> doc_config \<Rightarrow> uuid \<Rightarrow> document page \<Rightarrow> 's \<Rightarrow> 's \<times> doc_page" where
  "enrichPage F C userID pg s =
     (if \<not> dc_jobs C then
        (case reject_reasons F (pg_items pg) s of (s, rs) \<Rightarrow>
           (s, \<lparr>dp_items = map2 (\<lambda>d r. \<lparr>it_doc = d, it_progress = None, it_rejection = r\<rparr>) (pg_items pg) rs,
                dp_next = pg_next pg\<rparr>))
      else
        (case fo_active F userID (map d_id (pg_items pg)) s of (s, q) \<Rightarrow>
           let activeByDoc = (case q of Inl e \<Rightarrow> [] | Inr m \<Rightarrow> m)
           in case reject_reasons F (pg_items pg) s of (s, rs) \<Rightarrow>
             (s, \<lparr>dp_items = map2 (\<lambda>d r. \<lparr>it_doc = d, it_progress = doc_progress activeByDoc d, it_rejection = r\<rparr>)
                                  (pg_items pg) rs,
                  dp_next = pg_next pg\<rparr>)))"

definition doch_list :: "'s front_ops \<Rightarrow> (uuid \<Rightarrow> string) \<Rightarrow> (string \<Rightarrow> uuid option) \<Rightarrow> doc_config \<Rightarrow> request \<Rightarrow> ('s, doc_page) handler" where
  "doch_list F us parse C r =
     requireUserID r (\<lambda>userID. parseUUID parse (rq_kb r) (\<lambda>kbID.
       try_call (fo_kb_get F userID kbID) (\<lambda>e s. (s, writeKBError e)) (\<lambda>_.
         case parsePagination parse (rq_limit r) (rq_after r) of (limit, after) \<Rightarrow>
           try_call (fo_doc_list_kb F userID kbID) (\<lambda>e s. (s, Problem 500 ''failed to list documents''))
             (\<lambda>docs s. case enrichPage F C userID (paginateDocs us docs limit after) s of (s, p) \<Rightarrow> (s, Reply 200 p)))))"

subsubsection \<open>One document\<close>

text \<open>The checks every route of one document starts with: identity, path values, row, knowledge base.\<close>

definition with_document ::
  "'s front_ops \<Rightarrow> (string \<Rightarrow> uuid option) \<Rightarrow> request \<Rightarrow> (uuid \<Rightarrow> document \<Rightarrow> ('s, 'a) handler) \<Rightarrow> ('s, 'a) handler" where
  "with_document F parse r k =
     requireUserID r (\<lambda>userID. parseUUID parse (rq_kb r) (\<lambda>kbID. parseUUID parse (rq_doc r) (\<lambda>docID.
       try_call (fo_doc_get F userID docID) (\<lambda>e s. (s, writeDocError e)) (\<lambda>doc s.
         if d_kb doc \<noteq> kbID then (s, Problem 404 ''document not found'') else k userID doc s))))"

record manifest_summary =
  ms_indexed :: nat
  ms_skipped :: nat
  ms_failed :: nat

record doc_detail =
  dd_doc :: document
  dd_manifest :: "manifest_summary option"
  dd_rejection :: string

definition count_status :: "region_status \<Rightarrow> region list \<Rightarrow> nat" where
  "count_status st rs = length (filter (\<lambda>g. rg_status g = st) rs)"

definition summarize_manifest :: "region list \<Rightarrow> manifest_summary option" where
  "summarize_manifest rs =
     (if rs = [] then None
      else Some \<lparr>ms_indexed = count_status RegionIndexed rs, ms_skipped = count_status RegionSkipped rs,
                 ms_failed = count_status RegionFailed rs\<rparr>)"

definition doch_get :: "'s front_ops \<Rightarrow> (string \<Rightarrow> uuid option) \<Rightarrow> doc_config \<Rightarrow> request \<Rightarrow> ('s, doc_detail) handler" where
  "doch_get F parse C r =
     with_document F parse r (\<lambda>userID doc s.
       case rejectionReason F doc s of (s, reason) \<Rightarrow>
         if \<not> dc_manifest C then (s, Reply 200 \<lparr>dd_doc = doc, dd_manifest = None, dd_rejection = reason\<rparr>)
         else (case fo_manifest F userID (d_id doc) s of (s, q) \<Rightarrow>
                 (s, Reply 200 \<lparr>dd_doc = doc, dd_manifest = (case q of Inl e \<Rightarrow> None | Inr rs \<Rightarrow> summarize_manifest rs),
                             dd_rejection = reason\<rparr>)))"

definition doch_content :: "'s front_ops \<Rightarrow> (string \<Rightarrow> uuid option) \<Rightarrow> request \<Rightarrow> ('s, string) handler" where
  "doch_content F parse r =
     with_document F parse r (\<lambda>userID doc.
       try_call (fo_get F (d_s3key doc)) (\<lambda>e s. (s, Problem 500 ''failed to load document content''))
         (\<lambda>body s. (s, Reply 200 body)))"

definition doch_delete :: "'s front_ops \<Rightarrow> (string \<Rightarrow> uuid option) \<Rightarrow> doc_config \<Rightarrow> request \<Rightarrow> ('s, unit) handler" where
  "doch_delete F parse C r =
     with_document F parse r (\<lambda>userID doc s.
       if d_status doc = DocProcessing then (s, Problem 409 ''document is being indexed and cannot be deleted yet'')
       else try_call (hasActiveJobForDocument F C userID (d_id doc))
         (\<lambda>e s. (s, Problem 500 ''failed to check for an active background job''))
         (\<lambda>active s.
            if active then (s, Problem 409 ''document has an active background job and cannot be deleted yet'')
            else try_proc (\<lambda>s. if dc_canonical C then fo_canon F userID (d_id doc) s else (s, None))
              (\<lambda>e s. (s, Problem 500 ''failed to update canonical entities''))
              (try_proc (fo_del F (d_s3key doc)) (\<lambda>e s. (s, Problem 500 ''failed to remove object''))
                (try_proc (fo_doc_delete F userID (d_id doc)) (\<lambda>e s. (s, Problem 500 ''failed to delete document record''))
                  (\<lambda>s. (s, Reply 204 ())))) s) s)"

definition doch_retry :: "'s front_ops \<Rightarrow> (string \<Rightarrow> uuid option) \<Rightarrow> doc_config \<Rightarrow> request \<Rightarrow> ('s, document) handler" where
  "doch_retry F parse C r =
     with_document F parse r (\<lambda>userID doc s.
       if d_status doc \<noteq> DocFailed then (s, Problem 409 ''only a failed document can be retried'')
       else try_call (hasActiveJobForDocument F C userID (d_id doc))
         (\<lambda>e s. (s, Problem 500 ''failed to check for an active background job''))
         (\<lambda>active s.
            if active then (s, Problem 409 ''document has an active background job and cannot be retried yet'')
            else try_call (scans_Rejection F userID (d_id doc))
              (\<lambda>e s. (s, Problem 500 ''failed to check the malware scan''))
              (\<lambda>q s.
                 if snd q then (s, Problem 409 ''this file was rejected by the malware scan and deleted; upload it again'')
                 else try_proc (fo_doc_status F userID (d_id doc) DocPending)
                   (\<lambda>e s. (s, Problem 500 ''failed to reset document status''))
                   (try_proc (ingest_Start F doc)
                     (\<lambda>e. ignore (fo_doc_status F userID (d_id doc) DocFailed)
                        (\<lambda>s. (s, Problem 500 ''failed to enqueue document for reprocessing'')))
                     (try_call (fo_doc_get F userID (d_id doc))
                       (\<lambda>e s. (s, Problem 500 ''failed to load updated document''))
                       (\<lambda>updated s. (s, Reply 200 updated)))) s) s) s)"

definition doch_retryEntityExtraction ::
  "'s front_ops \<Rightarrow> (string \<Rightarrow> uuid option) \<Rightarrow> doc_config \<Rightarrow> request \<Rightarrow> ('s, document) handler" where
  "doch_retryEntityExtraction F parse C r =
     with_document F parse r (\<lambda>userID doc s.
       if d_status doc \<noteq> DocIndexed
       then (s, Problem 409 ''only an indexed document has chunks to extract entities from'')
       else try_call (hasActiveJobForDocument F C userID (d_id doc))
         (\<lambda>e s. (s, Problem 500 ''failed to check for an active background job''))
         (\<lambda>active s.
            if active then (s, Problem 409 ''document has an active background job and cannot be retried yet'')
            else try_proc (fo_publish F (EntityExtractionRequested (d_id doc) userID))
              (\<lambda>e s. (s, Problem 500 ''failed to enqueue entity extraction''))
              (\<lambda>s. (s, Reply 200 doc)) s) s)"

end
