(* ===== verification/Triples.thy ===== *)
theory Triples
  imports Calls
begin

text \<open>
  A small Hoare logic for the handlers: \<open>triple P p Q\<close> says that from a state in \<open>P\<close> the program
  \<open>p\<close> ends with a result and a state in \<open>Q\<close>. There is a rule for each way a handler is composed;
  the rules are collected in \<open>triple_rules\<close>. Programs are total functions, so partial and total
  correctness are the same thing here.
\<close>

named_theorems triple_rules

definition triple :: "('s \<Rightarrow> bool) \<Rightarrow> ('s \<Rightarrow> 's \<times> 'a) \<Rightarrow> ('a \<Rightarrow> 's \<Rightarrow> bool) \<Rightarrow> bool" where
  "triple P p Q \<longleftrightarrow> (\<forall>s s' r. P s \<longrightarrow> p s = (s', r) \<longrightarrow> Q r s')"

lemma tripleI: "(\<And>s s' r. P s \<Longrightarrow> p s = (s', r) \<Longrightarrow> Q r s') \<Longrightarrow> triple P p Q"
  unfolding triple_def by blast

lemma tripleD: "triple P p Q \<Longrightarrow> P s \<Longrightarrow> p s = (s', r) \<Longrightarrow> Q r s'"
  unfolding triple_def by blast

lemma triple_fst: "triple P p (\<lambda>_. Q) \<Longrightarrow> P s \<Longrightarrow> Q (fst (p s))"
  by (cases "p s") (auto dest: tripleD)

lemma triple_weaken:
  "triple P' p Q' \<Longrightarrow> (\<And>s. P s \<Longrightarrow> P' s) \<Longrightarrow> (\<And>r s. Q' r s \<Longrightarrow> Q r s) \<Longrightarrow> triple P p Q"
  unfolding triple_def by blast

lemma triple_pre: "(\<And>s. P s \<Longrightarrow> P' s) \<Longrightarrow> triple P' p Q \<Longrightarrow> triple P p Q"
  unfolding triple_def by blast

lemma triple_False [simp]: "triple (\<lambda>s. False) p Q"
  by (simp add: triple_def)

text \<open>A fact that does not depend on the state moves out of the precondition.\<close>

lemma triple_factI: "(\<And>s. P s \<Longrightarrow> A) \<Longrightarrow> (A \<Longrightarrow> triple P p Q) \<Longrightarrow> triple P p Q"
  unfolding triple_def by meson

lemma triple_return [triple_rules]: "(\<And>s. P s \<Longrightarrow> Q r s) \<Longrightarrow> triple P (\<lambda>s. (s, r)) Q"
  by (simp add: triple_def)

lemma triple_if [triple_rules]:
  "(c \<Longrightarrow> triple P p Q) \<Longrightarrow> (\<not> c \<Longrightarrow> triple P q Q) \<Longrightarrow> triple P (\<lambda>s. if c then p s else q s) Q"
  by (cases c) simp_all

lemma triple_if_fun [triple_rules]:
  "(c \<Longrightarrow> triple P p Q) \<Longrightarrow> (\<not> c \<Longrightarrow> triple P q Q) \<Longrightarrow> triple P (if c then p else q) Q"
  by simp

lemma triple_option [triple_rules]:
  "(x = None \<Longrightarrow> triple P a Q) \<Longrightarrow> (\<And>v. x = Some v \<Longrightarrow> triple P (b v) Q) \<Longrightarrow>
     triple P (\<lambda>s. case x of None \<Rightarrow> a s | Some v \<Rightarrow> b v s) Q"
  by (cases x) simp_all

lemma triple_sum [triple_rules]:
  "(\<And>e. x = Inl e \<Longrightarrow> triple P (a e) Q) \<Longrightarrow> (\<And>v. x = Inr v \<Longrightarrow> triple P (b v) Q) \<Longrightarrow>
     triple P (\<lambda>s. case x of Inl e \<Rightarrow> a e s | Inr v \<Rightarrow> b v s) Q"
  by (cases x) simp_all

lemma triple_call:
  assumes "triple P p B" "\<And>e. triple (B (Inl e)) (h e) Q" "\<And>v. triple (B (Inr v)) (k v) Q"
  shows "triple P (try_call p h k) Q"
proof (rule tripleI)
  fix s s' r assume "P s" "try_call p h k s = (s', r)"
  then show "Q r s'"
    using tripleD[OF assms(1)] tripleD[OF assms(2)] tripleD[OF assms(3)]
    by (cases "p s"; cases "snd (p s)") (fastforce simp: try_call_def)+
qed

lemma triple_proc:
  assumes "triple P p B" "\<And>e. triple (B (Some e)) (h e) Q" "triple (B None) k Q"
  shows "triple P (try_proc p h k) Q"
proof (rule tripleI)
  fix s s' r assume "P s" "try_proc p h k s = (s', r)"
  then show "Q r s'" using assms
    by (cases "p s"; cases "snd (p s)") (auto simp: try_proc_def dest: tripleD)
qed

lemma triple_ignore:
  assumes "triple P p (\<lambda>_. B)" "triple B k Q"
  shows "triple P (ignore p k) Q"
proof (rule tripleI)
  fix s s' r assume "P s" "ignore p k s = (s', r)"
  then show "Q r s'" using assms by (cases "p s") (auto simp: ignore_def dest: tripleD)
qed

lemma triple_then:
  assumes "triple P p B" "\<And>r. triple (B r) (k r) Q"
  shows "triple P (\<lambda>s. case p s of (s, r) \<Rightarrow> k r s) Q"
proof (rule tripleI)
  fix s s' r assume "P s" "(case p s of (s, r) \<Rightarrow> k r s) = (s', r)"
  then show "Q r s'" using assms by (cases "p s") (auto dest: tripleD)
qed

text \<open>Calls that keep what is known, whatever they return.\<close>

lemma triple_call_keep:
  "triple P p (\<lambda>_. P) \<Longrightarrow> (\<And>e. triple P (h e) Q) \<Longrightarrow> (\<And>v. triple P (k v) Q) \<Longrightarrow> triple P (try_call p h k) Q"
  by (rule triple_call)

lemma triple_proc_keep:
  "triple P p (\<lambda>_. P) \<Longrightarrow> (\<And>e. triple P (h e) Q) \<Longrightarrow> triple P k Q \<Longrightarrow> triple P (try_proc p h k) Q"
  by (rule triple_proc)

end
