(* ===== verification/System.thy ===== *)
theory System
  imports Server Triples
begin

text \<open>
  The API, the scan-result Lambda and the pipeline running over one store, as a sequence of
  events in any order, each with its own outages. An upload is two events, since the API reads the
  body between the check of the document cap and the insert of the row; the uploads in between are
  part of the state. The properties: by how much uploads can exceed the cap, a stored file is
  processed only after its scan reported it clean, whatever uploads, retries, deletions, verdicts
  and timeouts happen, and what a failed deletion leaves.
\<close>

subsection \<open>Events\<close>

datatype api_request =
    KBCreate request "string option"
  | KBList request
  | KBGet request
  | KBRename request "string option"
  | KBDelete request
  | DocList request
  | DocGet request
  | DocContent request
  | DocDelete request
  | DocRetry request
  | DocRetryEntities request

record api =
  api_us :: "uuid \<Rightarrow> string"
  api_parse :: "string \<Rightarrow> uuid option"
  api_sf :: sf_config
  api_doc :: doc_config

fun api_step :: "api \<Rightarrow> api_request \<Rightarrow> front \<Rightarrow> front" where
  "api_step A (KBCreate r b) = fst \<circ> kbh_create (front_mem (api_us A) (api_sf A)) r b"
| "api_step A (KBList r) = fst \<circ> kbh_list (front_mem (api_us A) (api_sf A)) (api_us A) (api_parse A) r"
| "api_step A (KBGet r) = fst \<circ> kbh_get (front_mem (api_us A) (api_sf A)) (api_parse A) r"
| "api_step A (KBRename r b) = fst \<circ> kbh_rename (front_mem (api_us A) (api_sf A)) (api_parse A) r b"
| "api_step A (KBDelete r) = fst \<circ> kbh_delete (front_mem (api_us A) (api_sf A)) (api_parse A) r"
| "api_step A (DocList r) = fst \<circ> doch_list (front_mem (api_us A) (api_sf A)) (api_us A) (api_parse A) (api_doc A) r"
| "api_step A (DocGet r) = fst \<circ> doch_get (front_mem (api_us A) (api_sf A)) (api_parse A) (api_doc A) r"
| "api_step A (DocContent r) = fst \<circ> doch_content (front_mem (api_us A) (api_sf A)) (api_parse A) r"
| "api_step A (DocDelete r) = fst \<circ> doch_delete (front_mem (api_us A) (api_sf A)) (api_parse A) (api_doc A) r"
| "api_step A (DocRetry r) = fst \<circ> doch_retry (front_mem (api_us A) (api_sf A)) (api_parse A) (api_doc A) r"
| "api_step A (DocRetryEntities r) = fst \<circ> doch_retryEntityExtraction (front_mem (api_us A) (api_sf A)) (api_parse A) (api_doc A) r"

text \<open>
  The uploads between their check of the cap and the arrival of the body: tenant and knowledge base.
\<close>

record sys =
  sy_front :: front
  sy_uploads :: "(uuid \<times> uuid) list"

text \<open>
  The pipeline is seen from here through its writes: the status of a document it has an execution
  for, and status reports on its own jobs. \<open>UploadBody n\<close> is the body of the \<open>n\<close>th upload under way.
\<close>

datatype sys_event =
    Request api_request "bool list"
  | UploadStart request "bool list"
  | UploadBody nat upload_form "bool list"
  | ScanEvent raw_event "bool list"
  | PipelineDoc uuid uuid doc_status
  | PipelineJob jstore_op

definition pipeline_op :: "jstore_op \<Rightarrow> bool" where
  "pipeline_op op \<longleftrightarrow> k_type (op_key op) \<noteq> MalwareScan"

definition upload_start :: "api \<Rightarrow> request \<Rightarrow> (front, uuid \<times> uuid) handler" where
  "upload_start A r =
     upload_checked (front_mem (api_us A) (api_sf A)) (api_parse A) (api_doc A) r (\<lambda>u kb s. (s, Reply 100 (u, kb)))"

fun front_step :: "api \<Rightarrow> front \<Rightarrow> sys_event \<Rightarrow> front" where
  "front_step A w (Request q fs) = api_step A q (w\<lparr>fr_faults := fs\<rparr>)"
| "front_step A w (ScanEvent e fs) = scan_step (api_us A) (api_sf A) (api_parse A) w (e, fs)"
| "front_step A w (PipelineDoc u d st) =
     (if processing_of d (fr_execs w) = [] then w
      else w\<lparr>fr_docs := fst (doc_UpdateStatus (fr_clock w) u d st (fr_docs w))\<rparr>)"
| "front_step A w (PipelineJob op) =
     (if pipeline_op op then w\<lparr>fr_jobs := js_step op (fr_jobs w)\<rparr> else w)"
| "front_step A w _ = w"

fun sys_step :: "api \<Rightarrow> sys \<Rightarrow> sys_event \<Rightarrow> sys" where
  "sys_step A s (UploadStart r fs) =
     (case upload_start A r ((sy_front s)\<lparr>fr_faults := fs\<rparr>) of
        (w, q) \<Rightarrow> \<lparr>sy_front = w, sy_uploads = sy_uploads s @ (case q of Reply n p \<Rightarrow> [p] | Problem n m \<Rightarrow> [])\<rparr>)"
| "sys_step A s (UploadBody n form fs) =
     (if n < length (sy_uploads s)
      then (case sy_uploads s ! n of
          (u, kb) \<Rightarrow> \<lparr>sy_front = fst (upload_body (front_mem (api_us A) (api_sf A)) (api_us A) (api_doc A) form u kb
                                     ((sy_front s)\<lparr>fr_faults := fs\<rparr>)),
                     sy_uploads = take n (sy_uploads s) @ drop (Suc n) (sy_uploads s)\<rparr>)
      else s)"
| "sys_step A s e = s\<lparr>sy_front := front_step A (sy_front s) e\<rparr>"

definition front_new :: front where
  "front_new = \<lparr>fr_kbs = [], fr_docs = [], fr_objects = [], fr_jobs = js_new, fr_execs = [], fr_regions = [],
     fr_canon = canon_new, fr_next = 1, fr_clock = 0, fr_faults = []\<rparr>"

definition serve :: "api \<Rightarrow> api" where
  "serve A = A\<lparr>api_doc := registerDocRoutes (api_doc A)\<rparr>"

definition sys_state :: "api \<Rightarrow> sys_event list \<Rightarrow> sys" where
  "sys_state A evs = foldl (sys_step (serve A)) \<lparr>sy_front = front_new, sy_uploads = []\<rparr> evs"

definition sys_run :: "api \<Rightarrow> sys_event list \<Rightarrow> front" where
  "sys_run A evs = sy_front (sys_state A evs)"

text \<open>A tenant's uploads under way, and the most of them there have been at once.\<close>

definition in_flight :: "uuid \<Rightarrow> sys \<Rightarrow> nat" where
  "in_flight u s = length (filter (\<lambda>(v, kb). v = u) (sy_uploads s))"

definition max_in_flight :: "api \<Rightarrow> sys_event list \<Rightarrow> uuid \<Rightarrow> nat" where
  "max_in_flight A evs u = foldr max (map (\<lambda>n. in_flight u (sys_state A (take n evs))) [0..<Suc (length evs)]) 0"

subsection \<open>The invariant\<close>

text \<open>Upload keys name the object they were made for.\<close>

definition key_object :: "(uuid \<Rightarrow> string) \<Rightarrow> uuid \<Rightarrow> string \<Rightarrow> bool" where
  "key_object us i k \<longleftrightarrow> (\<exists>u kb f. k = upload_key us u kb i f)"

definition path_safe :: "(uuid \<Rightarrow> string) \<Rightarrow> bool" where
  "path_safe us \<longleftrightarrow> (\<forall>i. CHR ''/'' \<notin> set (us i)) \<and> (\<forall>i j. us i = us j \<longrightarrow> i = j)"

lemma upload_key_cancel:
  assumes "path_safe us" "upload_key us u kb i f = upload_key us u' kb' i' f'"
  shows "u = u' \<and> kb = kb' \<and> i = i' \<and> f = f'"
proof -
  have no: "CHR ''/'' \<notin> set (us x)" for x using assms(1) by (simp add: path_safe_def)
  have eq: "us x = us y \<and> a = b" if "us x @ CHR ''/'' # a = us y @ CHR ''/'' # b" for x y a b
    using that no[of x] no[of y] by (metis append_eq_append_conv takeWhile_sep list.inject)
  have "us u = us u' \<and> us kb @ CHR ''/'' # us i @ CHR ''/'' # f = us kb' @ CHR ''/'' # us i' @ CHR ''/'' # f'"
    using assms(2) by (intro eq) (simp add: upload_key_def)
  moreover from this have "us kb = us kb' \<and> us i @ CHR ''/'' # f = us i' @ CHR ''/'' # f'" by (intro eq) simp
  moreover from this have "us i = us i' \<and> f = f'" by (intro eq) simp
  ultimately show ?thesis using assms(1) by (auto simp: path_safe_def)
qed

text \<open>The scan record of a document, and whether its processing may start.\<close>

abbreviation scan_of :: "front \<Rightarrow> uuid \<Rightarrow> jrecord option" where
  "scan_of w i \<equiv> front_recs w (i, MalwareScan)"

definition scan_free :: "front \<Rightarrow> uuid \<Rightarrow> bool" where
  "scan_free w i \<longleftrightarrow> (case scan_of w i of None \<Rightarrow> True | Some rec \<Rightarrow> r_status rec = StSucceeded)"

text \<open>Rows, keys and identifiers.\<close>

definition rows_ok :: "(uuid \<Rightarrow> string) \<Rightarrow> (uuid \<Rightarrow> int) \<Rightarrow> front \<Rightarrow> bool" where
  "rows_ok us cap w \<longleftrightarrow>
     distinct (gm_keys (fr_docs w)) \<and>
     (\<forall>i x. gm_get (fr_docs w) i = Some x \<longrightarrow> d_id x = i \<and> i < fr_next w \<and> (\<exists>o' < fr_next w. key_object us o' (d_s3key x))) \<and>
     (\<forall>i j x y. gm_get (fr_docs w) i = Some x \<longrightarrow> gm_get (fr_docs w) j = Some y \<longrightarrow> d_s3key x = d_s3key y \<longrightarrow> i = j) \<and>
     (\<forall>k. gm_get (fr_objects w) k \<noteq> None \<longrightarrow> (\<exists>o' < fr_next w. key_object us o' k)) \<and>
     (\<forall>u. int (length (doc_ListByUserID u (fr_docs w))) \<le> cap u)"

text \<open>Scans, stored files and processing.\<close>

definition scans_ok :: "front \<Rightarrow> bool" where
  "scans_ok w \<longleftrightarrow>
     js_wf (fr_jobs w) \<and>
     (\<forall>i rec. scan_of w i = Some rec \<longrightarrow> i < fr_next w \<and> r_attempt rec = 1) \<and>
     (\<forall>i x rec. gm_get (fr_docs w) i = Some x \<longrightarrow> scan_of w i = Some rec \<longrightarrow> k_user (r_key rec) = d_user x) \<and>
     (\<forall>i x. gm_get (fr_docs w) i = Some x \<longrightarrow> gm_get (fr_objects w) (d_s3key x) \<noteq> None \<longrightarrow> scan_of w i \<noteq> None) \<and>
     (\<forall>i. processing_of i (fr_execs w) \<noteq> [] \<longrightarrow> i < fr_next w \<and> scan_free w i) \<and>
     (\<forall>i x. gm_get (fr_docs w) i = Some x \<longrightarrow> d_status x = DocProcessing \<or> d_status x = DocIndexed \<longrightarrow>
        processing_of i (fr_execs w) \<noteq> [])"

definition sys_ok :: "(uuid \<Rightarrow> string) \<Rightarrow> (uuid \<Rightarrow> int) \<Rightarrow> front \<Rightarrow> bool" where
  "sys_ok us cap w \<longleftrightarrow> rows_ok us cap w \<and> scans_ok w"

text \<open>What it is about: the rest of the store can change freely.\<close>

definition core :: "front \<Rightarrow> doc_repo \<times> (string, string) gomap \<times> jstore \<times> execution list \<times> uuid" where
  "core w = (fr_docs w, fr_objects w, fr_jobs w, fr_execs w, fr_next w)"

lemma core_upd [simp]:
  "core (w\<lparr>fr_faults := fs\<rparr>) = core w" "core (w\<lparr>fr_kbs := ks\<rparr>) = core w" "core (w\<lparr>fr_canon := c\<rparr>) = core w"
  by (simp_all add: core_def)

lemma sys_ok_core: "core w' = core w \<Longrightarrow> sys_ok us cap w' = sys_ok us cap w"
  by (simp add: core_def sys_ok_def rows_ok_def scans_ok_def front_recs_def scan_free_def)

lemma scan_free_cong: "scan_of w' i = scan_of w i \<Longrightarrow> scan_free w' i = scan_free w i"
  by (simp add: scan_free_def)

lemma front_new_ok: "(\<And>u. 0 \<le> cap u) \<Longrightarrow> sys_ok us cap front_new"
  using js_wf_new by (simp add: sys_ok_def rows_ok_def scans_ok_def front_new_def front_recs_def js_recs_def js_new_def
      processing_of_def doc_ListByUserID_def)

subsection \<open>How each write keeps it\<close>

lemma rows_okD:
  assumes "rows_ok us cap w"
  shows "distinct (gm_keys (fr_docs w))"
    "gm_get (fr_docs w) i = Some x \<Longrightarrow> d_id x = i \<and> i < fr_next w \<and> (\<exists>o' < fr_next w. key_object us o' (d_s3key x))"
    "gm_get (fr_docs w) i = Some x \<Longrightarrow> gm_get (fr_docs w) j = Some y \<Longrightarrow> d_s3key x = d_s3key y \<Longrightarrow> i = j"
    "gm_get (fr_objects w) k \<noteq> None \<Longrightarrow> \<exists>o' < fr_next w. key_object us o' k"
    "int (length (doc_ListByUserID u (fr_docs w))) \<le> cap u"
  using assms unfolding rows_ok_def by blast+

lemma rows_okI:
  assumes "distinct (gm_keys (fr_docs w))"
    "\<And>i x. gm_get (fr_docs w) i = Some x \<Longrightarrow> d_id x = i \<and> i < fr_next w \<and> (\<exists>o' < fr_next w. key_object us o' (d_s3key x))"
    "\<And>i j x y. gm_get (fr_docs w) i = Some x \<Longrightarrow> gm_get (fr_docs w) j = Some y \<Longrightarrow> d_s3key x = d_s3key y \<Longrightarrow> i = j"
    "\<And>k. gm_get (fr_objects w) k \<noteq> None \<Longrightarrow> \<exists>o' < fr_next w. key_object us o' k"
    "\<And>u. int (length (doc_ListByUserID u (fr_docs w))) \<le> cap u"
  shows "rows_ok us cap w"
  unfolding rows_ok_def using assms by blast

lemma scans_okD:
  assumes "scans_ok w"
  shows "js_wf (fr_jobs w)"
    "scan_of w i = Some rec \<Longrightarrow> i < fr_next w \<and> r_attempt rec = 1"
    "gm_get (fr_docs w) i = Some x \<Longrightarrow> scan_of w i = Some rec \<Longrightarrow> k_user (r_key rec) = d_user x"
    "gm_get (fr_docs w) i = Some x \<Longrightarrow> gm_get (fr_objects w) (d_s3key x) \<noteq> None \<Longrightarrow> scan_of w i \<noteq> None"
    "processing_of i (fr_execs w) \<noteq> [] \<Longrightarrow> i < fr_next w \<and> scan_free w i"
    "gm_get (fr_docs w) i = Some x \<Longrightarrow> d_status x = DocProcessing \<or> d_status x = DocIndexed \<Longrightarrow> processing_of i (fr_execs w) \<noteq> []"
  using assms unfolding scans_ok_def by blast+

lemma scans_okI:
  assumes "js_wf (fr_jobs w)"
    "\<And>i rec. scan_of w i = Some rec \<Longrightarrow> i < fr_next w \<and> r_attempt rec = 1"
    "\<And>i x rec. gm_get (fr_docs w) i = Some x \<Longrightarrow> scan_of w i = Some rec \<Longrightarrow> k_user (r_key rec) = d_user x"
    "\<And>i x. gm_get (fr_docs w) i = Some x \<Longrightarrow> gm_get (fr_objects w) (d_s3key x) \<noteq> None \<Longrightarrow> scan_of w i \<noteq> None"
    "\<And>i. processing_of i (fr_execs w) \<noteq> [] \<Longrightarrow> i < fr_next w \<and> scan_free w i"
    "\<And>i x. gm_get (fr_docs w) i = Some x \<Longrightarrow> d_status x = DocProcessing \<or> d_status x = DocIndexed \<Longrightarrow> processing_of i (fr_execs w) \<noteq> []"
  shows "scans_ok w"
  unfolding scans_ok_def using assms by blast

text \<open>A new identifier is taken; everything else is as before.\<close>

lemma sys_ok_next:
  assumes "sys_ok us cap w"
  shows "sys_ok us cap (w\<lparr>fr_next := Suc (fr_next w)\<rparr>)"
proof -
  have r: "rows_ok us cap w" and s: "scans_ok w" using assms by (simp_all add: sys_ok_def)
  let ?w = "w\<lparr>fr_next := Suc (fr_next w)\<rparr>"
  have same: "fr_docs ?w = fr_docs w" "fr_objects ?w = fr_objects w" "fr_jobs ?w = fr_jobs w" "fr_execs ?w = fr_execs w"
    "front_recs ?w = front_recs w" "fr_next ?w = Suc (fr_next w)" "\<And>i. scan_free ?w i = scan_free w i"
    by (simp_all add: front_recs_def scan_free_def)
  have "rows_ok us cap ?w"
    by (rule rows_okI; (unfold same)?) (use rows_okD[OF r] less_Suc_eq in blast)+
  moreover have "scans_ok ?w"
    by (rule scans_okI; (unfold same)?) (use scans_okD[OF s] less_Suc_eq in blast)+
  ultimately show ?thesis by (simp add: sys_ok_def)
qed

lemma list_user_update:
  assumes "distinct (gm_keys r)" "gm_get r i = Some x" "d_user y = d_user x"
  shows "length (doc_ListByUserID u (gm_put i y r)) = length (doc_ListByUserID u r)"
  using assms
proof (induction r)
  case (Cons p r)
  then show ?case by (cases p) (auto simp: doc_ListByUserID_def split: if_splits)
qed simp

lemma list_user_delete: "length (doc_ListByUserID u (gm_del i r)) \<le> length (doc_ListByUserID u r)"
  by (induction r) (auto simp: doc_ListByUserID_def)

text \<open>
  The documents' table changes, each new row being an old one up to its status, or gone.
\<close>

lemma sys_ok_docs:
  assumes "sys_ok us cap w"
    and "distinct (gm_keys docs')"
    and "\<And>u. length (doc_ListByUserID u docs') \<le> length (doc_ListByUserID u (fr_docs w))"
    and get: "\<And>j z. gm_get docs' j = Some z \<Longrightarrow> \<exists>z'. gm_get (fr_docs w) j = Some z' \<and> d_id z = d_id z' \<and>
        d_user z = d_user z' \<and> d_s3key z = d_s3key z' \<and>
        (d_status z = DocProcessing \<or> d_status z = DocIndexed \<longrightarrow> d_status z = d_status z' \<or> processing_of j (fr_execs w) \<noteq> [])"
  shows "sys_ok us cap (w\<lparr>fr_docs := docs'\<rparr>)"
proof -
  have r: "rows_ok us cap w" and s: "scans_ok w" using assms(1) by (simp_all add: sys_ok_def)
  let ?w = "w\<lparr>fr_docs := docs'\<rparr>"
  have same: "fr_docs ?w = docs'" "fr_objects ?w = fr_objects w" "fr_jobs ?w = fr_jobs w" "fr_execs ?w = fr_execs w"
    "front_recs ?w = front_recs w" "fr_next ?w = fr_next w" "\<And>i. scan_free ?w i = scan_free w i"
    by (simp_all add: front_recs_def scan_free_def)
  have "rows_ok us cap ?w"
  proof (rule rows_okI; (unfold same)?)
    show "int (length (doc_ListByUserID u docs')) \<le> cap u" for u using assms(3)[of u] rows_okD(5)[OF r, of u] by simp
    show "i = j" if "gm_get docs' i = Some x" "gm_get docs' j = Some y" "d_s3key x = d_s3key y" for i j x y
      using get[OF that(1)] get[OF that(2)] that(3) rows_okD(3)[OF r] by metis
    show "d_id x = i \<and> i < fr_next w \<and> (\<exists>o' < fr_next w. key_object us o' (d_s3key x))" if "gm_get docs' i = Some x" for i x
      using get[OF that] rows_okD(2)[OF r] by metis
  qed (use assms(2) rows_okD(4)[OF r] in blast)+
  moreover have "scans_ok ?w"
  proof (rule scans_okI; (unfold same)?)
    show "k_user (r_key rec) = d_user x" if "gm_get docs' i = Some x" "scan_of w i = Some rec" for i x rec
      using get[OF that(1)] scans_okD(3)[OF s _ that(2)] by metis
    show "scan_of w i \<noteq> None" if "gm_get docs' i = Some x" "gm_get (fr_objects w) (d_s3key x) \<noteq> None" for i x
      using get[OF that(1)] scans_okD(4)[OF s] that(2) by metis
    show "processing_of i (fr_execs w) \<noteq> []"
      if "gm_get docs' i = Some x" "d_status x = DocProcessing \<or> d_status x = DocIndexed" for i x
      using get[OF that(1)] scans_okD(6)[OF s] that(2) by metis
  qed (use scans_okD[OF s] in blast)+
  ultimately show ?thesis by (simp add: sys_ok_def)
qed

lemma sys_ok_status:
  assumes "sys_ok us cap w" "st = DocProcessing \<or> st = DocIndexed \<Longrightarrow> processing_of i (fr_execs w) \<noteq> []"
  shows "sys_ok us cap (w\<lparr>fr_docs := fst (doc_UpdateStatus now u i st (fr_docs w))\<rparr>)"
proof (cases "\<exists>x. gm_get (fr_docs w) i = Some x \<and> d_user x = u")
  case False
  then have "fst (doc_UpdateStatus now u i st (fr_docs w)) = fr_docs w" by (auto simp: doc_UpdateStatus_def split: option.splits)
  then show ?thesis using assms(1) by simp
next
  case True
  then obtain x where x: "gm_get (fr_docs w) i = Some x" "d_user x = u" by blast
  have d: "distinct (gm_keys (fr_docs w))" using assms(1) by (simp add: sys_ok_def rows_ok_def)
  define y where "y = x\<lparr>d_status := st, d_updated := now\<rparr>"
  have y: "d_id y = d_id x" "d_user y = d_user x" "d_s3key y = d_s3key x" "d_status y = st" by (simp_all add: y_def)
  have w': "fst (doc_UpdateStatus now u i st (fr_docs w)) = gm_put i y (fr_docs w)" using x by (simp add: doc_UpdateStatus_def y_def)
  show ?thesis unfolding w'
  proof (rule sys_ok_docs[OF assms(1)])
    show "distinct (gm_keys (gm_put i y (fr_docs w)))" using d by simp
    show "length (doc_ListByUserID u (gm_put i y (fr_docs w))) \<le> length (doc_ListByUserID u (fr_docs w))" for u
      using list_user_update[OF d x(1) y(2)] by simp
    show "\<exists>z'. gm_get (fr_docs w) j = Some z' \<and> d_id z = d_id z' \<and> d_user z = d_user z' \<and> d_s3key z = d_s3key z' \<and>
        (d_status z = DocProcessing \<or> d_status z = DocIndexed \<longrightarrow> d_status z = d_status z' \<or> processing_of j (fr_execs w) \<noteq> [])"
      if "gm_get (gm_put i y (fr_docs w)) j = Some z" for j z
      using that x(1) y assms(2) by (cases "j = i") simp_all
  qed
qed

lemma sys_ok_delete:
  assumes "sys_ok us cap w"
  shows "sys_ok us cap (w\<lparr>fr_docs := fst (doc_Delete u i (fr_docs w))\<rparr>)"
proof (cases "fst (doc_Delete u i (fr_docs w)) = fr_docs w")
  case False
  then have w': "fst (doc_Delete u i (fr_docs w)) = gm_del i (fr_docs w)"
    by (auto simp: doc_Delete_def split: option.splits if_splits)
  have d: "distinct (gm_keys (fr_docs w))" using assms(1) by (simp add: sys_ok_def rows_ok_def)
  show ?thesis unfolding w'
    by (rule sys_ok_docs[OF assms(1)]) (use d list_user_delete in \<open>auto split: if_splits\<close>)
qed (use assms in simp)

subsubsection \<open>Job records and executions\<close>

lemma sys_ok_jobs:
  assumes "sys_ok us cap w" and rst: "rest w' = rest w" and wf: "js_wf (fr_jobs w')"
    and "\<And>i rec. scan_of w' i = Some rec \<Longrightarrow> i < fr_next w \<and> r_attempt rec = 1 \<and>
        (\<forall>x. gm_get (fr_docs w) i = Some x \<longrightarrow> k_user (r_key rec) = d_user x)"
    and "\<And>i. scan_of w i \<noteq> None \<Longrightarrow> scan_of w' i \<noteq> None"
    and "\<And>i. processing_of i (fr_execs w') \<noteq> [] \<Longrightarrow> i < fr_next w \<and> scan_free w' i"
    and "\<And>i. processing_of i (fr_execs w) \<noteq> [] \<Longrightarrow> processing_of i (fr_execs w') \<noteq> []"
  shows "sys_ok us cap w'"
proof -
  have r: "rows_ok us cap w" and s: "scans_ok w" using assms(1) by (simp_all add: sys_ok_def)
  have same: "fr_docs w' = fr_docs w" "fr_objects w' = fr_objects w" "fr_next w' = fr_next w"
    using rst by (simp_all add: rest_def)
  have "rows_ok us cap w'" using r by (simp add: rows_ok_def same)
  moreover have "scans_ok w'"
    by (rule scans_okI; (unfold same)?) (use wf assms(4-7) scans_okD(4,6)[OF s] in blast)+
  ultimately show ?thesis by (simp add: sys_ok_def)
qed

lemma spec_transition_slot:
  "fst (spec_transition k a to ph rs R) sl = None \<longleftrightarrow> R sl = None"
  "fst (spec_transition k a to ph rs R) sl = Some rec \<Longrightarrow> \<exists>rec0. R sl = Some rec0 \<and> r_key rec = r_key rec0 \<and>
     r_attempt rec = r_attempt rec0 \<and> (Active (r_status rec0) \<or> rec = rec0)"
  by (auto simp: spec_transition_def visible_def split: option.splits if_splits)
    (metis Transition_finished)

text \<open>A report on any job's record: it changes no finished record and adds none.\<close>

lemma sys_ok_transition:
  assumes "sys_ok us cap w" and rst: "rest w' = rest w" and wf: "js_wf (fr_jobs w')" and ex: "fr_execs w' = fr_execs w"
    and recs: "front_recs w' = front_recs w \<or> front_recs w' = fst (spec_transition k a to ph rs (front_recs w))"
  shows "sys_ok us cap w'"
proof -
  have s: "scans_ok w" using assms(1) by (simp add: sys_ok_def)
  have none: "scan_of w' i = None \<longleftrightarrow> scan_of w i = None" for i using recs spec_transition_slot(1) by metis
  have some: "\<exists>rec0. scan_of w i = Some rec0 \<and> r_key rec = r_key rec0 \<and> r_attempt rec = r_attempt rec0 \<and>
      (Active (r_status rec0) \<or> rec = rec0)" if "scan_of w' i = Some rec" for i rec
    using recs spec_transition_slot(2)[of k a to ph rs "front_recs w"] that by metis
  show ?thesis
  proof (rule sys_ok_jobs[OF assms(1) rst wf])
    show "i < fr_next w \<and> r_attempt rec = 1 \<and> (\<forall>x. gm_get (fr_docs w) i = Some x \<longrightarrow> k_user (r_key rec) = d_user x)"
      if "scan_of w' i = Some rec" for i rec
      using some[OF that] scans_okD(2,3)[OF s] by metis
    show "i < fr_next w \<and> scan_free w' i" if "processing_of i (fr_execs w') \<noteq> []" for i
    proof -
      have "i < fr_next w \<and> scan_free w i" using scans_okD(5)[OF s] that ex by simp
      moreover have "scan_free w' i" if "scan_free w i"
      proof (cases "scan_of w' i")
        case None then show ?thesis by (simp add: scan_free_def)
      next
        case (Some rec)
        from some[OF Some] obtain rec0 where "scan_of w i = Some rec0" "Active (r_status rec0) \<or> rec = rec0" by blast
        then show ?thesis using that Some by (auto simp: scan_free_def Active_def)
      qed
      ultimately show ?thesis by blast
    qed
  qed (use none ex in auto)
qed

text \<open>Records of other job types, and executions of documents that may be processed.\<close>

lemma sys_ok_other_jobs:
  assumes "sys_ok us cap w" and rst: "rest w' = rest w" and wf: "js_wf (fr_jobs w')"
    and recs: "\<And>i. scan_of w' i = scan_of w i"
    and ex: "\<And>i. processing_of i (fr_execs w') = processing_of i (fr_execs w) \<or>
        (processing_of i (fr_execs w') \<noteq> [] \<and> i < fr_next w \<and> scan_free w i)"
  shows "sys_ok us cap w'"
proof -
  have s: "scans_ok w" using assms(1) by (simp add: sys_ok_def)
  show ?thesis
  proof (rule sys_ok_jobs[OF assms(1) rst wf])
    show "i < fr_next w \<and> r_attempt rec = 1 \<and> (\<forall>x. gm_get (fr_docs w) i = Some x \<longrightarrow> k_user (r_key rec) = d_user x)"
      if "scan_of w' i = Some rec" for i rec
      using that scans_okD(2,3)[OF s] recs by metis
    show "i < fr_next w \<and> scan_free w' i" if "processing_of i (fr_execs w') \<noteq> []" for i
      using that ex[of i] scans_okD(5)[OF s, of i] scan_free_cong[OF recs[of i]] by metis
    show "processing_of i (fr_execs w') \<noteq> []" if "processing_of i (fr_execs w) \<noteq> []" for i
      using that ex[of i] by metis
  qed (use recs in simp)
qed

subsubsection \<open>Objects and new rows\<close>

lemma sys_ok_del_object:
  assumes "sys_ok us cap w"
  shows "sys_ok us cap (w\<lparr>fr_objects := gm_del k (fr_objects w)\<rparr>)"
proof -
  have r: "rows_ok us cap w" and s: "scans_ok w" using assms by (simp_all add: sys_ok_def)
  let ?w = "w\<lparr>fr_objects := gm_del k (fr_objects w)\<rparr>"
  have same: "fr_docs ?w = fr_docs w" "fr_jobs ?w = fr_jobs w" "fr_execs ?w = fr_execs w"
    "front_recs ?w = front_recs w" "fr_next ?w = fr_next w" "\<And>i. scan_free ?w i = scan_free w i"
    and sub: "\<And>q. gm_get (fr_objects ?w) q \<noteq> None \<Longrightarrow> gm_get (fr_objects w) q \<noteq> None"
    by (auto simp: front_recs_def scan_free_def split: if_splits)
  have "rows_ok us cap ?w"
    by (rule rows_okI; (unfold same)?) (use rows_okD[OF r] sub in blast)+
  moreover have "scans_ok ?w"
  proof (rule scans_okI; (unfold same)?)
    show "scan_of w i \<noteq> None" if "gm_get (fr_docs w) i = Some x" "gm_get (fr_objects ?w) (d_s3key x) \<noteq> None" for i x
      by (rule scans_okD(4)[OF s that(1) sub[OF that(2)]])
  qed (use scans_okD[OF s] in blast)+
  ultimately show ?thesis by (simp add: sys_ok_def)
qed

definition own :: "uuid \<Rightarrow> uuid \<Rightarrow> string \<Rightarrow> front \<Rightarrow> bool" where
  "own i u k w \<longleftrightarrow> (\<exists>x. gm_get (fr_docs w) i = Some x \<and> d_user x = u \<and> d_s3key x = k)"

lemma own_cong: "fr_docs w' = fr_docs w \<Longrightarrow> own i u k w' = own i u k w"
  by (simp add: own_def)

lemma sys_ok_put_object:
  assumes "sys_ok us cap w" "own i u k w" "scan_of w i \<noteq> None"
  shows "sys_ok us cap (w\<lparr>fr_objects := gm_put k b (fr_objects w)\<rparr>)"
proof -
  have r: "rows_ok us cap w" and s: "scans_ok w" using assms by (simp_all add: sys_ok_def)
  obtain x where x: "gm_get (fr_docs w) i = Some x" "d_s3key x = k" using assms(2) by (auto simp: own_def)
  let ?w = "w\<lparr>fr_objects := gm_put k b (fr_objects w)\<rparr>"
  have same: "fr_docs ?w = fr_docs w" "fr_jobs ?w = fr_jobs w" "fr_execs ?w = fr_execs w"
    "front_recs ?w = front_recs w" "fr_next ?w = fr_next w" "\<And>i. scan_free ?w i = scan_free w i"
    and sub: "\<And>q. gm_get (fr_objects ?w) q \<noteq> None \<Longrightarrow> q = k \<or> gm_get (fr_objects w) q \<noteq> None"
    by (auto simp: front_recs_def scan_free_def split: if_splits)
  have "rows_ok us cap ?w"
  proof (rule rows_okI; (unfold same)?)
    show "\<exists>o' < fr_next w. key_object us o' q" if "gm_get (fr_objects ?w) q \<noteq> None" for q
      using sub[OF that] rows_okD(4)[OF r] rows_okD(2)[OF r x(1)] x(2) by blast
  qed (use rows_okD[OF r] in blast)+
  moreover have "scans_ok ?w"
  proof (rule scans_okI; (unfold same)?)
    show "scan_of w j \<noteq> None" if "gm_get (fr_docs w) j = Some y" "gm_get (fr_objects ?w) (d_s3key y) \<noteq> None" for j y
      using sub[OF that(2)] scans_okD(4)[OF s that(1)] rows_okD(3)[OF r that(1) x(1)] x(2) assms(3) by metis
  qed (use scans_okD[OF s] in blast)+
  ultimately show ?thesis by (simp add: sys_ok_def)
qed

text \<open>A key nobody uses, and the row created under it.\<close>

definition unused :: "(uuid \<Rightarrow> string) \<Rightarrow> uuid \<Rightarrow> front \<Rightarrow> bool" where
  "unused us o' w \<longleftrightarrow> o' < fr_next w \<and> (\<forall>i x. gm_get (fr_docs w) i = Some x \<longrightarrow> \<not> key_object us o' (d_s3key x)) \<and>
     (\<forall>k. gm_get (fr_objects w) k \<noteq> None \<longrightarrow> \<not> key_object us o' k)"

lemma unused_fresh:
  assumes "path_safe us" "sys_ok us cap w"
  shows "unused us (fr_next w) (w\<lparr>fr_next := Suc (fr_next w)\<rparr>)"
proof -
  have r: "rows_ok us cap w" using assms(2) by (simp add: sys_ok_def)
  have uniq: "i = j" if "key_object us i k" "key_object us j k" for i j k
    using that upload_key_cancel[OF assms(1)] by (force simp: key_object_def)
  have "\<not> key_object us (fr_next w) (d_s3key x)" if "gm_get (fr_docs w) i = Some x" for i x
    using rows_okD(2)[OF r that] uniq by blast
  moreover have "\<not> key_object us (fr_next w) k" if "gm_get (fr_objects w) k \<noteq> None" for k
    using rows_okD(4)[OF r that] uniq by blast
  ultimately show ?thesis by (simp add: unused_def)
qed

lemma sys_ok_create:
  fixes now :: timestamp
  assumes "sys_ok us cap w" "unused us o' w" "key_object us o' (d_s3key d)" "d_status d = DocPending"
    and "int (length (doc_ListByUserID (d_user d) (fr_docs w))) < cap (d_user d)"
  defines "x \<equiv> d\<lparr>d_id := fr_next w, d_created := now, d_updated := now\<rparr>"
  defines "w' \<equiv> w\<lparr>fr_docs := gm_put (fr_next w) x (fr_docs w), fr_next := Suc (fr_next w)\<rparr>"
  shows "sys_ok us cap w'" "own (fr_next w) (d_user d) (d_s3key d) w'" "scan_of w' (fr_next w) = None"
    "processing_of (fr_next w) (fr_execs w') = []" "gm_get (fr_docs w') (fr_next w) = Some x"
proof -
  have r: "rows_ok us cap w" and s: "scans_ok w" using assms(1) by (simp_all add: sys_ok_def)
  have x: "d_id x = fr_next w" "d_user x = d_user d" "d_s3key x = d_s3key d" "d_status x = DocPending"
    by (simp_all add: x_def assms(4))
  have new: "gm_get (fr_docs w) (fr_next w) = None" using rows_okD(2)[OF r, of "fr_next w"] by fastforce
  then have app: "gm_put (fr_next w) x (fr_docs w) = fr_docs w @ [(fr_next w, x)]"
    by (intro gm_put_fresh) (simp add: map_of_eq_None_iff)
  have same: "fr_objects w' = fr_objects w" "fr_jobs w' = fr_jobs w" "fr_execs w' = fr_execs w"
    "front_recs w' = front_recs w" "fr_next w' = Suc (fr_next w)" "\<And>i. scan_free w' i = scan_free w i"
    by (simp_all add: w'_def front_recs_def scan_free_def)
  have get: "gm_get (fr_docs w') j = (if j = fr_next w then Some x else gm_get (fr_docs w) j)" for j by (simp add: w'_def)
  have key: "d_s3key y \<noteq> d_s3key d" if "gm_get (fr_docs w) j = Some y" for j y
    using assms(2,3) that unfolding unused_def by metis
  show ns: "scan_of w' (fr_next w) = None" using scans_okD(2)[OF s, of "fr_next w"] same(4) by (cases "scan_of w (fr_next w)") auto
  show np: "processing_of (fr_next w) (fr_execs w') = []" using scans_okD(5)[OF s, of "fr_next w"] same(3) by auto
  show "own (fr_next w) (d_user d) (d_s3key d) w'" using get x by (simp add: own_def)
  show "gm_get (fr_docs w') (fr_next w) = Some x" using get by simp
  have "rows_ok us cap w'"
  proof (rule rows_okI)
    show "distinct (gm_keys (fr_docs w'))" using rows_okD(1)[OF r] by (simp add: w'_def)
    show "d_id y = j \<and> j < fr_next w' \<and> (\<exists>o'<fr_next w'. key_object us o' (d_s3key y))" if "gm_get (fr_docs w') j = Some y" for j y
    proof (cases "j = fr_next w")
      case True
      then have "y = x" using that get by simp
      then show ?thesis using True x assms(2,3) same(5) by (auto simp: unused_def less_Suc_eq)
    next
      case False
      then show ?thesis using that get[of j] rows_okD(2)[OF r, of j y] same(5) by (auto simp: less_Suc_eq)
    qed
    show "i = j" if "gm_get (fr_docs w') i = Some y" "gm_get (fr_docs w') j = Some z" "d_s3key y = d_s3key z" for i j y z
      using that get[of i] get[of j] key[of i y] key[of j z] x(3) rows_okD(3)[OF r, of i y j z]
      by (cases "i = fr_next w"; cases "j = fr_next w") auto
    show "\<exists>o'<fr_next w'. key_object us o' k" if "gm_get (fr_objects w') k \<noteq> None" for k
      using that rows_okD(4)[OF r, of k] same less_SucI by metis
    show "int (length (doc_ListByUserID u (fr_docs w'))) \<le> cap u" for u
      using rows_okD(5)[OF r, of u] assms(5) x(2) by (auto simp: w'_def app doc_ListByUserID_def)
  qed
  moreover have "scans_ok w'"
  proof (rule scans_okI; (unfold same)?)
    show "i < Suc (fr_next w) \<and> r_attempt rec = 1" if "scan_of w i = Some rec" for i rec
      using scans_okD(2)[OF s that] by simp
    show "k_user (r_key rec) = d_user y" if "gm_get (fr_docs w') i = Some y" "scan_of w i = Some rec" for i y rec
      using that get[of i] ns same(4) scans_okD(3)[OF s, of i y rec] by (cases "i = fr_next w") auto
    show "scan_of w i \<noteq> None" if "gm_get (fr_docs w') i = Some y" "gm_get (fr_objects w) (d_s3key y) \<noteq> None" for i y
    proof (cases "i = fr_next w")
      case True
      then have "d_s3key y = d_s3key d" using that(1) get x by simp
      then show ?thesis using that(2) assms(2,3) unfolding unused_def by metis
    next
      case False
      then show ?thesis using that get[of i] scans_okD(4)[OF s, of i y] by simp
    qed
    show "i < Suc (fr_next w) \<and> scan_free w i" if "processing_of i (fr_execs w) \<noteq> []" for i
      using scans_okD(5)[OF s that] by simp
    show "processing_of i (fr_execs w) \<noteq> []"
      if "gm_get (fr_docs w') i = Some y" "d_status y = DocProcessing \<or> d_status y = DocIndexed" for i y
      using that get[of i] x(4) scans_okD(6)[OF s, of i y] by (cases "i = fr_next w") auto
  qed (use scans_okD[OF s] in blast)
  ultimately show "sys_ok us cap w'" by (simp add: sys_ok_def)
qed

subsection \<open>The calls\<close>

text \<open>What does not read the tape of faults is known after every call that only reads.\<close>

definition tape :: "(front \<Rightarrow> bool) \<Rightarrow> bool" where
  "tape P \<longleftrightarrow> (\<forall>w fs. P (w\<lparr>fr_faults := fs\<rparr>) = P w)"

lemma triple_ff_call:
  assumes "tape P" "triple P p Q" "\<And>w. P w \<Longrightarrow> Q (Inl front_fault) w"
  shows "triple P (ff_call p) Q"
proof (rule tripleI)
  fix w w' r assume P: "P w" and c: "ff_call p w = (w', r)"
  then have P': "P (w\<lparr>fr_faults := fs\<rparr>)" for fs using assms(1) by (simp add: tape_def)
  from c show "Q r w'"
  proof (cases rule: ff_call_cases)
    case (acts fs)
    then show ?thesis by (rule tripleD[OF assms(2) P'])
  next
    case (fault fs)
    then show ?thesis using assms(3)[OF P'] by simp
  qed
qed

lemma triple_ff_proc:
  assumes "tape P" "triple P p Q" "\<And>w. P w \<Longrightarrow> Q (Some front_fault) w"
  shows "triple P (ff_proc p) Q"
proof (rule tripleI)
  fix w w' r assume P: "P w" and c: "ff_proc p w = (w', r)"
  then have P': "P (w\<lparr>fr_faults := fs\<rparr>)" for fs using assms(1) by (simp add: tape_def)
  from c show "Q r w'"
  proof (cases rule: ff_proc_cases)
    case (acts fs)
    then show ?thesis by (rule tripleD[OF assms(2) P'])
  next
    case (fault fs)
    then show ?thesis using assms(3)[OF P'] by simp
  qed
qed

lemma triple_read:
  assumes "tape P"
  shows "triple P (ff_call (\<lambda>w. (w, f w))) (\<lambda>r w. P w \<and> (r = Inl front_fault \<or> r = f w))"
proof (rule triple_ff_call[OF assms])
  show "triple P (\<lambda>w. (w, f w)) (\<lambda>r w. P w \<and> (r = Inl front_fault \<or> r = f w))" by (rule tripleI) simp
qed simp

lemma sys_ok_upd [simp]:
  "sys_ok us cap (w\<lparr>fr_faults := fs\<rparr>) = sys_ok us cap w" "sys_ok us cap (w\<lparr>fr_kbs := ks\<rparr>) = sys_ok us cap w"
  "sys_ok us cap (w\<lparr>fr_canon := c\<rparr>) = sys_ok us cap w"
  by (rule sys_ok_core, simp)+

lemma sys_ok_tape [simp]: "tape (sys_ok us cap)"
  by (simp add: tape_def)

lemma own_upd [simp]:
  "own i u k (w\<lparr>fr_faults := fs\<rparr>) = own i u k w" "own i u k (w\<lparr>fr_jobs := j\<rparr>) = own i u k w"
  "own i u k (w\<lparr>fr_objects := b\<rparr>) = own i u k w" "own i u k (w\<lparr>fr_execs := es\<rparr>) = own i u k w"
  "own i u k (w\<lparr>fr_canon := c\<rparr>) = own i u k w"
  by (simp_all add: own_def)

lemma scan_free_upd [simp]:
  "scan_free (w\<lparr>fr_faults := fs\<rparr>) i = scan_free w i" "scan_free (w\<lparr>fr_docs := d\<rparr>) i = scan_free w i"
  by (simp_all add: scan_free_def)

text \<open>The publisher and the status writes keep the job store well formed.\<close>

lemma front_status_wf:
  "triple (\<lambda>w. js_wf (fr_jobs w)) (sw_enqueue front_status k) (\<lambda>_ w. js_wf (fr_jobs w))"
  "triple (\<lambda>w. js_wf (fr_jobs w)) (sw_mark_failed front_status k a rs) (\<lambda>_ w. js_wf (fr_jobs w))"
  "triple (\<lambda>w. js_wf (fr_jobs w)) (sw_mark_succeeded front_status k a) (\<lambda>_ w. js_wf (fr_jobs w))"
proof -
  let ?P = "\<lambda>w. js_wf (fr_jobs w)"
  have t: "tape ?P" by (simp add: tape_def)
  have w: "triple ?P (\<lambda>w. case op (fr_jobs w) of (j, r) \<Rightarrow> (w\<lparr>fr_jobs := j\<rparr>, r)) (\<lambda>_. ?P)"
    if "\<And>j. js_wf j \<Longrightarrow> js_wf (fst (op j))" for op :: "jstore \<Rightarrow> jstore \<times> 'a"
  proof (rule tripleI)
    fix w w' r assume wf: "js_wf (fr_jobs w)" and e: "(case op (fr_jobs w) of (j, r) \<Rightarrow> (w\<lparr>fr_jobs := j\<rparr>, r)) = (w', r)"
    obtain j q where o': "op (fr_jobs w) = (j, q)" by force
    from e have "w' = w\<lparr>fr_jobs := j\<rparr>" unfolding o' by simp
    then show "js_wf (fr_jobs w')" using that[OF wf] unfolding o' by simp
  qed
  show "triple ?P (sw_enqueue front_status k) (\<lambda>_. ?P)"
    unfolding front_status_def by (simp, rule triple_ff_call[OF t w]) (simp_all add: js_wf_Enqueue)
  show "triple ?P (sw_mark_failed front_status k a rs) (\<lambda>_. ?P)"
    unfolding front_status_def js_MarkFailed_def by (simp, rule triple_ff_proc[OF t w]) (simp_all add: js_wf_transition)
  show "triple ?P (sw_mark_succeeded front_status k a) (\<lambda>_. ?P)"
    unfolding front_status_def js_MarkSucceeded_def by (simp, rule triple_ff_proc[OF t w]) (simp_all add: js_wf_transition)
qed

lemma dispatch_wf: "triple (\<lambda>w. js_wf (fr_jobs w)) (sf_Dispatch front_start us cfg run) (\<lambda>_ w. js_wf (fr_jobs w))"
proof (rule tripleI)
  fix w w' r assume wf: "js_wf (fr_jobs w)" and d: "sf_Dispatch front_start us cfg run w = (w', r)"
  have "fr_jobs w2 = fr_jobs w1" if "front_start arn name inp w1 = (w2, r2)" for arn name inp w1 w2 r2
    using that[unfolded front_start_def] by (cases rule: ff_proc_cases) (auto split: if_splits)
  then show "js_wf (fr_jobs w')"
    using d wf by (auto simp: sf_Dispatch_def split: sum.splits prod.splits if_splits)
qed

lemma publish_wf:
  "triple (\<lambda>w. js_wf (fr_jobs w)) (publish front_status (sf_Dispatch front_start us cfg) ev) (\<lambda>_ w. js_wf (fr_jobs w))"
  unfolding publish_def Let_def
  by (intro triple_call_keep[OF front_status_wf(1)] triple_proc_keep[OF dispatch_wf]
      triple_proc_keep[OF front_status_wf(2)] triple_return triple_if)

lemma event_not_scan: "event_type ev \<noteq> MalwareScan"
  by (cases ev) simp_all

text \<open>Publishing for a document whose scan allows it.\<close>

lemma sys_ok_publish:
  "triple (\<lambda>w. sys_ok us cap w \<and> scan_free w (event_doc ev) \<and> event_doc ev < fr_next w)
     (fo_publish (front_mem us cfg) ev) (\<lambda>_. sys_ok us cap)"
proof (rule tripleI)
  fix w w' r
  assume pre: "sys_ok us cap w \<and> scan_free w (event_doc ev) \<and> event_doc ev < fr_next w"
    and p: "fo_publish (front_mem us cfg) ev w = (w', r)"
  have p: "publish front_status (sf_Dispatch front_start us cfg) ev w = (w', r)" using p by (simp add: front_mem_def)
  have "js_wf (fr_jobs w)" using pre by (simp add: sys_ok_def scans_ok_def)
  then have wf: "js_wf (fr_jobs w')" by (rule tripleD[OF publish_wf _ p])
  have recs: "scan_of w' i = scan_of w i" for i
    by (rule fr.publish_frame(1)[OF p]) (simp add: slot_of_def event_key_def event_not_scan[symmetric])
  show "sys_ok us cap w'"
  proof (rule sys_ok_other_jobs[OF _ publish_rest[OF p] wf recs])
    show "sys_ok us cap w" using pre by simp
    show "processing_of i (fr_execs w') = processing_of i (fr_execs w) \<or>
        (processing_of i (fr_execs w') \<noteq> [] \<and> i < fr_next w \<and> scan_free w i)" for i
      using fr.publish_frame(2)[OF p] pre by (cases "i = event_doc ev") (auto simp: processing_of_def event_run_def)
  qed
qed

text \<open>Reports on scans.\<close>

lemma sys_ok_failed:
  "triple (\<lambda>w. sys_ok us cap w \<and> own i u k w) (sw_mark_failed (fo_status (front_mem us cfg)) key a rs)
     (\<lambda>r w. sys_ok us cap w \<and> own i u k w)"
proof (rule tripleI)
  fix w w' r
  assume pre: "sys_ok us cap w \<and> own i u k w" and p: "sw_mark_failed (fo_status (front_mem us cfg)) key a rs w = (w', r)"
  have p: "sw_mark_failed front_status key a rs w = (w', r)" using p by (simp add: front_mem_def)
  note m = front_failed[OF p]
  have "js_wf (fr_jobs w)" using pre by (simp add: sys_ok_def scans_ok_def)
  then have wf: "js_wf (fr_jobs w')" by (rule tripleD[OF front_status_wf(2) _ p])
  have "front_recs w' = front_recs w \<or> front_recs w' = fst (spec_transition key a StFailed '''' rs (front_recs w))"
    using m(3) by (metis fst_conv)
  then have "sys_ok us cap w'" by (rule sys_ok_transition[OF conjunct1[OF pre] m(1) wf m(2)])
  then show "sys_ok us cap w' \<and> own i u k w'" using pre m(1) own_cong[of w' w] by (simp add: rest_def)
qed

lemma mark_succeeded_free:
  assumes "(R', None) = spec_transition (scanKeyOf u i) a StSucceeded '''' '''' R"
  shows "case R' (i, MalwareScan) of None \<Rightarrow> True | Some rec \<Rightarrow> r_status rec = StSucceeded"
proof -
  have sl: "slot_of (scanKeyOf u i) = (i, MalwareScan)" by (simp add: slot_of_def scanKeyOf_def)
  obtain rec where rec: "visible R (scanKeyOf u i) = Some rec"
    using assms by (auto simp: spec_transition_def split: option.splits)
  then have "R' (i, MalwareScan) = Some (fst (Transition rec a StSucceeded '''' ''''))"
    and "snd (snd (Transition rec a StSucceeded '''' '''')) = None"
    using assms by (simp_all add: spec_transition_def sl)
  then show ?thesis by (auto simp: Transition_def Let_def split: if_splits)
qed

lemma sys_ok_succeeded:
  "triple (\<lambda>w. sys_ok us cap w \<and> own i u k w) (sw_mark_succeeded (fo_status (front_mem us cfg)) (scanKeyOf u i) a)
     (\<lambda>r w. sys_ok us cap w \<and> own i u k w \<and> (r = None \<longrightarrow> scan_free w i))"
proof (rule tripleI)
  fix w w' r
  assume pre: "sys_ok us cap w \<and> own i u k w"
    and p: "sw_mark_succeeded (fo_status (front_mem us cfg)) (scanKeyOf u i) a w = (w', r)"
  have p: "sw_mark_succeeded front_status (scanKeyOf u i) a w = (w', r)" using p by (simp add: front_mem_def)
  note m = front_succeeded[OF p]
  have "js_wf (fr_jobs w)" using pre by (simp add: sys_ok_def scans_ok_def)
  then have wf: "js_wf (fr_jobs w')" by (rule tripleD[OF front_status_wf(3) _ p])
  have "front_recs w' = front_recs w \<or> front_recs w' = fst (spec_transition (scanKeyOf u i) a StSucceeded '''' '''' (front_recs w))"
    using m(3) by (metis fst_conv)
  then have "sys_ok us cap w'" by (rule sys_ok_transition[OF conjunct1[OF pre] m(1) wf m(2)])
  moreover have "scan_free w' i" if "r = None"
    using m(3) that mark_succeeded_free unfolding scan_free_def by fastforce
  ultimately show "sys_ok us cap w' \<and> own i u k w' \<and> (r = None \<longrightarrow> scan_free w' i)"
    using pre m(1) own_cong[of w' w] by (simp add: rest_def)
qed

subsubsection \<open>Reading and writing documents\<close>

definition holds :: "document \<Rightarrow> front \<Rightarrow> bool" where
  "holds d w \<longleftrightarrow> gm_get (fr_docs w) (d_id d) = Some d"

lemma holds_upd [simp]: "holds d (w\<lparr>fr_faults := fs\<rparr>) = holds d w"
  by (simp add: holds_def)

lemma holds_own: "holds d w \<Longrightarrow> own (d_id d) (d_user d) (d_s3key d) w"
  by (auto simp: holds_def own_def)

abbreviation knows :: "(uuid \<Rightarrow> string) \<Rightarrow> (uuid \<Rightarrow> int) \<Rightarrow> document \<Rightarrow> front \<Rightarrow> bool" where
  "knows us cap d w \<equiv> sys_ok us cap w \<and> holds d w"

lemma tape_conj: "tape P \<Longrightarrow> tape Q \<Longrightarrow> tape (\<lambda>w. P w \<and> Q w)"
  by (simp add: tape_def)

lemma tape_simps [simp]:
  "tape (holds d)" "tape (own i u k)" "tape (\<lambda>w. scan_free w i)" "tape (\<lambda>w. i < fr_next w)"
  "tape (\<lambda>w. Q (scan_of w i))" "tape (\<lambda>w. Q' (fr_docs w))" "tape (unused us o')" "tape (\<lambda>w. Q'' (fr_execs w))"
  by (simp_all add: tape_def unused_def)

lemma doc_get_triple:
  "triple (sys_ok us cap) (fo_doc_get (front_mem us cfg) u i)
     (\<lambda>r w. sys_ok us cap w \<and> (\<forall>d. r = Inr d \<longrightarrow> holds d w \<and> d_id d = i \<and> d_user d = u))"
proof -
  have eq: "fo_doc_get (front_mem us cfg) u i = ff_call (\<lambda>w. (w, doc_Get u i (fr_docs w)))" by (simp add: front_mem_def)
  show ?thesis unfolding eq
  proof (rule triple_weaken[OF triple_read[OF sys_ok_tape]])
    fix r w assume a: "sys_ok us cap w \<and> (r = Inl front_fault \<or> r = doc_Get u i (fr_docs w))"
    have "holds d w \<and> d_id d = i \<and> d_user d = u" if "r = Inr d" for d
    proof -
      have "gm_get (fr_docs w) i = Some d" "d_user d = u"
        using a that by (auto simp: doc_Get_def split: option.splits if_splits)
      moreover from this have "d_id d = i" using a rows_okD(2) by (metis sys_ok_def)
      ultimately show ?thesis by (simp add: holds_def)
    qed
    then show "sys_ok us cap w \<and> (\<forall>d. r = Inr d \<longrightarrow> holds d w \<and> d_id d = i \<and> d_user d = u)" using a by blast
  qed
qed

lemma doc_by_key_triple:
  "triple (sys_ok us cap) (fo_doc_by_key (front_mem us cfg) u k)
     (\<lambda>r w. sys_ok us cap w \<and> (\<forall>d. r = Inr d \<longrightarrow> holds d w))"
proof -
  have eq: "fo_doc_by_key (front_mem us cfg) u k = ff_call (\<lambda>w. (w, doc_GetByS3Key u k (fr_docs w)))" by (simp add: front_mem_def)
  show ?thesis unfolding eq
  proof (rule triple_weaken[OF triple_read[OF sys_ok_tape]])
    fix r w assume a: "sys_ok us cap w \<and> (r = Inl front_fault \<or> r = doc_GetByS3Key u k (fr_docs w))"
    have "holds d w" if "r = Inr d" for d
    proof -
      have "doc_GetByS3Key u k (fr_docs w) = Inr d" using a that by auto
      then have "d \<in> set (gm_vals (fr_docs w))" by (auto simp: doc_GetByS3Key_def find_Some_iff split: option.splits)
      then obtain i where "(i, d) \<in> set (fr_docs w)" by auto
      then have "gm_get (fr_docs w) i = Some d" using a rows_okD(1) by (metis sys_ok_def map_of_is_SomeI)
      moreover from this have "d_id d = i" using a rows_okD(2) by (metis sys_ok_def)
      ultimately show ?thesis by (simp add: holds_def)
    qed
    then show "sys_ok us cap w \<and> (\<forall>d. r = Inr d \<longrightarrow> holds d w)" using a by blast
  qed
qed

lemma with_docs_triple:
  assumes "\<And>w. P w \<Longrightarrow> Q (w\<lparr>fr_docs := fst (f (fr_clock w) (fr_docs w))\<rparr>)" "tape P" "\<And>w. P w \<Longrightarrow> Q w"
  shows "triple P (ff_proc (\<lambda>w. with_docs (f (fr_clock w)) w)) (\<lambda>_. Q)"
proof (rule triple_ff_proc[OF assms(2)])
  show "triple P (\<lambda>w. with_docs (f (fr_clock w)) w) (\<lambda>_. Q)"
  proof (rule tripleI)
    fix w w' r assume p: "P w" and e: "with_docs (f (fr_clock w)) w = (w', r)"
    obtain d q where d: "f (fr_clock w) (fr_docs w) = (d, q)" by force
    have "w' = w\<lparr>fr_docs := d\<rparr>" using e unfolding with_docs_def d by simp
    then show "Q w'" using assms(1)[OF p] unfolding d by simp
  qed
qed (rule assms(3))

lemma own_status: "own i u k w \<Longrightarrow> own i u k (w\<lparr>fr_docs := fst (doc_UpdateStatus now v j st (fr_docs w))\<rparr>)"
  by (auto simp: own_def doc_UpdateStatus_def split: option.splits)

lemma doc_status_triple:
  assumes "st = DocPending \<or> st = DocFailed"
  shows "triple (sys_ok us cap) (fo_doc_status (front_mem us cfg) u i st) (\<lambda>_. sys_ok us cap)"
    and "triple (\<lambda>w. sys_ok us cap w \<and> own i v k w \<and> scan_free w i) (fo_doc_status (front_mem us cfg) u i st)
           (\<lambda>_ w. sys_ok us cap w \<and> own i v k w \<and> scan_free w i)"
proof -
  have eq: "fo_doc_status (front_mem us cfg) u i st = ff_proc (\<lambda>w. with_docs (doc_UpdateStatus (fr_clock w) u i st) w)"
    by (simp add: front_mem_def)
  show "triple (sys_ok us cap) (fo_doc_status (front_mem us cfg) u i st) (\<lambda>_. sys_ok us cap)"
    unfolding eq by (rule with_docs_triple) (use assms in \<open>auto intro!: sys_ok_status\<close>)
  show "triple (\<lambda>w. sys_ok us cap w \<and> own i v k w \<and> scan_free w i) (fo_doc_status (front_mem us cfg) u i st)
           (\<lambda>_ w. sys_ok us cap w \<and> own i v k w \<and> scan_free w i)"
    unfolding eq by (rule with_docs_triple) (use assms in \<open>auto intro!: sys_ok_status own_status tape_conj\<close>)
qed

lemma doc_delete_triple:
  "triple (sys_ok us cap) (fo_doc_delete (front_mem us cfg) u i) (\<lambda>_. sys_ok us cap)"
proof -
  have eq: "fo_doc_delete (front_mem us cfg) u i = ff_proc (\<lambda>w. with_docs (doc_Delete u i) w)" by (simp add: front_mem_def)
  show ?thesis unfolding eq
    by (rule with_docs_triple[where f = "\<lambda>_. doc_Delete u i"]) (auto intro: sys_ok_delete)
qed

subsubsection \<open>Objects, scans, starting\<close>

lemma del_object_triple:
  "triple (\<lambda>w. sys_ok us cap w \<and> own i u k w) (fo_del (front_mem us cfg) q) (\<lambda>_ w. sys_ok us cap w \<and> own i u k w)"
proof -
  have eq: "fo_del (front_mem us cfg) q = ff_proc (\<lambda>w. (w\<lparr>fr_objects := gm_del q (fr_objects w)\<rparr>, None))" by (simp add: front_mem_def)
  show ?thesis unfolding eq
    by (rule triple_ff_proc) (auto intro!: tape_conj tripleI sys_ok_del_object)
qed

lemma put_object_triple:
  "triple (\<lambda>w. sys_ok us cap w \<and> own i u k w \<and> scan_of w i \<noteq> None) (fo_put (front_mem us cfg) k b) (\<lambda>_. sys_ok us cap)"
proof -
  have eq: "fo_put (front_mem us cfg) k b = ff_proc (\<lambda>w. (w\<lparr>fr_objects := gm_put k b (fr_objects w)\<rparr>, None))" by (simp add: front_mem_def)
  show ?thesis unfolding eq
    by (rule triple_ff_proc) (auto intro!: tripleI simp: tape_def sys_ok_put_object)
qed

lemma sys_ok_own_less: "sys_ok us cap w \<Longrightarrow> own i u k w \<Longrightarrow> i < fr_next w"
  using rows_okD(2) by (fastforce simp: sys_ok_def own_def)

lemma start_triple:
  assumes "d_id doc = i"
  shows "triple (\<lambda>w. sys_ok us cap w \<and> own i u k w \<and> scan_free w i) (ingest_Start (front_mem us cfg) doc) (\<lambda>_. sys_ok us cap)"
  unfolding ingest_Start_def
  by (rule triple_pre[OF _ sys_ok_publish]) (use assms sys_ok_own_less in \<open>auto\<close>)

lemma remove_triple:
  "triple (\<lambda>w. sys_ok us cap w \<and> own (d_id doc) (d_user doc) k w) (ms_remove (front_mem us cfg) doc) (\<lambda>_. sys_ok us cap)"
  unfolding ms_remove_def
  by (rule triple_proc[OF del_object_triple]; (rule triple_return triple_proc[OF triple_pre[OF _ doc_status_triple(1)]])?)
    (auto intro: triple_return)

lemma reject_triple:
  "triple (\<lambda>w. sys_ok us cap w \<and> own (d_id doc) (d_user doc) k w) (ms_reject (front_mem us cfg) doc reason b) (\<lambda>_. sys_ok us cap)"
  unfolding ms_reject_def[abs_def] scanAttempt_def
  by (rule triple_then[OF sys_ok_failed], intro triple_if) (auto intro!: triple_return triple_pre[OF _ remove_triple])

lemma clean_triple:
  "triple (\<lambda>w. sys_ok us cap w \<and> own (d_id doc) (d_user doc) k w) (ms_clean (front_mem us cfg) doc) (\<lambda>_. sys_ok us cap)"
  unfolding ms_clean_def[abs_def] scanAttempt_def scanKey_def
proof (rule triple_then[OF sys_ok_succeeded], intro triple_if)
  fix r :: "gerror option"
  assume r: "\<not> (err_is r ErrNotActive \<or> err_is r ErrJobNotFound)" "\<not> r \<noteq> None"
  show "triple (\<lambda>w. sys_ok us cap w \<and> own (d_id doc) (d_user doc) k w \<and> (r = None \<longrightarrow> scan_free w (d_id doc)))
     (try_proc (ingest_Start (front_mem us cfg) doc)
       (\<lambda>e s. (s, Some (Wrapf ''malware scan: start processing'' e))) (\<lambda>s. (s, None))) (\<lambda>_. sys_ok us cap)"
    by (rule triple_proc[OF triple_pre[OF _ start_triple[OF refl]]]) (use r in \<open>auto intro: triple_return\<close>)
qed (auto intro: triple_return)

lemma scan_event_triple: "triple (sys_ok us cap) (HandleEvent (front_mem us cfg) parse e) (\<lambda>_. sys_ok us cap)"
proof -
  have result: "triple (sys_ok us cap) (HandleResult (front_mem us cfg) parse r) (\<lambda>_. sys_ok us cap)" for r
    unfolding HandleResult_def[abs_def]
    by (intro triple_option triple_return triple_then[OF doc_by_key_triple] triple_sum triple_if)
      (auto intro!: triple_pre[OF _ clean_triple] triple_pre[OF _ reject_triple] holds_own)
  have timeout: "triple (sys_ok us cap) (HandleTimeout (front_mem us cfg) d u) (\<lambda>_. sys_ok us cap)" for d u
    unfolding HandleTimeout_def[abs_def]
    by (intro triple_return triple_then[OF doc_get_triple] triple_sum triple_if)
      (auto intro!: triple_pre[OF _ reject_triple] holds_own)
  have ret: "triple (sys_ok us cap) (\<lambda>s. (s, q :: gerror option)) (\<lambda>_. sys_ok us cap)" for q by (rule triple_return)
  show ?thesis
    by (cases e) (auto simp: fun_eq_iff[symmetric] intro!: ret tripleI
        dest: tripleD[OF result] tripleD[OF timeout] split: if_splits)
qed

subsubsection \<open>Reads whose answer matters\<close>

lemma active_triple:
  assumes "dc_jobs C" "d_user doc = u"
  shows "triple (knows us cap doc) (hasActiveJobForDocument (front_mem us cfg) C u (d_id doc))
    (\<lambda>r w. knows us cap doc w \<and>
       (r = Inr False \<longrightarrow> (\<forall>rec. scan_of w (d_id doc) = Some rec \<longrightarrow> \<not> Active (r_status rec))))"
proof -
  let ?f = "\<lambda>w. Inr (js_ActiveJobsForDocuments (fr_jobs w) u [d_id doc]) :: gerror + (nat \<times> job_status list) list"
  have eq: "fo_active (front_mem us cfg) u [d_id doc] = ff_call (\<lambda>w. (w, ?f w))" by (simp add: front_mem_def)
  have idle: "\<not> Active (r_status rec)"
    if k: "knows us cap doc w" and none: "gm_get_or [] (js_ActiveJobsForDocuments (fr_jobs w) u [d_id doc]) (d_id doc) = []"
      and rec: "scan_of w (d_id doc) = Some rec" for w rec
  proof
    assume act: "Active (r_status rec)"
    have s: "scans_ok w" using k by (simp add: sys_ok_def)
    have "k_user (r_key rec) = u" using scans_okD(3)[OF s _ rec] k assms(2) unfolding holds_def by blast
    then have "js_Get (fr_jobs w) \<lparr>k_user = u, k_doc = d_id doc, k_type = MalwareScan\<rparr> = Inr rec"
      using rec by (auto simp: front_recs_def js_recs_def js_Get_def slot_of_def)
    then have "job_status_of rec \<in> set (gm_get_or [] (js_ActiveJobsForDocuments (fr_jobs w) u [d_id doc]) (d_id doc))"
      using act active_jobs_set[OF scans_okD(1)[OF s], of u "[d_id doc]" "d_id doc"] by auto
    then show False using none by simp
  qed
  have "triple (knows us cap doc) (\<lambda>w. ff_call (\<lambda>w. (w, ?f w)) w)
      (\<lambda>r w. knows us cap doc w \<and> (r = Inl front_fault \<or> r = ?f w))"
    by (rule triple_read) (simp add: tape_conj)
  then show ?thesis unfolding hasActiveJobForDocument_def[abs_def] eq
    by (simp only: assms(1) simp_thms if_False, intro triple_call)
      (auto intro!: triple_return, metis idle)
qed

lemma rejection_triple:
  "triple (\<lambda>w. knows us cap doc w \<and> (\<forall>rec. scan_of w (d_id doc) = Some rec \<longrightarrow> \<not> Active (r_status rec)))
     (scans_Rejection (front_mem us cfg) (d_user doc) (d_id doc))
     (\<lambda>r w. knows us cap doc w \<and> (\<forall>v. r = Inr v \<longrightarrow> \<not> snd v \<longrightarrow> scan_free w (d_id doc)))"
  (is "triple ?P _ _")
proof -
  let ?k = "scanKeyOf (d_user doc) (d_id doc)"
  have eq: "fo_status_get (front_mem us cfg) ?k = ff_call (\<lambda>w. (w, js_Get (fr_jobs w) ?k))" by (simp add: front_mem_def)
  have tape: "tape ?P" by (simp add: tape_def)
  have free: "scan_free w (d_id doc)"
    if p: "?P w" and q: "js_Get (fr_jobs w) ?k = Inl e \<or> (\<exists>rec. js_Get (fr_jobs w) ?k = Inr rec \<and> r_status rec \<noteq> StFailed)" for w e
  proof (cases "scan_of w (d_id doc)")
    case (Some rec)
    have s: "scans_ok w" using p by (simp add: sys_ok_def)
    have u: "k_user (r_key rec) = d_user doc" using scans_okD(3)[OF s _ Some] p unfolding holds_def by blast
    from Some obtain row where row: "gm_get (js_rows (fr_jobs w)) (d_id doc, MalwareScan) = Some row" "row_rec row = rec"
      by (auto simp: front_recs_def js_recs_def)
    then have g: "js_Get (fr_jobs w) ?k = Inr rec" using u by (simp add: js_Get_def slot_of_def scanKeyOf_def)
    have "jrecord_ok rec" using js_wfD(2)[OF scans_okD(1)[OF s] row(1)] row(2) by simp
    moreover have "\<not> Active (r_status rec)" using p Some by blast
    moreover have "r_status rec \<noteq> StFailed" using q g by auto
    ultimately show ?thesis using Some by (auto simp: scan_free_def jrecord_ok_def)
  qed (simp add: scan_free_def)
  show ?thesis unfolding scans_Rejection_def[abs_def] eq
    by (intro triple_then[OF triple_read[OF tape]] triple_sum triple_if triple_return) (auto intro!: free dest!: sym[of _ "js_Get _ _"])
qed

lemma keep_read: "tape P \<Longrightarrow> triple P (ff_call (\<lambda>w. (w, f w))) (\<lambda>_. P)"
  by (rule triple_weaken[where P' = P, OF triple_read]) auto

lemma api_reads:
  assumes "tape P"
  shows "triple P (fo_kb_get (front_mem us cfg) u i) (\<lambda>_. P)" "triple P (fo_kb_list (front_mem us cfg) u) (\<lambda>_. P)"
    "triple P (fo_doc_list_kb (front_mem us cfg) u i) (\<lambda>_. P)" "triple P (fo_active (front_mem us cfg) u ds) (\<lambda>_. P)"
    "triple P (fo_get (front_mem us cfg) k) (\<lambda>_. P)" "triple P (fo_status_get (front_mem us cfg) key) (\<lambda>_. P)"
    "triple P (fo_manifest (front_mem us cfg) u d) (\<lambda>_. P)" "triple P (fo_doc_get (front_mem us cfg) u i) (\<lambda>_. P)"
  using keep_read[OF assms] by (simp_all add: front_mem_def)

lemma with_document_triple:
  assumes "\<And>u doc. d_user doc = u \<Longrightarrow> triple (knows us cap doc) (k u doc) (\<lambda>_. sys_ok us cap)"
  shows "triple (sys_ok us cap) (with_document (front_mem us cfg) parse r k) (\<lambda>_. sys_ok us cap)"
proof -
  have k: "triple (\<lambda>w. sys_ok us cap w \<and> (\<forall>d. Inr doc = Inr d \<longrightarrow> holds d w \<and> d_id d = i \<and> d_user d = u)) (k u doc) (\<lambda>_. sys_ok us cap)"
    for u i doc
    by (rule triple_factI[where A = "d_user doc = u"]) (auto intro: triple_pre[OF _ assms])
  show ?thesis unfolding with_document_def requireUserID_def[abs_def] parseUUID_def[abs_def]
    by (intro triple_option triple_return triple_call[OF doc_get_triple] triple_if k) auto
qed


subsection \<open>The handlers\<close>

lemma triple_const: "(\<And>s. P s \<Longrightarrow> Q s) \<Longrightarrow> triple P (\<lambda>s. (s, r)) (\<lambda>_. Q)"
  by (rule triple_return)

lemma retry_triple:
  assumes "dc_jobs C"
  shows "triple (sys_ok us cap) (doch_retry (front_mem us cfg) parse C r) (\<lambda>_. sys_ok us cap)"
  unfolding doch_retry_def
proof (rule with_document_triple, goal_cases)
  case (1 u doc)
  note u = this
  let ?F = "front_mem us cfg" and ?i = "d_id doc"
  let ?J = "\<lambda>w. sys_ok us cap w \<and> own ?i u (d_s3key doc) w \<and> scan_free w ?i"
  have start: "triple ?J (try_proc (ingest_Start ?F doc)
      (\<lambda>e. ignore (fo_doc_status ?F u ?i DocFailed) (\<lambda>s. (s, Problem 500 ''failed to enqueue document for reprocessing'')))
      (try_call (fo_doc_get ?F u ?i) (\<lambda>e s. (s, Problem 500 ''failed to load updated document''))
         (\<lambda>updated s. (s, Reply 200 updated)))) (\<lambda>_. sys_ok us cap)"
    by (intro triple_proc[OF start_triple[OF refl]] triple_ignore[OF doc_status_triple(1)]
        triple_call_keep[OF api_reads(8)] triple_return) simp_all
  have reset: "triple (\<lambda>w. knows us cap doc w \<and> scan_free w ?i)
      (try_proc (fo_doc_status ?F u ?i DocPending) (\<lambda>e s. (s, Problem 500 ''failed to reset document status''))
        (try_proc (ingest_Start ?F doc)
          (\<lambda>e. ignore (fo_doc_status ?F u ?i DocFailed) (\<lambda>s. (s, Problem 500 ''failed to enqueue document for reprocessing'')))
          (try_call (fo_doc_get ?F u ?i) (\<lambda>e s. (s, Problem 500 ''failed to load updated document''))
             (\<lambda>updated s. (s, Reply 200 updated))))) (\<lambda>_. sys_ok us cap)"
    by (rule triple_pre[where P' = ?J], use holds_own u in blast,
        rule triple_proc[OF doc_status_triple(2) _ start]) (auto intro: triple_return)
  show ?case
    unfolding u[symmetric]
    by (intro triple_if triple_return triple_call[OF active_triple[OF assms refl]])
      (auto intro!: triple_return triple_if triple_pre[OF _ reset[unfolded u[symmetric]]]
        triple_call[OF triple_pre[OF _ rejection_triple]])
qed

lemma publish_triple:
  "triple (\<lambda>w. sys_ok us cap w \<and> own i u k w \<and> scan_free w i) (fo_publish (front_mem us cfg) (EntityExtractionRequested i v)) (\<lambda>_. sys_ok us cap)"
  by (rule triple_pre[OF _ sys_ok_publish]) (auto intro: sys_ok_own_less)

lemma indexed_free:
  assumes "knows us cap doc w" "d_status doc = DocIndexed"
  shows "scan_free w (d_id doc)"
  using assms scans_okD(5,6) unfolding sys_ok_def holds_def by blast

lemma retry_entities_triple:
  assumes "dc_jobs C"
  shows "triple (sys_ok us cap) (doch_retryEntityExtraction (front_mem us cfg) parse C r) (\<lambda>_. sys_ok us cap)"
  unfolding doch_retryEntityExtraction_def
  by (rule with_document_triple)
    (auto intro!: triple_if triple_return triple_call[OF active_triple[OF assms]] triple_proc[OF triple_pre[OF _ publish_triple]]
      intro: holds_own indexed_free)

lemma delete_triple:
  shows "triple (sys_ok us cap) (doch_delete (front_mem us cfg) parse C r) (\<lambda>_. sys_ok us cap)"
  unfolding doch_delete_def
proof (rule with_document_triple, goal_cases)
  case (1 u doc)
  note u = this
  let ?F = "front_mem us cfg" and ?i = "d_id doc"
  let ?J = "\<lambda>w. sys_ok us cap w \<and> own ?i u (d_s3key doc) w"
  have act: "triple ?J (hasActiveJobForDocument ?F C u ?i) (\<lambda>_. ?J)"
    unfolding hasActiveJobForDocument_def[abs_def]
    by (intro triple_if triple_return triple_call_keep[OF api_reads(4)]) (simp_all add: tape_conj)
  have canon: "triple ?J (\<lambda>s. if dc_canonical C then fo_canon ?F u ?i s else (s, None)) (\<lambda>_. ?J)"
  proof (intro triple_if triple_return)
    show "triple ?J (fo_canon ?F u ?i) (\<lambda>_. ?J)"
      unfolding front_mem_def by (simp, rule triple_ff_proc) (auto intro!: tripleI simp: tape_conj)
  qed
  show ?case
    by (rule triple_pre[where P' = ?J], use holds_own u in blast)
      (intro triple_if triple_return triple_call[OF act] triple_proc[OF canon] triple_proc[OF del_object_triple]
        triple_proc[OF triple_pre[OF _ doc_delete_triple]]; simp)
qed

subsubsection \<open>Upload\<close>

text \<open>A row just created: nothing is scanned, stored or processed under it.\<close>

definition fresh_row :: "(uuid \<Rightarrow> string) \<Rightarrow> (uuid \<Rightarrow> int) \<Rightarrow> uuid \<Rightarrow> string \<Rightarrow> document \<Rightarrow> front \<Rightarrow> bool" where
  "fresh_row us cap u k x w \<longleftrightarrow> sys_ok us cap w \<and> own (d_id x) u k w \<and> d_user x = u \<and> d_s3key x = k \<and>
     scan_of w (d_id x) = None \<and> processing_of (d_id x) (fr_execs w) = []"

lemma fresh_row_tape: "tape (fresh_row us cap u k x)"
  by (simp add: tape_def fresh_row_def)

definition room :: "(uuid \<Rightarrow> int) \<Rightarrow> uuid \<Rightarrow> front \<Rightarrow> bool" where
  "room cap u w \<longleftrightarrow> int (length (doc_ListByUserID u (fr_docs w))) < cap u"

lemma new_uuid_triple:
  assumes "path_safe us"
  shows "triple (\<lambda>w. sys_ok us cap w \<and> room cap u w) (fo_new_uuid (front_mem us cfg))
    (\<lambda>i w. sys_ok us cap w \<and> room cap u w \<and> unused us i w)"
  by (rule tripleI) (auto simp: front_mem_def room_def sys_ok_next unused_fresh[OF assms])

lemma doc_create_triple:
  assumes "key_object us o' (d_s3key d)" "d_status d = DocPending"
  shows "triple (\<lambda>w. sys_ok us cap w \<and> room cap (d_user d) w \<and> unused us o' w) (fo_doc_create (front_mem us cfg) d)
    (\<lambda>r w. sys_ok us cap w \<and> (\<forall>x. r = Inr x \<longrightarrow> fresh_row us cap (d_user d) (d_s3key d) x w))"
proof -
  let ?p = "\<lambda>w. case doc_Create (fr_next w) (fr_clock w) d (fr_docs w) of
        (r, x) \<Rightarrow> (w\<lparr>fr_docs := r, fr_next := Suc (fr_next w)\<rparr>, Inr x :: gerror + document)"
  have eq: "fo_doc_create (front_mem us cfg) d = ff_call ?p" by (simp add: front_mem_def)
  show ?thesis unfolding eq
  proof (rule triple_ff_call)
    show "tape (\<lambda>w. sys_ok us cap w \<and> room cap (d_user d) w \<and> unused us o' w)" by (simp add: tape_def room_def unused_def)
    show "triple (\<lambda>w. sys_ok us cap w \<and> room cap (d_user d) w \<and> unused us o' w) ?p
       (\<lambda>r w. sys_ok us cap w \<and> (\<forall>x. r = Inr x \<longrightarrow> fresh_row us cap (d_user d) (d_s3key d) x w))"
    proof (rule tripleI)
      fix w w' r assume pre: "sys_ok us cap w \<and> room cap (d_user d) w \<and> unused us o' w" and e: "?p w = (w', r)"
      define x where "x = d\<lparr>d_id := fr_next w, d_created := fr_clock w, d_updated := fr_clock w\<rparr>"
      have w': "w' = w\<lparr>fr_docs := gm_put (fr_next w) x (fr_docs w), fr_next := Suc (fr_next w)\<rparr>" and r: "r = Inr x"
        using e by (simp_all add: doc_Create_def x_def Let_def)
      have "int (length (doc_ListByUserID (d_user d) (fr_docs w))) < cap (d_user d)" using pre by (simp add: room_def)
      note c = sys_ok_create[where cap = cap and w = w and d = d, OF _ _ assms this, where now = "fr_clock w"]
      have "fresh_row us cap (d_user d) (d_s3key d) x w'"
        using c pre unfolding fresh_row_def w' x_def by simp
      then show "sys_ok us cap w' \<and> (\<forall>x. r = Inr x \<longrightarrow> fresh_row us cap (d_user d) (d_s3key d) x w')"
        using r by (simp add: fresh_row_def)
    qed
  qed simp
qed

lemma enqueue_scan_triple:
  "triple (fresh_row us cap u k x) (sw_enqueue (fo_status (front_mem us cfg)) (scanKey x))
    (\<lambda>r w. sys_ok us cap w \<and> own (d_id x) u k w \<and> (\<forall>q. r = Inr q \<longrightarrow> scan_of w (d_id x) \<noteq> None))"
proof (rule tripleI)
  fix w w' r
  assume pre: "fresh_row us cap u k x w" and p: "sw_enqueue (fo_status (front_mem us cfg)) (scanKey x) w = (w', r)"
  have p: "sw_enqueue front_status (scanKey x) w = (w', r)" using p by (simp add: front_mem_def)
  have ok: "sys_ok us cap w" "own (d_id x) u k w" "d_user x = u" "scan_of w (d_id x) = None" "processing_of (d_id x) (fr_execs w) = []"
    using pre by (simp_all add: fresh_row_def)
  have s: "scans_ok w" using ok(1) by (simp add: sys_ok_def)
  have wf: "js_wf (fr_jobs w')" by (rule tripleD[OF front_status_wf(1) scans_okD(1)[OF s] p])
  note rst = enqueue_rest[OF p] and ex = fr.enqueue_execs[OF p]
  let ?rec = "\<lparr>r_key = scanKey x, r_status = StPending, r_phase = '''', r_attempt = 1, r_last_error = ''''\<rparr>"
  have sp: "spec_enqueue (scanKey x) (front_recs w) = ((front_recs w)(slot_of (scanKey x) \<mapsto> ?rec), Inr \<lparr>enq_attempt = 1, enq_started = True\<rparr>)"
    using ok(4) by (simp add: spec_enqueue_def visible_def Enqueue_def)
  have step: "front_recs w' = (front_recs w)(slot_of (scanKey x) \<mapsto> ?rec) \<or> (front_recs w' = front_recs w \<and> (\<exists>e. r = Inl e))"
    using front_enqueue[of "scanKey x"] p sp unfolding enqueue_refines_def by (metis fst_conv)
  show "sys_ok us cap w' \<and> own (d_id x) u k w' \<and> (\<forall>q. r = Inr q \<longrightarrow> scan_of w' (d_id x) \<noteq> None)"
  proof (cases "front_recs w' = front_recs w")
    case True
    then have "sys_ok us cap w'" using sys_ok_other_jobs[OF ok(1) rst wf] ex by simp
    moreover have "\<exists>e. r = Inl e" using step True ok(4) by (auto simp: fun_upd_def dest: fun_cong[of _ _ "(d_id x, MalwareScan)"])
    ultimately show ?thesis using ok(2) own_cong[of w' w] rst by (auto simp: rest_def)
  next
    case False
    then have recs: "front_recs w' = (front_recs w)(slot_of (scanKey x) \<mapsto> ?rec)" using step by blast
    obtain y where y: "gm_get (fr_docs w) (d_id x) = Some y" "d_user y = u" using ok(2) by (auto simp: own_def)
    have "sys_ok us cap w'"
    proof (rule sys_ok_jobs[OF ok(1) rst wf])
      show "i < fr_next w \<and> r_attempt rec = 1 \<and> (\<forall>z. gm_get (fr_docs w) i = Some z \<longrightarrow> k_user (r_key rec) = d_user z)"
        if "scan_of w' i = Some rec" for i rec
      proof (cases "i = d_id x")
        case True
        then show ?thesis using that recs y ok(3) sys_ok_own_less[OF ok(1,2)] by auto
      next
        case False
        then show ?thesis using that recs scans_okD(2,3)[OF s] by simp
      qed
      show "i < fr_next w \<and> scan_free w' i" if "processing_of i (fr_execs w') \<noteq> []" for i
      proof -
        have "i \<noteq> d_id x" using that ex ok(5) by auto
        then have "scan_of w' i = scan_of w i" by (simp add: recs)
        then show ?thesis using scans_okD(5)[OF s, of i] that ex scan_free_cong by metis
      qed
    qed (use recs ex in simp_all)
    then show ?thesis using ok(2) own_cong[of w' w] rst by (simp add: rest_def recs)
  qed
qed

lemma timeout_triple:
  "triple (\<lambda>w. sys_ok us cap w \<and> own i u k w \<and> scan_of w i \<noteq> None) (fo_start (front_mem us cfg) arn name (TimeoutInput d v))
    (\<lambda>_ w. sys_ok us cap w \<and> own i u k w \<and> scan_of w i \<noteq> None)"
proof (rule tripleI)
  fix w w' r
  assume pre: "sys_ok us cap w \<and> own i u k w \<and> scan_of w i \<noteq> None" and p: "fo_start (front_mem us cfg) arn name (TimeoutInput d v) w = (w', r)"
  have p: "front_start arn name (TimeoutInput d v) w = (w', r)" using p by (simp add: front_mem_def)
  have "fr_jobs w' = fr_jobs w \<and> (\<forall>i. processing_of i (fr_execs w') = processing_of i (fr_execs w))"
    using p[unfolded front_start_def] by (cases rule: ff_proc_cases) (auto simp: processing_of_def split: if_splits)
  moreover from this have "front_recs w' = front_recs w" by (simp add: front_recs_def)
  moreover have "js_wf (fr_jobs w)" using pre by (simp add: sys_ok_def scans_ok_def)
  ultimately have "sys_ok us cap w'" "front_recs w' = front_recs w"
    using sys_ok_other_jobs[OF _ start_rest[OF p]] pre by simp_all
  then show "sys_ok us cap w' \<and> own i u k w' \<and> scan_of w' i \<noteq> None"
    using pre own_cong[of w' w] start_rest[OF p] by (simp add: rest_def)
qed

lemma begin_triple:
  "triple (fresh_row us cap u k x) (scans_Begin (front_mem us cfg) us'' arn x)
    (\<lambda>r w. sys_ok us cap w \<and> own (d_id x) u k w \<and> (r = None \<longrightarrow> scan_of w (d_id x) \<noteq> None))"
  unfolding scans_Begin_def
proof (rule triple_call[OF enqueue_scan_triple], rule triple_return, simp)
  fix started
  show "triple (\<lambda>w. sys_ok us cap w \<and> own (d_id x) u k w \<and> (\<forall>q. Inr started = Inr q \<longrightarrow> scan_of w (d_id x) \<noteq> None))
     (\<lambda>s. case fo_start (front_mem us cfg) arn (TimeoutExecutionName us'' (d_id x)) (TimeoutInput (d_id x) (d_user x)) s of
            (s, err) \<Rightarrow>
              if err \<noteq> None \<and> \<not> err_is err ErrExecutionAlreadyExists then
                try_proc (sw_mark_failed (fo_status (front_mem us cfg)) (scanKey x) (enq_attempt started) reasonBeginFailed)
                  (\<lambda>markErr s. (s, Some (Wrapf ''malware scan: start timeout'' (Joined [the err, markErr]))))
                  (\<lambda>s. (s, Some (Wrapf ''malware scan: start timeout'' (the err)))) s
              else (s, None))
     (\<lambda>r w. sys_ok us cap w \<and> own (d_id x) u k w \<and> (r = None \<longrightarrow> scan_of w (d_id x) \<noteq> None))"
    by (rule triple_then[OF triple_pre[OF _ timeout_triple]])
      (auto intro!: triple_if triple_return triple_proc[OF triple_pre[OF _ sys_ok_failed]])
qed

lemma abandon_ok: "sys_ok us cap w \<Longrightarrow> sys_ok us cap (abandonUpload (front_mem us cfg) doc w)"
proof -
  assume ok: "sys_ok us cap w"
  obtain w1 r1 where w1: "fo_doc_delete (front_mem us cfg) (d_user doc) (d_id doc) w = (w1, r1)" by force
  obtain w2 r2 where w2: "fo_doc_status (front_mem us cfg) (d_user doc) (d_id doc) DocFailed w1 = (w2, r2)" by force
  have ok1: "sys_ok us cap w1" by (rule tripleD[OF doc_delete_triple ok w1])
  have "sys_ok us cap w2" by (rule tripleD[OF doc_status_triple(1) ok1 w2]) simp
  then show ?thesis using ok1 w1 w2 by (cases r1) (simp_all add: abandonUpload_def ignore_def)
qed

lemma store_upload_triple:
  assumes "path_safe us"
  shows "triple (\<lambda>w. sys_ok us cap w \<and> room cap u w) (store_upload (front_mem us cfg) us C u kb f ct sz b) (\<lambda>_. sys_ok us cap)"
proof -
  let ?F = "front_mem us cfg"
  have key: "key_object us i (upload_key us u kb i f)" for i by (auto simp: key_object_def)
  have put: "triple (\<lambda>w. sys_ok us cap w \<and> own (d_id x) u k w \<and> (None = None \<longrightarrow> scan_of w (d_id x) \<noteq> None))
     (try_proc (fo_put ?F k b) (\<lambda>e s. (abandonUpload ?F x s, Problem 500 ''failed to store file'')) (\<lambda>s. (s, Reply 201 x)))
     (\<lambda>_. sys_ok us cap)" for k x
    by (rule triple_proc[OF triple_pre[OF _ put_object_triple]]) (auto intro!: tripleI simp: abandon_ok)
  have stored: "triple (fresh_row us cap u k x)
     (try_proc (scans_Begin ?F us (dc_timeout_arn C) x)
        (\<lambda>e s. (abandonUpload ?F x s, Problem 500 ''failed to start the malware scan''))
        (try_proc (fo_put ?F k b) (\<lambda>e s. (abandonUpload ?F x s, Problem 500 ''failed to store file'')) (\<lambda>s. (s, Reply 201 x))))
     (\<lambda>_. sys_ok us cap)" for k x
    by (rule triple_proc[OF begin_triple _ put]) (auto intro!: tripleI simp: abandon_ok)
  show ?thesis unfolding store_upload_def[abs_def] Let_def
    by (intro triple_then[OF new_uuid_triple[OF assms]] triple_call[OF triple_pre[OF _ doc_create_triple]])
      (auto simp: upload_row_def key intro!: triple_return triple_pre[OF _ stored])
qed

lemma upload_body_triple:
  assumes "path_safe us"
  shows "triple (\<lambda>w. sys_ok us cap w \<and> room cap u w) (upload_body (front_mem us cfg) us C form u kb) (\<lambda>_. sys_ok us cap)"
  unfolding upload_body_def[abs_def] Let_def
  by (cases form; simp only: upload_form.case;
      intro triple_option triple_if triple_return store_upload_triple[OF assms]) simp_all

lemma upload_checked_triple:
  "triple (sys_ok us cap) (upload_checked (front_mem us cfg) parse C r (\<lambda>u kb s. (s, Reply 100 (u, kb))))
     (\<lambda>q w. sys_ok us cap w \<and> (\<forall>n u kb. q = Reply n (u, kb) \<longrightarrow> int (length (doc_ListByUserID u (fr_docs w))) < dc_max_docs C))"
proof -
  let ?F = "front_mem us cfg"
  have list: "triple (sys_ok us cap) (fo_doc_list_user ?F u)
     (\<lambda>r w. sys_ok us cap w \<and> (r = Inl front_fault \<or> r = Inr (doc_ListByUserID u (fr_docs w))))" for u
    using triple_read[OF sys_ok_tape[of us cap], of "\<lambda>w. Inr (doc_ListByUserID u (fr_docs w))"] by (simp add: front_mem_def)
  show ?thesis unfolding upload_checked_def requireUserID_def[abs_def] parseUUID_def[abs_def]
    by (intro triple_option triple_return triple_call_keep[OF api_reads(1)] triple_call[OF list] triple_if)
      (auto simp: writeKBError_def)
qed

subsubsection \<open>The other routes\<close>

lemma rejection_keep: "triple (sys_ok us cap) (scans_Rejection (front_mem us cfg) u d) (\<lambda>_. sys_ok us cap)"
  unfolding scans_Rejection_def[abs_def]
  by (intro triple_then[OF api_reads(6)] triple_sum triple_if triple_return) simp_all

lemma reason_keep: "triple (sys_ok us cap) (rejectionReason (front_mem us cfg) d) (\<lambda>_. sys_ok us cap)"
  unfolding rejectionReason_def[abs_def]
  by (intro triple_if triple_return triple_call_keep[OF rejection_keep])

lemma reasons_keep: "triple (sys_ok us cap) (reject_reasons (front_mem us cfg) ds) (\<lambda>_. sys_ok us cap)"
proof (induction ds)
  case Nil
  show ?case by (rule tripleI) simp
next
  case (Cons d ds)
  have "reject_reasons (front_mem us cfg) (d # ds) = (\<lambda>s. case rejectionReason (front_mem us cfg) d s of (s, r) \<Rightarrow>
      case reject_reasons (front_mem us cfg) ds s of (s, rs) \<Rightarrow> (s, r # rs))"
    by (rule ext) simp
  then show ?case using Cons by (auto intro!: triple_then[OF reason_keep] triple_then[OF Cons] triple_return)
qed

lemma enrich_keep: "triple (sys_ok us cap) (enrichPage (front_mem us cfg) C u p) (\<lambda>_. sys_ok us cap)"
  unfolding enrichPage_def[abs_def] Let_def
  by (intro triple_if triple_then[OF reasons_keep] triple_then[OF api_reads(4)] triple_return) simp_all

lemma ret_keep: "triple (sys_ok us cap) (\<lambda>s. (s, q)) (\<lambda>_. sys_ok us cap)"
  by (rule triple_return)

lemma list_keep: "triple (sys_ok us cap) (doch_list (front_mem us cfg) us' parse C r) (\<lambda>_. sys_ok us cap)"
  unfolding doch_list_def requireUserID_def[abs_def] parseUUID_def[abs_def] case_prod_beta
  by (intro triple_option ret_keep triple_call_keep[OF api_reads(1)] triple_call_keep[OF api_reads(3)]
      triple_then[OF enrich_keep, unfolded case_prod_beta]) simp_all

lemma get_keep: "triple (sys_ok us cap) (doch_get (front_mem us cfg) parse C r) (\<lambda>_. sys_ok us cap)"
  unfolding doch_get_def
  by (rule with_document_triple, rule triple_pre[where P' = "sys_ok us cap"], simp)
    (intro triple_then[OF reason_keep] triple_if ret_keep triple_then[OF api_reads(7)], simp)

lemma content_keep: "triple (sys_ok us cap) (doch_content (front_mem us cfg) parse r) (\<lambda>_. sys_ok us cap)"
  unfolding doch_content_def
  by (rule with_document_triple, rule triple_pre[where P' = "sys_ok us cap"], simp)
    (intro triple_call_keep[OF api_reads(5)] ret_keep, simp)

lemma kbs_proc_keep: "triple (sys_ok us cap) (ff_proc (\<lambda>w. case f (fr_kbs w) of (r, x) \<Rightarrow> (w\<lparr>fr_kbs := r\<rparr>, x))) (\<lambda>_. sys_ok us cap)"
  by (rule triple_ff_proc) (auto intro!: tripleI split: prod.splits)

lemma kb_writes_keep:
  "triple (sys_ok us cap) (fo_kb_create (front_mem us cfg) u name) (\<lambda>_. sys_ok us cap)"
  "triple (sys_ok us cap) (fo_kb_rename (front_mem us cfg) u i name) (\<lambda>_. sys_ok us cap)"
  "triple (sys_ok us cap) (fo_kb_delete (front_mem us cfg) u i) (\<lambda>_. sys_ok us cap)"
proof -
  have next': "sys_ok us cap (w\<lparr>fr_kbs := k, fr_next := Suc (fr_next w)\<rparr>)" if "sys_ok us cap w" for w k
    using sys_ok_next[of us cap "w\<lparr>fr_kbs := k\<rparr>"] that by simp
  show "triple (sys_ok us cap) (fo_kb_create (front_mem us cfg) u name) (\<lambda>_. sys_ok us cap)"
    unfolding front_mem_def by (simp, rule triple_ff_call) (auto intro!: tripleI next' split: prod.splits)
  show "triple (sys_ok us cap) (fo_kb_rename (front_mem us cfg) u i name) (\<lambda>_. sys_ok us cap)"
    unfolding front_mem_def by (simp, rule triple_ff_call) (auto intro!: tripleI split: prod.splits)
  show "triple (sys_ok us cap) (fo_kb_delete (front_mem us cfg) u i) (\<lambda>_. sys_ok us cap)"
    unfolding front_mem_def using kbs_proc_keep by simp
qed

lemma kb_handlers_keep:
  "triple (sys_ok us cap) (kbh_create (front_mem us cfg) r b) (\<lambda>_. sys_ok us cap)"
  "triple (sys_ok us cap) (kbh_list (front_mem us cfg) us' parse r) (\<lambda>_. sys_ok us cap)"
  "triple (sys_ok us cap) (kbh_get (front_mem us cfg) parse r) (\<lambda>_. sys_ok us cap)"
  "triple (sys_ok us cap) (kbh_rename (front_mem us cfg) parse r b) (\<lambda>_. sys_ok us cap)"
  "triple (sys_ok us cap) (kbh_delete (front_mem us cfg) parse r) (\<lambda>_. sys_ok us cap)"
  unfolding kbh_create_def kbh_list_def kbh_get_def kbh_rename_def kbh_delete_def requireUserID_def[abs_def]
    parseUUID_def[abs_def] case_prod_beta
  by (intro triple_option ret_keep triple_if triple_call_keep[OF kb_writes_keep(1)] triple_call_keep[OF kb_writes_keep(2)]
      triple_proc_keep[OF kb_writes_keep(3)] triple_call_keep[OF api_reads(1)] triple_call_keep[OF api_reads(2)]; simp)+

subsection \<open>Any run\<close>

lemma api_step_ok:
  assumes "path_safe (api_us A)" "dc_jobs (api_doc A)" "sys_ok (api_us A) cap w"
  shows "sys_ok (api_us A) cap (api_step A q w)"
  using assms by (cases q)
    (auto intro!: triple_fst[OF kb_handlers_keep(1)] triple_fst[OF kb_handlers_keep(2)] triple_fst[OF kb_handlers_keep(3)]
      triple_fst[OF kb_handlers_keep(4)] triple_fst[OF kb_handlers_keep(5)]
      triple_fst[OF list_keep] triple_fst[OF get_keep] triple_fst[OF content_keep] triple_fst[OF delete_triple]
      triple_fst[OF retry_triple] triple_fst[OF retry_entities_triple])

lemma pipeline_job_ok:
  assumes "sys_ok us cap w" "pipeline_op op"
  shows "sys_ok us cap (w\<lparr>fr_jobs := js_step op (fr_jobs w)\<rparr>)"
proof (rule sys_ok_other_jobs[OF assms(1)])
  show "js_wf (fr_jobs (w\<lparr>fr_jobs := js_step op (fr_jobs w)\<rparr>))"
    using assms(1) by (simp add: sys_ok_def scans_ok_def js_wf_step)
  have "(i, MalwareScan) \<noteq> slot_of (op_key op)" for i using assms(2) by (auto simp: pipeline_op_def slot_of_def)
  then have "spec_step op R (i, MalwareScan) = R (i, MalwareScan)" for i R
    by (cases op) (auto simp: spec_enqueue_def spec_transition_def split: option.splits)
  then show "scan_of (w\<lparr>fr_jobs := js_step op (fr_jobs w)\<rparr>) i = scan_of w i" for i
    by (simp only: front_recs_upd front_recs_def[of w] js_recs_step)
qed simp_all

lemma front_step_ok:
  assumes "path_safe (api_us A)" "dc_jobs (api_doc A)" "sys_ok (api_us A) cap w"
  shows "sys_ok (api_us A) cap (front_step A w e)"
proof (cases e)
  case (Request q fs)
  then show ?thesis using api_step_ok[OF assms(1,2), of cap "w\<lparr>fr_faults := fs\<rparr>" q] assms(3) by simp
next
  case (ScanEvent ev fs)
  then show ?thesis using triple_fst[OF scan_event_triple, of "api_us A" cap "w\<lparr>fr_faults := fs\<rparr>"] assms(3)
    by (simp add: scan_step_def)
next
  case (PipelineDoc u d st)
  then show ?thesis using assms(3) by (auto intro: sys_ok_status)
next
  case (PipelineJob op)
  then show ?thesis using assms(3) pipeline_job_ok by simp
qed (use assms(3) in simp_all)

text \<open>Only the bound on the rows depends on \<open>cap\<close>.\<close>

lemma sys_ok_cap:
  assumes "sys_ok us cap w" "\<And>u. int (length (doc_ListByUserID u (fr_docs w))) \<le> cap' u"
  shows "sys_ok us cap' w"
  using assms by (simp add: sys_ok_def rows_ok_def)

text \<open>
  What uploads can do to the cap: each upload under way was let in below it, so the rows and the
  uploads under way together exceed it by at most the uploads that were under way with another.
\<close>

definition row_bound :: "api \<Rightarrow> sys_event list \<Rightarrow> uuid \<Rightarrow> int" where
  "row_bound A evs u = dc_max_docs (registerDocRoutes (api_doc A)) + int (max_in_flight A evs u - 1) - int (in_flight u (sys_state A evs))"

lemma sys_state_snoc: "sys_state A (evs @ [e]) = sys_step (serve A) (sys_state A evs) e"
  by (simp add: sys_state_def)

lemma foldr_max_snoc: "foldr max (xs @ [x]) (0::nat) = max (foldr max xs 0) x"
  by (induction xs) (auto simp: max.assoc)

lemma max_in_flight_snoc:
  "max_in_flight A (evs @ [e]) u = max (max_in_flight A evs u) (in_flight u (sys_state A (evs @ [e])))"
proof -
  have "map (\<lambda>n. in_flight u (sys_state A (take n (evs @ [e])))) [0..<Suc (length (evs @ [e]))] =
      map (\<lambda>n. in_flight u (sys_state A (take n evs))) [0..<Suc (length evs)] @ [in_flight u (sys_state A (evs @ [e]))]"
    by auto
  then show ?thesis unfolding max_in_flight_def by (simp only: foldr_max_snoc)
qed

lemma in_flight_max: "in_flight u (sys_state A evs) \<le> max_in_flight A evs u"
  by (cases evs rule: rev_cases) (auto simp: max_in_flight_snoc, simp add: max_in_flight_def)

lemma in_flight_remove:
  assumes "n < length xs" "xs ! n = (u, kb)"
  shows "length (filter (\<lambda>(v, kb). v = w) xs) =
    (if w = u then 1 else 0) + length (filter (\<lambda>(v, kb). v = w) (take n xs @ drop (Suc n) xs))"
proof -
  have "xs = take n xs @ (u, kb) # drop (Suc n) xs" using id_take_nth_drop[OF assms(1)] assms(2) by simp
  then have "filter (\<lambda>(v, kb). v = w) xs = filter (\<lambda>(v, kb). v = w) (take n xs @ (u, kb) # drop (Suc n) xs)" by simp
  then show ?thesis by auto
qed

lemma sys_state_ok:
  assumes "path_safe (api_us A)" "dc_jobs (api_doc A)"
  shows "sys_ok (api_us A) (row_bound A evs) (sy_front (sys_state A evs))"
proof (induction evs rule: rev_induct)
  case Nil
  have "0 \<le> row_bound A [] u" for u
    by (simp add: row_bound_def sys_state_def in_flight_def registerDocRoutes_def defaultMaxDocsPerSession_def)
  from front_new_ok[OF this] show ?case by (simp add: sys_state_def)
next
  case (snoc e evs)
  let ?A = "serve A" and ?s = "sys_state A evs" and ?s' = "sys_state A (evs @ [e])" and ?F = "front_mem (api_us A) (api_sf A)"
  let ?cap = "dc_max_docs (registerDocRoutes (api_doc A))"
  have A: "path_safe (api_us ?A)" "dc_jobs (api_doc ?A)" "api_us ?A = api_us A" "api_sf ?A = api_sf A"
    "api_parse ?A = api_parse A" "api_doc ?A = registerDocRoutes (api_doc A)"
    using assms by (simp_all add: serve_def registerDocRoutes_def)
  have fl: "in_flight u ?s \<le> max_in_flight A evs u" "max_in_flight A (evs @ [e]) u = max (max_in_flight A evs u) (in_flight u ?s')" for u
    by (rule in_flight_max, rule max_in_flight_snoc)
  have same: ?case if "sy_uploads ?s' = sy_uploads ?s" "sy_front ?s' = front_step ?A (sy_front ?s) e"
  proof -
    have "row_bound A (evs @ [e]) = row_bound A evs"
      using that(1) fl by (auto simp: row_bound_def in_flight_def fun_eq_iff max_absorb1)
    then show ?thesis using front_step_ok[OF A(1,2), unfolded A(3), OF snoc] that(2) by simp
  qed
  show ?case
  proof (cases e)
    case (UploadStart r fs)
    let ?w = "(sy_front ?s)\<lparr>fr_faults := fs\<rparr>"
    obtain w q where st: "upload_start ?A r ?w = (w, q)" by fastforce
    have ok: "sys_ok (api_us A) (row_bound A evs) w"
      and q: "\<And>n u kb. q = Reply n (u, kb) \<Longrightarrow> int (length (doc_ListByUserID u (fr_docs w))) < ?cap"
      using tripleD[OF upload_checked_triple _ st[unfolded upload_start_def], of "row_bound A evs"] snoc A by simp_all
    have s': "sy_front ?s' = w" "sy_uploads ?s' = sy_uploads ?s @ (case q of Reply n p \<Rightarrow> [p] | Problem n m \<Rightarrow> [])"
      using st UploadStart by (simp_all add: sys_state_snoc)
    have "int (length (doc_ListByUserID u (fr_docs w))) \<le> row_bound A (evs @ [e]) u" for u
    proof (cases "\<exists>n kb. q = Reply n (u, kb)")
      case True
      then have "in_flight u ?s' = Suc (in_flight u ?s)" "int (length (doc_ListByUserID u (fr_docs w))) < ?cap"
        using q by (auto simp: in_flight_def s'(2))
      then show ?thesis using fl[of u] by (simp add: row_bound_def)
    next
      case False
      then have "in_flight u ?s' = in_flight u ?s" by (auto simp: in_flight_def s'(2) split: response.split)
      then have "row_bound A (evs @ [e]) u = row_bound A evs u" using fl[of u] by (simp add: row_bound_def max_absorb1)
      then show ?thesis using ok rows_okD(5)[of "api_us A" "row_bound A evs" w u] by (simp add: sys_ok_def)
    qed
    from sys_ok_cap[OF ok this] show ?thesis by (simp add: s'(1))
  next
    case (UploadBody n form fs)
    show ?thesis
    proof (cases "n < length (sy_uploads ?s)")
      case False
      with UploadBody show ?thesis by (intro same) (simp_all add: sys_state_snoc)
    next
      case True
      obtain u kb where n: "sy_uploads ?s ! n = (u, kb)" by fastforce
      let ?w = "(sy_front ?s)\<lparr>fr_faults := fs\<rparr>"
      have s': "sy_front ?s' = fst (upload_body ?F (api_us A) (api_doc ?A) form u kb ?w)"
        "sy_uploads ?s' = take n (sy_uploads ?s) @ drop (Suc n) (sy_uploads ?s)"
        using True n UploadBody A by (simp_all add: sys_state_snoc)
      have less: "in_flight v ?s = (if v = u then 1 else 0) + in_flight v ?s'" for v
        unfolding in_flight_def s'(2) by (rule in_flight_remove[OF True n])
      have bound: "row_bound A (evs @ [e]) v = row_bound A evs v + (if v = u then 1 else 0)" for v
        using fl[of v] less[of v] by (simp add: row_bound_def max_absorb1)
      have rows: "int (length (doc_ListByUserID v (fr_docs ?w))) \<le> row_bound A evs v" for v
        using snoc rows_okD(5)[of "api_us A" "row_bound A evs" "sy_front ?s" v] by (simp add: sys_ok_def)
      have "int (length (doc_ListByUserID v (fr_docs ?w))) \<le> row_bound A (evs @ [e]) v" for v
        using rows[of v] bound[of v] by (cases "v = u") simp_all
      then have "sys_ok (api_us A) (row_bound A (evs @ [e])) ?w"
        by (rule sys_ok_cap[of _ "row_bound A evs", rotated]) (use snoc in simp)
      moreover have "room (row_bound A (evs @ [e])) u ?w" using rows[of u] bound[of u] by (simp add: room_def)
      ultimately show ?thesis unfolding s'(1) using triple_fst[OF upload_body_triple[OF assms(1)]] by blast
    qed
  qed (intro same; simp add: sys_state_snoc)+
qed

lemma sys_run_ok:
  assumes "path_safe (api_us A)" "dc_jobs (api_doc A)"
  shows "sys_ok (api_us A) (row_bound A evs) (sys_run A evs)"
  using sys_state_ok[OF assms] by (simp add: sys_run_def)

subsection \<open>Properties\<close>

text \<open>
  C24. The upload cap under concurrent uploads. In any run of requests, scan events, pipeline writes
  and outages a tenant's documents exceed the configured cap (20 where none is configured) by at
  most the number of uploads the tenant had under way at once, less one. So the cap holds for every
  tenant whose uploads do not overlap; the check before the body is read does not hold it for those
  whose uploads do.
\<close>

theorem upload_cap_holds:
  assumes "path_safe (api_us A)" and "dc_jobs (api_doc A)"
  shows "int (length (doc_ListByUserID u (fr_docs (sys_run A evs)))) \<le>
    dc_max_docs (registerDocRoutes (api_doc A)) + int (max_in_flight A evs u - 1)"
proof -
  have "int (length (doc_ListByUserID u (fr_docs (sys_run A evs)))) \<le> row_bound A evs u"
    using sys_run_ok[OF assms, of evs] rows_okD(5) unfolding sys_ok_def by blast
  then show ?thesis by (simp add: row_bound_def)
qed

definition demo_api :: api where
  "demo_api = \<lparr>api_us = nat_str, api_parse = digits_parse, api_sf = demo_sf,
     api_doc = \<lparr>dc_max_upload = 0, dc_max_docs = 1, dc_jobs = True, dc_manifest = True, dc_canonical = True,
                dc_timeout_arn = ''timeouts''\<rparr>\<rparr>"

definition demo_req :: "uuid \<Rightarrow> string \<Rightarrow> string \<Rightarrow> request" where
  "demo_req u kb d = \<lparr>rq_user = Some u, rq_kb = kb, rq_doc = d, rq_limit = '''', rq_after = ''''\<rparr>"

text \<open>
  Tenant 9 makes a knowledge base and uploads a file, whose scan finds it clean; a second upload
  is over the cap.
\<close>

definition demo_events :: "sys_event list" where
  "demo_events =
     [Request (KBCreate (demo_req 9 '''' '''') (Some ''notes'')) [],
      UploadStart (demo_req 9 ''1'' '''') [], UploadBody 0 (FormFile ''../a.pdf'' 4 ''data'') [],
      ScanEvent (RawScan scanResultDetailType ''documents/9/1/2/a.pdf'' StatusNoThreatsFound []) [],
      UploadStart (demo_req 9 ''1'' '''') []]"

lemma nat_str_path_safe: "path_safe nat_str"
proof -
  have "\<not> is_digit (CHR ''/'')" by (simp add: is_digit_def byte_def)
  then show ?thesis using nat_str_no nat_str_inj by (auto simp: path_safe_def)
qed

text \<open>The cap of the demo is one document; two uploads that overlap both pass the check.\<close>

definition demo_overlap :: "sys_event list" where
  "demo_overlap =
     [Request (KBCreate (demo_req 9 '''' '''') (Some ''notes'')) [],
      UploadStart (demo_req 9 ''1'' '''') [], UploadStart (demo_req 9 ''1'' '''') [],
      UploadBody 0 (FormFile ''a.pdf'' 4 ''data'') [], UploadBody 0 (FormFile ''b.txt'' 4 ''data'') []]"

theorem upload_cap_holds_witness:
  "length (doc_ListByUserID 9 (fr_docs (sys_run demo_api demo_overlap))) = 2 \<and>
   int (length (doc_ListByUserID 9 (fr_docs (sys_run demo_api demo_overlap)))) \<le> 1 + 1"
proof
  show "length (doc_ListByUserID 9 (fr_docs (sys_run demo_api demo_overlap))) = 2" by code_simp
  have "max_in_flight demo_api demo_overlap 9 = 2" by code_simp
  moreover have "dc_max_docs (registerDocRoutes (api_doc demo_api)) = 1" by (simp add: registerDocRoutes_def demo_api_def)
  ultimately show "int (length (doc_ListByUserID 9 (fr_docs (sys_run demo_api demo_overlap)))) \<le> 1 + 1"
    using upload_cap_holds[of demo_api 9 demo_overlap] nat_str_path_safe by (simp add: demo_api_def)
qed

text \<open>
  C23. Whatever uploads, retries, deletions, verdicts, timeouts, pipeline writes and outages
  happen, in any order: if a document's file is stored and anything of it is being processed, its
  scan has reported it clean.
\<close>

theorem only_scanned_files_processed:
  assumes "path_safe (api_us A)" and "dc_jobs (api_doc A)"
    and "gm_get (fr_docs (sys_run A evs)) i = Some x"
    and "gm_get (fr_objects (sys_run A evs)) (d_s3key x) \<noteq> None"
    and "processing_of i (fr_execs (sys_run A evs)) \<noteq> []"
  shows "\<exists>rec. js_Get (fr_jobs (sys_run A evs)) (scanKey x) = Inr rec \<and> r_status rec = StSucceeded"
proof -
  let ?w = "sys_run A evs"
  have r: "rows_ok (api_us A) (row_bound A evs) ?w" and s: "scans_ok ?w"
    using sys_run_ok[OF assms(1,2), of evs] by (simp_all add: sys_ok_def)
  have id: "d_id x = i" using rows_okD(2)[OF r assms(3)] by simp
  obtain rec where rec: "scan_of ?w i = Some rec" using scans_okD(4)[OF s assms(3,4)] by blast
  then have st: "r_status rec = StSucceeded" using scans_okD(5)[OF s assms(5)] by (simp add: scan_free_def)
  have "visible (front_recs ?w) (scanKey x) = Some rec"
    using rec scans_okD(3)[OF s assms(3) rec] id by (simp add: visible_def)
  then show ?thesis using st by (auto simp: front_recs_def visible_js_Get)
qed

theorem only_scanned_files_processed_witness:
  "\<exists>x rec. gm_get (fr_docs (sys_run demo_api demo_events)) 3 = Some x \<and>
     js_Get (fr_jobs (sys_run demo_api demo_events)) (scanKey x) = Inr rec \<and> r_status rec = StSucceeded"
proof -
  let ?w = "sys_run demo_api demo_events"
  have "case gm_get (fr_docs ?w) 3 of None \<Rightarrow> False | Some x \<Rightarrow> gm_get (fr_objects ?w) (d_s3key x) \<noteq> None" by code_simp
  then obtain x where x: "gm_get (fr_docs ?w) 3 = Some x" "gm_get (fr_objects ?w) (d_s3key x) \<noteq> None"
    by (auto split: option.splits)
  have p: "processing_of 3 (fr_execs ?w) \<noteq> []" by code_simp
  have "path_safe (api_us demo_api)" "dc_jobs (api_doc demo_api)" by (simp_all add: demo_api_def nat_str_path_safe)
  from only_scanned_files_processed[OF this x p] x(1) show ?thesis by blast
qed

subsection \<open>A delete that fails half way\<close>

definition gone :: "string \<Rightarrow> front \<Rightarrow> bool" where
  "gone k w \<longleftrightarrow> gm_get (fr_objects w) k = None"

lemma gone_tape [simp]: "gone k (w\<lparr>fr_faults := fs\<rparr>) = gone k w"
  by (simp add: gone_def)

lemma del_object_gone:
  "triple (own i u k) (fo_del (front_mem us cfg) k) (\<lambda>r w. own i u k w \<and> (r = None \<longrightarrow> gone k w))"
  unfolding front_mem_def by (simp, rule triple_ff_proc) (auto intro!: tripleI simp: gone_def)

lemma doc_delete_failed:
  "triple (\<lambda>w. own i u k w \<and> gone k w) (fo_doc_delete (front_mem us cfg) u i) (\<lambda>r w. r \<noteq> None \<longrightarrow> own i u k w \<and> gone k w)"
proof -
  have eq: "fo_doc_delete (front_mem us cfg) u i = ff_proc (with_docs (doc_Delete u i))" by (simp add: front_mem_def)
  show ?thesis unfolding eq
    by (rule triple_ff_proc)
      (auto intro!: tripleI simp: tape_def own_def with_docs_def doc_Delete_def split: prod.splits option.splits if_splits)
qed

lemma with_document_post:
  assumes "\<And>u i doc. rq_user r = Some u \<Longrightarrow> parse (rq_doc r) = Some i \<Longrightarrow> d_id doc = i \<Longrightarrow> d_user doc = u \<Longrightarrow>
      triple (own i u (d_s3key doc)) (k u doc) Q"
    and "\<And>c m w. m \<noteq> ''failed to delete document record'' \<Longrightarrow> Q (Problem c m) w"
  shows "triple (sys_ok us cap) (with_document (front_mem us cfg) parse r k) Q"
proof (cases "rq_user r")
  case None
  then show ?thesis unfolding with_document_def requireUserID_def by (auto intro!: triple_return assms(2))
next
  case (Some u)
  have e: "Q (writeDocError e) w" for e w using assms(2) by (simp add: writeDocError_def)
  have k: "triple (\<lambda>w. sys_ok us cap w \<and> (\<forall>d. Inr doc = Inr d \<longrightarrow> holds d w \<and> d_id d = i \<and> d_user d = u)) (k u doc) Q"
    if "parse (rq_doc r) = Some i" for i doc
  proof (rule triple_factI[where A = "d_id doc = i \<and> d_user doc = u"])
    assume a: "d_id doc = i \<and> d_user doc = u"
    show "triple (\<lambda>w. sys_ok us cap w \<and> (\<forall>d. Inr doc = Inr d \<longrightarrow> holds d w \<and> d_id d = i \<and> d_user d = u)) (k u doc) Q"
      by (rule triple_pre[OF _ assms(1)[OF Some that conjunct1[OF a] conjunct2[OF a]]]) (use a holds_own in auto)
  qed auto
  show ?thesis
  proof (cases "parse (rq_doc r)")
    case None
    then show ?thesis unfolding with_document_def requireUserID_def[abs_def] parseUUID_def[abs_def] Some
      by (auto intro!: triple_option triple_return assms(2))
  next
    case (Some i)
    with \<open>rq_user r = Some u\<close> show ?thesis unfolding with_document_def requireUserID_def[abs_def] parseUUID_def[abs_def]
      by simp (intro triple_option triple_return triple_call[OF doc_get_triple] triple_if assms(2) e;
        simp add: k[OF Some, simplified])
  qed
qed

text \<open>The row a delete request names, and that its file is gone.\<close>

definition stranded :: "(string \<Rightarrow> uuid option) \<Rightarrow> request \<Rightarrow> front \<Rightarrow> bool" where
  "stranded parse r w \<longleftrightarrow>
     (\<exists>u i k. rq_user r = Some u \<and> parse (rq_doc r) = Some i \<and> own i u k w \<and> gone k w)"

lemma delete_strands:
  "triple (sys_ok us cap) (doch_delete (front_mem us cfg) parse C r)
     (\<lambda>q w. q = Problem 500 ''failed to delete document record'' \<longrightarrow> stranded parse r w)"
  unfolding doch_delete_def
proof (rule with_document_post, goal_cases)
  case (1 u i doc)
  let ?F = "front_mem us cfg" and ?J = "own i u (d_s3key doc)"
  have act: "triple ?J (hasActiveJobForDocument ?F C u i) (\<lambda>_. ?J)"
    unfolding hasActiveJobForDocument_def[abs_def]
    by (intro triple_if triple_return triple_call_keep[OF api_reads(4)]) simp_all
  have canon: "triple ?J (\<lambda>s. if dc_canonical C then fo_canon ?F u i s else (s, None)) (\<lambda>_. ?J)"
  proof (intro triple_if triple_return)
    show "triple ?J (fo_canon ?F u i) (\<lambda>_. ?J)"
      unfolding front_mem_def by (simp, rule triple_ff_proc) (auto intro!: tripleI)
  qed
  have s: "stranded parse r w" if "own i u (d_s3key doc) w \<and> gone (d_s3key doc) w" for w
    using that 1(1,2) unfolding stranded_def by blast
  show ?case unfolding 1(3)
    by (intro triple_if triple_return triple_call[OF act] triple_proc[OF canon] triple_proc[OF del_object_gone]
        triple_proc[OF triple_pre[OF _ doc_delete_failed[where k = "d_s3key doc"]]])
      (simp_all add: s)
qed simp



subsection \<open>Upload keys\<close>

text \<open>
  An upload's key names its owner and stays inside its own directory: the scan-result handler
  reads the owner back from it, and whatever name the client gave, the key has exactly five parts.
\<close>

theorem upload_key_round_trip:
  assumes "path_safe us" and "\<And>i. parse (us i) = Some i" and "path_base name \<noteq> ''/''"
  shows "userFromKey parse (upload_key us u kb i (path_base name)) = Some u \<and>
    split_on CHR ''/'' (upload_key us u kb i (path_base name)) = [''documents'', us u, us kb, us i, path_base name]"
proof -
  have no: "CHR ''/'' \<notin> set (us x)" for x using assms(1) by (simp add: path_safe_def)
  have base: "CHR ''/'' \<notin> set (path_base name)"
    using assms(3) by (auto simp: path_base_def Let_def dest: set_takeWhileD split: if_splits)
  have cons: "split_on CHR ''/'' (a @ CHR ''/'' # b) = a # split_on CHR ''/'' b" if "CHR ''/'' \<notin> set a" for a b
    using that by (induction a) auto
  have one: "split_on CHR ''/'' a = [a]" if "CHR ''/'' \<notin> set a" for a
    using that by (induction a) auto
  let ?k = "''documents'' @ CHR ''/'' # us u @ CHR ''/'' # us kb @ CHR ''/'' # us i @ CHR ''/'' # path_base name"
  have k: "upload_key us u kb i (path_base name) = ?k" by (simp add: upload_key_def)
  have docs: "CHR ''/'' \<notin> set ''documents''" by simp
  have n: "split_n 3 CHR ''/'' ?k = [''documents'', us u, us kb @ CHR ''/'' # us i @ CHR ''/'' # path_base name]"
    unfolding numeral_3_eq_3 split_n.simps takeWhile_sep[OF docs] dropWhile_sep[OF docs] list.case
      takeWhile_sep[OF no] dropWhile_sep[OF no] by (rule refl)
  have "split_on CHR ''/'' ?k = [''documents'', us u, us kb, us i, path_base name]"
    unfolding cons[OF docs] cons[OF no] one[OF base] by (rule refl)
  moreover have "userFromKey parse ?k = Some u"
    unfolding userFromKey_def Let_def n by (simp add: assms(2))
  ultimately show ?thesis unfolding k by blast
qed

theorem upload_key_round_trip_witness:
  "userFromKey digits_parse (upload_key nat_str 9 1 2 (path_base ''../../x/a.pdf'')) = Some 9"
proof -
  have "path_base ''../../x/a.pdf'' \<noteq> ''/''" by code_simp
  then show ?thesis using upload_key_round_trip[of nat_str digits_parse] nat_str_path_safe by simp
qed

end
