(* ===== verification/RateLimit.thy ===== *)
theory RateLimit
  imports Prelude GoStrings
begin

text \<open>
  \<^verbatim>\<open>internal/ratelimit\<close>: the fixed-window in-memory limiter, the client address it is keyed
  by, and the middleware that fails open. The property bounds what one client gets through in any
  interval of one window's length, not only in the limiter's own windows.
\<close>

subsection \<open>The store\<close>

record rl_entry =
  rl_count :: int
  rl_end :: timestamp

record rl_store =
  rl_counters :: "(string, rl_entry) gomap"
  rl_limit :: int
  rl_window :: int

definition rl_New :: "int \<Rightarrow> int \<Rightarrow> rl_store" where
  "rl_New limit window = \<lparr>rl_counters = [], rl_limit = limit, rl_window = window\<rparr>"

definition rl_Allow :: "timestamp \<Rightarrow> string \<Rightarrow> rl_store \<Rightarrow> rl_store \<times> bool" where
  "rl_Allow now key s =
     (let fresh = s\<lparr>rl_counters := gm_put key \<lparr>rl_count = 1, rl_end = now + rl_window s\<rparr> (rl_counters s)\<rparr>
      in case gm_get (rl_counters s) key of
           None \<Rightarrow> (fresh, True)
         | Some e \<Rightarrow>
             if now > rl_end e then (fresh, True)
             else if rl_count e \<ge> rl_limit s then (s, False)
             else (s\<lparr>rl_counters := gm_put key (e\<lparr>rl_count := rl_count e + 1\<rparr>) (rl_counters s)\<rparr>, True))"

subsection \<open>The client's address\<close>

text \<open>\<^verbatim>\<open>net.SplitHostPort\<close>, its host; \<open>None\<close> where it returns an error.\<close>

definition split_host :: "string \<Rightarrow> string option" where
  "split_host hp =
     (case str_last_index hp '':'' of
        None \<Rightarrow> None
      | Some i \<Rightarrow>
          if hd hp = CHR ''['' then
            (case str_index hp '']'' of
               None \<Rightarrow> None
             | Some e \<Rightarrow> if e + 1 \<noteq> i \<or> str_contains (drop 1 hp) ''['' \<or> str_contains (drop (e + 1) hp) '']'' then None
                         else Some (drop 1 (take e hp)))
          else if str_contains (take i hp) '':'' \<or> str_contains hp ''['' \<or> str_contains hp '']'' then None
          else Some (take i hp))"

definition clientIP :: "string \<Rightarrow> string \<Rightarrow> string" where
  "clientIP forwardedFor remoteAddr =
     (if forwardedFor \<noteq> '''' then
        trim_space (case str_last_index forwardedFor '','' of None \<Rightarrow> forwardedFor | Some idx \<Rightarrow> drop (idx + 1) forwardedFor)
      else case split_host remoteAddr of None \<Rightarrow> remoteAddr | Some host \<Rightarrow> host)"

text \<open>A limiter's answer is an error or a decision; the request goes on unless it is denied.\<close>

definition rl_Middleware :: "(string \<Rightarrow> 's \<Rightarrow> 's \<times> ('e + bool)) \<Rightarrow> ('s \<Rightarrow> 's \<times> nat) \<Rightarrow> string \<Rightarrow> string \<Rightarrow> 's \<Rightarrow> 's \<times> nat" where
  "rl_Middleware allow nxt forwardedFor remoteAddr s =
     (case allow (clientIP forwardedFor remoteAddr) s of
        (s, Inl e) \<Rightarrow> nxt s
      | (s, Inr ok) \<Rightarrow> if \<not> ok then (s, 429) else nxt s)"

subsection \<open>A run of requests\<close>

fun rl_run :: "rl_store \<Rightarrow> (timestamp \<times> string) list \<Rightarrow> (timestamp \<times> string \<times> bool) list" where
  "rl_run s [] = []"
| "rl_run s ((now, key) # rs) = (case rl_Allow now key s of (s, ok) \<Rightarrow> (now, key, ok) # rl_run s rs)"

text \<open>How many requests under a key got through between \<open>t\<close> and \<open>t'\<close>.\<close>

definition passed :: "string \<Rightarrow> timestamp \<Rightarrow> timestamp \<Rightarrow> (timestamp \<times> string \<times> bool) list \<Rightarrow> nat" where
  "passed key t t' xs = length (filter (\<lambda>(now, k, ok). ok \<and> k = key \<and> t \<le> now \<and> now \<le> t') xs)"

lemma passed_simps [simp]:
  "passed key t t' [] = 0"
  "passed key t t' ((now, k, ok) # xs) = (if ok \<and> k = key \<and> t \<le> now \<and> now \<le> t' then 1 else 0) + passed key t t' xs"
  by (auto simp: passed_def)

lemma Allow_other:
  "rl_Allow now k s = (s', ok) \<Longrightarrow> rl_limit s' = rl_limit s \<and> rl_window s' = rl_window s \<and>
     (key \<noteq> k \<longrightarrow> gm_get (rl_counters s') key = gm_get (rl_counters s) key)"
  by (auto simp: rl_Allow_def Let_def split: option.splits if_splits)

lemma passed_later: "(\<And>now k. (now, k) \<in> set rs \<Longrightarrow> t' < now) \<Longrightarrow> passed key t t' (rl_run s rs) = 0"
proof (induction rs arbitrary: s)
  case (Cons r rs)
  obtain now k where r: "r = (now, k)" by force
  have "t' < now" using Cons.prems[of now k] r by simp
  moreover have "passed key t t' (rl_run s' rs) = 0" for s' by (rule Cons.IH) (use Cons.prems in auto)
  ultimately show ?case by (cases "rl_Allow now k s") (simp add: r)
qed simp

text \<open>
  What a key may still get through in the interval, from its current window: its remaining slots
  when the window covers the interval's end, one more window after it when it only reaches into
  the interval, two windows otherwise.
\<close>

definition allowance :: "int \<Rightarrow> timestamp \<Rightarrow> timestamp \<Rightarrow> rl_entry option \<Rightarrow> int" where
  "allowance limit t t' e =
     (let m = max 1 limit in
      case e of
        None \<Rightarrow> 2 * m
      | Some e \<Rightarrow> if rl_end e \<ge> t' then max 0 (limit - rl_count e)
                  else if rl_end e \<ge> t then max 0 (limit - rl_count e) + m
                  else 2 * m)"

lemma allowance_step:
  assumes "rl_Allow now key s = (s', ok)" and "now \<le> t + rl_window s"
  shows "(if ok \<and> t \<le> now then 1 else 0) + allowance (rl_limit s) t (t + rl_window s) (gm_get (rl_counters s') key)
     \<le> allowance (rl_limit s) t (t + rl_window s) (gm_get (rl_counters s) key)"
  using assms unfolding rl_Allow_def allowance_def Let_def
  by (cases "gm_get (rl_counters s) key") (auto split: if_splits)

lemma passed_bound:
  assumes "sorted (map fst rs)"
  shows "int (passed key t (t + rl_window s) (rl_run s rs)) \<le> allowance (rl_limit s) t (t + rl_window s) (gm_get (rl_counters s) key)"
  using assms
proof (induction rs arbitrary: s)
  case Nil
  show ?case by (auto simp: allowance_def Let_def split: option.split)
next
  case (Cons r rs)
  obtain now k where r: "r = (now, k)" by force
  obtain s' ok where a: "rl_Allow now k s = (s', ok)" by force
  note o' = Allow_other[OF a, of key]
  have nn: "0 \<le> allowance (rl_limit s) t (t + rl_window s) (gm_get (rl_counters s) key)"
    by (auto simp: allowance_def Let_def split: option.split)
  show ?case
  proof (cases "now \<le> t + rl_window s")
    case False
    then have "passed key t (t + rl_window s) (rl_run s (r # rs)) = 0"
      using Cons.prems by (intro passed_later) (auto simp: r)
    then show ?thesis using nn by simp
  next
    case True
    have ih: "int (passed key t (t + rl_window s) (rl_run s' rs)) \<le> allowance (rl_limit s) t (t + rl_window s) (gm_get (rl_counters s') key)"
      using Cons.IH[of s'] Cons.prems o' by simp
    show ?thesis
    proof (cases "k = key")
      case True
      then show ?thesis using ih allowance_step[of now key s s' ok t] a \<open>now \<le> t + rl_window s\<close>
        by (auto simp: r split: if_splits)
    next
      case False
      then show ?thesis using ih o' a by (simp add: r)
    qed
  qed
qed

subsection \<open>Property\<close>

text \<open>
  C26. In any interval as long as the window, however it lies across the limiter's own windows, a
  key gets at most twice the limit through (two requests where the limit is not positive),
  whatever requests other keys make in between.
\<close>

theorem burst_bounded:
  assumes "sorted (map fst rs)"
  shows "int (passed key t (t + window) (rl_run (rl_New limit window) rs)) \<le> 2 * max 1 limit"
  using passed_bound[OF assms, of key t "rl_New limit window"] by (simp add: rl_New_def allowance_def Let_def)

theorem burst_bounded_witness:
  "passed ''10.0.0.1'' 5 15 (rl_run (rl_New 2 10) [(0, ''10.0.0.1''), (9, ''10.0.0.1''), (10, ''10.0.0.1''), (11, ''10.0.0.1''), (12, ''10.0.0.1''), (13, ''10.0.0.1'')]) = 3 \<and>
   int (passed ''10.0.0.1'' 5 15 (rl_run (rl_New 2 10) [(0, ''10.0.0.1''), (9, ''10.0.0.1''), (10, ''10.0.0.1''), (11, ''10.0.0.1''), (12, ''10.0.0.1''), (13, ''10.0.0.1'')])) \<le> 4"
proof -
  let ?rs = "[(0, ''10.0.0.1''), (9, ''10.0.0.1''), (10, ''10.0.0.1''), (11, ''10.0.0.1''), (12, ''10.0.0.1''), (13, ''10.0.0.1'')] :: (timestamp \<times> string) list"
  have "passed ''10.0.0.1'' 5 15 (rl_run (rl_New 2 10) ?rs) = 3" by code_simp
  then show ?thesis using burst_bounded[of ?rs "''10.0.0.1''" 5 10 2] by simp
qed

lemma last_index_none: "c \<notin> set b \<Longrightarrow> str_last_index b [c] = None"
  by (induction b) auto

lemma last_index_append: "c \<notin> set b \<Longrightarrow> str_last_index (a @ c # b) [c] = Some (length a)"
  by (induction a) (simp_all add: last_index_none)

text \<open>
  A client behind the proxy cannot choose its own key: whatever it sends in the forwarding
  header before the entry the proxy appends, the key is that last entry.
\<close>

theorem spoofed_header_same_key:
  assumes "CHR '','' \<notin> set ip"
  shows "clientIP (spoofed @ '','' @ ip) remote = trim_space ip"
proof -
  have "str_last_index (spoofed @ '','' @ ip) '','' = Some (length spoofed)"
    using last_index_append[OF assms] by simp
  then show ?thesis by (simp add: clientIP_def)
qed

theorem spoofed_header_same_key_witness:
  "clientIP (''203.0.113.99, 8.8.8.8'' @ '','' @ '' 192.168.0.1'') ''127.0.0.1:1234'' = ''192.168.0.1''"
proof -
  have "trim_space '' 192.168.0.1'' = ''192.168.0.1''" by code_simp
  then show ?thesis using spoofed_header_same_key[of "'' 192.168.0.1''" "''203.0.113.99, 8.8.8.8''" "''127.0.0.1:1234''"] by simp
qed

end
