(* ===== verification/Louvain.thy ===== *)
theory Louvain
  imports Repositories Calls
begin

text \<open>
  Community detection: the Louvain method of \<^verbatim>\<open>internal/community/louvain.go\<close>.

  A level is the indexed graph a round works on. \<open>run_passes\<close> is the pass loop of
  \<^verbatim>\<open>localMoving\<close>, counting down its cap; \<open>louvain_levels\<close> is the loop of
  \<^verbatim>\<open>Louvain\<close> that has no cap, so it is a partial function whose value \<open>None\<close> would mean that
  it never returns. Weights are exact rationals.

  The proofs see a level through \<open>esum\<close>, the total over its edges and self-loops of a function of
  the two endpoints. Aggregating pushes such totals forward along the renumbering, and a
  community's share, the weight inside communities and a node's degree are all totals.
\<close>

subsection \<open>Cancellation\<close>

text \<open>
  What the code sees of a context is the sequence of answers of \<^verbatim>\<open>ctx.Err()\<close>: nil until the
  context is cancelled or expires, the same error from then on. \<open>Some (k, e)\<close> is a context whose
  first \<open>k\<close> polls are nil, \<open>None\<close> one that outlives the call.
\<close>

type_synonym ctx = "(nat \<times> gerror) option"

fun ctx_Err :: "ctx proc" where
  "ctx_Err None = (None, None)"
| "ctx_Err (Some (0, e)) = (Some (0, e), Some e)"
| "ctx_Err (Some (Suc k, e)) = (Some (k, e), None)"

subsection \<open>Graphs and levels\<close>

record weighted_edge =
  we_A :: uuid
  we_B :: uuid
  we_Weight :: float

record graph =
  g_Nodes :: "uuid list"
  g_Edges :: "weighted_edge list"

record ledge =
  e_a :: nat
  e_b :: nat
  e_weight :: float

record neighbor =
  nb_node :: nat
  nb_weight :: float

record level =
  lv_n :: nat
  lv_edges :: "ledge list"
  lv_adj :: "neighbor list list"
  lv_selfLoop :: "float list"
  lv_degree :: "float list"

definition link_edge :: "neighbor list list \<Rightarrow> ledge \<Rightarrow> neighbor list list" where
  "link_edge adj e =
     (let adj1 = adj[e_a e := adj ! e_a e @ [\<lparr> nb_node = e_b e, nb_weight = e_weight e \<rparr>]]
      in adj1[e_b e := adj1 ! e_b e @ [\<lparr> nb_node = e_a e, nb_weight = e_weight e \<rparr>]])"

definition add_degree :: "float list \<Rightarrow> ledge \<Rightarrow> float list" where
  "add_degree d e =
     (let d1 = d[e_a e := d ! e_a e + e_weight e]
      in d1[e_b e := d1 ! e_b e + e_weight e])"

definition buildLevel :: "nat \<Rightarrow> ledge list \<Rightarrow> float list \<Rightarrow> level" where
  "buildLevel n es selfLoop =
     \<lparr> lv_n = n, lv_edges = es,
       lv_adj = foldl link_edge (replicate n []) es,
       lv_selfLoop = selfLoop,
       lv_degree = foldl add_degree (map (\<lambda>i. 2 * selfLoop ! i) [0..<n]) es \<rparr>"

subsection \<open>Local moving\<close>

text \<open>The communities around a node in first-seen order, with the weight towards each.\<close>

definition see_neighbor ::
    "nat list \<Rightarrow> nat list \<times> (nat, float) gomap \<Rightarrow> neighbor \<Rightarrow> nat list \<times> (nat, float) gomap" where
  "see_neighbor comm acc nb =
     (let c = comm ! nb_node nb; (order, wts) = acc
      in (if gm_get wts c = None then order @ [c] else order,
          gm_put c (gm_get_or 0 wts c + nb_weight nb) wts))"

definition neigh_sums :: "nat list \<Rightarrow> neighbor list \<Rightarrow> nat list \<times> (nat, float) gomap" where
  "neigh_sums comm nbs = foldl (see_neighbor comm) ([], []) nbs"

definition move_gain :: "(nat, float) gomap \<Rightarrow> float list \<Rightarrow> float \<Rightarrow> float \<Rightarrow> nat \<Rightarrow> float" where
  "move_gain wts sigma ki m2 c = gm_get_or 0 wts c - sigma ! c * ki / m2"

definition better :: "(nat \<Rightarrow> float) \<Rightarrow> nat \<times> float \<Rightarrow> nat \<Rightarrow> nat \<times> float" where
  "better gain best c = (if gain c > snd best then (c, gain c) else best)"

definition best_comm :: "(nat \<Rightarrow> float) \<Rightarrow> nat \<Rightarrow> nat list \<Rightarrow> nat" where
  "best_comm gain ci order = fst (foldl (better gain) (ci, 0) order)"

record moving =
  mv_comm :: "nat list"
  mv_sigma :: "float list"
  mv_moved :: bool
  mv_ever :: bool

definition move_node :: "level \<Rightarrow> float \<Rightarrow> moving \<Rightarrow> nat \<Rightarrow> moving" where
  "move_node lv m2 st i =
     (let ci = mv_comm st ! i;
          ki = lv_degree lv ! i;
          sigma = (mv_sigma st)[ci := mv_sigma st ! ci - ki];
          (order, wts) = neigh_sums (mv_comm st) (lv_adj lv ! i);
          b = best_comm (move_gain wts sigma ki m2) ci order
      in \<lparr> mv_comm = (mv_comm st)[i := b],
           mv_sigma = sigma[b := sigma ! b + ki],
           mv_moved = (if b \<noteq> ci then True else mv_moved st),
           mv_ever = (if b \<noteq> ci then True else mv_ever st) \<rparr>)"

definition one_pass :: "level \<Rightarrow> float \<Rightarrow> moving \<Rightarrow> moving" where
  "one_pass lv m2 st = foldl (move_node lv m2) (st\<lparr> mv_moved := False \<rparr>) [0..<lv_n lv]"

primrec run_passes :: "nat \<Rightarrow> level \<Rightarrow> float \<Rightarrow> moving \<Rightarrow> (ctx, moving) call" where
  "run_passes 0 lv m2 st = (\<lambda>ctx. (ctx, Inr st))"
| "run_passes (Suc k) lv m2 st =
     try_proc ctx_Err (\<lambda>e ctx. (ctx, Inl e))
       (let st' = one_pass lv m2 st
        in if \<not> mv_moved st' then (\<lambda>ctx. (ctx, Inr st')) else run_passes k lv m2 st')"

definition maxPasses :: nat where
  "maxPasses = 1000"

definition start_moving :: "level \<Rightarrow> moving" where
  "start_moving lv =
     \<lparr> mv_comm = [0..<lv_n lv], mv_sigma = lv_degree lv, mv_moved = False, mv_ever = False \<rparr>"

definition localMoving :: "level \<Rightarrow> float \<Rightarrow> (ctx, nat list \<times> bool) call" where
  "localMoving lv m2 =
     try_call (run_passes maxPasses lv m2 (start_moving lv))
       (\<lambda>e ctx. (ctx, Inl e))
       (\<lambda>st ctx. (ctx, Inr (mv_comm st, mv_ever st)))"

subsection \<open>Aggregation\<close>

text \<open>First-seen compaction of raw community ids to \<open>0..k-1\<close>.\<close>

definition compact_one ::
    "(nat, nat) gomap \<times> nat list \<times> nat \<Rightarrow> nat \<Rightarrow> (nat, nat) gomap \<times> nat list \<times> nat" where
  "compact_one acc c =
     (let (remap, ids, nxt) = acc
      in case gm_get remap c of
           Some rc \<Rightarrow> (remap, ids @ [rc], nxt)
         | None \<Rightarrow> (gm_put c nxt remap, ids @ [nxt], nxt + 1))"

definition compaction :: "nat list \<Rightarrow> (nat, nat) gomap \<times> nat list \<times> nat" where
  "compaction comm = foldl compact_one ([], [], 0) comm"

definition fold_self :: "nat list \<Rightarrow> float list \<Rightarrow> float list \<Rightarrow> nat \<Rightarrow> float list" where
  "fold_self ids selfLoop sl i =
     sl[ids ! i := sl ! (ids ! i) + selfLoop ! i]"

definition fold_edge ::
    "nat list \<Rightarrow> float list \<times> (nat \<times> nat) list \<times> (nat \<times> nat, float) gomap \<Rightarrow> ledge
     \<Rightarrow> float list \<times> (nat \<times> nat) list \<times> (nat \<times> nat, float) gomap" where
  "fold_edge ids acc e =
     (let (sl, order, wts) = acc;
          ca = ids ! e_a e;
          cb = ids ! e_b e
      in if ca = cb then (sl[ca := sl ! ca + e_weight e], order, wts)
         else
           let p = (if ca > cb then (cb, ca) else (ca, cb))
           in (sl, if gm_get wts p = None then order @ [p] else order,
               gm_put p (gm_get_or 0 wts p + e_weight e) wts))"

definition aggregate :: "level \<Rightarrow> nat list \<Rightarrow> level \<times> nat \<times> (nat, nat) gomap" where
  "aggregate lv comm =
     (let (remap, ids, newN) = compaction comm;
          sl = foldl (fold_self ids (lv_selfLoop lv)) (replicate newN 0) [0..<lv_n lv];
          (newSelfLoop, order, wts) = foldl (fold_edge ids) (sl, [], []) (lv_edges lv);
          newEdges = map (\<lambda>p. \<lparr> e_a = fst p, e_b = snd p, e_weight = gm_get_or 0 wts p \<rparr>) order
      in (buildLevel newN newEdges newSelfLoop, newN, remap))"

subsection \<open>Modularity\<close>

definition add_to :: "('k, float) gomap \<Rightarrow> 'k \<Rightarrow> float \<Rightarrow> ('k, float) gomap" where
  "add_to m k w = gm_put k (gm_get_or 0 m k + w) m"

definition modularity :: "nat \<Rightarrow> ledge list \<Rightarrow> float list \<Rightarrow> float \<Rightarrow> nat list \<Rightarrow> float" where
  "modularity n es degree totalWeight comm =
     (if totalWeight = 0 then 0
      else
        let internals =
              foldl (\<lambda>m e. if comm ! e_a e = comm ! e_b e
                            then add_to m (comm ! e_a e) (e_weight e) else m) [] es;
            degreeByComm = foldl (\<lambda>m i. add_to m (comm ! i) (degree ! i)) [] [0..<n];
            m = totalWeight
        in foldl (\<lambda>q (c, deg). let a = deg / (2 * m)
                               in q + (gm_get_or 0 internals c / m - a * a)) 0 degreeByComm)"

subsection \<open>The method\<close>

partial_function (option) louvain_levels ::
    "float \<Rightarrow> ctx \<Rightarrow> level \<Rightarrow> nat list \<Rightarrow> (gerror + nat list) option" where
  [code]: "louvain_levels m2 ctx cur finalComm =
     (case ctx_Err ctx of
        (ctx1, Some e) \<Rightarrow> Some (Inl (Wrapf ''community: louvain'' e))
      | (ctx1, None) \<Rightarrow>
          (case localMoving cur m2 ctx1 of
             (ctx2, Inl e) \<Rightarrow> Some (Inl (Wrapf ''community: louvain'' e))
           | (ctx2, Inr (comm, moved)) \<Rightarrow>
               if \<not> moved then Some (Inr finalComm)
               else
                 (case aggregate cur comm of
                    (nxt, newN, remap) \<Rightarrow>
                      let final1 = map (\<lambda>c. gm_get_or 0 remap (comm ! c)) finalComm
                      in if newN = 1 then Some (Inr final1)
                         else louvain_levels m2 ctx2 nxt final1)))"

definition assign :: "uuid list \<Rightarrow> nat list \<Rightarrow> (uuid, nat) gomap" where
  "assign ids cs = foldl (\<lambda>m (u, c). gm_put u c m) [] (zip ids cs)"

definition index_nodes :: "uuid list \<Rightarrow> (uuid, nat) gomap" where
  "index_nodes ids = assign ids [0..<length ids]"

definition index_edge :: "(uuid, nat) gomap \<Rightarrow> weighted_edge \<Rightarrow> ledge option" where
  "index_edge idx e =
     (case (gm_get idx (we_A e), gm_get idx (we_B e)) of
        (Some a, Some b) \<Rightarrow>
          if a = b then None else Some \<lparr> e_a = a, e_b = b, e_weight = we_Weight e \<rparr>
      | _ \<Rightarrow> None)"

definition level0_edges :: "graph \<Rightarrow> ledge list" where
  "level0_edges g = List.map_filter (index_edge (index_nodes (g_Nodes g))) (g_Edges g)"

definition Louvain :: "ctx \<Rightarrow> graph \<Rightarrow> (gerror + (uuid, nat) gomap \<times> float) option" where
  "Louvain ctx g =
     (case ctx_Err ctx of
        (ctx1, Some e) \<Rightarrow> Some (Inl (Wrapf ''community: louvain'' e))
      | (ctx1, None) \<Rightarrow>
          let n = length (g_Nodes g)
          in if n = 0 then Some (Inr ([], 0))
             else
               let es = level0_edges g;
                   totalWeight = foldl (\<lambda>t e. t + e_weight e) 0 es
               in if totalWeight = 0 then Some (Inr (assign (g_Nodes g) [0..<n], 0))
                  else
                    let level0 = buildLevel n es (replicate n 0);
                        m2 = 2 * totalWeight
                    in case louvain_levels m2 ctx1 level0 [0..<n] of
                         None \<Rightarrow> None
                       | Some (Inl e) \<Rightarrow> Some (Inl e)
                       | Some (Inr finalComm) \<Rightarrow>
                           (case compaction finalComm of
                              (remap, ids, k) \<Rightarrow>
                                Some (Inr (assign (g_Nodes g) ids,
                                  modularity n es (lv_degree level0) totalWeight finalComm))))"

subsection \<open>Shapes\<close>

lemma length_link_edge [simp]: "length (link_edge adj e) = length adj"
  by (simp add: link_edge_def Let_def)

lemma length_add_degree [simp]: "length (add_degree d e) = length d"
  by (simp add: add_degree_def Let_def)

lemma length_foldl_link [simp]: "length (foldl link_edge adj es) = length adj"
  by (induction es arbitrary: adj) auto

lemma length_foldl_degree [simp]: "length (foldl add_degree d es) = length d"
  by (induction es arbitrary: d) auto

lemma buildLevel_simps [simp]:
  "lv_n (buildLevel n es sl) = n" "lv_edges (buildLevel n es sl) = es"
  "lv_selfLoop (buildLevel n es sl) = sl" "length (lv_adj (buildLevel n es sl)) = n"
  "length (lv_degree (buildLevel n es sl)) = n"
  by (simp_all add: buildLevel_def)

definition edge_ok :: "nat \<Rightarrow> ledge \<Rightarrow> bool" where
  "edge_ok n e \<longleftrightarrow> e_a e < n \<and> e_b e < n \<and> e_a e \<noteq> e_b e"

text \<open>What \<^verbatim>\<open>buildLevel\<close> promises about the levels it is given sound arguments for.\<close>

definition level_ok :: "level \<Rightarrow> bool" where
  "level_ok lv \<longleftrightarrow>
     (\<exists>n es sl. lv = buildLevel n es sl \<and> list_all (edge_ok n) es \<and> length sl = n)"

lemma level_okI [intro]: "list_all (edge_ok n) es \<Longrightarrow> length sl = n \<Longrightarrow> level_ok (buildLevel n es sl)"
  unfolding level_ok_def by blast

lemma level_ok_edge:
  assumes "level_ok lv" "e \<in> set (lv_edges lv)"
  shows "e_a e < lv_n lv" "e_b e < lv_n lv" "e_a e \<noteq> e_b e"
  using assms unfolding level_ok_def by (auto simp: list_all_iff edge_ok_def)

lemma level_ok_self: "level_ok lv \<Longrightarrow> length (lv_selfLoop lv) = lv_n lv"
  by (auto simp: level_ok_def)

definition touches :: "nat \<Rightarrow> ledge \<Rightarrow> neighbor list" where
  "touches i e =
     (if e_a e = i then [\<lparr> nb_node = e_b e, nb_weight = e_weight e \<rparr>] else []) @
     (if e_b e = i then [\<lparr> nb_node = e_a e, nb_weight = e_weight e \<rparr>] else [])"

lemma nth_foldl_link:
  "list_all (edge_ok n) es \<Longrightarrow> length adj = n \<Longrightarrow> i < n \<Longrightarrow>
     foldl link_edge adj es ! i = adj ! i @ concat (map (touches i) es)"
proof (induction es arbitrary: adj)
  case (Cons e es)
  then have "link_edge adj e ! i = adj ! i @ touches i e"
    by (auto simp: link_edge_def Let_def edge_ok_def touches_def nth_list_update)
  then show ?case using Cons by simp
qed simp

lemma nth_foldl_degree:
  "list_all (edge_ok n) es \<Longrightarrow> length d = n \<Longrightarrow> i < n \<Longrightarrow>
     foldl add_degree d es ! i =
       d ! i + (\<Sum>e\<leftarrow>es. e_weight e * (of_bool (e_a e = i) + of_bool (e_b e = i)))"
proof (induction es arbitrary: d)
  case (Cons e es)
  then have "add_degree d e ! i = d ! i + e_weight e * (of_bool (e_a e = i) + of_bool (e_b e = i))"
    by (auto simp: add_degree_def Let_def edge_ok_def nth_list_update)
  then show ?case using Cons by simp
qed simp

lemma adj_nth:
  assumes "level_ok lv" "i < lv_n lv"
  shows "lv_adj lv ! i = concat (map (touches i) (lv_edges lv))"
proof -
  obtain n es sl where lv: "lv = buildLevel n es sl" "list_all (edge_ok n) es"
    using assms(1) unfolding level_ok_def by blast
  with assms(2) show ?thesis by (simp add: buildLevel_def nth_foldl_link)
qed

lemma adj_node_less:
  assumes "level_ok lv" "i < lv_n lv" "nb \<in> set (lv_adj lv ! i)"
  shows "nb_node nb < lv_n lv" "nb_node nb \<noteq> i"
  using assms(3) level_ok_edge[OF assms(1)] level_ok_edge(3)[OF assms(1), THEN not_sym]
  unfolding adj_nth[OF assms(1,2)]
  by (auto simp: touches_def split: if_splits)

subsection \<open>Totals over a level\<close>

text \<open>
  The total of \<open>f\<close> over the edges and self-loops of a level; \<open>f\<close> is applied to both endpoints.
\<close>

definition esum :: "level \<Rightarrow> (nat \<Rightarrow> nat \<Rightarrow> float) \<Rightarrow> float" where
  "esum lv f =
     (\<Sum>e\<leftarrow>lv_edges lv. e_weight e * f (e_a e) (e_b e)) + (\<Sum>i<lv_n lv. lv_selfLoop lv ! i * f i i)"

lemma esum_add: "esum lv (\<lambda>x y. f x y + g x y) = esum lv f + esum lv g"
  by (simp add: esum_def distrib_left sum_list_addf sum.distrib)

lemma esum_diff: "esum lv (\<lambda>x y. f x y - g x y) = esum lv f - esum lv g"
  by (simp add: esum_def right_diff_distrib sum_list_subtractf sum_subtractf)

lemma esum_scale: "esum lv (\<lambda>x y. f x y * k) = esum lv f * k"
  by (simp add: esum_def distrib_right sum_list_mult_const sum_distrib_right flip: mult.assoc)

lemma esum_cong:
  assumes "level_ok lv"
    and "\<And>x y. x < lv_n lv \<Longrightarrow> y < lv_n lv \<Longrightarrow> f x y = g x y"
  shows "esum lv f = esum lv g"
proof -
  have "e_weight e * f (e_a e) (e_b e) = e_weight e * g (e_a e) (e_b e)" if "e \<in> set (lv_edges lv)" for e
    using level_ok_edge[OF assms(1) that] assms(2) by simp
  then show ?thesis
    unfolding esum_def by (intro arg_cong2[where f = "(+)"] arg_cong[where f = sum_list] map_cong refl sum.cong)
      (use assms(2) in auto)
qed

definition nonneg_level :: "level \<Rightarrow> bool" where
  "nonneg_level lv \<longleftrightarrow>
     list_all (\<lambda>e. 0 \<le> e_weight e) (lv_edges lv) \<and> list_all (\<lambda>w. 0 \<le> w) (lv_selfLoop lv)"

lemma esum_nonneg:
  assumes "level_ok lv" "nonneg_level lv"
    and "\<And>x y. x < lv_n lv \<Longrightarrow> y < lv_n lv \<Longrightarrow> 0 \<le> f x y"
  shows "0 \<le> esum lv f"
  unfolding esum_def
proof (rule add_nonneg_nonneg)
  show "0 \<le> (\<Sum>e\<leftarrow>lv_edges lv. e_weight e * f (e_a e) (e_b e))"
    using assms(2,3) level_ok_edge[OF assms(1)]
    by (intro sum_list_nonneg) (auto simp: nonneg_level_def list_all_iff)
  show "0 \<le> (\<Sum>i<lv_n lv. lv_selfLoop lv ! i * f i i)"
    using assms(2,3) level_ok_self[OF assms(1)]
    by (intro sum_nonneg mult_nonneg_nonneg) (auto simp: nonneg_level_def list_all_length)
qed

lemma degree_nth:
  assumes "level_ok lv" "i < lv_n lv"
  shows "lv_degree lv ! i = esum lv (\<lambda>x y. of_bool (x = i) + of_bool (y = i))"
proof -
  obtain n es sl where lv: "lv = buildLevel n es sl" "list_all (edge_ok n) es" "length sl = n"
    using assms(1) unfolding level_ok_def by blast
  have "(\<Sum>j<n. sl ! j * (of_bool (j = i) + of_bool (j = i))) = 2 * sl ! i"
    using assms(2) lv by (simp add: of_bool_def if_distrib sum.delta cong: if_cong)
  with lv assms(2) show ?thesis
    by (simp add: buildLevel_def nth_foldl_degree esum_def)
qed

subsection \<open>One node's move\<close>

lemma neigh_sums_fold:
  "foldl (see_neighbor comm) (ord, m) nbs = (ord', m') \<Longrightarrow> set ord = dom (gm_get m) \<Longrightarrow>
     set ord' = dom (gm_get m') \<and>
     set ord' = set ord \<union> (\<lambda>nb. comm ! nb_node nb) ` set nbs \<and>
     (\<forall>c. gm_get_or 0 m' c = gm_get_or 0 m c + (\<Sum>nb\<leftarrow>nbs. nb_weight nb * of_bool (comm ! nb_node nb = c)))"
proof (induction nbs arbitrary: ord m)
  case (Cons nb nbs)
  let ?c = "comm ! nb_node nb"
  let ?ord = "if gm_get m ?c = None then ord @ [?c] else ord"
  let ?m = "gm_put ?c (gm_get_or 0 m ?c + nb_weight nb) m"
  have step: "foldl (see_neighbor comm) (?ord, ?m) nbs = (ord', m')"
    using Cons.prems(1) by (simp only: foldl.simps see_neighbor_def[of comm "(ord, m)" nb] Let_def prod.case)
  have dom: "set ?ord = dom (gm_get ?m)" using Cons.prems(2) by (auto simp: dom_def)
  have cs: "set ?ord = insert ?c (set ord)" using Cons.prems(2) by auto
  show ?case using Cons.IH[OF step dom] cs by auto
qed simp

lemma neigh_sums_facts:
  assumes "neigh_sums comm nbs = (ord, m)"
  shows "set ord = (\<lambda>nb. comm ! nb_node nb) ` set nbs"
    and "gm_get_or 0 m c = (\<Sum>nb\<leftarrow>nbs. nb_weight nb * of_bool (comm ! nb_node nb = c))"
proof -
  have "set [] = dom (gm_get ([] :: (nat, float) gomap))" by simp
  from neigh_sums_fold[OF assms[unfolded neigh_sums_def] this]
  have "set ord = set [] \<union> (\<lambda>nb. comm ! nb_node nb) ` set nbs"
    "\<forall>c. gm_get_or 0 m c = gm_get_or 0 [] c + (\<Sum>nb\<leftarrow>nbs. nb_weight nb * of_bool (comm ! nb_node nb = c))"
    by blast+
  then show "set ord = (\<lambda>nb. comm ! nb_node nb) ` set nbs"
    and "gm_get_or 0 m c = (\<Sum>nb\<leftarrow>nbs. nb_weight nb * of_bool (comm ! nb_node nb = c))"
    by simp_all
qed

lemma best_fold:
  assumes "foldl (better gain) (b0, g0) cs = (b, g)"
  shows "g0 \<le> g \<and> (\<forall>c\<in>set cs. gain c \<le> g) \<and>
    (b = b0 \<and> g = g0 \<or> b \<in> set cs \<and> g = gain b \<and> g0 < g)"
  using assms
proof (induction cs arbitrary: b0 g0)
  case (Cons c cs)
  obtain b1 g1 where b1: "better gain (b0, g0) c = (b1, g1)" by fastforce
  from Cons.IH[of b1 g1] Cons.prems b1
  have "g1 \<le> g \<and> (\<forall>c\<in>set cs. gain c \<le> g) \<and>
    (b = b1 \<and> g = g1 \<or> b \<in> set cs \<and> g = gain b \<and> g1 < g)" by simp
  with b1 show ?case unfolding better_def by (auto split: if_splits)
qed simp

lemma best_comm_facts:
  shows "best_comm gain ci cs = ci \<or> best_comm gain ci cs \<in> set cs \<and> 0 < gain (best_comm gain ci cs)"
    and "best_comm gain ci cs \<noteq> ci \<Longrightarrow> c \<in> set cs \<Longrightarrow> gain c \<le> gain (best_comm gain ci cs)"
proof -
  obtain b g where bg: "foldl (better gain) (ci, 0) cs = (b, g)" by fastforce
  from best_fold[OF bg] bg
  show "best_comm gain ci cs = ci \<or> best_comm gain ci cs \<in> set cs \<and> 0 < gain (best_comm gain ci cs)"
    and "best_comm gain ci cs \<noteq> ci \<Longrightarrow> c \<in> set cs \<Longrightarrow> gain c \<le> gain (best_comm gain ci cs)"
    unfolding best_comm_def by auto
qed

text \<open>What one iteration of the inner loop does to the assignment, whatever the weights are.\<close>

lemma move_node_comm:
  assumes "level_ok lv" "i < lv_n lv" "length (mv_comm st) = lv_n lv"
  obtains (stay) "mv_comm (move_node lv m2 st i) = mv_comm st"
      "mv_moved (move_node lv m2 st i) = mv_moved st" "mv_ever (move_node lv m2 st i) = mv_ever st"
    | (move) j where "j < lv_n lv" "j \<noteq> i" "mv_comm st ! j \<noteq> mv_comm st ! i"
      "mv_comm (move_node lv m2 st i) = (mv_comm st)[i := mv_comm st ! j]"
      "mv_moved (move_node lv m2 st i)" "mv_ever (move_node lv m2 st i)"
proof -
  obtain ord m where nw: "neigh_sums (mv_comm st) (lv_adj lv ! i) = (ord, m)" by fastforce
  define gain where "gain = move_gain m ((mv_sigma st)[mv_comm st ! i :=
      mv_sigma st ! (mv_comm st ! i) - lv_degree lv ! i]) (lv_degree lv ! i) m2"
  define b where "b = best_comm gain (mv_comm st ! i) ord"
  have st: "mv_comm (move_node lv m2 st i) = (mv_comm st)[i := b]"
    "mv_moved (move_node lv m2 st i) = (b \<noteq> mv_comm st ! i \<or> mv_moved st)"
    "mv_ever (move_node lv m2 st i) = (b \<noteq> mv_comm st ! i \<or> mv_ever st)"
    unfolding move_node_def Let_def nw b_def gain_def by simp_all
  show thesis
  proof (cases "b = mv_comm st ! i")
    case True
    with st show thesis by (intro stay) auto
  next
    case False
    then have "b \<in> set ord" using best_comm_facts(1) unfolding b_def by metis
    then obtain nb where "nb \<in> set (lv_adj lv ! i)" "b = mv_comm st ! nb_node nb"
      using neigh_sums_facts(1)[OF nw] by auto
    with adj_node_less[OF assms(1,2)] False st show thesis by (intro move[of "nb_node nb"]) auto
  qed
qed

subsection \<open>A moved level shrinks\<close>

text \<open>
  The loop starts with every node alone. A move only ever names a community that is in use, and
  the first one empties the mover's.
\<close>

definition shrinking :: "nat \<Rightarrow> moving \<Rightarrow> bool" where
  "shrinking n st \<longleftrightarrow>
     length (mv_comm st) = n \<and> set (mv_comm st) \<subseteq> {..<n} \<and>
     (if mv_ever st then card (set (mv_comm st)) < n else mv_comm st = [0..<n])"

lemma shrinking_move:
  assumes "level_ok lv" "i < lv_n lv" "shrinking (lv_n lv) st"
  shows "shrinking (lv_n lv) (move_node lv m2 st i)"
proof -
  have len: "length (mv_comm st) = lv_n lv" using assms(3) by (simp add: shrinking_def)
  show ?thesis
  proof (rule move_node_comm[OF assms(1,2) len, where ?m2.0 = m2], goal_cases)
    case stay: 1
    with assms(3) show ?thesis by (simp add: shrinking_def)
  next
    case move: (2 j)
    let ?c = "mv_comm st" and ?c' = "(mv_comm st)[i := mv_comm st ! j]"
    have sub: "set ?c' \<subseteq> set ?c"
      using move(1) len set_update_subset_insert[of ?c i "?c ! j"] by auto
    have "card (set ?c') < lv_n lv"
    proof (cases "mv_ever st")
      case True
      with sub assms(3) show ?thesis
        by (metis List.finite_set card_mono order_le_less_trans shrinking_def)
    next
      case False
      with assms(3) have c: "?c = [0..<lv_n lv]" by (simp add: shrinking_def)
      with move(1,2) assms(2) have "i \<notin> set ?c'"
        by (auto simp: in_set_conv_nth nth_list_update)
      with sub c assms(2) have "set ?c' \<subset> set [0..<lv_n lv]" by auto
      from psubset_card_mono[OF _ this] show ?thesis by simp
    qed
    with move sub assms(3) len show ?thesis by (auto simp: shrinking_def)
  qed
qed

lemma fold_inv:
  "P s \<Longrightarrow> (\<And>s x. x \<in> set xs \<Longrightarrow> P s \<Longrightarrow> P (f s x)) \<Longrightarrow> P (foldl f s xs)"
  by (induction xs arbitrary: s) auto

text \<open>An invariant of the moves that ignores the per-pass flag holds of what the rounds return.\<close>

lemma run_passes_inv:
  assumes "run_passes k lv m2 st ctx = (ctx', Inr st')" "P st"
    and "\<And>st i. i < lv_n lv \<Longrightarrow> P st \<Longrightarrow> P (move_node lv m2 st i)"
    and "\<And>st. P (st\<lparr> mv_moved := False \<rparr>) = P st"
  shows "P st'"
  using assms(1,2)
proof (induction k arbitrary: st ctx)
  case (Suc k)
  have pass: "P (one_pass lv m2 st)"
    unfolding one_pass_def by (rule fold_inv) (use Suc.prems(2) assms(3,4) in auto)
  with Suc show ?case by (auto simp: try_proc_def Let_def split: prod.splits option.splits if_splits)
qed simp

lemma localMoving_inv:
  assumes "localMoving lv m2 ctx = (ctx', Inr (comm, moved))" "P (start_moving lv)"
    and "\<And>st i. i < lv_n lv \<Longrightarrow> P st \<Longrightarrow> P (move_node lv m2 st i)"
    and "\<And>st. P (st\<lparr> mv_moved := False \<rparr>) = P st"
  obtains st where "comm = mv_comm st" "moved = mv_ever st" "P st"
  using assms(1) run_passes_inv[of maxPasses lv m2 "start_moving lv" ctx ctx', OF _ assms(2-4)]
  by (auto simp: localMoving_def try_call_def split: prod.splits sum.splits)

lemma localMoving_shrinks:
  assumes "level_ok lv" "localMoving lv m2 ctx = (ctx', Inr (comm, moved))"
  shows "length comm = lv_n lv" "set comm \<subseteq> {..<lv_n lv}"
    and "moved \<Longrightarrow> card (set comm) < lv_n lv"
proof -
  obtain st where "comm = mv_comm st" "moved = mv_ever st" "shrinking (lv_n lv) st"
    using assms(2)
  proof (rule localMoving_inv[where P = "shrinking (lv_n lv)"])
    show "shrinking (lv_n lv) (start_moving lv)" by (auto simp: shrinking_def start_moving_def)
  qed (use assms(1) shrinking_move in \<open>auto simp: shrinking_def\<close>)
  then show "length comm = lv_n lv" "set comm \<subseteq> {..<lv_n lv}"
    "moved \<Longrightarrow> card (set comm) < lv_n lv"
    by (auto simp: shrinking_def)
qed

subsection \<open>Compaction\<close>

text \<open>
  After compaction: \<open>\<phi>\<close>, what the map gives each raw id, is one to one onto \<open>{..<k}\<close>.
\<close>

lemma compact_one_apply:
  "compact_one (m, ids, k) c =
     (case gm_get m c of Some rc \<Rightarrow> (m, ids @ [rc], k) | None \<Rightarrow> (gm_put c k m, ids @ [k], Suc k))"
  by (simp add: compact_one_def split: option.splits)

definition remap_fun :: "(nat, nat) gomap \<Rightarrow> nat \<Rightarrow> nat" where
  "remap_fun remap c = gm_get_or 0 remap c"

lemma compaction_fold:
  assumes "foldl compact_one (m, ids, k) cs = (m', ids', k')"
    and "bij_betw (\<lambda>c. remap_fun m c) D {..<k}" "dom (gm_get m) = D"
  shows "\<exists>rest. ids' = ids @ map (remap_fun m') cs \<and>
    bij_betw (remap_fun m') (D \<union> set cs) {..<k'} \<and> dom (gm_get m') = D \<union> set cs \<and>
    (\<forall>c\<in>D. remap_fun m' c = remap_fun m c)"
  using assms
proof (induction cs arbitrary: m ids k D)
  case (Cons c cs)
  show ?case
  proof (cases "c \<in> D")
    case True
    then obtain rc where rc: "gm_get m c = Some rc" using Cons.prems(3) by auto
    then have "foldl compact_one (m, ids @ [rc], k) cs = (m', ids', k')"
      using Cons.prems(1) by (simp add: compact_one_apply)
    from Cons.IH[OF this Cons.prems(2,3)] True rc show ?thesis
      by (auto simp: insert_absorb remap_fun_def gm_get_or_def)
  next
    case False
    then have none: "gm_get m c = None" using Cons.prems(3) by (auto simp: dom_def)
    let ?m = "gm_put c k m"
    have eq: "remap_fun ?m d = (if d = c then k else remap_fun m d)" for d
      by (simp add: remap_fun_def)
    have bij: "bij_betw (remap_fun ?m) (insert c D) {..<Suc k}"
      using Cons.prems(2) False
      by (auto simp: eq bij_betw_def inj_on_def lessThan_Suc image_iff)
    have step: "foldl compact_one (?m, ids @ [k], Suc k) cs = (m', ids', k')"
      using Cons.prems(1) none by (simp add: compact_one_apply)
    have dom: "dom (gm_get ?m) = insert c D" using Cons.prems(3) by (auto simp: dom_def)
    from Cons.IH[OF step bij dom] show ?thesis using False by (auto simp: eq)
  qed
qed simp

lemma compaction_facts:
  assumes "compaction cs = (m, ids, k)"
  shows "ids = map (remap_fun m) cs" "bij_betw (remap_fun m) (set cs) {..<k}" "k = card (set cs)"
proof -
  have "bij_betw (remap_fun []) {} {..<0}" by (simp add: bij_betw_def)
  from compaction_fold[OF assms[unfolded compaction_def] this]
  show "ids = map (remap_fun m) cs" and b: "bij_betw (remap_fun m) (set cs) {..<k}" by auto
  from bij_betw_same_card[OF b] show "k = card (set cs)" by simp
qed

subsection \<open>Aggregation pushes totals forward\<close>

lemma sum_bump:
  assumes "k < n" "length xs = n"
  shows "(\<Sum>j<n. xs[k := xs ! k + w] ! j * g j) = (\<Sum>j<n. xs ! j * g j) + (w :: float) * g k"
proof -
  have "(\<Sum>j<n. xs[k := xs ! k + w] ! j * g j) = (\<Sum>j<n. xs ! j * g j + (if j = k then w * g k else 0))"
    using assms by (intro sum.cong) (auto simp: nth_list_update distrib_right)
  with assms(1) show ?thesis by (simp add: sum.distrib)
qed

lemma fold_self_sum:
  assumes "list_all (\<lambda>i. ids ! i < n) is"
  shows "length sl = n \<Longrightarrow> length (foldl (fold_self ids selfs) sl is) = n \<and>
    (\<Sum>j<n. foldl (fold_self ids selfs) sl is ! j * g j) =
      (\<Sum>j<n. sl ! j * g j) + (\<Sum>i\<leftarrow>is. selfs ! i * g (ids ! i))"
  using assms
proof (induction "is" arbitrary: sl)
  case (Cons i "is")
  then show ?case using Cons.IH[of "fold_self ids selfs sl i"] by (simp add: fold_self_def sum_bump)
qed simp

lemma fold_self_nonneg:
  assumes "list_all (\<lambda>i. ids ! i < n \<and> 0 \<le> selfs ! i) is"
  shows "length sl = n \<Longrightarrow> list_all ((\<le>) (0 :: float)) sl \<Longrightarrow>
    list_all ((\<le>) 0) (foldl (fold_self ids selfs) sl is)"
  using assms
proof (induction "is" arbitrary: sl)
  case (Cons i "is")
  have "list_all ((\<le>) 0) (fold_self ids selfs sl i)"
    using Cons.prems by (auto simp: fold_self_def list_all_length nth_list_update)
  then show ?case using Cons.IH[of "fold_self ids selfs sl i"] Cons.prems by (simp add: fold_self_def)
qed simp

text \<open>The state of the edge loop: the pairs met so far, each once and ordered, and their weights.\<close>

definition folding_ok :: "nat \<Rightarrow> float list \<times> (nat \<times> nat) list \<times> (nat \<times> nat, float) gomap \<Rightarrow> bool" where
  "folding_ok k acc = (case acc of (sl, ord, m) \<Rightarrow>
     length sl = k \<and> distinct ord \<and> set ord = dom (gm_get m) \<and>
     list_all (\<lambda>p. fst p < snd p \<and> snd p < k) ord)"

definition folding_sum ::
    "nat \<Rightarrow> (nat \<Rightarrow> nat \<Rightarrow> float) \<Rightarrow> float list \<times> (nat \<times> nat) list \<times> (nat \<times> nat, float) gomap \<Rightarrow> float" where
  "folding_sum k f acc = (case acc of (sl, ord, m) \<Rightarrow>
     (\<Sum>j<k. sl ! j * f j j) + (\<Sum>p\<in>set ord. gm_get_or 0 m p * f (fst p) (snd p)))"

definition folding_nonneg :: "float list \<times> (nat \<times> nat) list \<times> (nat \<times> nat, float) gomap \<Rightarrow> bool" where
  "folding_nonneg acc = (case acc of (sl, ord, m) \<Rightarrow>
     list_all ((\<le>) 0) sl \<and> (\<forall>p. 0 \<le> gm_get_or 0 m p))"

lemma bump_weight_sum:
  assumes "set ord = dom (gm_get m)"
  shows "(\<Sum>p\<in>insert q (set ord). gm_get_or 0 (gm_put q (gm_get_or 0 m q + w) m) p * h p) =
    (\<Sum>p\<in>set ord. gm_get_or 0 m p * h p) + (w :: float) * h q"
proof -
  have "gm_get_or 0 m q = 0" if "q \<notin> set ord"
    using that assms by (auto simp: gm_get_or_def dom_def split: option.splits)
  then have "(\<Sum>p\<in>insert q (set ord). gm_get_or 0 m p * h p) = (\<Sum>p\<in>set ord. gm_get_or 0 m p * h p)"
    by (cases "q \<in> set ord") (auto simp: insert_absorb)
  moreover have "(\<Sum>p\<in>insert q (set ord). gm_get_or 0 (gm_put q (gm_get_or 0 m q + w) m) p * h p) =
      (\<Sum>p\<in>insert q (set ord). gm_get_or 0 m p * h p + (if p = q then w * h q else 0))"
    by (intro sum.cong) (auto simp: distrib_right)
  ultimately show ?thesis by (simp only: sum.distrib) (simp add: sum.delta)
qed

lemma fold_edge_step:
  assumes "folding_ok k acc" "ids ! e_a e < k" "ids ! e_b e < k"
  shows "folding_ok k (fold_edge ids acc e)"
    and "(\<And>x y. f x y = f y x) \<Longrightarrow> folding_sum k f (fold_edge ids acc e) =
           folding_sum k f acc + e_weight e * f (ids ! e_a e) (ids ! e_b e)"
    and "0 \<le> e_weight e \<Longrightarrow> folding_nonneg acc \<Longrightarrow> folding_nonneg (fold_edge ids acc e)"
proof -
  obtain sl ord m where acc: "acc = (sl, ord, m)" by (cases acc)
  let ?a = "ids ! e_a e" and ?b = "ids ! e_b e" and ?w = "e_weight e"
  let ?q = "if ?a > ?b then (?b, ?a) else (?a, ?b)"
  have ok: "length sl = k" "distinct ord" "set ord = dom (gm_get m)"
    "list_all (\<lambda>p. fst p < snd p \<and> snd p < k) ord"
    using assms(1) by (auto simp: acc folding_ok_def)
  have step: "fold_edge ids acc e =
      (if ?a = ?b then (sl[?a := sl ! ?a + ?w], ord, m)
       else (sl, if gm_get m ?q = None then ord @ [?q] else ord, gm_put ?q (gm_get_or 0 m ?q + ?w) m))"
    by (simp add: acc fold_edge_def Let_def)
  have set: "set (if gm_get m ?q = None then ord @ [?q] else ord) = insert ?q (set ord)"
    using ok(3) by (auto simp: dom_def)
  show "folding_ok k (fold_edge ids acc e)"
  proof (cases "?a = ?b")
    case True
    with step ok show ?thesis by (simp add: folding_ok_def)
  next
    case False
    have "distinct (if gm_get m ?q = None then ord @ [?q] else ord)"
      using ok(2,3) by (auto simp: dom_def)
    moreover have "insert ?q (set ord) = dom (gm_get (gm_put ?q (gm_get_or 0 m ?q + ?w) m))"
      using ok(3) by (auto simp: dom_def)
    moreover have "list_all (\<lambda>p. fst p < snd p \<and> snd p < k) (if gm_get m ?q = None then ord @ [?q] else ord)"
      using ok(4) False assms(2,3) unfolding list_all_iff set by auto
    ultimately show ?thesis using False step ok(1) set by (simp only: folding_ok_def prod.case if_False)
  qed
  show "folding_sum k f (fold_edge ids acc e) = folding_sum k f acc + ?w * f ?a ?b"
    if "\<And>x y. f x y = f y x"
  proof (cases "?a = ?b")
    case True
    with step ok(1) assms(2) show ?thesis by (simp add: folding_sum_def acc sum_bump)
  next
    case False
    have q: "f (fst ?q) (snd ?q) = f ?a ?b" using that by auto
    have "folding_sum k f (fold_edge ids acc e) =
        (\<Sum>j<k. sl ! j * f j j) +
        (\<Sum>p\<in>insert ?q (set ord). gm_get_or 0 (gm_put ?q (gm_get_or 0 m ?q + ?w) m) p * f (fst p) (snd p))"
      using False by (simp only: step folding_sum_def prod.case if_False set)
    also have "\<dots> = folding_sum k f acc + ?w * f (fst ?q) (snd ?q)"
      using bump_weight_sum[OF ok(3), where q = ?q and w = ?w and h = "\<lambda>p. f (fst p) (snd p)"]
      by (simp only: folding_sum_def acc prod.case add.assoc)
    finally show ?thesis by (simp only: q)
  qed
  show "folding_nonneg (fold_edge ids acc e)" if "0 \<le> ?w" "folding_nonneg acc"
    using that ok(1) assms(2) unfolding step
    by (auto simp: folding_nonneg_def acc list_all_length nth_list_update)
qed

lemma fold_edges:
  assumes "folding_ok k acc" "list_all (\<lambda>e. ids ! e_a e < k \<and> ids ! e_b e < k) es"
  shows "folding_ok k (foldl (fold_edge ids) acc es)"
    and "(\<And>x y. f x y = f y x) \<Longrightarrow> folding_sum k f (foldl (fold_edge ids) acc es) =
           folding_sum k f acc + (\<Sum>e\<leftarrow>es. e_weight e * f (ids ! e_a e) (ids ! e_b e))"
    and "list_all (\<lambda>e. 0 \<le> e_weight e) es \<Longrightarrow> folding_nonneg acc \<Longrightarrow>
           folding_nonneg (foldl (fold_edge ids) acc es)"
  using assms
  by (induction es arbitrary: acc) (simp_all add: fold_edge_step)

text \<open>
  The contract of \<^verbatim>\<open>aggregate\<close>: the new level has one node per community, and a symmetric
  total over it is the total over the old level of the function of the endpoints' new numbers.
\<close>

lemma aggregate_facts:
  assumes "level_ok lv" "length comm = lv_n lv" "aggregate lv comm = (nxt, newN, remap)"
  shows "level_ok nxt" "lv_n nxt = newN" "newN = card (set comm)"
    and "bij_betw (remap_fun remap) (set comm) {..<newN}"
    and "(\<And>x y. f x y = f y x) \<Longrightarrow>
           esum nxt f = esum lv (\<lambda>x y. f (remap_fun remap (comm ! x)) (remap_fun remap (comm ! y)))"
    and "nonneg_level lv \<Longrightarrow> nonneg_level nxt"
proof -
  obtain ids where c: "compaction comm = (remap, ids, newN)"
    using assms(3) by (auto simp: aggregate_def Let_def split: prod.splits)
  define \<phi> where "\<phi> = remap_fun remap"
  note cf = compaction_facts[OF c]
  have ids: "ids ! x = \<phi> (comm ! x)" if "x < lv_n lv" for x
    using that assms(2) cf(1) by (simp add: \<phi>_def)
  have lt: "ids ! x < newN" if "x < lv_n lv" for x
    using that assms(2) bij_betwE[OF cf(2)] by (simp add: ids \<phi>_def)
  define sl where "sl = foldl (fold_self ids (lv_selfLoop lv)) (replicate newN 0) [0..<lv_n lv]"
  obtain sl' ord m where fe: "foldl (fold_edge ids) (sl, [], []) (lv_edges lv) = (sl', ord, m)"
    by (cases "foldl (fold_edge ids) (sl, [], []) (lv_edges lv)")
  let ?new = "\<lambda>p. \<lparr> e_a = fst p, e_b = snd p, e_weight = gm_get_or 0 m p \<rparr>"
  have nxt: "nxt = buildLevel newN (map ?new ord) sl'"
    using assms(3) c fe by (simp add: aggregate_def sl_def)
  have self: "length sl = newN \<and> (\<Sum>j<newN. sl ! j * g j) =
      (\<Sum>j<newN. replicate newN 0 ! j * g j) + (\<Sum>i\<leftarrow>[0..<lv_n lv]. lv_selfLoop lv ! i * g (ids ! i))" for g
    unfolding sl_def by (rule fold_self_sum) (simp_all add: list_all_iff lt)
  have start: "folding_ok newN (sl, [], [])" using self by (simp add: folding_ok_def)
  have es: "list_all (\<lambda>e. ids ! e_a e < newN \<and> ids ! e_b e < newN) (lv_edges lv)"
    using level_ok_edge[OF assms(1)] lt by (auto simp: list_all_iff)
  note fold = fold_edges[OF start es, unfolded fe]
  have ok: "length sl' = newN" "distinct ord" "list_all (\<lambda>p. fst p < snd p \<and> snd p < newN) ord"
    using fold(1) by (auto simp: folding_ok_def)
  show "level_ok nxt" unfolding nxt
    using ok by (intro level_okI) (auto simp: list_all_iff edge_ok_def)
  show "lv_n nxt = newN" by (simp add: nxt)
  show "newN = card (set comm)" "bij_betw (remap_fun remap) (set comm) {..<newN}" by (fact cf)+
  show "esum nxt f = esum lv (\<lambda>x y. f (remap_fun remap (comm ! x)) (remap_fun remap (comm ! y)))"
    if sym: "\<And>x y. f x y = f y x"
  proof -
    have "esum nxt f = folding_sum newN f (sl', ord, m)"
      using ok(2) by (simp add: nxt esum_def folding_sum_def comp_def sum_list_distinct_conv_sum_set)
    also have "\<dots> = (\<Sum>i<lv_n lv. lv_selfLoop lv ! i * f (ids ! i) (ids ! i)) +
        (\<Sum>e\<leftarrow>lv_edges lv. e_weight e * f (ids ! e_a e) (ids ! e_b e))"
      using fold(2)[of f, OF sym] self[of "\<lambda>j. f j j"]
      by (simp add: folding_sum_def interv_sum_list_conv_sum_set_nat atLeast0LessThan)
    also have "\<dots> = esum lv (\<lambda>x y. f (ids ! x) (ids ! y))" by (simp add: esum_def)
    also have "\<dots> = esum lv (\<lambda>x y. f (\<phi> (comm ! x)) (\<phi> (comm ! y)))"
      by (rule esum_cong[OF assms(1)]) (simp add: ids)
    finally show ?thesis by (simp only: \<phi>_def)
  qed
  show "nonneg_level nxt" if "nonneg_level lv"
  proof -
    have "list_all ((\<le>) 0) sl" unfolding sl_def
      by (rule fold_self_nonneg[where n = newN])
        (use that level_ok_self[OF assms(1)] lt in \<open>auto simp: nonneg_level_def list_all_length\<close>)
    then have "folding_nonneg (sl, [], [])" by (simp add: folding_nonneg_def)
    with fold(3) that have "folding_nonneg (sl', ord, m)" by (simp add: nonneg_level_def)
    then show ?thesis by (auto simp: nxt nonneg_level_def folding_nonneg_def list_all_iff)
  qed
qed

subsection \<open>The rounds end\<close>

lemma louvain_levels_step:
  obtains (err) e where "louvain_levels m2 ctx cur fc = Some (Inl e)"
    | (settled) ctx2 comm where "localMoving cur m2 (fst (ctx_Err ctx)) = (ctx2, Inr (comm, False))"
        "louvain_levels m2 ctx cur fc = Some (Inr fc)"
    | (next_level) ctx2 comm nxt newN remap fc1
      where "localMoving cur m2 (fst (ctx_Err ctx)) = (ctx2, Inr (comm, True))"
        "aggregate cur comm = (nxt, newN, remap)"
        "fc1 = map (\<lambda>c. remap_fun remap (comm ! c)) fc"
        "louvain_levels m2 ctx cur fc =
           (if newN = 1 then Some (Inr fc1) else louvain_levels m2 ctx2 nxt fc1)"
proof -
  obtain ctx1 r where c1: "ctx_Err ctx = (ctx1, r)" by fastforce
  obtain ctx2 s where c2: "localMoving cur m2 ctx1 = (ctx2, s)" by fastforce
  note eq = louvain_levels.simps[of m2 ctx cur fc]
  consider (e1) e where "r = Some e" | (e2) e where "r = None" "s = Inl e"
    | (stop) comm where "r = None" "s = Inr (comm, False)"
    | (go) comm where "r = None" "s = Inr (comm, True)"
    by (cases r; cases s) auto
  then show thesis
  proof cases
    case (go comm)
    obtain nxt newN remap where "aggregate cur comm = (nxt, newN, remap)"
      by (cases "aggregate cur comm") auto
    with go c1 c2 eq show thesis by (intro next_level) (auto simp: remap_fun_def Let_def)
  qed (use c1 c2 eq err settled in auto)
qed

lemma louvain_levels_return:
  "level_ok cur \<Longrightarrow> \<exists>r. louvain_levels m2 ctx cur fc = Some r"
proof (induction "lv_n cur" arbitrary: ctx cur fc rule: less_induct)
  case less
  show ?case
  proof (cases m2 ctx cur fc rule: louvain_levels_step)
    case (next_level ctx2 comm nxt newN remap fc1)
    note lm = localMoving_shrinks[OF less.prems next_level(1)]
    note ag = aggregate_facts[OF less.prems lm(1) next_level(2)]
    have "lv_n nxt < lv_n cur" using ag(2,3) lm(3) by simp
    from less.hyps[OF this ag(1)] show ?thesis using next_level(4) by simp
  qed auto
qed

lemma assign_fold:
  "gm_get (foldl (\<lambda>m (u, c). gm_put u c m) m ps) u = Some c \<Longrightarrow>
     gm_get m u = Some c \<or> c \<in> snd ` set ps"
proof (induction ps arbitrary: m)
  case (Cons p ps)
  from Cons.IH[of "gm_put (fst p) (snd p) m"] Cons.prems show ?case
    by (cases p) (auto split: if_splits)
qed simp

lemma assign_val: "gm_get (assign ids cs) u = Some c \<Longrightarrow> c \<in> set cs"
  using assign_fold[of "[]" "zip ids cs" u c] by (auto simp: assign_def dest: set_zip_rightD)

lemma assign_zip:
  assumes "length ids = length cs" "distinct ids"
  shows "assign ids cs = zip ids cs"
proof -
  have "map2 (\<lambda>u c. c) ids cs = cs" by (rule nth_equalityI) (simp_all add: assms(1))
  with foldl_put_fresh[OF assms, of "[]" "\<lambda>u c. c"] show ?thesis by (simp add: assign_def)
qed

lemma index_nodes_less: "gm_get (index_nodes ids) u = Some i \<Longrightarrow> i < length ids"
  by (auto simp: index_nodes_def dest: assign_val)

lemma level0_edges_ok: "list_all (edge_ok (length (g_Nodes g))) (level0_edges g)"
  by (auto simp: level0_edges_def list_all_iff List.map_filter_def index_edge_def edge_ok_def
      dest: index_nodes_less split: option.splits if_splits)

definition level0 :: "graph \<Rightarrow> level" where
  "level0 g = buildLevel (length (g_Nodes g)) (level0_edges g) (replicate (length (g_Nodes g)) 0)"

lemma level0_ok: "level_ok (level0 g)" "lv_n (level0 g) = length (g_Nodes g)"
  unfolding level0_def by (auto intro!: level_okI level0_edges_ok)

definition total_weight :: "graph \<Rightarrow> float" where
  "total_weight g = (\<Sum>e\<leftarrow>level0_edges g. e_weight e)"

lemma foldl_weight: "foldl (\<lambda>t e. t + e_weight e) k es = k + (\<Sum>e\<leftarrow>es. e_weight e)"
  by (induction es arbitrary: k) (auto simp: add.assoc)

text \<open>The method by cases: cancelled, without nodes, without weight, or through the rounds.\<close>

lemma Louvain_eq:
  "Louvain ctx g =
     (case ctx_Err ctx of
        (ctx1, Some e) \<Rightarrow> Some (Inl (Wrapf ''community: louvain'' e))
      | (ctx1, None) \<Rightarrow>
          if g_Nodes g = [] then Some (Inr ([], 0))
          else if total_weight g = 0 then Some (Inr (assign (g_Nodes g) [0..<length (g_Nodes g)], 0))
          else map_option (map_sum id (\<lambda>fc.
                 (assign (g_Nodes g) (fst (snd (compaction fc))),
                  modularity (length (g_Nodes g)) (level0_edges g) (lv_degree (level0 g)) (total_weight g) fc)))
               (louvain_levels (2 * total_weight g) ctx1 (level0 g) [0..<length (g_Nodes g)]))"
  unfolding Louvain_def Let_def foldl_weight total_weight_def level0_def
  by (simp split: prod.splits option.splits sum.splits)

text \<open>
  C27. Community detection returns on every graph, whatever its weights, and under any cancellation:
  a level on which some node moved has fewer communities than nodes, because the first move empties
  the mover's own community and no move opens one, so each round works on a smaller graph. The
  argument makes no use of the weights, so the rounding of the program's floating-point
  arithmetic does not affect it.
\<close>

theorem Louvain_returns: "\<exists>r. Louvain ctx g = Some r"
  using louvain_levels_return[OF level0_ok(1), where ?m2.0 = "2 * total_weight g"]
  by (auto simp: Louvain_eq split: prod.splits option.splits)

subsection \<open>The quality of a partition of a level\<close>

definition inside :: "level \<Rightarrow> (nat \<Rightarrow> nat) \<Rightarrow> float" where
  "inside lv p = esum lv (\<lambda>x y. of_bool (p x = p y))"

definition share :: "level \<Rightarrow> (nat \<Rightarrow> nat) \<Rightarrow> nat \<Rightarrow> float" where
  "share lv p c = esum lv (\<lambda>x y. of_bool (p x = c) + of_bool (p y = c))"

definition quality :: "float \<Rightarrow> level \<Rightarrow> (nat \<Rightarrow> nat) \<Rightarrow> float" where
  "quality m2 lv p = 2 * inside lv p / m2 - (\<Sum>c\<in>p ` {..<lv_n lv}. (share lv p c / m2)\<^sup>2)"

lemma share_outside: "level_ok lv \<Longrightarrow> c \<notin> p ` {..<lv_n lv} \<Longrightarrow> share lv p c = 0"
  unfolding share_def by (subst esum_cong[where g = "\<lambda>x y. 0"]) (auto simp: esum_def)

lemma quality_superset:
  assumes "level_ok lv" "finite S" "p ` {..<lv_n lv} \<subseteq> S"
  shows "quality m2 lv p = 2 * inside lv p / m2 - (\<Sum>c\<in>S. (share lv p c / m2)\<^sup>2)"
proof -
  have "(\<Sum>c\<in>p ` {..<lv_n lv}. (share lv p c / m2)\<^sup>2) = (\<Sum>c\<in>S. (share lv p c / m2)\<^sup>2)"
    using assms by (intro sum.mono_neutral_left) (auto simp: share_outside)
  then show ?thesis by (simp add: quality_def)
qed

lemma quality_cong:
  assumes "level_ok lv" "\<And>x. x < lv_n lv \<Longrightarrow> p x = q x"
  shows "quality m2 lv p = quality m2 lv q"
proof -
  have "inside lv p = inside lv q" "share lv p c = share lv q c" for c
    unfolding inside_def share_def by (rule esum_cong[OF assms(1)]; simp add: assms(2))+
  moreover have "p ` {..<lv_n lv} = q ` {..<lv_n lv}" using assms(2) by auto
  ultimately show ?thesis by (simp add: quality_def)
qed

text \<open>The names of the communities do not matter.\<close>

lemma quality_rename:
  assumes "level_ok lv" "inj_on \<phi> (p ` {..<lv_n lv})"
  shows "quality m2 lv (\<lambda>x. \<phi> (p x)) = quality m2 lv p"
proof -
  let ?D = "p ` {..<lv_n lv}"
  have "inside lv (\<lambda>x. \<phi> (p x)) = inside lv p"
    unfolding inside_def using assms(2)
    by (intro esum_cong[OF assms(1)]) (auto simp: inj_on_eq_iff)
  moreover have "share lv (\<lambda>x. \<phi> (p x)) (\<phi> c) = share lv p c" if "c \<in> ?D" for c
    unfolding share_def using assms(2) that
    by (intro esum_cong[OF assms(1)]) (simp add: inj_on_eq_iff)
  then have "(\<Sum>c\<in>\<phi> ` ?D. (share lv (\<lambda>x. \<phi> (p x)) c / m2)\<^sup>2) = (\<Sum>c\<in>?D. (share lv p c / m2)\<^sup>2)"
    using assms(2) by (simp add: sum.reindex)
  ultimately show ?thesis by (simp add: quality_def image_image)
qed

definition towards :: "level \<Rightarrow> (nat \<Rightarrow> nat) \<Rightarrow> nat \<Rightarrow> nat \<Rightarrow> float" where
  "towards lv p i c =
     esum lv (\<lambda>x y. of_bool (x = i \<and> y \<noteq> i \<and> p y = c) + of_bool (y = i \<and> x \<noteq> i \<and> p x = c))"

definition ends :: "level \<Rightarrow> nat \<Rightarrow> float" where
  "ends lv i = esum lv (\<lambda>x y. of_bool (x = i) + of_bool (y = i))"

lemma share_move:
  assumes "level_ok lv"
  shows "share lv (p(i := b)) c = share lv p c + (of_bool (c = b) - of_bool (c = p i)) * ends lv i"
proof -
  have "share lv (p(i := b)) c = esum lv (\<lambda>x y. (of_bool (p x = c) + of_bool (p y = c)) +
      (of_bool (x = i) + of_bool (y = i)) * (of_bool (c = b) - of_bool (c = p i)))"
    unfolding share_def by (rule esum_cong[OF assms]) (auto simp: of_bool_def)
  also have "\<dots> = share lv p c + ends lv i * (of_bool (c = b) - of_bool (c = p i))"
    unfolding esum_add esum_scale share_def ends_def ..
  finally show ?thesis by (simp add: mult.commute)
qed

lemma inside_move:
  assumes "level_ok lv"
  shows "inside lv (p(i := b)) = inside lv p + towards lv p i b - towards lv p i (p i)"
proof -
  have "inside lv (p(i := b)) = esum lv (\<lambda>x y. of_bool (p x = p y) +
      (of_bool (x = i \<and> y \<noteq> i \<and> p y = b) + of_bool (y = i \<and> x \<noteq> i \<and> p x = b)) -
      (of_bool (x = i \<and> y \<noteq> i \<and> p y = p i) + of_bool (y = i \<and> x \<noteq> i \<and> p x = p i)))"
    unfolding inside_def by (rule esum_cong[OF assms]) (auto simp: of_bool_def)
  then show ?thesis by (simp only: esum_diff esum_add inside_def towards_def)
qed

lemma sum_squares_move:
  fixes s :: "nat \<Rightarrow> float"
  assumes "b < n" "a < n" "a \<noteq> b"
  shows "(\<Sum>c<n. ((s c + (of_bool (c = b) - of_bool (c = a)) * k) / m2)\<^sup>2) =
    (\<Sum>c<n. (s c / m2)\<^sup>2) + (2 * k * (s b - s a) + 2 * k\<^sup>2) / m2\<^sup>2"
proof -
  have "((s c + (of_bool (c = b) - of_bool (c = a)) * k) / m2)\<^sup>2 = (s c / m2)\<^sup>2 +
      ((if c = b then (2 * k * s b + k\<^sup>2) / m2\<^sup>2 else 0) + (if c = a then (k\<^sup>2 - 2 * k * s a) / m2\<^sup>2 else 0))" for c
    using assms(3) by (auto simp: power_divide power2_eq_square algebra_simps add_divide_distrib diff_divide_distrib)
  then have "(\<Sum>c<n. ((s c + (of_bool (c = b) - of_bool (c = a)) * k) / m2)\<^sup>2) =
      (\<Sum>c<n. (s c / m2)\<^sup>2) + ((2 * k * s b + k\<^sup>2) / m2\<^sup>2 + (k\<^sup>2 - 2 * k * s a) / m2\<^sup>2)"
    using assms(1,2) by (simp add: sum.distrib)
  then show ?thesis by (simp add: add_divide_distrib diff_divide_distrib algebra_simps)
qed

definition net_gain :: "float \<Rightarrow> level \<Rightarrow> (nat \<Rightarrow> nat) \<Rightarrow> nat \<Rightarrow> nat \<Rightarrow> float" where
  "net_gain m2 lv p i c =
     towards lv p i c - (share lv p c - of_bool (c = p i) * ends lv i) * ends lv i / m2"

text \<open>Moving a node changes the quality by the difference of the two communities' gains.\<close>

lemma quality_move:
  assumes "level_ok lv" "i < lv_n lv" "p ` {..<lv_n lv} \<subseteq> {..<lv_n lv}" "b < lv_n lv" "b \<noteq> p i" "m2 \<noteq> 0"
  shows "quality m2 lv (p(i := b)) =
    quality m2 lv p + 2 / m2 * (net_gain m2 lv p i b - net_gain m2 lv p i (p i))"
proof -
  let ?n = "lv_n lv" and ?k = "ends lv i"
  have pi: "p i < ?n" using assms(2,3) by auto
  have q: "quality m2 lv r = 2 * inside lv r / m2 - (\<Sum>c<?n. (share lv r c / m2)\<^sup>2)"
    if "r ` {..<?n} \<subseteq> {..<?n}" for r
    using quality_superset[OF assms(1) _ that] by simp
  have sub: "(p(i := b)) ` {..<?n} \<subseteq> {..<?n}" using assms(3,4) by auto
  have "quality m2 lv (p(i := b)) = 2 * (inside lv p + towards lv p i b - towards lv p i (p i)) / m2 -
      ((\<Sum>c<?n. (share lv p c / m2)\<^sup>2) + (2 * ?k * (share lv p b - share lv p (p i)) + 2 * ?k\<^sup>2) / m2\<^sup>2)"
    unfolding q[OF sub] share_move[OF assms(1)] inside_move[OF assms(1)]
    using sum_squares_move[OF assms(4) pi assms(5)[symmetric]] by (simp only:)
  moreover have "2 / m2 * (net_gain m2 lv p i b - net_gain m2 lv p i (p i)) =
      2 * (towards lv p i b - towards lv p i (p i)) / m2 -
      (2 * ?k * (share lv p b - share lv p (p i)) + 2 * ?k\<^sup>2) / m2\<^sup>2"
    using assms(5,6) by (simp add: net_gain_def field_simps power2_eq_square)
  ultimately show ?thesis
    unfolding q[OF assms(3)] by (simp add: algebra_simps diff_divide_distrib add_divide_distrib)
qed

subsection \<open>Local moving never lowers the quality\<close>

lemma neigh_sums_towards:
  assumes "level_ok lv" "i < lv_n lv" "neigh_sums comm (lv_adj lv ! i) = (ord, m)"
  shows "gm_get_or 0 m c = towards lv ((!) comm) i c"
proof -
  have edge: "(\<Sum>nb\<leftarrow>touches i e. nb_weight nb * of_bool (comm ! nb_node nb = c)) =
      e_weight e * (of_bool (e_a e = i \<and> e_b e \<noteq> i \<and> comm ! e_b e = c) +
                    of_bool (e_b e = i \<and> e_a e \<noteq> i \<and> comm ! e_a e = c))"
    if "e_a e \<noteq> e_b e" for e
    using that by (auto simp: touches_def)
  have "(\<Sum>nb\<leftarrow>concat (map (touches i) es). nb_weight nb * of_bool (comm ! nb_node nb = c)) =
      (\<Sum>e\<leftarrow>es. \<Sum>nb\<leftarrow>touches i e. nb_weight nb * of_bool (comm ! nb_node nb = c))" for es
    by (induction es) auto
  moreover have "(\<Sum>j<lv_n lv. lv_selfLoop lv ! j * (of_bool (j = i \<and> j \<noteq> i \<and> comm ! j = c) +
      of_bool (j = i \<and> j \<noteq> i \<and> comm ! j = c))) = 0"
    by (rule sum.neutral) auto
  ultimately show ?thesis
    using neigh_sums_facts(2)[OF assms(3), of c] edge level_ok_edge(3)[OF assms(1)]
    unfolding adj_nth[OF assms(1,2)] towards_def esum_def by (simp cong: map_cong del: mult_2)
qed

lemma nth_range: "length xs = n \<Longrightarrow> (!) xs ` {..<n} = set xs"
  by (auto simp: set_conv_nth)

lemma towards_outside:
  assumes "level_ok lv" "i < lv_n lv" "neigh_sums comm (lv_adj lv ! i) = (ord, m)" "c \<notin> set ord"
  shows "towards lv ((!) comm) i c = 0"
proof -
  have "nb_weight nb * of_bool (comm ! nb_node nb = c) = 0" if "nb \<in> set (lv_adj lv ! i)" for nb
    using that assms(4) neigh_sums_facts(1)[OF assms(3)] by auto
  then have "map (\<lambda>nb. nb_weight nb * of_bool (comm ! nb_node nb = c)) (lv_adj lv ! i) = map (\<lambda>_. 0) (lv_adj lv ! i)"
    by (rule map_cong[OF refl])
  then have "gm_get_or 0 m c = 0" unfolding neigh_sums_facts(2)[OF assms(3)] by (simp only: sum_list_0)
  then show ?thesis using neigh_sums_towards[OF assms(1-3)] by simp
qed

text \<open>Leaving its own community out, a node's share of it is what the other members hold.\<close>

lemma share_without:
  assumes "level_ok lv" "nonneg_level lv"
  shows "0 \<le> share lv p (p i) - ends lv i" "0 \<le> ends lv i"
proof -
  have "share lv p (p i) - ends lv i = esum lv (\<lambda>x y.
      (of_bool (p x = p i) + of_bool (p y = p i)) - (of_bool (x = i) + of_bool (y = i)))"
    by (simp only: esum_diff share_def ends_def)
  also have "0 \<le> \<dots>" by (rule esum_nonneg[OF assms]) (auto simp: of_bool_def)
  finally show "0 \<le> share lv p (p i) - ends lv i" .
  show "0 \<le> ends lv i" unfolding ends_def by (rule esum_nonneg[OF assms]) (simp add: of_bool_def)
qed

text \<open>
  The state of the pass loop: the running totals are the shares of the current assignment, whose
  quality is at least that of every node alone.
\<close>

definition tracks :: "float \<Rightarrow> level \<Rightarrow> moving \<Rightarrow> bool" where
  "tracks m2 lv st \<longleftrightarrow>
     length (mv_comm st) = lv_n lv \<and> set (mv_comm st) \<subseteq> {..<lv_n lv} \<and>
     length (mv_sigma st) = lv_n lv \<and>
     (\<forall>c<lv_n lv. mv_sigma st ! c = share lv ((!) (mv_comm st)) c) \<and>
     quality m2 lv id \<le> quality m2 lv ((!) (mv_comm st))"

lemma tracks_start:
  assumes "level_ok lv"
  shows "tracks m2 lv (start_moving lv)"
proof -
  have "share lv ((!) [0..<lv_n lv]) c = lv_degree lv ! c" if "c < lv_n lv" for c
    unfolding degree_nth[OF assms that] share_def by (rule esum_cong[OF assms]) simp
  moreover have "length (lv_degree lv) = lv_n lv" using assms by (auto simp: level_ok_def)
  moreover have "quality m2 lv ((!) [0..<lv_n lv]) = quality m2 lv id"
    by (rule quality_cong[OF assms]) simp
  ultimately show ?thesis by (auto simp: tracks_def start_moving_def)
qed

lemma update_fun: "i < length xs \<Longrightarrow> (!) (xs[i := b]) = ((!) xs)(i := b)"
  by (auto simp: fun_eq_iff nth_list_update)

lemma tracks_move:
  assumes "level_ok lv" "nonneg_level lv" "0 < m2" "i < lv_n lv" "tracks m2 lv st"
  shows "tracks m2 lv (move_node lv m2 st i)"
proof -
  let ?n = "lv_n lv" and ?p = "(!) (mv_comm st)"
  have st: "length (mv_comm st) = ?n" "set (mv_comm st) \<subseteq> {..<?n}" "length (mv_sigma st) = ?n"
    "\<And>c. c < ?n \<Longrightarrow> mv_sigma st ! c = share lv ?p c" "quality m2 lv id \<le> quality m2 lv ?p"
    using assms(5) by (auto simp: tracks_def)
  have sub: "?p ` {..<?n} \<subseteq> {..<?n}" using st(1,2) by (simp add: nth_range)
  have ci: "?p i < ?n" using sub assms(4) by auto
  obtain ord m where nw: "neigh_sums (mv_comm st) (lv_adj lv ! i) = (ord, m)" by fastforce
  have ki: "lv_degree lv ! i = ends lv i" unfolding degree_nth[OF assms(1,4)] ends_def ..
  define sig where "sig = (mv_sigma st)[?p i := mv_sigma st ! (?p i) - lv_degree lv ! i]"
  define gain where "gain = move_gain m sig (lv_degree lv ! i) m2"
  define b where "b = best_comm gain (?p i) ord"
  have new: "mv_comm (move_node lv m2 st i) = (mv_comm st)[i := b]"
    "mv_sigma (move_node lv m2 st i) = sig[b := sig ! b + lv_degree lv ! i]"
    unfolding move_node_def Let_def nw b_def gain_def sig_def by simp_all
  have sig: "sig ! c = share lv ?p c - of_bool (c = ?p i) * ends lv i" if "c < ?n" for c
    using that st(3,4) by (auto simp: sig_def nth_list_update ki)
  have gain: "gain c = net_gain m2 lv ?p i c" if "c < ?n" for c
    using sig[OF that] neigh_sums_towards[OF assms(1,4) nw]
    by (simp add: gain_def move_gain_def net_gain_def ki)
  have ord: "c < ?n" if "c \<in> set ord" for c
    using that neigh_sums_facts(1)[OF nw] adj_node_less(1)[OF assms(1,4)] sub by auto
  have b: "b < ?n" using best_comm_facts(1)[of gain "?p i" ord] ci ord unfolding b_def by metis
  have p': "(!) ((mv_comm st)[i := b]) = ?p(i := b)" using assms(4) st(1) by (simp add: update_fun)
  have "quality m2 lv ?p \<le> quality m2 lv (?p(i := b))"
  proof (cases "b = ?p i")
    case False
    then have pos: "0 < gain b" using best_comm_facts(1)[of gain "?p i" ord] unfolding b_def by auto
    have "gain (?p i) \<le> gain b"
    proof (cases "?p i \<in> set ord")
      case True
      then show ?thesis using False best_comm_facts(2)[of gain "?p i" ord] unfolding b_def by simp
    next
      case out: False
      have "gain (?p i) = - ((share lv ?p (?p i) - ends lv i) * ends lv i / m2)"
        using gain[OF ci] towards_outside[OF assms(1,4) nw out] by (simp add: net_gain_def)
      also have "\<dots> \<le> 0" using share_without[OF assms(1,2)] assms(3) by simp
      finally show ?thesis using pos by simp
    qed
    with quality_move[OF assms(1,4) sub b False] gain[OF b] gain[OF ci] assms(3) show ?thesis by simp
  qed (simp add: fun_upd_idem)
  moreover have "sig[b := sig ! b + lv_degree lv ! i] ! c = share lv (?p(i := b)) c" if "c < ?n" for c
    using that sig[OF that] sig[OF b] st(3)
    by (auto simp: share_move[OF assms(1)] nth_list_update ki sig_def)
  moreover have "set ((mv_comm st)[i := b]) \<subseteq> {..<?n}"
    using st(2) b set_update_subset_insert by fastforce
  ultimately show ?thesis using st by (auto simp: tracks_def new p' sig_def)
qed

lemma localMoving_quality:
  assumes "level_ok lv" "nonneg_level lv" "0 < m2" "localMoving lv m2 ctx = (ctx', Inr (comm, moved))"
  shows "quality m2 lv id \<le> quality m2 lv ((!) comm)"
proof -
  obtain st where "comm = mv_comm st" "tracks m2 lv st"
    using assms(4)
    by (rule localMoving_inv[where P = "tracks m2 lv"])
      (use assms tracks_start tracks_move in \<open>auto simp: tracks_def\<close>)
  then show ?thesis by (simp add: tracks_def)
qed

subsection \<open>The rounds never lower it either\<close>

text \<open>A level that stands for the original graph with its nodes merged along an assignment.\<close>

definition merged :: "level \<Rightarrow> level \<Rightarrow> (nat \<Rightarrow> nat) \<Rightarrow> bool" where
  "merged l0 cur p \<longleftrightarrow>
     level_ok cur \<and> nonneg_level cur \<and> p ` {..<lv_n l0} \<subseteq> {..<lv_n cur} \<and>
     (\<forall>f. (\<forall>x y. f x y = f y x) \<longrightarrow> esum cur f = esum l0 (\<lambda>x y. f (p x) (p y)))"

lemma merged_quality:
  assumes "level_ok l0" "merged l0 cur p"
  shows "quality m2 cur q = quality m2 l0 (\<lambda>x. q (p x))"
proof -
  have f: "esum cur f = esum l0 (\<lambda>x y. f (p x) (p y))" if "\<And>x y. f x y = f y x" for f
    using assms(2) that by (auto simp: merged_def)
  have "inside cur q = inside l0 (\<lambda>x. q (p x))"
    unfolding inside_def by (rule f) (simp add: eq_commute)
  moreover have "share cur q c = share l0 (\<lambda>x. q (p x)) c" for c
    unfolding share_def by (rule f) simp
  moreover have "(\<lambda>x. q (p x)) ` {..<lv_n l0} \<subseteq> q ` {..<lv_n cur}"
    using assms(2) by (auto simp: merged_def)
  from quality_superset[OF assms(1) _ this]
  have "quality m2 l0 (\<lambda>x. q (p x)) = 2 * inside l0 (\<lambda>x. q (p x)) / m2 -
      (\<Sum>c\<in>q ` {..<lv_n cur}. (share l0 (\<lambda>x. q (p x)) c / m2)\<^sup>2)" by simp
  ultimately show ?thesis by (simp add: quality_def)
qed

lemma merged_step:
  assumes "level_ok l0" "merged l0 cur p" "0 < m2"
    and "localMoving cur m2 ctx = (ctx', Inr (comm, moved))" "aggregate cur comm = (nxt, newN, remap)"
  shows "merged l0 nxt (\<lambda>x. remap_fun remap (comm ! p x))"
    and "quality m2 l0 p \<le> quality m2 l0 (\<lambda>x. remap_fun remap (comm ! p x))"
proof -
  have cur: "level_ok cur" "nonneg_level cur" "p ` {..<lv_n l0} \<subseteq> {..<lv_n cur}"
    "\<And>f. (\<And>x y. f x y = f y x) \<Longrightarrow> esum cur f = esum l0 (\<lambda>x y. f (p x) (p y))"
    using assms(2) by (auto simp: merged_def)
  note lm = localMoving_shrinks[OF cur(1) assms(4)]
  note ag = aggregate_facts[OF cur(1) lm(1) assms(5)]
  have comm: "comm ! p x \<in> set comm" if "x < lv_n l0" for x
    using that cur(3) lm(1) by (intro nth_mem) auto
  have "remap_fun remap (comm ! p x) < newN" if "x < lv_n l0" for x
    using bij_betwE[OF ag(4)] comm[OF that] by auto
  moreover have "esum nxt f = esum l0 (\<lambda>x y. f (remap_fun remap (comm ! p x)) (remap_fun remap (comm ! p y)))"
    if "\<And>x y. f x y = f y x" for f
    unfolding ag(5)[of f, OF that] using that by (intro cur(4)) simp
  ultimately show "merged l0 nxt (\<lambda>x. remap_fun remap (comm ! p x))"
    using ag(1,2,6) cur(2) by (auto simp: merged_def)
  have "quality m2 l0 p = quality m2 cur id"
    using merged_quality[OF assms(1,2), of m2 id] by simp
  also have "\<dots> \<le> quality m2 cur ((!) comm)"
    by (rule localMoving_quality[OF cur(1,2) assms(3,4)])
  also have "\<dots> = quality m2 l0 (\<lambda>x. comm ! p x)" by (rule merged_quality[OF assms(1,2)])
  also have "\<dots> = quality m2 l0 (\<lambda>x. remap_fun remap (comm ! p x))"
  proof (rule quality_rename[OF assms(1), symmetric])
    show "inj_on (remap_fun remap) ((\<lambda>x. comm ! p x) ` {..<lv_n l0})"
      by (rule inj_on_subset[OF bij_betw_imp_inj_on[OF ag(4)]]) (use comm in auto)
  qed
  finally show "quality m2 l0 p \<le> quality m2 l0 (\<lambda>x. remap_fun remap (comm ! p x))" .
qed

lemma louvain_levels_quality:
  assumes "level_ok l0" "0 < m2" "louvain_levels m2 ctx cur fc = Some (Inr fc')"
    and "length fc = lv_n l0" "merged l0 cur ((!) fc)"
  shows "length fc' = lv_n l0 \<and> quality m2 l0 ((!) fc) \<le> quality m2 l0 ((!) fc')"
  using assms(3-)
proof (induction "lv_n cur" arbitrary: ctx cur fc rule: less_induct)
  case less
  show ?case
  proof (cases m2 ctx cur fc rule: louvain_levels_step)
    case (next_level ctx2 comm nxt newN remap fc1)
    have ok: "level_ok cur" using less.prems(3) by (simp add: merged_def)
    note lm = localMoving_shrinks[OF ok next_level(1)]
    note ag = aggregate_facts[OF ok lm(1) next_level(2)]
    have fc1: "length fc1 = lv_n l0" "fc1 ! x = remap_fun remap (comm ! (fc ! x))" if "x < lv_n l0" for x
      using next_level(3) less.prems(2) that by auto
    note ms = merged_step[OF assms(1) less.prems(3) assms(2) next_level(1,2)]
    have len: "length fc1 = lv_n l0" using next_level(3) less.prems(2) by simp
    have eq: "fc1 ! x = remap_fun remap (comm ! (fc ! x))" if "x < lv_n l0" for x
      using fc1(2)[OF that] .
    have q: "quality m2 l0 ((!) fc1) = quality m2 l0 (\<lambda>x. remap_fun remap (comm ! (fc ! x)))"
      by (rule quality_cong[OF assms(1)]) (rule eq)
    have m: "merged l0 nxt ((!) fc1)"
    proof -
      have "esum l0 (\<lambda>x y. f (fc1 ! x) (fc1 ! y)) =
          esum l0 (\<lambda>x y. f (remap_fun remap (comm ! (fc ! x))) (remap_fun remap (comm ! (fc ! y))))" for f
        by (rule esum_cong[OF assms(1)]) (simp add: eq)
      with ms(1) show ?thesis by (auto simp: merged_def eq)
    qed
    show ?thesis
    proof (cases "newN = 1")
      case True
      with next_level(4) less.prems(1) ms(2) q len show ?thesis by simp
    next
      case False
      have "lv_n nxt < lv_n cur" using ag(2,3) lm(3) by simp
      from less.hyps[OF this _ len m] False next_level(4) less.prems(1) ms(2) q show ?thesis
        by (metis order_trans)
    qed
  qed (use less.prems in auto)
qed

subsection \<open>The reported score\<close>

lemma add_to_get: "gm_get_or 0 (add_to m k w) k' = gm_get_or 0 m k' + (if k' = k then w else 0)"
  by (simp add: add_to_def)

lemma foldl_add_to:
  "gm_get_or 0 (foldl (\<lambda>m x. if P x then add_to m (key x) (w x) else m) m xs) k =
     gm_get_or 0 m k + (\<Sum>x\<leftarrow>xs. of_bool (P x \<and> key x = k) * w x)"
  by (induction xs arbitrary: m) (auto simp: add_to_get)

lemma foldl_add_keys:
  "distinct (gm_keys m) \<Longrightarrow>
     distinct (gm_keys (foldl (\<lambda>m x. add_to m (key x) (w x)) m xs)) \<and>
     set (gm_keys (foldl (\<lambda>m x. add_to m (key x) (w x)) m xs)) = set (gm_keys m) \<union> key ` set xs"
  by (induction xs arbitrary: m) (auto simp: add_to_def gm_keys_put simp del: set_map)

lemma foldl_pairs:
  "foldl (\<lambda>q (c, d). let a = d / k in q + (f c - a * a)) z ps =
     (z :: float) + (\<Sum>(c, d)\<leftarrow>ps. f c - (d / k)\<^sup>2)"
  by (induction ps arbitrary: z) (auto simp: Let_def power2_eq_square add.assoc)

lemma sum_gomap:
  assumes "distinct (gm_keys m)"
  shows "(\<Sum>(c, d)\<leftarrow>m. g c d) = (\<Sum>c\<in>set (gm_keys m). g c (gm_get_or 0 m c))"
proof -
  have "(\<Sum>c\<in>set (gm_keys m). g c (gm_get_or 0 m c)) = (\<Sum>p\<leftarrow>m. g (fst p) (gm_get_or 0 m (fst p)))"
    using assms by (simp only: sum_list_distinct_conv_sum_set[symmetric] map_map comp_def)
  also have "\<dots> = (\<Sum>(c, d)\<leftarrow>m. g c d)"
  proof -
    have "gm_get_or 0 m (fst p) = snd p" if "p \<in> set m" for p
      using gm_mem_iff[OF assms, of "fst p" "snd p"] that by (simp add: gm_get_or_def)
    then show ?thesis by (simp add: case_prod_beta cong: map_cong)
  qed
  finally show ?thesis ..
qed

lemma sum_swap_list:
  "(\<Sum>c\<in>S. \<Sum>e\<leftarrow>es. h c e :: float) = (\<Sum>e\<leftarrow>es. \<Sum>c\<in>S. h c e)"
  by (induction es) (simp_all add: sum.distrib)

lemma esum_sum: "finite I \<Longrightarrow> esum lv (\<lambda>x y. \<Sum>i\<in>I. f i x y) = (\<Sum>i\<in>I. esum lv (f i))"
proof (induction I rule: finite_induct)
  case empty
  then show ?case by (simp add: esum_def)
next
  case (insert a I)
  then show ?case using esum_add[of lv "f a" "\<lambda>x y. \<Sum>i\<in>I. f i x y"] by simp
qed

lemma share_degrees:
  assumes "level_ok lv"
  shows "(\<Sum>i<lv_n lv. of_bool (p i = c) * lv_degree lv ! i) = share lv p c"
proof -
  let ?n = "lv_n lv"
  have "of_bool (p i = c) * lv_degree lv ! i =
      esum lv (\<lambda>x y. (of_bool (x = i) + of_bool (y = i)) * of_bool (p i = c))" if "i < ?n" for i
    unfolding degree_nth[OF assms that] esum_scale by (rule mult.commute)
  then have "(\<Sum>i<?n. of_bool (p i = c) * lv_degree lv ! i) =
      (\<Sum>i<?n. esum lv (\<lambda>x y. (of_bool (x = i) + of_bool (y = i)) * of_bool (p i = c)))"
    by (intro sum.cong) simp_all
  also have "\<dots> = esum lv (\<lambda>x y. \<Sum>i<?n. (of_bool (x = i) + of_bool (y = i)) * of_bool (p i = c))"
    by (rule esum_sum[symmetric]) simp
  also have "\<dots> = share lv p c"
    unfolding share_def
  proof (rule esum_cong[OF assms])
    fix x y assume xy: "x < ?n" "y < ?n"
    have one: "(\<Sum>i<?n. of_bool (z = i) * of_bool (p i = c)) = (of_bool (p z = c) :: float)" if "z < ?n" for z
    proof -
      have "(\<Sum>i<?n. of_bool (z = i) * of_bool (p i = c)) = (\<Sum>i<?n. if z = i then of_bool (p z = c) else (0 :: float))"
        by (rule sum.cong) auto
      with that show ?thesis by simp
    qed
    show "(\<Sum>i<?n. (of_bool (x = i) + of_bool (y = i)) * of_bool (p i = c)) =
        (of_bool (p x = c) + of_bool (p y = c) :: float)"
      using one[OF xy(1)] one[OF xy(2)] by (simp only: distrib_right sum.distrib)
  qed
  finally show ?thesis .
qed

text \<open>The code's \<^verbatim>\<open>modularity\<close>, two maps and a loop over one of them, is the quality of the original level.\<close>

lemma modularity_quality:
  assumes "length fc = length (g_Nodes g)" "total_weight g \<noteq> 0"
  shows "modularity (length (g_Nodes g)) (level0_edges g) (lv_degree (level0 g)) (total_weight g) fc =
    quality (2 * total_weight g) (level0 g) ((!) fc)"
proof -
  let ?n = "length (g_Nodes g)" and ?l = "level0 g" and ?m = "total_weight g" and ?p = "(!) fc"
  let ?int = "foldl (\<lambda>m e. if ?p (e_a e) = ?p (e_b e) then add_to m (?p (e_a e)) (e_weight e) else m) [] (level0_edges g)"
  let ?deg = "foldl (\<lambda>m i. add_to m (?p i) (lv_degree ?l ! i)) [] [0..<?n]"
  have n: "lv_n ?l = ?n" "level_ok ?l" by (rule level0_ok)+
  have esum0: "esum ?l f = (\<Sum>e\<leftarrow>level0_edges g. e_weight e * f (e_a e) (e_b e))" for f
    by (simp add: esum_def level0_def)
  have keys: "distinct (gm_keys ?deg)" "set (gm_keys ?deg) = ?p ` {..<?n}"
    using foldl_add_keys[of "[]" ?p "\<lambda>i. lv_degree ?l ! i" "[0..<?n]"] by (auto simp: lessThan_atLeast0)
  have deg: "gm_get_or 0 ?deg c = share ?l ?p c" for c
  proof -
    have "gm_get_or 0 ?deg c = (\<Sum>i\<leftarrow>[0..<?n]. of_bool (?p i = c) * lv_degree ?l ! i)"
      using foldl_add_to[of "\<lambda>_. True" ?p "\<lambda>i. lv_degree ?l ! i" "[]" "[0..<?n]" c] by simp
    then show ?thesis
      using share_degrees[OF n(2), of ?p c]
      by (simp add: n interv_sum_list_conv_sum_set_nat lessThan_atLeast0)
  qed
  have int: "gm_get_or 0 ?int c =
      (\<Sum>e\<leftarrow>level0_edges g. of_bool (?p (e_a e) = ?p (e_b e) \<and> ?p (e_a e) = c) * e_weight e)" for c
    using foldl_add_to[of "\<lambda>e. ?p (e_a e) = ?p (e_b e)" "\<lambda>e. ?p (e_a e)" e_weight "[]" "level0_edges g" c] by simp
  have "(\<Sum>c\<in>?p ` {..<?n}. gm_get_or 0 ?int c) = inside ?l ?p"
  proof -
    have "(\<Sum>c\<in>?p ` {..<?n}. of_bool (?p (e_a e) = ?p (e_b e) \<and> ?p (e_a e) = c) * e_weight e) =
        e_weight e * of_bool (?p (e_a e) = ?p (e_b e))" if "e \<in> set (level0_edges g)" for e
    proof -
      have "?p (e_a e) \<in> ?p ` {..<?n}"
        using that level0_edges_ok[of g] by (auto simp: list_all_iff edge_ok_def)
      then have "(\<Sum>c\<in>?p ` {..<?n}. if ?p (e_a e) = c then e_weight e * of_bool (?p (e_a e) = ?p (e_b e)) else 0) =
          e_weight e * of_bool (?p (e_a e) = ?p (e_b e))" by simp
      moreover have "of_bool (?p (e_a e) = ?p (e_b e) \<and> ?p (e_a e) = c) * e_weight e =
          (if ?p (e_a e) = c then e_weight e * of_bool (?p (e_a e) = ?p (e_b e)) else 0)" for c by simp
      ultimately show ?thesis by (simp only:)
    qed
    moreover have "(\<Sum>c\<in>?p ` {..<?n}. gm_get_or 0 ?int c) =
        (\<Sum>e\<leftarrow>level0_edges g. \<Sum>c\<in>?p ` {..<?n}. of_bool (?p (e_a e) = ?p (e_b e) \<and> ?p (e_a e) = c) * e_weight e)"
      unfolding int by (rule sum_swap_list)
    moreover have "(\<Sum>e\<leftarrow>level0_edges g. \<Sum>c\<in>?p ` {..<?n}. of_bool (?p (e_a e) = ?p (e_b e) \<and> ?p (e_a e) = c) * e_weight e) =
        (\<Sum>e\<leftarrow>level0_edges g. e_weight e * of_bool (?p (e_a e) = ?p (e_b e)))"
      by (intro arg_cong[where f = sum_list] map_cong refl) (rule calculation(1))
    ultimately show ?thesis unfolding inside_def esum0 by (simp only:)
  qed
  moreover have "modularity ?n (level0_edges g) (lv_degree ?l) ?m fc =
      (\<Sum>c\<in>?p ` {..<?n}. gm_get_or 0 ?int c / ?m - (share ?l ?p c / (2 * ?m))\<^sup>2)"
    using assms(2) unfolding modularity_def Let_def
    by (simp only: if_False foldl_pairs[unfolded Let_def] sum_gomap[OF keys(1)] keys(2) deg add_0)
  ultimately show ?thesis
    by (simp add: quality_def n sum_subtractf flip: sum_divide_distrib)
qed

subsection \<open>Reference modularity of a graph\<close>

text \<open>
  Newman's modularity of a partition \<open>p\<close> of a graph, on the graph itself: for each community the
  fraction of the weight inside it less the square of the fraction of edge ends attached to it.
  Edges count when both ends are distinct nodes of the graph.
\<close>

definition real_edges :: "graph \<Rightarrow> weighted_edge list" where
  "real_edges g =
     filter (\<lambda>e. we_A e \<in> set (g_Nodes g) \<and> we_B e \<in> set (g_Nodes g) \<and> we_A e \<noteq> we_B e) (g_Edges g)"

definition newman :: "graph \<Rightarrow> (uuid \<Rightarrow> nat) \<Rightarrow> float" where
  "newman g p =
     (let es = real_edges g; m = (\<Sum>e\<leftarrow>es. we_Weight e)
      in \<Sum>c\<leftarrow>remdups (map p (g_Nodes g)).
           (\<Sum>e\<leftarrow>es. of_bool (p (we_A e) = c \<and> p (we_B e) = c) * we_Weight e) / m -
           ((\<Sum>e\<leftarrow>es. (of_bool (p (we_A e) = c) + of_bool (p (we_B e) = c)) * we_Weight e) / (2 * m))\<^sup>2)"

lemma index_nodes_nth:
  "distinct ids \<Longrightarrow> j < length ids \<Longrightarrow> gm_get (index_nodes ids) (ids ! j) = Some j"
  by (simp add: index_nodes_def assign_zip map_of_zip_nth)

definition node_index :: "graph \<Rightarrow> uuid \<Rightarrow> nat" where
  "node_index g u = the (gm_get (index_nodes (g_Nodes g)) u)"

lemma node_index:
  assumes "distinct (g_Nodes g)"
  shows "i < length (g_Nodes g) \<Longrightarrow> node_index g (g_Nodes g ! i) = i"
    and "u \<in> set (g_Nodes g) \<Longrightarrow> node_index g u < length (g_Nodes g) \<and> g_Nodes g ! node_index g u = u"
    and "u \<in> set (g_Nodes g) \<Longrightarrow> gm_get (index_nodes (g_Nodes g)) u = Some (node_index g u)"
    and "u \<notin> set (g_Nodes g) \<Longrightarrow> gm_get (index_nodes (g_Nodes g)) u = None"
  using index_nodes_nth[OF assms]
  by (auto simp: node_index_def in_set_conv_nth) (simp add: index_nodes_def assign_zip assms in_set_conv_nth)

lemma map_filter_if: "List.map_filter (\<lambda>e. if P e then Some (f e) else None) xs = map f (filter P xs)"
  by (induction xs) (simp_all add: map_filter_simps)

lemma level0_edges_real:
  assumes "distinct (g_Nodes g)"
  shows "level0_edges g =
    map (\<lambda>e. \<lparr> e_a = node_index g (we_A e), e_b = node_index g (we_B e), e_weight = we_Weight e \<rparr>) (real_edges g)"
proof -
  have "index_edge (index_nodes (g_Nodes g)) e =
      (if we_A e \<in> set (g_Nodes g) \<and> we_B e \<in> set (g_Nodes g) \<and> we_A e \<noteq> we_B e
       then Some \<lparr> e_a = node_index g (we_A e), e_b = node_index g (we_B e), e_weight = we_Weight e \<rparr> else None)" for e
  proof (cases "we_A e \<in> set (g_Nodes g) \<and> we_B e \<in> set (g_Nodes g)")
    case True
    then have "node_index g (we_A e) = node_index g (we_B e) \<longleftrightarrow> we_A e = we_B e"
      using node_index(2)[OF assms] by metis
    with True show ?thesis by (simp add: index_edge_def node_index(3)[OF assms])
  next
    case False
    then have "gm_get (index_nodes (g_Nodes g)) (we_A e) = None \<or> gm_get (index_nodes (g_Nodes g)) (we_B e) = None"
      by (cases "we_A e \<in> set (g_Nodes g)") (simp_all add: node_index(4)[OF assms])
    then have "index_edge (index_nodes (g_Nodes g)) e = None"
      by (elim disjE) (simp_all add: index_edge_def split: option.split)
    with False show ?thesis by auto
  qed
  then have eq: "index_edge (index_nodes (g_Nodes g)) = (\<lambda>e.
      if we_A e \<in> set (g_Nodes g) \<and> we_B e \<in> set (g_Nodes g) \<and> we_A e \<noteq> we_B e
       then Some \<lparr> e_a = node_index g (we_A e), e_b = node_index g (we_B e), e_weight = we_Weight e \<rparr> else None)"
    by (rule ext)
  show ?thesis unfolding level0_edges_def real_edges_def eq by (rule map_filter_if)
qed

lemma newman_quality:
  assumes "distinct (g_Nodes g)" "\<And>i. i < length (g_Nodes g) \<Longrightarrow> p (g_Nodes g ! i) = q i"
  shows "newman g p = quality (2 * total_weight g) (level0 g) q"
proof -
  let ?l = "level0 g" and ?m = "total_weight g" and ?es = "real_edges g" and ?ix = "node_index g"
  have n: "lv_n ?l = length (g_Nodes g)" by (rule level0_ok)
  have pq: "p u = q (?ix u)" if "u \<in> set (g_Nodes g)" for u
    using assms(2)[of "?ix u"] node_index(2)[OF assms(1) that] by simp
  have ends: "p (we_A e) = q (?ix (we_A e))" "p (we_B e) = q (?ix (we_B e))" if "e \<in> set ?es" for e
    using that pq by (auto simp: real_edges_def)
  have esum0: "esum ?l f = (\<Sum>e\<leftarrow>?es. we_Weight e * f (?ix (we_A e)) (?ix (we_B e)))" for f
    by (simp add: esum_def level0_def level0_edges_real[OF assms(1)] comp_def)
  have m: "(\<Sum>e\<leftarrow>?es. we_Weight e) = ?m"
    by (simp add: total_weight_def level0_edges_real[OF assms(1)] comp_def)
  have share: "(\<Sum>e\<leftarrow>?es. (of_bool (p (we_A e) = c) + of_bool (p (we_B e) = c)) * we_Weight e) = share ?l q c" for c
    unfolding share_def esum0
    by (intro arg_cong[where f = sum_list] map_cong refl) (simp add: ends mult.commute)
  have img: "p ` set (g_Nodes g) = q ` {..<lv_n ?l}"
    using assms(2) by (force simp: n set_conv_nth image_iff)
  have one: "(\<Sum>c\<in>p ` set (g_Nodes g). of_bool (p (we_A e) = c \<and> p (we_B e) = c) * we_Weight e) =
      we_Weight e * of_bool (q (?ix (we_A e)) = q (?ix (we_B e)))" if "e \<in> set ?es" for e
  proof -
    have "p (we_A e) \<in> p ` set (g_Nodes g)" using that by (auto simp: real_edges_def)
    then have "(\<Sum>c\<in>p ` set (g_Nodes g). if p (we_A e) = c then we_Weight e * of_bool (p (we_A e) = p (we_B e)) else 0) =
        we_Weight e * of_bool (p (we_A e) = p (we_B e))" by simp
    moreover have "of_bool (p (we_A e) = c \<and> p (we_B e) = c) * we_Weight e =
        (if p (we_A e) = c then we_Weight e * of_bool (p (we_A e) = p (we_B e)) else 0)" for c by auto
    ultimately show ?thesis by (simp only: ends[OF that])
  qed
  have "(\<Sum>c\<in>p ` set (g_Nodes g). \<Sum>e\<leftarrow>?es. of_bool (p (we_A e) = c \<and> p (we_B e) = c) * we_Weight e) = inside ?l q"
    unfolding sum_swap_list inside_def esum0
    by (intro arg_cong[where f = sum_list] map_cong refl) (rule one)
  then show ?thesis
    by (simp add: newman_def Let_def m share quality_def sum_list_distinct_conv_sum_set
        sum_subtractf img flip: sum_divide_distrib)
qed

subsection \<open>What the method returns\<close>

lemma gm_get_zip_nth:
  "distinct ids \<Longrightarrow> length cs = length ids \<Longrightarrow> i < length ids \<Longrightarrow> gm_get_or 0 (zip ids cs) (ids ! i) = (cs ! i :: nat)"
  by (simp add: gm_get_or_def map_of_zip_nth)

lemma merged_start: "nonneg_level (level0 g) \<Longrightarrow> merged (level0 g) (level0 g) ((!) [0..<length (g_Nodes g)])"
  unfolding merged_def using level0_ok[of g]
  by (auto intro!: esum_cong[OF level0_ok(1)])

text \<open>A result is the assignment the rounds settled on, renumbered.\<close>

lemma Louvain_result:
  assumes "Louvain ctx g = Some (Inr (result, q))" "distinct (g_Nodes g)"
  obtains (empty) "g_Nodes g = []" "result = []" "q = 0"
    | (weightless) "g_Nodes g \<noteq> []" "total_weight g = 0" "q = 0"
        "result = zip (g_Nodes g) [0..<length (g_Nodes g)]"
    | (rounds) fc remap ids k ctx1 where "g_Nodes g \<noteq> []" "total_weight g \<noteq> 0"
        "louvain_levels (2 * total_weight g) ctx1 (level0 g) [0..<length (g_Nodes g)] = Some (Inr fc)"
        "compaction fc = (remap, ids, k)" "result = assign (g_Nodes g) ids"
        "q = modularity (length (g_Nodes g)) (level0_edges g) (lv_degree (level0 g)) (total_weight g) fc"
proof -
  have z: "assign (g_Nodes g) [0..<length (g_Nodes g)] = zip (g_Nodes g) [0..<length (g_Nodes g)]"
    by (rule assign_zip) (simp_all add: assms(2))
  obtain ctx1 r where c: "ctx_Err ctx = (ctx1, r)" by fastforce
  with assms(1) have r: "r = None" by (auto simp: Louvain_eq split: option.splits)
  show thesis
  proof (cases "g_Nodes g = [] \<or> total_weight g = 0")
    case True
    with assms(1) c r z empty weightless show thesis by (auto simp: Louvain_eq split: if_splits)
  next
    case False
    obtain x where x: "louvain_levels (2 * total_weight g) ctx1 (level0 g) [0..<length (g_Nodes g)] = Some x"
      using louvain_levels_return[OF level0_ok(1)] by blast
    with False assms(1) c r obtain fc where fc: "x = Inr fc"
      "result = assign (g_Nodes g) (fst (snd (compaction fc)))"
      "q = modularity (length (g_Nodes g)) (level0_edges g) (lv_degree (level0 g)) (total_weight g) fc"
      by (cases x) (auto simp: Louvain_eq)
    with False x show thesis by (cases "compaction fc") (auto intro: rounds)
  qed
qed

lemma louvain_levels_length:
  "level_ok cur \<Longrightarrow> louvain_levels m2 ctx cur fc = Some (Inr fc') \<Longrightarrow> length fc' = length fc"
proof (induction "lv_n cur" arbitrary: ctx cur fc rule: less_induct)
  case less
  show ?case
  proof (cases m2 ctx cur fc rule: louvain_levels_step)
    case (next_level ctx2 comm nxt newN remap fc1)
    note lm = localMoving_shrinks[OF less.prems(1) next_level(1)]
    note ag = aggregate_facts[OF less.prems(1) lm(1) next_level(2)]
    have "lv_n nxt < lv_n cur" using ag(2,3) lm(3) by simp
    from less.hyps[OF this ag(1), of ctx2 fc1] next_level(3,4) less.prems(2) show ?thesis
      by (auto split: if_splits)
  qed (use less.prems in auto)
qed

text \<open>
  C28. A run that is not cancelled gives every node of the graph exactly one community, and the
  community ids are dense: they start at 0 and leave no gap.
\<close>

theorem Louvain_assigns_all:
  assumes "distinct (g_Nodes g)" "Louvain ctx g = Some (Inr (result, q))"
  shows "distinct (gm_keys result) \<and> set (gm_keys result) = set (g_Nodes g) \<and>
    (\<exists>k. set (gm_vals result) = {..<k})"
proof -
  have "\<exists>ids. result = zip (g_Nodes g) ids \<and> length ids = length (g_Nodes g) \<and> (\<exists>k. set ids = {..<k})"
  proof (cases rule: Louvain_result[OF assms(2,1)])
    case 1
    then show ?thesis by auto
  next
    case 2
    then show ?thesis by (intro exI[of _ "[0..<length (g_Nodes g)]"]) (auto simp: lessThan_atLeast0)
  next
    case (3 fc remap ids k ctx1)
    note cf = compaction_facts[OF 3(4)]
    have "length ids = length (g_Nodes g)"
      using louvain_levels_length[OF level0_ok(1) 3(3)] cf(1) by simp
    moreover have "set ids = {..<k}" using cf(1) bij_betw_imp_surj_on[OF cf(2)] by simp
    ultimately show ?thesis using 3(5) assms(1) assign_zip[of "g_Nodes g" ids] by auto
  qed
  then obtain ids k where r: "result = zip (g_Nodes g) ids" "length ids = length (g_Nodes g)" "set ids = {..<k}"
    by blast
  then show ?thesis using assms(1) by (intro conjI exI[of _ k]) (simp_all del: set_map)
qed

text \<open>
  C29. With weights that are not negative, the score a run reports is Newman's modularity of the
  assignment it returns, and it is at least the score of leaving every node on its own.
\<close>

theorem Louvain_improves:
  assumes "distinct (g_Nodes g)" "list_all (\<lambda>e. 0 \<le> we_Weight e) (g_Edges g)"
    and "Louvain ctx g = Some (Inr (result, q))"
  shows "q = newman g (gm_get_or 0 result) \<and> newman g (\<lambda>u. u) \<le> q"
proof -
  let ?n = "length (g_Nodes g)" and ?l = "level0 g" and ?m = "total_weight g"
  have alone: "newman g (\<lambda>u. u) = quality (2 * ?m) ?l id"
  proof -
    have "newman g (\<lambda>u. u) = quality (2 * ?m) ?l ((!) (g_Nodes g))" by (rule newman_quality[OF assms(1)]) simp
    also have "\<dots> = quality (2 * ?m) ?l id"
      using quality_rename[OF level0_ok(1), of "(!) (g_Nodes g)" id g] assms(1)
      by (simp add: level0_ok(2) inj_on_nth)
    finally show ?thesis .
  qed
  have zero: "newman g p = 0" if "g_Nodes g = [] \<or> ?m = 0" for p
  proof (cases "g_Nodes g = []")
    case False
    with that have "(\<Sum>e\<leftarrow>real_edges g. we_Weight e) = 0"
      by (simp add: total_weight_def level0_edges_real[OF assms(1)] comp_def)
    then show ?thesis unfolding newman_def Let_def by simp
  qed (simp add: newman_def)
  have nonneg: "list_all (\<lambda>e. 0 \<le> e_weight e) (level0_edges g)"
    using assms(2) by (auto simp: level0_edges_real[OF assms(1)] list_all_iff real_edges_def)
  then have l0: "nonneg_level ?l" by (simp add: nonneg_level_def level0_def list_all_iff)
  have m: "0 \<le> ?m" unfolding total_weight_def using nonneg by (intro sum_list_nonneg) (auto simp: list_all_iff)
  show ?thesis
  proof (cases rule: Louvain_result[OF assms(3,1)])
    case (3 fc remap ids k ctx1)
    note cf = compaction_facts[OF 3(4)]
    have pos: "0 < 2 * ?m" using m 3(2) by simp
    note lq = louvain_levels_quality[OF level0_ok(1) pos 3(3) _ merged_start[OF l0]]
    have len: "length fc = ?n" using lq by (simp add: level0_ok)
    have q: "q = quality (2 * ?m) ?l ((!) fc)"
      using modularity_quality[OF len 3(2)] 3(6) by simp
    have res: "result = zip (g_Nodes g) ids"
      unfolding 3(5) by (rule assign_zip) (simp_all add: cf(1) len assms(1))
    have "newman g (gm_get_or 0 result) = quality (2 * ?m) ?l (\<lambda>i. remap_fun remap (fc ! i))"
      by (rule newman_quality[OF assms(1)]) (simp add: res gm_get_zip_nth assms(1) cf(1) len)
    also have "\<dots> = quality (2 * ?m) ?l ((!) fc)"
      by (rule quality_rename[OF level0_ok(1)])
        (use bij_betw_imp_inj_on[OF cf(2)] len in \<open>simp add: nth_range level0_ok\<close>)
    finally have "q = newman g (gm_get_or 0 result)" using q by simp
    moreover have "quality (2 * ?m) ?l ((!) [0..<?n]) = quality (2 * ?m) ?l id"
      by (rule quality_cong[OF level0_ok(1)]) (simp add: level0_ok)
    ultimately show ?thesis using lq q alone by (simp add: level0_ok)
  qed (simp_all add: zero)
qed

subsection \<open>A concrete run\<close>

definition edge_between :: "uuid \<Rightarrow> uuid \<Rightarrow> weighted_edge" where
  "edge_between u v = \<lparr> we_A = u, we_B = v, we_Weight = 1 \<rparr>"

text \<open>Two pairs, a bridge between them, and an isolated node.\<close>

definition demo_graph :: graph where
  "demo_graph = \<lparr> g_Nodes = [10, 20, 30, 40, 50],
     g_Edges = [edge_between 10 20, edge_between 30 40, edge_between 20 30] \<rparr>"

lemma demo_run:
  "Louvain None demo_graph = Some (Inr ([(10, 0), (20, 0), (30, 1), (40, 1), (50, 2)], 1 / 6))"
  by code_simp

theorem Louvain_assigns_all_witness:
  "(\<exists>k. set (gm_vals [(10 :: uuid, 0 :: nat), (20, 0), (30, 1), (40, 1), (50, 2)]) = {..<k})"
  using Louvain_assigns_all[OF _ demo_run] by (simp add: demo_graph_def)

theorem Louvain_improves_witness:
  "newman demo_graph (\<lambda>u. u) \<le> 1 / 6"
  using Louvain_improves[OF _ _ demo_run] by (simp add: demo_graph_def edge_between_def)

text \<open>
  A move may gain nothing: on a path, the middle node leaves its community for an equally good one
  its adjacency list names first. The comment on \<^verbatim>\<open>maxPasses\<close> says that every accepted
  move strictly increases modularity.
\<close>

definition path_graph :: graph where
  "path_graph = \<lparr> g_Nodes = [0, 1, 2], g_Edges = [edge_between 1 2, edge_between 0 1] \<rparr>"

lemma zero_gain_move:
  "(let lv = level0 path_graph;
        st1 = move_node lv 4 (start_moving lv) 0;
        st2 = move_node lv 4 st1 1
    in mv_comm st1 = [1, 1, 2] \<and> mv_comm st2 = [1, 2, 2] \<and> mv_moved st2 \<and>
       newman path_graph ((!) (mv_comm st2)) = newman path_graph ((!) (mv_comm st1)))"
  by code_simp

end
