(* ===== verification/Community.thy ===== *)
theory Community
  imports Louvain Server
begin

text \<open>
  The rest of \<^verbatim>\<open>internal/community\<close>: the PMI weighting (\<^verbatim>\<open>pmi.go\<close>), the boost by
  extracted relations (\<^verbatim>\<open>relationboost.go\<close>), the in-memory repository, and the routes of
  \<^verbatim>\<open>internal/server/communityhandler.go\<close>, which run the detection and serve the trimmed graph.

  The base-2 logarithm is a parameter. A Go map from identifiers is an association list, so a sum
  over its values is a sum over the list.
\<close>

subsection \<open>Edge weights\<close>

definition minCoOccurrenceForPMI :: float where
  "minCoOccurrenceForPMI = 2"

definition pmiWeight :: "(float \<Rightarrow> float) \<Rightarrow> float \<Rightarrow> int \<Rightarrow> int \<Rightarrow> int \<Rightarrow> float" where
  "pmiWeight log2 coOccurrence freqA freqB totalMentions =
     (if coOccurrence < minCoOccurrenceForPMI \<or> freqA \<le> 0 \<or> freqB \<le> 0 \<or> totalMentions \<le> 0 then 0
      else let expected = of_int freqA * of_int freqB / of_int totalMentions
           in if expected \<le> 0 then 0
              else let pmi = log2 (coOccurrence / expected) in if pmi < 0 then 0 else pmi)"

definition pmi_edge :: "(float \<Rightarrow> float) \<Rightarrow> (uuid, int) gomap \<Rightarrow> int \<Rightarrow> weighted_edge \<Rightarrow> weighted_edge list" where
  "pmi_edge log2 freq mentions e =
     (let w = pmiWeight log2 (we_Weight e) (gm_get_or 0 freq (we_A e)) (gm_get_or 0 freq (we_B e)) mentions
      in if w \<le> 0 then [] else [\<lparr>we_A = we_A e, we_B = we_B e, we_Weight = w\<rparr>])"

definition ApplyPMIWeighting :: "(float \<Rightarrow> float) \<Rightarrow> graph \<Rightarrow> (uuid, int) gomap \<Rightarrow> graph" where
  "ApplyPMIWeighting log2 g freq =
     (let mentions = sum_list (gm_vals freq)
      in \<lparr>g_Nodes = g_Nodes g, g_Edges = concat (map (pmi_edge log2 freq mentions) (g_Edges g))\<rparr>)"

definition relationConfirmedBoost :: float where
  "relationConfirmedBoost = 2"

definition relationNoneDamp :: float where
  "relationNoneDamp = 1 / 2"

definition relationRescueWeight :: float where
  "relationRescueWeight = 1"

definition PairKey :: "uuid \<Rightarrow> uuid \<Rightarrow> uuid \<times> uuid" where
  "PairKey a b = (a, b)"

definition boost_edge ::
    "(uuid \<times> uuid, bool) gomap \<Rightarrow> (uuid \<times> uuid, bool) gomap \<Rightarrow> weighted_edge \<Rightarrow> weighted_edge" where
  "boost_edge confirmed noneFound e =
     (let key = PairKey (we_A e) (we_B e)
      in e\<lparr>we_Weight := (if gm_get_or False confirmed key then we_Weight e * relationConfirmedBoost
                         else if gm_get_or False noneFound key then we_Weight e * relationNoneDamp
                         else we_Weight e)\<rparr>)"

definition ApplyRelationBoost ::
    "graph \<Rightarrow> graph \<Rightarrow> (uuid \<times> uuid, bool) gomap \<Rightarrow> (uuid \<times> uuid, bool) gomap \<Rightarrow> graph" where
  "ApplyRelationBoost weighted raw confirmed noneFound =
     (let kept = map (\<lambda>e. PairKey (we_A e) (we_B e)) (g_Edges weighted);
          rescued = filter (\<lambda>e. let key = PairKey (we_A e) (we_B e)
                               in \<not> (List.member kept key \<or> \<not> gm_get_or False confirmed key)) (g_Edges raw)
      in \<lparr>g_Nodes = g_Nodes weighted,
          g_Edges = map (boost_edge confirmed noneFound) (g_Edges weighted) @
                    map (\<lambda>e. e\<lparr>we_Weight := relationRescueWeight\<rparr>) rescued\<rparr>)"

subsection \<open>Results and views\<close>

record community_result =
  cr_kb :: uuid
  cr_user :: uuid
  cr_computed_at :: timestamp
  cr_modularity :: float
  cr_communities :: nat
  cr_nodes :: nat
  cr_edges :: nat

record graph_node =
  gn_id :: uuid
  gn_label :: string
  gn_type :: string
  gn_community :: "nat option"
  gn_degree :: int
  gn_documents :: int

record graph_edge =
  ge_source :: uuid
  ge_target :: uuid
  ge_weight :: float
  ge_documents :: int
  ge_relation :: "string option"

record graph_view =
  gv_nodes :: "graph_node list"
  gv_edges :: "graph_edge list"

definition ErrNoResult :: gerror where
  "ErrNoResult = Plain ''community: no result''"

subsection \<open>The in-memory repository\<close>

record comm_repo =
  cm_nodes :: "(uuid \<times> uuid, uuid list) gomap"
  cm_edges :: "(uuid \<times> uuid, weighted_edge list) gomap"
  cm_ids :: "(uuid, nat) gomap"
  cm_results :: "(uuid \<times> uuid, community_result) gomap"
  cm_labels :: "(uuid, string) gomap"
  cm_types :: "(uuid, string) gomap"

definition comm_New :: comm_repo where
  "comm_New = \<lparr>cm_nodes = [], cm_edges = [], cm_ids = [], cm_results = [], cm_labels = [], cm_types = []\<rparr>"

definition comm_SeedNodeMeta :: "uuid \<Rightarrow> string \<Rightarrow> string \<Rightarrow> comm_repo \<Rightarrow> comm_repo" where
  "comm_SeedNodeMeta i label ty r = r\<lparr>cm_labels := gm_put i label (cm_labels r), cm_types := gm_put i ty (cm_types r)\<rparr>"

definition comm_SeedGraph :: "uuid \<Rightarrow> uuid \<Rightarrow> uuid list \<Rightarrow> weighted_edge list \<Rightarrow> comm_repo \<Rightarrow> comm_repo" where
  "comm_SeedGraph userID kbID nodes es r =
     r\<lparr>cm_nodes := gm_put (userID, kbID) nodes (cm_nodes r), cm_edges := gm_put (userID, kbID) es (cm_edges r)\<rparr>"

definition comm_Count :: "uuid \<Rightarrow> uuid \<Rightarrow> comm_repo \<Rightarrow> nat" where
  "comm_Count userID kbID r = length (gm_get_or [] (cm_nodes r) (userID, kbID))"

definition comm_KBGraph :: "uuid \<Rightarrow> uuid \<Rightarrow> comm_repo \<Rightarrow> graph" where
  "comm_KBGraph userID kbID r =
     \<lparr>g_Nodes = gm_get_or [] (cm_nodes r) (userID, kbID), g_Edges = gm_get_or [] (cm_edges r) (userID, kbID)\<rparr>"

definition comm_SaveResult ::
    "uuid \<Rightarrow> uuid \<Rightarrow> (uuid, nat) gomap \<Rightarrow> community_result \<Rightarrow> comm_repo \<Rightarrow> comm_repo" where
  "comm_SaveResult userID kbID assignments run r =
     r\<lparr>cm_ids := foldl (\<lambda>m (i, c). gm_put i c m) (cm_ids r) assignments,
       cm_results := gm_put (userID, kbID) (run\<lparr>cr_kb := kbID, cr_user := userID\<rparr>) (cm_results r)\<rparr>"

definition comm_GetResult :: "uuid \<Rightarrow> uuid \<Rightarrow> comm_repo \<Rightarrow> gerror + community_result" where
  "comm_GetResult userID kbID r =
     (case gm_get (cm_results r) (userID, kbID) of None \<Rightarrow> Inl ErrNoResult | Some res \<Rightarrow> Inr res)"

definition count_edge :: "(uuid, int) gomap \<Rightarrow> uuid \<Rightarrow> uuid \<Rightarrow> (uuid, int) gomap" where
  "count_edge m a b = (let m1 = gm_put a (gm_get_or 0 m a + 1) m in gm_put b (gm_get_or 0 m1 b + 1) m1)"

definition comm_GraphView :: "(uuid \<Rightarrow> string) \<Rightarrow> uuid \<Rightarrow> uuid \<Rightarrow> comm_repo \<Rightarrow> graph_view" where
  "comm_GraphView us userID kbID r =
     (let es = gm_get_or [] (cm_edges r) (userID, kbID);
          degree = foldl (\<lambda>m e. count_edge m (we_A e) (we_B e)) [] es;
          node = (\<lambda>i. \<lparr>gn_id = i,
                       gn_label = (let l = gm_get_or '''' (cm_labels r) i in if l = '''' then us i else l),
                       gn_type = (let t = gm_get_or '''' (cm_types r) i in if t = '''' then ''entity'' else t),
                       gn_community = gm_get (cm_ids r) i, gn_degree = gm_get_or 0 degree i, gn_documents = 0\<rparr>)
      in \<lparr>gv_nodes = map node (gm_get_or [] (cm_nodes r) (userID, kbID)),
          gv_edges = map (\<lambda>e. \<lparr>ge_source = we_A e, ge_target = we_B e, ge_weight = we_Weight e,
                               ge_documents = 0, ge_relation = None\<rparr>) es\<rparr>)"

definition comm_CommunityID :: "uuid \<Rightarrow> comm_repo \<Rightarrow> nat option" where
  "comm_CommunityID i r = gm_get (cm_ids r) i"

subsection \<open>Trimming the graph for display\<close>

text \<open>
  The constants; \<open>graphFilterPercentile\<close> is the value of the floating-point literal 0.95, whose
  difference from 1 is exact, and the products with group sizes up to the thousands round to the
  same ceiling as the exact ones.
\<close>

definition graphFilterPercentile :: float where
  "graphFilterPercentile = 4278419646001971 / 4503599627370496"

definition graphFilterCap :: nat where
  "graphFilterCap = 10"

definition keep_count :: "float \<Rightarrow> nat \<Rightarrow> nat \<Rightarrow> nat" where
  "keep_count percentile cap n =
     (let k = nat \<lceil>of_nat n * (1 - percentile)\<rceil>;
          k1 = (if k < 1 then 1 else k)
      in if k1 > cap then cap else k1)"

text \<open>
  \<open>srt\<close> is what \<^verbatim>\<open>sort.Slice\<close> by descending degree returns; ties may come out in any order.
\<close>

definition keepTopByDegree ::
    "(graph_node list \<Rightarrow> graph_node list) \<Rightarrow> float \<Rightarrow> nat \<Rightarrow> graph_node list \<Rightarrow> uuid list" where
  "keepTopByDegree srt percentile cap members =
     (if length members \<le> cap then map gn_id members
      else map gn_id (take (keep_count percentile cap (length members)) (srt members)))"

definition community_groups :: "graph_node list \<Rightarrow> graph_node list list" where
  "community_groups ns =
     map (\<lambda>c. filter (\<lambda>n. gn_community n = c) ns) (remdups (map gn_community ns))"

definition filterGraphView ::
    "(graph_node list \<Rightarrow> graph_node list) \<Rightarrow> float \<Rightarrow> nat \<Rightarrow> graph_view \<Rightarrow> graph_view" where
  "filterGraphView srt percentile cap view =
     (let kept = concat (map (keepTopByDegree srt percentile cap) (community_groups (gv_nodes view)));
          provisional = filter (\<lambda>e. List.member kept (ge_source e) \<and> List.member kept (ge_target e)) (gv_edges view);
          finalDegree = foldl (\<lambda>m e. count_edge m (ge_source e) (ge_target e)) [] provisional;
          nodes = filter (\<lambda>n. List.member kept (gn_id n) \<and> gm_get_or 0 finalDegree (gn_id n) > 0) (gv_nodes view);
          finalKept = map gn_id nodes
      in \<lparr>gv_nodes = nodes,
          gv_edges = filter (\<lambda>e. List.member finalKept (ge_source e) \<and> List.member finalKept (ge_target e)) provisional\<rparr>)"

subsection \<open>The routes\<close>

record 's comm_ops =
  co_kb_get :: "uuid \<Rightarrow> uuid \<Rightarrow> ('s, kbase) call"
  co_count :: "uuid \<Rightarrow> uuid \<Rightarrow> ('s, nat) call"
  co_graph :: "uuid \<Rightarrow> uuid \<Rightarrow> ('s, graph) call"
  co_save :: "uuid \<Rightarrow> uuid \<Rightarrow> (uuid, nat) gomap \<Rightarrow> community_result \<Rightarrow> 's proc"
  co_result :: "uuid \<Rightarrow> uuid \<Rightarrow> ('s, community_result) call"
  co_view :: "uuid \<Rightarrow> uuid \<Rightarrow> ('s, graph_view) call"
  co_now :: "'s \<Rightarrow> timestamp"
  co_ctx :: "int \<Rightarrow> 's \<Rightarrow> ctx"

record comm_config =
  cc_max_entities :: int
  cc_timeout :: int

definition defaultMaxCommunityGraphEntities :: int where
  "defaultMaxCommunityGraphEntities = 5000"

definition defaultCommunityDetectionTimeout :: int where
  "defaultCommunityDetectionTimeout = 30 * 1000000000"

definition registerCommunityRoutes :: "comm_config \<Rightarrow> comm_config" where
  "registerCommunityRoutes c =
     \<lparr>cc_max_entities = (if cc_max_entities c \<le> 0 then defaultMaxCommunityGraphEntities else cc_max_entities c),
      cc_timeout = (if cc_timeout c \<le> 0 then defaultCommunityDetectionTimeout else cc_timeout c)\<rparr>"

definition DeadlineExceeded :: gerror where
  "DeadlineExceeded = Plain ''context deadline exceeded''"

definition countDistinctCommunities :: "(uuid, nat) gomap \<Rightarrow> nat" where
  "countDistinctCommunities assignments = length (remdups (gm_vals assignments))"

record community_reply =
  cy_computed_at :: "timestamp option"
  cy_modularity :: float
  cy_communities :: nat
  cy_nodes :: nat
  cy_edges :: nat

definition community_reply_of :: "community_result \<Rightarrow> community_reply" where
  "community_reply_of run =
     \<lparr>cy_computed_at = Some (cr_computed_at run), cy_modularity = cr_modularity run,
      cy_communities = cr_communities run, cy_nodes = cr_nodes run, cy_edges = cr_edges run\<rparr>"

text \<open>The checks the three routes start with: identity, path value, the tenant's knowledge base.\<close>

definition with_kb ::
    "'s comm_ops \<Rightarrow> (string \<Rightarrow> uuid option) \<Rightarrow> request \<Rightarrow> (uuid \<Rightarrow> uuid \<Rightarrow> ('s, 'a) handler) \<Rightarrow> ('s, 'a) handler" where
  "with_kb A parse r k =
     requireUserID r (\<lambda>userID. parseUUID parse (rq_kb r) (\<lambda>kbID.
       try_call (co_kb_get A userID kbID) (\<lambda>e s. (s, writeKBError e)) (\<lambda>_. k userID kbID)))"

definition comm_recompute ::
    "'s comm_ops \<Rightarrow> comm_config \<Rightarrow> (string \<Rightarrow> uuid option) \<Rightarrow> request \<Rightarrow> ('s, community_reply) handler" where
  "comm_recompute A C parse r =
     with_kb A parse r (\<lambda>userID kbID.
       try_call (co_count A userID kbID)
         (\<lambda>e s. (s, Problem 500 ''failed to check knowledge base size''))
         (\<lambda>n s. if int n > cc_max_entities C
                then (s, Problem 422 ''knowledge base has too many entities to compute communities'')
                else try_call (co_graph A userID kbID)
                  (\<lambda>e s. (s, Problem 500 ''failed to load knowledge base graph''))
                  (\<lambda>graph s.
                     case the (Louvain (co_ctx A (cc_timeout C) s) graph) of
                       Inl e \<Rightarrow> if errors_is e DeadlineExceeded then (s, Problem 504 ''community detection timed out'')
                                else (s, Problem 500 ''community detection failed'')
                     | Inr (assignments, q) \<Rightarrow>
                         let run = \<lparr>cr_kb = uuid_nil, cr_user = uuid_nil, cr_computed_at = co_now A s, cr_modularity = q,
                                    cr_communities = countDistinctCommunities assignments,
                                    cr_nodes = length (g_Nodes graph), cr_edges = length (g_Edges graph)\<rparr>
                         in try_proc (co_save A userID kbID assignments run)
                              (\<lambda>e s. (s, Problem 500 ''failed to save community detection result''))
                              (\<lambda>s. (s, Reply 200 (community_reply_of run))) s) s))"

definition comm_get :: "'s comm_ops \<Rightarrow> (string \<Rightarrow> uuid option) \<Rightarrow> request \<Rightarrow> ('s, community_reply) handler" where
  "comm_get A parse r =
     with_kb A parse r (\<lambda>userID kbID.
       try_call (co_result A userID kbID)
         (\<lambda>e s. if errors_is e ErrNoResult
                then (s, Reply 200 \<lparr>cy_computed_at = None, cy_modularity = 0, cy_communities = 0, cy_nodes = 0, cy_edges = 0\<rparr>)
                else (s, Problem 500 ''failed to load community detection result''))
         (\<lambda>res s. (s, Reply 200 (community_reply_of res))))"

definition comm_graph ::
    "'s comm_ops \<Rightarrow> (graph_node list \<Rightarrow> graph_node list) \<Rightarrow> (string \<Rightarrow> uuid option) \<Rightarrow> request \<Rightarrow> ('s, graph_view) handler" where
  "comm_graph A srt parse r =
     with_kb A parse r (\<lambda>userID kbID.
       try_call (co_view A userID kbID)
         (\<lambda>e s. (s, Problem 500 ''failed to load knowledge base graph''))
         (\<lambda>view s. (s, Reply 200 (filterGraphView srt graphFilterPercentile graphFilterCap view))))"

subsection \<open>What detection is run on\<close>

text \<open>The weighted and boosted graph has positive weights only, as the detection's score assumes.\<close>

lemma weighted_graph_positive:
  "list_all (\<lambda>e. 0 < we_Weight e) (g_Edges (ApplyRelationBoost (ApplyPMIWeighting log2 g freq) raw confirmed noneFound))"
  by (auto simp: ApplyRelationBoost_def ApplyPMIWeighting_def pmi_edge_def boost_edge_def Let_def list_all_iff
      relationConfirmedBoost_def relationNoneDamp_def relationRescueWeight_def split: if_splits)

subsection \<open>What the graph route shows\<close>

lemma count_edge_get:
  "gm_get_or 0 (count_edge m a b) i = gm_get_or 0 m i + of_bool (i = a) + of_bool (i = b)"
  by (simp add: count_edge_def Let_def)

lemma degree_fold:
  "gm_get_or 0 (foldl (\<lambda>m e. count_edge m (src e) (tgt e)) m es) i =
     gm_get_or 0 m i + (\<Sum>e\<leftarrow>es. of_bool (i = src e) + of_bool (i = tgt e))"
  by (induction es arbitrary: m) (auto simp: count_edge_get)

lemma degree_positive:
  "0 < gm_get_or 0 (foldl (\<lambda>m e. count_edge m (src e) (tgt e)) [] es) i \<longleftrightarrow> (\<exists>e\<in>set es. i = src e \<or> i = tgt e)"
proof -
  have "0 < (\<Sum>e\<leftarrow>es. of_bool (i = src e) + of_bool (i = tgt e) :: int) \<longleftrightarrow> (\<exists>e\<in>set es. i = src e \<or> i = tgt e)"
  proof (induction es)
    case (Cons e es)
    have "0 \<le> (\<Sum>e\<leftarrow>es. of_bool (i = src e) + of_bool (i = tgt e) :: int)"
      by (induction es) auto
    with Cons show ?case by (auto simp: of_bool_def)
  qed simp
  then show ?thesis by (simp add: degree_fold)
qed

lemma keepTop_length: "length (keepTopByDegree srt p cap ns) \<le> cap"
  by (auto simp: keepTopByDegree_def keep_count_def Let_def)

lemma keepTop_sub:
  assumes "\<And>xs. mset (srt xs) = mset xs"
  shows "set (keepTopByDegree srt p cap ns) \<subseteq> gn_id ` set ns"
proof -
  have "set (srt ns) = set ns" using assms[of ns] by (metis set_mset_mset)
  then show ?thesis by (auto simp: keepTopByDegree_def dest: in_set_takeD)
qed

text \<open>A kept node is among those its own community keeps, so a community shows no more than the cap.\<close>

lemma kept_by_community:
  assumes "\<And>xs. mset (srt xs) = mset xs" "distinct (map gn_id ns)"
    and n: "n \<in> set ns" "gn_id n \<in> set (concat (map (keepTopByDegree srt p cap) (community_groups ns)))"
  shows "gn_id n \<in> set (keepTopByDegree srt p cap (filter (\<lambda>m. gn_community m = gn_community n) ns))"
proof -
  from n(2) obtain d where d: "gn_id n \<in> set (keepTopByDegree srt p cap (filter (\<lambda>m. gn_community m = d) ns))"
    by (auto simp: community_groups_def)
  with keepTop_sub[OF assms(1)] obtain n' where "n' \<in> set ns" "gn_community n' = d" "gn_id n' = gn_id n"
    by fastforce
  with n(1) assms(2) have "d = gn_community n" by (auto dest: inj_onD simp: distinct_map)
  with d show ?thesis by simp
qed

lemma kept_cap:
  assumes "\<And>xs. mset (srt xs) = mset xs" "distinct (map gn_id ns)"
    and "\<And>n. Q n \<Longrightarrow> gn_id n \<in> set (concat (map (keepTopByDegree srt p cap) (community_groups ns)))"
  shows "length (filter (\<lambda>n. gn_community n = c) (filter Q ns)) \<le> cap"
proof -
  let ?f = "filter (\<lambda>n. gn_community n = c) (filter Q ns)"
  let ?k = "keepTopByDegree srt p cap (filter (\<lambda>n. gn_community n = c) ns)"
  have "gn_id ` set ?f \<subseteq> set ?k"
    using kept_by_community[where srt = srt and ns = ns and p = p and cap = cap] assms by fastforce
  moreover have "distinct (map gn_id ?f)"
    using assms(2) unfolding filter_filter by (rule distinct_map_filter)
  ultimately have "length ?f \<le> card (set ?k)"
    by (metis List.finite_set card_mono distinct_card length_map set_map)
  also have "\<dots> \<le> length ?k" by (rule card_length)
  also have "\<dots> \<le> cap" by (rule keepTop_length)
  finally show ?thesis .
qed

text \<open>
  C33. The graph shown is a subgraph of the knowledge base's in which every edge has both ends and
  every node has an edge, and no community shows more nodes than the cap, however ties in the sort
  by degree come out.
\<close>

theorem graph_view_trimmed:
  assumes "\<And>xs. mset (srt xs) = mset xs" "distinct (map gn_id (gv_nodes view))"
  shows "let v = filterGraphView srt p cap view
         in subseq (gv_nodes v) (gv_nodes view) \<and> subseq (gv_edges v) (gv_edges view) \<and>
            list_all (\<lambda>e. List.member (map gn_id (gv_nodes v)) (ge_source e) \<and>
                          List.member (map gn_id (gv_nodes v)) (ge_target e)) (gv_edges v) \<and>
            list_all (\<lambda>n. list_ex (\<lambda>e. ge_source e = gn_id n \<or> ge_target e = gn_id n) (gv_edges v)) (gv_nodes v) \<and>
            list_all (\<lambda>c. length (filter (\<lambda>n. gn_community n = c) (gv_nodes v)) \<le> cap)
              (map gn_community (gv_nodes v))"
proof -
  let ?ns = "gv_nodes view"
  define kept where "kept = concat (map (keepTopByDegree srt p cap) (community_groups ?ns))"
  define prov where "prov = filter (\<lambda>e. List.member kept (ge_source e) \<and> List.member kept (ge_target e)) (gv_edges view)"
  define nodes where "nodes = filter (\<lambda>n. List.member kept (gn_id n) \<and>
    gm_get_or 0 (foldl (\<lambda>m e. count_edge m (ge_source e) (ge_target e)) [] prov) (gn_id n) > 0) ?ns"
  define es where "es = filter (\<lambda>e. List.member (map gn_id nodes) (ge_source e) \<and> List.member (map gn_id nodes) (ge_target e)) prov"
  have v: "filterGraphView srt p cap view = \<lparr>gv_nodes = nodes, gv_edges = es\<rparr>"
    by (simp add: filterGraphView_def kept_def prov_def nodes_def es_def Let_def)
  have nodes: "set nodes = {n \<in> set ?ns. gn_id n \<in> set kept \<and> (\<exists>e\<in>set prov. gn_id n = ge_source e \<or> gn_id n = ge_target e)}"
    by (auto simp: nodes_def degree_positive)
  have kept_ids: "set kept \<subseteq> gn_id ` set ?ns"
    using keepTop_sub[OF assms(1)] by (fastforce simp: kept_def community_groups_def)
  have node: "i \<in> gn_id ` set nodes" if i: "e \<in> set prov" "i = ge_source e \<or> i = ge_target e" for e i
  proof -
    have "i \<in> set kept" using i by (auto simp: prov_def)
    then have "i \<in> gn_id ` set ?ns" using kept_ids by (rule subsetD[rotated])
    then obtain n where "n \<in> set ?ns" "gn_id n = i" by auto
    with i \<open>i \<in> set kept\<close> have "n \<in> set nodes" unfolding nodes by auto
    with \<open>gn_id n = i\<close> show ?thesis by auto
  qed
  have ends: "ge_source e \<in> gn_id ` set nodes \<and> ge_target e \<in> gn_id ` set nodes" if "e \<in> set prov" for e
    using node[OF that] by simp
  then have es: "es = prov" by (simp add: es_def)
  have cap: "length (filter (\<lambda>n. gn_community n = c) nodes) \<le> cap" for c
    unfolding nodes_def by (rule kept_cap[where p = p, OF assms]) (simp add: kept_def)
  show ?thesis
    unfolding v Let_def graph_view.simps
  proof (intro conjI)
    show "subseq nodes ?ns" by (simp add: nodes_def subseq_filter_left)
    show "subseq es (gv_edges view)" unfolding es by (simp add: prov_def subseq_filter_left)
    show "list_all (\<lambda>e. List.member (map gn_id nodes) (ge_source e) \<and> List.member (map gn_id nodes) (ge_target e)) es"
      using ends by (simp add: es list_all_iff)
    show "list_all (\<lambda>n. list_ex (\<lambda>e. ge_source e = gn_id n \<or> ge_target e = gn_id n) es) nodes"
      unfolding es by (auto simp: list_all_iff list_ex_iff nodes)
    show "list_all (\<lambda>c. length (filter (\<lambda>n. gn_community n = c) nodes) \<le> cap) (map gn_community nodes)"
      using cap by (simp add: list_all_iff)
  qed
qed

definition demo_node :: "uuid \<Rightarrow> nat \<Rightarrow> graph_node" where
  "demo_node i c = \<lparr>gn_id = i, gn_label = ''n'', gn_type = ''entity'', gn_community = Some c, gn_degree = 1, gn_documents = 1\<rparr>"

definition demo_view :: graph_view where
  "demo_view = \<lparr>gv_nodes = [demo_node 1 0, demo_node 2 0, demo_node 3 1],
     gv_edges = [\<lparr>ge_source = 1, ge_target = 2, ge_weight = 1, ge_documents = 1, ge_relation = None\<rparr>]\<rparr>"

definition by_degree :: "graph_node list \<Rightarrow> graph_node list" where
  "by_degree = sort_slice (\<lambda>a b. gn_degree a > gn_degree b)"

theorem graph_view_trimmed_witness:
  "map gn_id (gv_nodes (filterGraphView by_degree graphFilterPercentile graphFilterCap demo_view)) = [1, 2] \<and>
   subseq (gv_nodes (filterGraphView by_degree graphFilterPercentile graphFilterCap demo_view)) (gv_nodes demo_view)"
proof
  show "map gn_id (gv_nodes (filterGraphView by_degree graphFilterPercentile graphFilterCap demo_view)) = [1, 2]"
    by code_simp
  show "subseq (gv_nodes (filterGraphView by_degree graphFilterPercentile graphFilterCap demo_view)) (gv_nodes demo_view)"
    using graph_view_trimmed[of by_degree demo_view graphFilterPercentile graphFilterCap]
    by (simp add: Let_def by_degree_def demo_view_def demo_node_def)
qed

text \<open>
  The comment on \<^verbatim>\<open>filterGraphView\<close> says that a group of 20 members or fewer keeps exactly
  one: the double nearest 0.95 is below it, so a group of exactly 20 keeps two.
\<close>

lemma keep_count_twenty:
  "keep_count graphFilterPercentile graphFilterCap 20 = 2" "keep_count graphFilterPercentile graphFilterCap 19 = 1"
  by code_simp+

end
