(* ===== verification/Account.thy ===== *)
theory Account
  imports Server Triples
begin

text \<open>
  The life of a tenant: \<^verbatim>\<open>internal/auth/middleware.go\<close> mints a session for a visitor and
  resolves its cookie afterwards, \<^verbatim>\<open>internal/account\<close> sweeps sessions that are idle or old,
  deleting what they own, and \<^verbatim>\<open>internal/server/accounthandler.go\<close> tells the visitor.

  The stores are the operations of \<open>acct_ops\<close>; \<open>acct_mem\<close> implements them with the mock session
  store, the in-memory documents and a map of objects, under a tape of outages. Deleting a session
  row deletes the session's document rows, as the foreign keys the interface documents do.

  \<open>auth_Middleware\<close> and \<open>Sweep_Run\<close> are whole runs with nothing in between. \<open>visit_step\<close> and
  \<open>sweep_step\<close> are the same code call by call, for runs where visits and sweeps overlap and the
  clock advances between any two calls.
\<close>

subsection \<open>Collaborators\<close>

record 's acct_ops =
  ao_create :: "('s, session) call"
  ao_touch :: "uuid \<Rightarrow> timestamp \<Rightarrow> 's proc"
  ao_get :: "uuid \<Rightarrow> ('s, session) call"
  ao_list :: "('s, session list) call"
  ao_warn :: "uuid \<Rightarrow> 's proc"
  ao_delete :: "uuid \<Rightarrow> 's proc"
  ao_docs :: "uuid \<Rightarrow> ('s, document list) call"
  ao_obj_delete :: "string \<Rightarrow> 's proc"
  ao_record_created :: "'s proc"
  ao_snapshot :: "('s, snapshot) call"
  ao_now :: "'s \<Rightarrow> timestamp"

subsection \<open>The middleware\<close>

text \<open>The identity in a request context, as \<^verbatim>\<open>WithUserID\<close> and \<^verbatim>\<open>UserIDFromContext\<close> keep it.\<close>

definition WithUserID :: "uuid \<Rightarrow> request \<Rightarrow> request" where
  "WithUserID i r = r\<lparr>rq_user := Some i\<rparr>"

definition UserIDFromContext :: "request \<Rightarrow> uuid \<times> bool" where
  "UserIDFromContext r = (case rq_user r of None \<Rightarrow> (uuid_nil, False) | Some i \<Rightarrow> (i, True))"

definition resolveSession ::
    "'s acct_ops \<Rightarrow> (string \<Rightarrow> uuid option) \<Rightarrow> string option \<Rightarrow> 's \<Rightarrow> 's \<times> session option" where
  "resolveSession A parse cookie s =
     (case cookie of
        None \<Rightarrow> (s, None)
      | Some v \<Rightarrow>
          (case parse v of
             None \<Rightarrow> (s, None)
           | Some i \<Rightarrow>
               try_call (ao_get A i)
                 (\<lambda>e s. (s, None))
                 (\<lambda>sess s.
                    if Expired sess (ao_now A s) then (s, None)
                    else ignore (ao_touch A (s_id sess) (ao_now A s)) (\<lambda>s. (s, Some sess)) s) s))"

text \<open>
  The middleware around a handler \<open>nxt\<close>: the result is the \<^verbatim>\<open>Set-Cookie\<close> value, if one is
  set, and the response. \<open>stats\<close> says whether the optional usage counters are configured.
\<close>

definition auth_Middleware ::
    "'s acct_ops \<Rightarrow> (uuid \<Rightarrow> string) \<Rightarrow> (string \<Rightarrow> uuid option) \<Rightarrow> bool \<Rightarrow> (request \<Rightarrow> ('s, 'a) handler) \<Rightarrow>
     string option \<Rightarrow> request \<Rightarrow> 's \<Rightarrow> 's \<times> string option \<times> 'a response" where
  "auth_Middleware A us parse stats nxt cookie r s =
     (case resolveSession A parse cookie s of
        (s, Some sess) \<Rightarrow>
          (case nxt (WithUserID (s_id sess) r) s of (s, resp) \<Rightarrow> (s, None, resp))
      | (s, None) \<Rightarrow>
          try_call (ao_create A)
            (\<lambda>e s. (s, None, Problem 503 ''service unavailable''))
            (\<lambda>sess.
               ignore (if stats then ao_record_created A else (\<lambda>s. (s, None)))
                 (\<lambda>s. case nxt (WithUserID (s_id sess) r) s of
                        (s, resp) \<Rightarrow> (s, Some (us (s_id sess)), resp))) s)"

subsection \<open>Deleting an account\<close>

fun delete_objects :: "'s acct_ops \<Rightarrow> document list \<Rightarrow> 's \<Rightarrow> 's \<times> gerror list" where
  "delete_objects A [] s = (s, [])"
| "delete_objects A (d # ds) s =
     (case ao_obj_delete A (d_s3key d) s of
        (s, r) \<Rightarrow>
          (case delete_objects A ds s of
             (s, errs) \<Rightarrow> (s, (case r of None \<Rightarrow> errs | Some e \<Rightarrow> Wrapf (''delete object '' @ d_s3key d) e # errs))))"

definition Deleter_Delete :: "'s acct_ops \<Rightarrow> session \<Rightarrow> 's proc" where
  "Deleter_Delete A sess =
     try_call (ao_docs A (s_id sess))
       (\<lambda>e s. (s, Some (Wrapf ''account: list documents'' e)))
       (\<lambda>docs s.
          case delete_objects A docs s of
            (s, objErrs) \<Rightarrow>
              if objErrs \<noteq> [] then (s, Some (Wrapf ''account: delete'' (Joined objErrs)))
              else try_proc (ao_delete A (s_id sess))
                     (\<lambda>e s. (s, Some (Wrapf ''account: delete session'' e)))
                     (\<lambda>s. (s, None)) s)"

subsection \<open>The sweep\<close>

definition WarningLeadTime :: timestamp where
  "WarningLeadTime = 15 * 60 * 1000000000"

record sweep_result =
  sr_warned :: nat
  sr_deleted :: nat
  sr_errors :: "gerror list"

definition sweep_new :: sweep_result where
  "sweep_new = \<lparr>sr_warned = 0, sr_deleted = 0, sr_errors = []\<rparr>"

definition sweep_error :: "gerror \<Rightarrow> sweep_result \<Rightarrow> sweep_result" where
  "sweep_error e res = res\<lparr>sr_errors := sr_errors res @ [e]\<rparr>"

definition due_warning :: "session \<Rightarrow> timestamp \<Rightarrow> bool" where
  "due_warning sess now \<longleftrightarrow>
     (let hardAge = now - s_created sess;
          idleAge = now - s_last_active sess
      in HardCap - hardAge \<le> WarningLeadTime \<or> IdleTimeout - idleAge \<le> WarningLeadTime)"

definition sweep_one :: "'s acct_ops \<Rightarrow> timestamp \<Rightarrow> session \<Rightarrow> sweep_result \<Rightarrow> 's \<Rightarrow> 's \<times> sweep_result" where
  "sweep_one A now sess res =
     (if Expired sess now
      then try_proc (Deleter_Delete A sess)
             (\<lambda>e s. (s, sweep_error (Wrapf ''delete session'' e) res))
             (\<lambda>s. (s, res\<lparr>sr_deleted := sr_deleted res + 1\<rparr>))
      else if s_warned sess = None \<and> due_warning sess now
      then try_proc (ao_warn A (s_id sess))
             (\<lambda>e s. (s, sweep_error (Wrapf ''mark warned for'' e) res))
             (\<lambda>s. (s, res\<lparr>sr_warned := sr_warned res + 1\<rparr>))
      else (\<lambda>s. (s, res)))"

primrec sweep_all :: "'s acct_ops \<Rightarrow> timestamp \<Rightarrow> session list \<Rightarrow> sweep_result \<Rightarrow> 's \<Rightarrow> 's \<times> sweep_result" where
  "sweep_all A now [] res s = (s, res)"
| "sweep_all A now (sess # sl) res s =
     (case sweep_one A now sess res s of (s, res) \<Rightarrow> sweep_all A now sl res s)"

definition Sweep_Run :: "'s acct_ops \<Rightarrow> ('s, sweep_result) call" where
  "Sweep_Run A =
     try_call (ao_list A)
       (\<lambda>e s. (s, Inl (Wrapf ''account: sweep: list sessions'' e)))
       (\<lambda>sessions s. case sweep_all A (ao_now A s) sessions sweep_new s of (s, res) \<Rightarrow> (s, Inr res))"

subsection \<open>What the visitor sees\<close>

record account_reply =
  as_warning :: bool
  as_deletes_at :: timestamp

definition deletes_at :: "session \<Rightarrow> timestamp" where
  "deletes_at sess =
     (let hardCapExpiry = s_created sess + HardCap;
          idleExpiry = s_last_active sess + IdleTimeout
      in if idleExpiry < hardCapExpiry then idleExpiry else hardCapExpiry)"

definition account_status :: "'s acct_ops \<Rightarrow> request \<Rightarrow> ('s, account_reply) handler" where
  "account_status A r =
     requireUserID r (\<lambda>userID.
       try_call (ao_get A userID)
         (\<lambda>e s. (s, Problem 500 ''failed to load account''))
         (\<lambda>sess s. (s, Reply 200 \<lparr>as_warning = (deletes_at sess - ao_now A s \<le> WarningLeadTime),
                                   as_deletes_at = deletes_at sess\<rparr>)))"

definition statsHandlerFunc :: "'s acct_ops \<Rightarrow> ('s, snapshot) handler" where
  "statsHandlerFunc A =
     try_call (ao_snapshot A) (\<lambda>e s. (s, Problem 500 ''failed to load usage stats''))
       (\<lambda>snap s. (s, Reply 200 snap))"

subsection \<open>The stores\<close>

record acct =
  ac_sessions :: session_store
  ac_docs :: doc_repo
  ac_objects :: "(string, string) gomap"
  ac_stats :: stats_repo
  ac_next :: uuid
  ac_clock :: timestamp
  ac_faults :: "bool list"

text \<open>
  An outage strikes before the operation, which then does nothing, or after it: the session
  is created, touched or deleted and the caller gets an error all the same.
\<close>

definition ac_fault :: gerror where
  "ac_fault = Plain ''connection refused''"

definition ac_call :: "(acct, 'a) call \<Rightarrow> (acct, 'a) call" where
  "ac_call p w =
     (case ac_faults w of
        True # fs \<Rightarrow> (w\<lparr>ac_faults := fs\<rparr>, Inl ac_fault)
      | False # True # fs \<Rightarrow> (fst (p (w\<lparr>ac_faults := fs\<rparr>)), Inl ac_fault)
      | False # False # fs \<Rightarrow> p (w\<lparr>ac_faults := fs\<rparr>)
      | _ \<Rightarrow> p w)"

definition ac_proc :: "acct proc \<Rightarrow> acct proc" where
  "ac_proc p w =
     (case ac_faults w of
        True # fs \<Rightarrow> (w\<lparr>ac_faults := fs\<rparr>, Some ac_fault)
      | False # True # fs \<Rightarrow> (fst (p (w\<lparr>ac_faults := fs\<rparr>)), Some ac_fault)
      | False # False # fs \<Rightarrow> p (w\<lparr>ac_faults := fs\<rparr>)
      | _ \<Rightarrow> p w)"

definition on_sessions :: "session_store proc \<Rightarrow> acct proc" where
  "on_sessions p w = (case p (ac_sessions w) of (s, r) \<Rightarrow> (w\<lparr>ac_sessions := s\<rparr>, r))"

definition acct_mem :: "acct acct_ops" where
  "acct_mem =
     \<lparr>ao_create = ac_call (\<lambda>w.
        case ss_Create (ac_next w) (ac_clock w) (ac_clock w) (ac_sessions w) of
          (s, r) \<Rightarrow> (w\<lparr>ac_sessions := s, ac_next := Suc (ac_next w)\<rparr>, r)),
      ao_touch = \<lambda>i now. ac_proc (on_sessions (ss_Touch i now)),
      ao_get = \<lambda>i. ac_call (\<lambda>w. (w, ss_GetByID i (ac_sessions w))),
      ao_list = ac_call (\<lambda>w. (w, Inr (ss_ListForSweep (ac_sessions w)))),
      ao_warn = \<lambda>i. ac_proc (\<lambda>w. on_sessions (ss_MarkWarned i (ac_clock w)) w),
      ao_delete = \<lambda>i. ac_proc (\<lambda>w.
        case on_sessions (ss_Delete i) w of
          (w, r) \<Rightarrow> (w\<lparr>ac_docs := filter (\<lambda>p. d_user (snd p) \<noteq> i) (ac_docs w)\<rparr>, r)),
      ao_docs = \<lambda>i. ac_call (\<lambda>w. (w, Inr (doc_ListByUserID i (ac_docs w)))),
      ao_obj_delete = \<lambda>k. ac_proc (\<lambda>w. (w\<lparr>ac_objects := gm_del k (ac_objects w)\<rparr>, None)),
      ao_record_created = ac_proc (\<lambda>w. (w\<lparr>ac_stats := stats_RecordSessionCreated (ac_stats w)\<rparr>, None)),
      ao_snapshot = ac_call (\<lambda>w. (w, Inr (st_snap (ac_stats w)))),
      ao_now = ac_clock\<rparr>"

definition acct_new :: acct where
  "acct_new = \<lparr>ac_sessions = \<lparr>ss_sessions = [], ss_touched = [], ss_create_err = None\<rparr>, ac_docs = [],
     ac_objects = [], ac_stats = stats_new, ac_next = 1, ac_clock = 0, ac_faults = []\<rparr>"

subsection \<open>Facts of the stores\<close>

abbreviation session_of :: "acct \<Rightarrow> uuid \<Rightarrow> session option" where
  "session_of w i \<equiv> gm_get (ss_sessions (ac_sessions w)) i"

text \<open>A property that an operation keeps, and that does not look at the tape, survives the outages.\<close>

lemma ac_proc_keep:
  assumes "P w" "\<And>w fs. P w \<Longrightarrow> P (w\<lparr>ac_faults := fs\<rparr>)" "\<And>w. P w \<Longrightarrow> P (fst (p w))"
  shows "P (fst (ac_proc p w))"
  using assms by (auto simp: ac_proc_def split: list.split bool.split)

lemma ac_call_keep:
  assumes "P w" "\<And>w fs. P w \<Longrightarrow> P (w\<lparr>ac_faults := fs\<rparr>)" "\<And>w. P w \<Longrightarrow> P (fst (p w))"
  shows "P (fst (ac_call p w))"
  using assms by (auto simp: ac_call_def split: list.split bool.split)

text \<open>A successful call has run, on the same stores.\<close>

lemma ac_call_ok:
  assumes "ac_call p w = (w', Inr v)"
  obtains fs where "p (w\<lparr>ac_faults := fs\<rparr>) = (w', Inr v)"
proof -
  have "(\<exists>fs. p (w\<lparr>ac_faults := fs\<rparr>) = (w', Inr v)) \<or> p w = (w', Inr v)"
    using assms by (auto simp: ac_call_def split: list.splits bool.splits)
  moreover have "p w = p (w\<lparr>ac_faults := ac_faults w\<rparr>)" by simp
  ultimately show thesis using that by metis
qed

lemma ac_proc_ok:
  assumes "ac_proc p w = (w', None)"
  obtains fs where "p (w\<lparr>ac_faults := fs\<rparr>) = (w', None)"
proof -
  have "(\<exists>fs. p (w\<lparr>ac_faults := fs\<rparr>) = (w', None)) \<or> p w = (w', None)"
    using assms by (auto simp: ac_proc_def split: list.splits bool.splits)
  moreover have "p w = p (w\<lparr>ac_faults := ac_faults w\<rparr>)" by simp
  ultimately show thesis using that by metis
qed

lemma ac_call_calm [simp]: "ac_faults w = [] \<Longrightarrow> ac_call p w = p w"
  by (simp add: ac_call_def)

lemma ac_proc_calm [simp]: "ac_faults w = [] \<Longrightarrow> ac_proc p w = p w"
  by (simp add: ac_proc_def)

text \<open>Sessions are stored under their own identifier, and identifiers are never reused.\<close>

definition sessions_ok :: "acct \<Rightarrow> bool" where
  "sessions_ok w \<longleftrightarrow>
     distinct (gm_keys (ss_sessions (ac_sessions w))) \<and>
     (\<forall>i sess. session_of w i = Some sess \<longrightarrow> s_id sess = i \<and> i < ac_next w)"

lemma sessions_ok_faults [simp]: "sessions_ok (w\<lparr>ac_faults := fs\<rparr>) = sessions_ok w"
  by (simp add: sessions_ok_def)

text \<open>An identity that is gone: it was given out, and its session is deleted or expired.\<close>

definition gone :: "acct \<Rightarrow> uuid \<Rightarrow> bool" where
  "gone w i \<longleftrightarrow> i < ac_next w \<and> (\<forall>sess. session_of w i = Some sess \<longrightarrow> Expired sess (ac_clock w))"

lemma Expired_later: "Expired sess now \<Longrightarrow> now \<le> later \<Longrightarrow> Expired sess later"
  by (auto simp: Expired_def)

text \<open>
  The fact the runs below carry: at time \<open>t\<close> the session of \<open>i\<close> is deleted or, where \<open>b\<close> allows
  it, expired. Every operation but a touch keeps it; a touch of \<open>i\<close> keeps a deleted session deleted.
\<close>

definition kept_out :: "bool \<Rightarrow> uuid \<Rightarrow> timestamp \<Rightarrow> acct \<Rightarrow> bool" where
  "kept_out b i t w \<longleftrightarrow> sessions_ok w \<and> ac_clock w = t \<and> i < ac_next w \<and>
     (\<forall>sess. session_of w i = Some sess \<longrightarrow> b \<and> Expired sess t)"

lemma kept_out_faults [simp]: "kept_out b i t (w\<lparr>ac_faults := fs\<rparr>) = kept_out b i t w"
  by (simp add: kept_out_def)

lemma kept_create: "kept_out b i t w \<Longrightarrow> kept_out b i t (fst (ao_create acct_mem w))"
  unfolding acct_mem_def acct_ops.simps
  by (erule ac_call_keep)
    (auto simp del: map_of_eq_Some_iff simp: kept_out_def sessions_ok_def ss_Create_def Let_def less_Suc_eq
      split: option.splits prod.splits if_splits)

lemma kept_reads:
  "kept_out b i t w \<Longrightarrow> kept_out b i t (fst (ao_get acct_mem j w))"
  "kept_out b i t w \<Longrightarrow> kept_out b i t (fst (ao_list acct_mem w))"
  "kept_out b i t w \<Longrightarrow> kept_out b i t (fst (ao_docs acct_mem j w))"
  unfolding acct_mem_def acct_ops.simps by (erule ac_call_keep; simp)+

lemma kept_writes:
  "kept_out b i t w \<Longrightarrow> kept_out b i t (fst (ao_record_created acct_mem w))"
  "kept_out b i t w \<Longrightarrow> kept_out b i t (fst (ao_obj_delete acct_mem k w))"
  unfolding acct_mem_def acct_ops.simps
  by (erule ac_proc_keep; simp del: map_of_eq_Some_iff add: kept_out_def sessions_ok_def)+

lemma kept_warn: "kept_out b i t w \<Longrightarrow> kept_out b i t (fst (ao_warn acct_mem j w))"
  unfolding acct_mem_def acct_ops.simps
  by (erule ac_proc_keep)
    (auto simp del: map_of_eq_Some_iff simp: kept_out_def sessions_ok_def on_sessions_def ss_MarkWarned_def Expired_def
      split: option.splits prod.splits if_splits)

lemma kept_delete: "kept_out b i t w \<Longrightarrow> kept_out b i t (fst (ao_delete acct_mem j w))"
  unfolding acct_mem_def acct_ops.simps
  by (erule ac_proc_keep)
    (auto simp del: map_of_eq_Some_iff simp: kept_out_def sessions_ok_def on_sessions_def ss_Delete_def
      split: option.splits prod.splits if_splits)

lemma kept_touch:
  assumes "kept_out b i t w" "b \<Longrightarrow> j \<noteq> i"
  shows "kept_out b i t (fst (ao_touch acct_mem j now w))"
  unfolding acct_mem_def acct_ops.simps using assms(1)
  by (rule ac_proc_keep)
    (use assms(2) in \<open>auto simp del: map_of_eq_Some_iff simp: kept_out_def sessions_ok_def on_sessions_def ss_Touch_def Let_def
      split: option.splits prod.splits if_splits\<close>)

lemma get_live:
  assumes "ao_get acct_mem j w = (w', Inr sess)" "kept_out b i t w" "\<not> Expired sess t"
  shows "s_id sess \<noteq> i"
proof -
  have "session_of w j = Some sess"
    using assms(1) by (auto simp: acct_mem_def ss_GetByID_def elim!: ac_call_ok split: option.splits)
  with assms(2,3) show ?thesis by (auto simp: kept_out_def sessions_ok_def simp del: map_of_eq_Some_iff)
qed

lemma create_fresh:
  assumes "ao_create acct_mem w = (w', Inr sess)" "kept_out b i t w"
  shows "s_id sess \<noteq> i"
proof -
  have "s_id sess = ac_next w"
    using assms(1) by (auto simp: acct_mem_def ss_Create_def Let_def elim!: ac_call_ok split: option.splits)
  with assms(2) show ?thesis by (simp add: kept_out_def)
qed

subsection \<open>Visits and sweeps, call by call\<close>

text \<open>
  Requests and sweeps run at the same time, and each of their calls is a step between which any
  other step can fall and the clock can advance. A visit is where \<^verbatim>\<open>Middleware\<close> has got to: the
  cookie's session is looked up, its expiry is checked, the time of the touch is read, the session is
  touched, or a new one is made and counted; then the handler runs under the identity until it ends.
\<close>

datatype visit_pc =
    Looking uuid
  | Checking session
  | Stamping session
  | Touching session timestamp
  | Minting
  | Counting session
  | Serving uuid

definition visit_start :: "(string \<Rightarrow> uuid option) \<Rightarrow> string option \<Rightarrow> visit_pc" where
  "visit_start parse cookie =
     (case cookie of
        None \<Rightarrow> Minting
      | Some v \<Rightarrow> (case parse v of None \<Rightarrow> Minting | Some i \<Rightarrow> Looking i))"

fun visit_step :: "'s acct_ops \<Rightarrow> bool \<Rightarrow> visit_pc \<Rightarrow> 's \<Rightarrow> 's \<times> visit_pc option" where
  "visit_step A stats (Looking i) s =
     try_call (ao_get A i) (\<lambda>e s. (s, Some Minting)) (\<lambda>sess s. (s, Some (Checking sess))) s"
| "visit_step A stats (Checking sess) s =
     (s, Some (if Expired sess (ao_now A s) then Minting else Stamping sess))"
| "visit_step A stats (Stamping sess) s = (s, Some (Touching sess (ao_now A s)))"
| "visit_step A stats (Touching sess t) s =
     ignore (ao_touch A (s_id sess) t) (\<lambda>s. (s, Some (Serving (s_id sess)))) s"
| "visit_step A stats Minting s =
     try_call (ao_create A) (\<lambda>e s. (s, None)) (\<lambda>sess s. (s, Some (Counting sess))) s"
| "visit_step A stats (Counting sess) s =
     ignore (if stats then ao_record_created A else (\<lambda>s. (s, None))) (\<lambda>s. (s, Some (Serving (s_id sess)))) s"
| "visit_step A stats (Serving i) s = (s, None)"

text \<open>
  A sweep is where \<^verbatim>\<open>Sweep.Run\<close> and \<^verbatim>\<open>Deleter.Delete\<close> have got to: the sessions are listed, the
  time is read once, and then each listed session in turn is judged; an expired one has its documents
  listed, their objects deleted one by one (the flag remembers an error) and, if all went well, its
  row. The counters of the result are left out.
\<close>

datatype sweep_pc =
    Listing
  | Timing "session list"
  | Judging timestamp "session list"
  | Finding timestamp session "session list"
  | Erasing timestamp session "document list" bool "session list"
  | Dropping timestamp session "session list"
  | Marking timestamp session "session list"

fun sweep_step :: "'s acct_ops \<Rightarrow> sweep_pc \<Rightarrow> 's \<Rightarrow> 's \<times> sweep_pc option" where
  "sweep_step A Listing s = try_call (ao_list A) (\<lambda>e s. (s, None)) (\<lambda>ss s. (s, Some (Timing ss))) s"
| "sweep_step A (Timing ss) s = (s, Some (Judging (ao_now A s) ss))"
| "sweep_step A (Judging now []) s = (s, None)"
| "sweep_step A (Judging now (sess # ss)) s =
     (s, Some (if Expired sess now then Finding now sess ss
               else if s_warned sess = None \<and> due_warning sess now then Marking now sess ss
               else Judging now ss))"
| "sweep_step A (Finding now sess ss) s =
     try_call (ao_docs A (s_id sess)) (\<lambda>e s. (s, Some (Judging now ss)))
       (\<lambda>docs s. (s, Some (Erasing now sess docs False ss))) s"
| "sweep_step A (Erasing now sess [] failed ss) s =
     (s, Some (if failed then Judging now ss else Dropping now sess ss))"
| "sweep_step A (Erasing now sess (d # ds) failed ss) s =
     (case ao_obj_delete A (d_s3key d) s of (s, r) \<Rightarrow> (s, Some (Erasing now sess ds (failed \<or> r \<noteq> None) ss)))"
| "sweep_step A (Dropping now sess ss) s = ignore (ao_delete A (s_id sess)) (\<lambda>s. (s, Some (Judging now ss))) s"
| "sweep_step A (Marking now sess ss) s = ignore (ao_warn A (s_id sess)) (\<lambda>s. (s, Some (Judging now ss))) s"

text \<open>A step run with nothing in between is what the handler and the sweep above do.\<close>

inductive visit_alone :: "'s acct_ops \<Rightarrow> bool \<Rightarrow> visit_pc \<Rightarrow> 's \<Rightarrow> 's \<Rightarrow> uuid option \<Rightarrow> bool" for A stats where
  served: "visit_alone A stats (Serving i) s s (Some i)"
| refused: "visit_step A stats pc s = (s', None) \<Longrightarrow> pc = Minting \<Longrightarrow> visit_alone A stats pc s s' None"
| onward: "visit_step A stats pc s = (s', Some pc') \<Longrightarrow> visit_alone A stats pc' s' s'' i \<Longrightarrow> visit_alone A stats pc s s'' i"

inductive sweep_alone :: "'s acct_ops \<Rightarrow> sweep_pc \<Rightarrow> 's \<Rightarrow> 's \<Rightarrow> bool" for A where
  ended: "sweep_step A pc s = (s', None) \<Longrightarrow> sweep_alone A pc s s'"
| onward: "sweep_step A pc s = (s', Some pc') \<Longrightarrow> sweep_alone A pc' s' s'' \<Longrightarrow> sweep_alone A pc s s''"

text \<open>The handler behind the middleware, reporting the identity it was given.\<close>

definition whoami :: "request \<Rightarrow> ('s, uuid) handler" where
  "whoami r s = (s, Reply 200 (fst (UserIDFromContext r)))"

lemma visit_minting:
  assumes "resolveSession A parse cookie s = (s1, None)"
    and "auth_Middleware A us parse stats whoami cookie r s = (s', c, resp)"
  shows "visit_alone A stats Minting s1 s' (case resp of Reply n i \<Rightarrow> Some i | Problem n m \<Rightarrow> None)"
proof -
  obtain s2 q where q: "ao_create A s1 = (s2, q)" by fastforce
  show ?thesis
  proof (cases q)
    case (Inl e)
    then have "s' = s2" "resp = Problem 503 ''service unavailable''" using assms q by (simp_all add: auth_Middleware_def)
    then show ?thesis using q Inl by (auto intro!: visit_alone.refused)
  next
    case (Inr sess)
    obtain s3 where s3: "visit_step A stats (Counting sess) s2 = (s3, Some (Serving (s_id sess)))" by (simp add: ignore_def)
    moreover have "visit_step A stats Minting s1 = (s2, Some (Counting sess))" using q Inr by simp
    ultimately have "visit_alone A stats Minting s1 s3 (Some (s_id sess))"
      by (meson visit_alone.onward visit_alone.served)
    moreover have "s' = s3" "resp = Reply 200 (s_id sess)"
      using assms q Inr s3 by (auto simp: auth_Middleware_def ignore_def whoami_def WithUserID_def UserIDFromContext_def)
    ultimately show ?thesis by simp
  qed
qed

lemma visit_uninterrupted:
  assumes "auth_Middleware A us parse stats whoami cookie r s = (s', c, resp)"
  shows "visit_alone A stats (visit_start parse cookie) s s' (case resp of Reply n i \<Rightarrow> Some i | Problem n m \<Rightarrow> None)"
proof (cases "\<exists>v i. cookie = Some v \<and> parse v = Some i")
  case False
  then have "resolveSession A parse cookie s = (s, None)" "visit_start parse cookie = Minting"
    by (auto simp: resolveSession_def visit_start_def split: option.splits)
  with visit_minting[OF _ assms] show ?thesis by simp
next
  case True
  then obtain v i where vi: "cookie = Some v" "parse v = Some i" by blast
  then have start: "visit_start parse cookie = Looking i" by (simp add: visit_start_def)
  obtain s1 q where g: "ao_get A i s = (s1, q)" by fastforce
  consider (missing) e where "q = Inl e" | (old) sess where "q = Inr sess" "Expired sess (ao_now A s1)"
    | (live) sess where "q = Inr sess" "\<not> Expired sess (ao_now A s1)" by (cases q) auto
  then show ?thesis
  proof cases
    case missing
    then have "resolveSession A parse cookie s = (s1, None)" using vi g by (simp add: resolveSession_def)
    moreover have "visit_step A stats (Looking i) s = (s1, Some Minting)" using g missing by simp
    ultimately show ?thesis unfolding start using visit_minting[OF _ assms] visit_alone.onward by metis
  next
    case old
    then have "resolveSession A parse cookie s = (s1, None)" using vi g by (simp add: resolveSession_def)
    moreover have "visit_step A stats (Looking i) s = (s1, Some (Checking sess))" using g old by simp
    moreover have "visit_step A stats (Checking sess) s1 = (s1, Some Minting)" using old by simp
    ultimately show ?thesis unfolding start using visit_minting[OF _ assms] visit_alone.onward by metis
  next
    case live
    let ?s2 = "fst (ao_touch A (s_id sess) (ao_now A s1) s1)"
    have "resolveSession A parse cookie s = (?s2, Some sess)" using vi g live by (simp add: resolveSession_def ignore_def)
    then have r: "s' = ?s2" "resp = Reply 200 (s_id sess)"
      using assms by (auto simp: auth_Middleware_def whoami_def WithUserID_def UserIDFromContext_def)
    have "visit_step A stats (Looking i) s = (s1, Some (Checking sess))"
      "visit_step A stats (Checking sess) s1 = (s1, Some (Stamping sess))"
      "visit_step A stats (Stamping sess) s1 = (s1, Some (Touching sess (ao_now A s1)))"
      "visit_step A stats (Touching sess (ao_now A s1)) s1 = (?s2, Some (Serving (s_id sess)))"
      using g live by (simp_all add: ignore_def)
    then have "visit_alone A stats (Looking i) s ?s2 (Some (s_id sess))"
      by (meson visit_alone.onward visit_alone.served)
    then show ?thesis unfolding start r by simp
  qed
qed

lemma erasing_alone:
  "delete_objects A ds s = (s1, errs) \<Longrightarrow>
     sweep_alone A (if failed \<or> errs \<noteq> [] then Judging now ss else Dropping now sess ss) s1 s' \<Longrightarrow>
     sweep_alone A (Erasing now sess ds failed ss) s s'"
proof (induction ds arbitrary: s errs failed)
  case Nil
  then show ?case by (auto intro: sweep_alone.onward)
next
  case (Cons d ds)
  obtain s2 q where o: "ao_obj_delete A (d_s3key d) s = (s2, q)" by fastforce
  obtain s3 es where r: "delete_objects A ds s2 = (s3, es)" by fastforce
  have "s1 = s3" "errs \<noteq> [] \<longleftrightarrow> q \<noteq> None \<or> es \<noteq> []" using Cons.prems(1) o r by (auto split: option.splits)
  then have "sweep_alone A (Erasing now sess ds (failed \<or> q \<noteq> None) ss) s2 s'"
    using Cons.IH[of s2 es "failed \<or> q \<noteq> None"] r Cons.prems(2) by (simp add: disj_assoc)
  moreover have "sweep_step A (Erasing now sess (d # ds) failed ss) s = (s2, Some (Erasing now sess ds (failed \<or> q \<noteq> None) ss))"
    using o by simp
  ultimately show ?case by (rule sweep_alone.onward[rotated])
qed

lemma deleting_alone:
  assumes "sweep_alone A (Judging now ss) (fst (Deleter_Delete A sess s)) s'"
  shows "sweep_alone A (Finding now sess ss) s s'"
proof -
  obtain s1 q where l: "ao_docs A (s_id sess) s = (s1, q)" by fastforce
  show ?thesis
  proof (cases q)
    case (Inl e)
    with l assms show ?thesis by (auto simp: Deleter_Delete_def intro: sweep_alone.onward)
  next
    case (Inr docs)
    obtain s2 errs where d: "delete_objects A docs s1 = (s2, errs)" by fastforce
    have "sweep_alone A (if errs \<noteq> [] then Judging now ss else Dropping now sess ss) s2 s'"
    proof (cases "errs = []")
      case True
      have "fst (Deleter_Delete A sess s) = fst (ao_delete A (s_id sess) s2)"
        using l Inr d True by (simp add: Deleter_Delete_def try_proc_def split: prod.split option.split)
      with True assms show ?thesis by (auto simp: ignore_def intro: sweep_alone.onward)
    next
      case False
      with l Inr d assms show ?thesis by (simp add: Deleter_Delete_def)
    qed
    from erasing_alone[OF d, of False, simplified, OF this] l Inr show ?thesis by (auto intro: sweep_alone.onward)
  qed
qed

lemma sweep_uninterrupted: "sweep_alone A Listing s (fst (Sweep_Run A s))"
proof -
  have all: "sweep_alone A (Judging now ss) s (fst (sweep_all A now ss res s))" for now ss res s
  proof (induction ss arbitrary: res s)
    case Nil
    then show ?case by (simp add: sweep_alone.ended)
  next
    case (Cons sess ss)
    obtain s1 res1 where o: "sweep_one A now sess res s = (s1, res1)" by fastforce
    have rest: "sweep_alone A (Judging now ss) s1 (fst (sweep_all A now (sess # ss) res s))"
      using Cons.IH[where res = res1 and s = s1] o by simp
    consider (due) "Expired sess now" | (warn) "\<not> Expired sess now" "s_warned sess = None \<and> due_warning sess now"
      | (keep) "\<not> Expired sess now" "\<not> (s_warned sess = None \<and> due_warning sess now)" by blast
    then show ?case
    proof cases
      case due
      then have s1: "s1 = fst (Deleter_Delete A sess s)"
        using o by (auto simp: sweep_one_def try_proc_def split: prod.splits option.splits)
      have "sweep_alone A (Finding now sess ss) s (fst (sweep_all A now (sess # ss) res s))"
        by (rule deleting_alone[OF rest[unfolded s1]])
      with due show ?thesis by (auto intro: sweep_alone.onward)
    next
      case warn
      then have "s1 = fst (ao_warn A (s_id sess) s)"
        using o by (auto simp: sweep_one_def try_proc_def split: prod.splits option.splits)
      then have "sweep_alone A (Marking now sess ss) s (fst (sweep_all A now (sess # ss) res s))"
        using rest by (auto simp: ignore_def intro: sweep_alone.onward)
      with warn show ?thesis by (auto intro: sweep_alone.onward)
    next
      case keep
      then have "s1 = s" using o by (auto simp: sweep_one_def)
      with keep rest show ?thesis by (auto intro: sweep_alone.onward)
    qed
  qed
  obtain s1 q where l: "ao_list A s = (s1, q)" by fastforce
  show ?thesis
  proof (cases q)
    case (Inl e)
    with l show ?thesis by (auto simp: Sweep_Run_def intro: sweep_alone.ended)
  next
    case (Inr ss)
    obtain s2 res where a: "sweep_all A (ao_now A s1) ss sweep_new s1 = (s2, res)" by fastforce
    have "sweep_alone A (Timing ss) s1 s2"
      using all[of "ao_now A s1" ss s1 sweep_new] a by (auto intro: sweep_alone.onward)
    with l Inr a show ?thesis by (auto simp: Sweep_Run_def intro: sweep_alone.onward)
  qed
qed

subsection \<open>A tenant's life\<close>

text \<open>
  Any number of visits and sweeps at once, each call with its own outages, and the clock advancing
  between any two. The log has the visits whose handler ran, with the identity it ran under.
\<close>

datatype proc_pc = Visit visit_pc | Sweep sweep_pc

datatype life_event =
    VisitArrives "string option"
  | SweepStarts
  | Advance nat "bool list"
  | Tick timestamp

record life =
  lf_acct :: acct
  lf_procs :: "(nat, proc_pc) gomap"
  lf_next :: nat
  lf_log :: "(nat \<times> uuid) list"

definition life_new :: life where
  "life_new = \<lparr>lf_acct = acct_new, lf_procs = [], lf_next = 0, lf_log = []\<rparr>"

definition spawn :: "proc_pc \<Rightarrow> life \<Rightarrow> life" where
  "spawn c l = l\<lparr>lf_procs := gm_put (lf_next l) c (lf_procs l), lf_next := Suc (lf_next l)\<rparr>"

definition resume :: "nat \<Rightarrow> acct \<Rightarrow> proc_pc option \<Rightarrow> life \<Rightarrow> life" where
  "resume p w pc l =
     l\<lparr>lf_acct := w, lf_procs := (case pc of None \<Rightarrow> gm_del p (lf_procs l) | Some c \<Rightarrow> gm_put p c (lf_procs l))\<rparr>"

fun life_step :: "bool \<Rightarrow> (string \<Rightarrow> uuid option) \<Rightarrow> life \<Rightarrow> life_event \<Rightarrow> life" where
  "life_step stats parse l (VisitArrives cookie) = spawn (Visit (visit_start parse cookie)) l"
| "life_step stats parse l SweepStarts = spawn (Sweep Listing) l"
| "life_step stats parse l (Advance p fs) =
     (case gm_get (lf_procs l) p of
        None \<Rightarrow> l
      | Some (Visit pc) \<Rightarrow>
          (case visit_step acct_mem stats pc ((lf_acct l)\<lparr>ac_faults := fs\<rparr>) of
             (w, pc') \<Rightarrow> (resume p w (map_option Visit pc') l)
                \<lparr>lf_log := lf_log l @ (case pc of Serving i \<Rightarrow> [(p, i)] | _ \<Rightarrow> [])\<rparr>)
      | Some (Sweep pc) \<Rightarrow>
          (case sweep_step acct_mem pc ((lf_acct l)\<lparr>ac_faults := fs\<rparr>) of
             (w, pc') \<Rightarrow> resume p w (map_option Sweep pc') l))"
| "life_step stats parse l (Tick n) = l\<lparr>lf_acct := (lf_acct l)\<lparr>ac_clock := ac_clock (lf_acct l) + max 0 n\<rparr>\<rparr>"

definition life_run :: "bool \<Rightarrow> (string \<Rightarrow> uuid option) \<Rightarrow> life_event list \<Rightarrow> life \<Rightarrow> life" where
  "life_run stats parse evs l = foldl (life_step stats parse) l evs"

text \<open>
  The visits that hold an identity: they have found its session not expired, or made it, and their
  handler has not ended.
\<close>

fun holds_id :: "timestamp \<Rightarrow> uuid \<Rightarrow> proc_pc \<Rightarrow> bool" where
  "holds_id t i (Visit (Checking sess)) = (s_id sess = i \<and> \<not> Expired sess t)"
| "holds_id t i (Visit (Stamping sess)) = (s_id sess = i)"
| "holds_id t i (Visit (Touching sess u)) = (s_id sess = i)"
| "holds_id t i (Visit (Counting sess)) = (s_id sess = i)"
| "holds_id t i (Visit (Serving j)) = (j = i)"
| "holds_id t i _ = False"

definition holders :: "life \<Rightarrow> uuid \<Rightarrow> nat list" where
  "holders l i = map fst (filter (\<lambda>(p, c). holds_id (ac_clock (lf_acct l)) i c) (lf_procs l))"

lemma visit_step_keeps:
  assumes "visit_step acct_mem stats pc w = (w', pc')" "kept_out b i t w" "b \<Longrightarrow> \<not> holds_id t i (Visit pc)"
  shows "kept_out b i t w'" "pc' = Some c \<Longrightarrow> holds_id t i (Visit c) \<Longrightarrow> holds_id t i (Visit pc)"
proof -
  have now: "ao_now acct_mem v = ac_clock v" for v by (simp add: acct_mem_def)
  have "kept_out b i t w' \<and> (\<forall>c. pc' = Some c \<longrightarrow> holds_id t i (Visit c) \<longrightarrow> holds_id t i (Visit pc))"
  proof (cases pc)
    case (Looking j)
    with assms(1) kept_reads(1)[OF assms(2), of j] get_live[OF _ assms(2)] show ?thesis
      by (fastforce simp: try_call_def split: prod.splits sum.splits)
  next
    case (Checking sess)
    with assms show ?thesis by (auto simp: now kept_out_def split: if_splits)
  next
    case (Touching sess u)
    with assms kept_touch[OF assms(2), of "s_id sess" u] show ?thesis by (auto simp: ignore_def)
  next
    case Minting
    with assms(1) kept_create[OF assms(2)] create_fresh[OF _ assms(2)] show ?thesis
      by (fastforce simp: try_call_def split: prod.splits sum.splits)
  next
    case (Counting sess)
    with assms(1,2) kept_writes(1)[OF assms(2)] show ?thesis by (auto simp: ignore_def split: if_splits)
  qed (use assms in auto)
  then show "kept_out b i t w'" "pc' = Some c \<Longrightarrow> holds_id t i (Visit c) \<Longrightarrow> holds_id t i (Visit pc)" by blast+
qed

lemma sweep_step_keeps:
  assumes "sweep_step acct_mem pc w = (w', pc')" "kept_out b i t w"
  shows "kept_out b i t w'"
proof -
  have "ao_list acct_mem w = (v, q1) \<Longrightarrow> kept_out b i t v" "ao_docs acct_mem j w = (v, q2) \<Longrightarrow> kept_out b i t v"
    "ao_obj_delete acct_mem k w = (v, q3) \<Longrightarrow> kept_out b i t v" for v q1 q2 q3 j k
    using kept_reads(2,3)[OF assms(2)] kept_writes(2)[OF assms(2)] by (metis fst_conv)+
  then show ?thesis
    using assms kept_warn[OF assms(2)] kept_delete[OF assms(2)]
    by (cases "(acct_mem, pc, w)" rule: sweep_step.cases)
      (auto simp: try_call_def ignore_def split: prod.splits sum.splits if_splits)
qed

definition procs_ok :: "life \<Rightarrow> bool" where
  "procs_ok l \<longleftrightarrow> sessions_ok (lf_acct l) \<and> distinct (gm_keys (lf_procs l)) \<and>
     (\<forall>p c. gm_get (lf_procs l) p = Some c \<longrightarrow> p < lf_next l)"

lemma procs_okD:
  assumes "procs_ok l"
  shows "sessions_ok (lf_acct l)" "distinct (gm_keys (lf_procs l))" "gm_get (lf_procs l) p = Some c \<Longrightarrow> p < lf_next l"
  using assms unfolding procs_ok_def by blast+

lemma holders_iff:
  "procs_ok l \<Longrightarrow> p \<in> set (holders l i) \<longleftrightarrow> (\<exists>c. gm_get (lf_procs l) p = Some c \<and> holds_id (ac_clock (lf_acct l)) i c)"
  using gm_mem_iff[OF procs_okD(2)] by (force simp: holders_def simp del: map_of_eq_Some_iff)

text \<open>What one step keeps, seen from an identity that is kept out at \<open>l\<close>.\<close>

definition out_at :: "bool \<Rightarrow> uuid \<Rightarrow> life \<Rightarrow> bool" where
  "out_at b i l \<longleftrightarrow> procs_ok l \<and> kept_out b i (ac_clock (lf_acct l)) (lf_acct l) \<and> (b \<longrightarrow> holders l i = [])"

lemma resume_keeps:
  assumes "procs_ok l" "gm_get (lf_procs l) p = Some c" "kept_out b i (ac_clock (lf_acct l)) w"
    and "\<And>c'. pc = Some c' \<Longrightarrow> holds_id (ac_clock (lf_acct l)) i c' \<Longrightarrow> holds_id (ac_clock (lf_acct l)) i c"
  shows "procs_ok (resume p w pc l)" "set (holders (resume p w pc l) i) \<subseteq> set (holders l i)"
proof -
  let ?l = "resume p w pc l"
  have t: "ac_clock w = ac_clock (lf_acct l)" "sessions_ok w" using assms(3) by (simp_all add: kept_out_def)
  show ok: "procs_ok ?l"
    using assms(1) procs_okD(3)[OF assms(1,2)] t(2)
    by (auto simp: procs_ok_def resume_def simp del: map_of_eq_Some_iff split: option.split if_splits)
  show "set (holders ?l i) \<subseteq> set (holders l i)"
  proof
    fix q assume "q \<in> set (holders ?l i)"
    then have "\<exists>c'. gm_get (lf_procs ?l) q = Some c' \<and> holds_id (ac_clock (lf_acct ?l)) i c'"
      by (rule iffD1[OF holders_iff[OF ok]])
    then obtain c' where c': "gm_get (lf_procs ?l) q = Some c'" "holds_id (ac_clock (lf_acct l)) i c'"
      using t(1) by (auto simp: resume_def)
    show "q \<in> set (holders l i)"
    proof (cases "q = p")
      case True
      then have "pc = Some c'" using c'(1) by (auto simp: resume_def split: option.splits)
      with assms(2,4) c'(2) True show ?thesis by (auto simp: holders_iff[OF assms(1)])
    next
      case False
      then have "gm_get (lf_procs l) q = Some c'" using c'(1) by (auto simp: resume_def split: option.splits)
      with c'(2) show ?thesis by (auto simp: holders_iff[OF assms(1)])
    qed
  qed
qed

lemma spawn_keeps:
  assumes "procs_ok l" "\<not> holds_id (ac_clock (lf_acct l)) i c"
  shows "procs_ok (spawn c l)" "set (holders (spawn c l) i) \<subseteq> set (holders l i)"
proof -
  show ok: "procs_ok (spawn c l)"
    using assms(1) by (auto simp: procs_ok_def spawn_def less_Suc_eq simp del: map_of_eq_Some_iff split: if_splits)
  show "set (holders (spawn c l) i) \<subseteq> set (holders l i)"
    using assms(2) by (auto simp: holders_iff[OF ok] holders_iff[OF assms(1)]) (auto simp: spawn_def split: if_splits)
qed

lemma tick_keeps:
  assumes "procs_ok l" "l' = l\<lparr>lf_acct := (lf_acct l)\<lparr>ac_clock := ac_clock (lf_acct l) + max 0 n\<rparr>\<rparr>"
  shows "procs_ok l'" "set (holders l' i) \<subseteq> set (holders l i)"
proof -
  show ok: "procs_ok l'" using assms by (simp add: procs_ok_def sessions_ok_def)
  have "holds_id t i c" if "holds_id (t + max 0 n) i c" for t c
    using that by (cases "(t, i, c)" rule: holds_id.cases) (auto intro: Expired_later)
  then show "set (holders l' i) \<subseteq> set (holders l i)"
    unfolding subset_iff holders_iff[OF ok] holders_iff[OF assms(1)] using assms(2) by auto
qed

lemma life_step_keeps:
  assumes "out_at b i l"
  shows "out_at b i (life_step stats parse l ev) \<and>
    set (holders (life_step stats parse l ev) i) \<subseteq> set (holders l i) \<and>
    (\<exists>new. lf_log (life_step stats parse l ev) = lf_log l @ new \<and> (\<forall>p. (p, i) \<in> set new \<longrightarrow> p \<in> set (holders l i)))"
proof -
  let ?t = "ac_clock (lf_acct l)"
  have ok: "procs_ok l" and out: "\<And>fs. kept_out b i ?t ((lf_acct l)\<lparr>ac_faults := fs\<rparr>)" and
    none: "b \<Longrightarrow> holders l i = []" using assms by (simp_all add: out_at_def)
  show ?thesis
  proof (cases ev)
    case (VisitArrives cookie)
    have "\<not> holds_id ?t i (Visit (visit_start parse cookie))" by (simp add: visit_start_def split: option.split)
    from spawn_keeps[OF ok this] VisitArrives assms show ?thesis by (auto simp: out_at_def) (auto simp: spawn_def)
  next
    case SweepStarts
    have "\<not> holds_id ?t i (Sweep Listing)" by simp
    from spawn_keeps[OF ok this] SweepStarts assms show ?thesis by (auto simp: out_at_def) (auto simp: spawn_def)
  next
    case (Tick n)
    let ?l = "life_step stats parse l ev"
    have l': "?l = l\<lparr>lf_acct := (lf_acct l)\<lparr>ac_clock := ?t + max 0 n\<rparr>\<rparr>" using Tick by simp
    have "kept_out b i (?t + max 0 n) ((lf_acct l)\<lparr>ac_clock := ?t + max 0 n\<rparr>)"
      using assms by (auto simp: out_at_def kept_out_def sessions_ok_def simp del: map_of_eq_Some_iff intro: Expired_later)
    with tick_keeps(1)[OF ok l'] tick_keeps(2)[OF ok l', of i] none show ?thesis unfolding out_at_def by (auto simp: l')
  next
    case (Advance p fs)
    show ?thesis
    proof (cases "gm_get (lf_procs l) p")
      case None
      with Advance assms show ?thesis by simp
    next
      case (Some c)
      show ?thesis
      proof (cases c)
        case (Visit pc)
        obtain w pc' where v: "visit_step acct_mem stats pc ((lf_acct l)\<lparr>ac_faults := fs\<rparr>) = (w, pc')" by fastforce
        have "\<not> holds_id ?t i (Visit pc)" if b
          using none[OF that] Some Visit holders_iff[OF ok, of p i] by auto
        note k = visit_step_keeps[OF v out this]
        have r: "procs_ok (resume p w (map_option Visit pc') l)" "set (holders (resume p w (map_option Visit pc') l) i) \<subseteq> set (holders l i)"
          by (rule resume_keeps[OF ok Some k(1)]; use k(2) Visit in auto)+
        have w: "ac_clock w = ?t" using k(1) by (simp add: kept_out_def)
        have upd: "procs_ok (x\<lparr>lf_log := y\<rparr>) = procs_ok x" "holders (x\<lparr>lf_log := y\<rparr>) = holders x" for x y
          by (simp_all add: procs_ok_def holders_def fun_eq_iff)
        have "p \<in> set (holders l i)" if "pc = Serving i" using that Some Visit by (auto simp: holders_iff[OF ok])
        then show ?thesis using Advance Some Visit v r k(1) w none
          by (auto simp: out_at_def upd resume_def[of p w "map_option Visit pc'" l, THEN arg_cong[where f = lf_acct]]
              split: visit_pc.split)
      next
        case (Sweep pc)
        obtain w pc' where v: "sweep_step acct_mem pc ((lf_acct l)\<lparr>ac_faults := fs\<rparr>) = (w, pc')" by fastforce
        note k = sweep_step_keeps[OF v out]
        have r: "procs_ok (resume p w (map_option Sweep pc') l)" "set (holders (resume p w (map_option Sweep pc') l) i) \<subseteq> set (holders l i)"
          by (rule resume_keeps[OF ok Some k]; auto)+
        have w: "ac_clock w = ?t" using k by (simp add: kept_out_def)
        have "lf_acct (resume p w (map_option Sweep pc') l) = w" "lf_log (resume p w (map_option Sweep pc') l) = lf_log l"
          by (simp_all add: resume_def)
        then show ?thesis using Advance Some Sweep v r k w none by (auto simp: out_at_def)
      qed
    qed
  qed
qed

lemma life_run_keeps:
  assumes "out_at b i l"
  shows "out_at b i (life_run stats parse evs l) \<and>
    (\<exists>new. lf_log (life_run stats parse evs l) = lf_log l @ new \<and> (\<forall>p. (p, i) \<in> set new \<longrightarrow> p \<in> set (holders l i)))"
  unfolding life_run_def using assms
proof (induction evs arbitrary: l)
  case (Cons ev evs)
  note k = life_step_keeps[OF Cons.prems, of stats parse ev]
  from Cons.IH[OF k[THEN conjunct1]] k show ?case by fastforce
qed simp

text \<open>The identity \<open>0\<close> is never given out, so what is kept out of it holds of every run.\<close>

lemma life_run_ok: "procs_ok (life_run stats parse evs life_new)"
proof -
  have "out_at False 0 life_new"
    by (auto simp: out_at_def kept_out_def procs_ok_def life_new_def acct_new_def sessions_ok_def)
  from life_run_keeps[OF this, of stats parse evs] show ?thesis by (simp add: out_at_def)
qed

text \<open>
  C30. Requests and sweeps run at the same time, call by call, under any outages and with any
  cookies. Once the session of an identity has expired or has been deleted, a handler runs under that
  identity only if some visit had already passed its expiry check at that time and had not ended, and
  once the row is deleted only in those visits themselves: no visit that looks the session up
  afterwards is served under it. The visits under way are a real exception: a sweep does not wait for
  them and deletes the data under their hands.
\<close>

theorem swept_never_served:
  assumes "l1 = life_run stats parse evs1 life_new" "l2 = life_run stats parse evs2 l1"
    and "gone (lf_acct l1) i" "(p, i) \<in> set (drop (length (lf_log l1)) (lf_log l2))"
  shows "holders l1 i \<noteq> [] \<and> (session_of (lf_acct l1) i = None \<longrightarrow> p \<in> set (holders l1 i))"
proof -
  have ok: "procs_ok l1" using life_run_ok assms(1) by simp
  have served: "p \<in> set (holders l1 i)" if "out_at b i l1" for b
    using life_run_keeps[OF that, of stats parse evs2] assms(2,4) by auto
  have "holders l1 i \<noteq> []"
  proof
    assume none: "holders l1 i = []"
    then have "out_at True i l1" using ok assms(3) by (simp add: out_at_def kept_out_def gone_def procs_ok_def)
    from served[OF this] none show False by simp
  qed
  moreover have "p \<in> set (holders l1 i)" if "session_of (lf_acct l1) i = None"
    by (rule served[of False]) (use that ok assms(3) in \<open>simp add: out_at_def kept_out_def gone_def procs_ok_def\<close>)
  ultimately show ?thesis by blast
qed

text \<open>A visitor's first request makes session 1; the second has passed the check when the time is up.\<close>

definition demo_parse :: "string \<Rightarrow> uuid option" where
  "demo_parse v = (if v = ''1'' then Some 1 else None)"

definition demo_first :: "life_event list" where
  "demo_first = [VisitArrives None, Advance 0 [], Advance 0 [], Advance 0 []]"

definition demo_caught :: "life_event list" where
  "demo_caught = demo_first @ [VisitArrives (Some ''1''), Advance 1 [], Advance 1 [], Tick (IdleTimeout + 1)]"

definition demo_sweep :: "life_event list" where
  "demo_sweep = SweepStarts # replicate 6 (Advance 2 []) @ replicate 3 (Advance 1 [])"

definition demo_session :: "uuid \<Rightarrow> timestamp \<Rightarrow> session" where
  "demo_session i t = \<lparr>s_id = i, s_created = t, s_last_active = t, s_warned = None\<rparr>"

definition demo_l1 :: life where
  "demo_l1 = life_run False demo_parse demo_caught life_new"

definition demo_l2 :: life where
  "demo_l2 = life_run False demo_parse demo_sweep demo_l1"

lemma demo_l1_session:
  "session_of (lf_acct demo_l1) 1 = Some (demo_session 1 0) \<and> ac_next (lf_acct demo_l1) = 2 \<and> ac_clock (lf_acct demo_l1) = IdleTimeout + 1"
  by code_simp

lemma swept_never_served_witness:
  "holders demo_l1 1 \<noteq> [] \<and> session_of (lf_acct demo_l2) 1 = None"
proof
  have "gone (lf_acct demo_l1) 1"
    using demo_l1_session by (auto simp: gone_def Expired_def demo_session_def IdleTimeout_def)
  moreover have "(1, 1) \<in> set (drop (length (lf_log demo_l1)) (lf_log demo_l2))" by code_simp
  ultimately show "holders demo_l1 1 \<noteq> []"
    using swept_never_served[OF demo_l1_def demo_l2_def] by blast
  show "session_of (lf_acct demo_l2) 1 = None" by code_simp
qed

text \<open>
  The list a sweep works from grows old: here the visit of process 1 has read its clock just before
  the idle timeout, the sweep lists the sessions just after it, and then the visit touches its
  session. A third request finds the session live and is served, and the sweep, which goes by its
  list, deletes it all the same.
\<close>

definition demo_stale :: "life_event list" where
  "demo_stale = demo_first @
     [VisitArrives (Some ''1''), Advance 1 [], Tick (IdleTimeout - 1), Advance 1 [], Advance 1 [], Tick 2,
      SweepStarts, Advance 2 [], Advance 2 [], Advance 1 [],
      VisitArrives (Some ''1''), Advance 3 [], Advance 3 [], Advance 3 [], Advance 3 []]"

lemma stale_listing_deletes:
  "(let l = life_run False demo_parse demo_stale life_new;
        l' = life_run False demo_parse (replicate 4 (Advance 2 []) @ [Advance 3 []]) l
    in (case session_of (lf_acct l) 1 of Some sess \<Rightarrow> \<not> Expired sess (ac_clock (lf_acct l)) | None \<Rightarrow> False) \<and>
       session_of (lf_acct l') 1 = None \<and> lf_log l' = lf_log l @ [(3, 1)])"
  by code_simp

subsection \<open>A sweep leaves nothing behind\<close>

text \<open>Every stored object is named by a document row of a session that exists.\<close>

definition objects_owned :: "acct \<Rightarrow> bool" where
  "objects_owned w \<longleftrightarrow>
     list_all (\<lambda>(k, b). list_ex (\<lambda>(i, d). d_s3key d = k \<and> session_of w (d_user d) \<noteq> None) (ac_docs w)) (ac_objects w)"

text \<open>What a deletion may do: the stores only shrink, and it touches one session's rows.\<close>

definition shrunk :: "acct \<Rightarrow> acct \<Rightarrow> bool" where
  "shrunk w w' \<longleftrightarrow>
     set (ac_objects w') \<subseteq> set (ac_objects w) \<and> ac_docs w' = ac_docs w \<and> ac_sessions w' = ac_sessions w \<and>
     ac_clock w' = ac_clock w"

lemma shrunk_refl [simp]: "shrunk w w" "shrunk w (w\<lparr>ac_faults := fs\<rparr>)"
  by (simp_all add: shrunk_def)

lemma shrunk_trans: "shrunk a b \<Longrightarrow> shrunk b c \<Longrightarrow> shrunk a c"
  by (auto simp: shrunk_def)

lemma shrunk_owned: "objects_owned w \<Longrightarrow> shrunk w w' \<Longrightarrow> objects_owned w'"
  by (auto simp: objects_owned_def shrunk_def list_all_iff simp del: map_of_eq_Some_iff)

lemma obj_delete_shrunk: "shrunk w (fst (ao_obj_delete acct_mem k w))"
  unfolding acct_mem_def acct_ops.simps
  by (rule ac_proc_keep[where P = "shrunk w"]) (auto simp: shrunk_def gm_del_set)

lemma docs_shrunk: "shrunk w (fst (ao_docs acct_mem i w))"
  unfolding acct_mem_def acct_ops.simps
  by (rule ac_call_keep[where P = "shrunk w"]) (auto simp: shrunk_def)

lemma delete_objects_facts:
  "delete_objects acct_mem ds w = (w', errs) \<Longrightarrow>
     shrunk w w' \<and> (errs = [] \<longrightarrow> (\<forall>d\<in>set ds. d_s3key d \<notin> fst ` set (ac_objects w')))"
proof (induction ds arbitrary: w w' errs)
  case (Cons d ds)
  obtain w1 q where o: "ao_obj_delete acct_mem (d_s3key d) w = (w1, q)" by fastforce
  obtain w2 es where t: "delete_objects acct_mem ds w1 = (w2, es)" by fastforce
  have s1: "shrunk w w1" using obj_delete_shrunk[of w "d_s3key d"] o by simp
  have "d_s3key d \<notin> fst ` set (ac_objects w1)" if "q = None"
    using o[unfolded that] by (auto simp: acct_mem_def gm_del_set elim!: ac_proc_ok)
  with Cons.IH[OF t] s1 o t Cons.prems show ?case
    by (auto simp: shrunk_def split: option.splits)
qed simp

text \<open>Deleting a session row takes its document rows with it.\<close>

lemma delete_row:
  assumes "ao_delete acct_mem i w = (w', r)"
  shows "ac_objects w' = ac_objects w" "ac_clock w' = ac_clock w"
    and "j \<noteq> i \<Longrightarrow> session_of w' j = session_of w j"
    and "ac_docs w' = ac_docs w \<and> ac_sessions w' = ac_sessions w \<or>
      session_of w' i = None \<and> ac_docs w' = filter (\<lambda>p. d_user (snd p) \<noteq> i) (ac_docs w)"
    and "r = None \<Longrightarrow> session_of w' i = None \<and> doc_ListByUserID i (ac_docs w') = []"
proof -
  have p: "ao_delete acct_mem i = ac_proc (\<lambda>w. case on_sessions (ss_Delete i) w of
      (w, r) \<Rightarrow> (w\<lparr>ac_docs := filter (\<lambda>p. d_user (snd p) \<noteq> i) (ac_docs w)\<rparr>, r))"
    by (simp add: acct_mem_def)
  let ?P = "\<lambda>v. ac_objects v = ac_objects w \<and> ac_clock v = ac_clock w \<and> (j \<noteq> i \<longrightarrow> session_of v j = session_of w j) \<and>
     (ac_docs v = ac_docs w \<and> ac_sessions v = ac_sessions w \<or> session_of v i = None \<and> ac_docs v = filter (\<lambda>p. d_user (snd p) \<noteq> i) (ac_docs w))"
  have "?P (fst (ac_proc (\<lambda>w. case on_sessions (ss_Delete i) w of
      (w, r) \<Rightarrow> (w\<lparr>ac_docs := filter (\<lambda>p. d_user (snd p) \<noteq> i) (ac_docs w)\<rparr>, r)) w))"
    by (rule ac_proc_keep[where P = ?P]) (auto simp: on_sessions_def ss_Delete_def)
  then show "ac_objects w' = ac_objects w" "ac_clock w' = ac_clock w"
    and "j \<noteq> i \<Longrightarrow> session_of w' j = session_of w j"
    and "ac_docs w' = ac_docs w \<and> ac_sessions w' = ac_sessions w \<or>
      session_of w' i = None \<and> ac_docs w' = filter (\<lambda>p. d_user (snd p) \<noteq> i) (ac_docs w)"
    using assms unfolding p by simp_all
  show "session_of w' i = None \<and> doc_ListByUserID i (ac_docs w') = []" if "r = None"
    using assms[unfolded p that]
    by (auto simp: on_sessions_def ss_Delete_def doc_ListByUserID_def filter_empty_conv elim!: ac_proc_ok)
qed

text \<open>
  The bookkeeping of one step of the sweep: objects stay owned, a session or row that is gone stays
  gone, and an expired session leaves an error or nothing.
\<close>

definition cleared :: "uuid \<Rightarrow> acct \<Rightarrow> bool" where
  "cleared i w \<longleftrightarrow> session_of w i = None \<and> doc_ListByUserID i (ac_docs w) = []"

lemma cleared_iff: "cleared i w \<longleftrightarrow> session_of w i = None \<and> (\<forall>p\<in>set (ac_docs w). d_user (snd p) \<noteq> i)"
  by (auto simp: cleared_def doc_ListByUserID_def filter_empty_conv)

lemma cleared_mono:
  "cleared j w \<Longrightarrow> session_of w' j = None \<or> session_of w' j = session_of w j \<Longrightarrow>
     set (ac_docs w') \<subseteq> set (ac_docs w) \<Longrightarrow> cleared j w'"
  unfolding cleared_iff by (metis subsetD)

lemma Deleter_facts:
  assumes "Deleter_Delete acct_mem sess w = (w', r)" "objects_owned w"
  shows "objects_owned w'" "ac_clock w' = ac_clock w" "cleared j w \<Longrightarrow> cleared j w'" "r = None \<Longrightarrow> cleared (s_id sess) w'"
proof -
  let ?i = "s_id sess"
  obtain w1 q where l: "ao_docs acct_mem ?i w = (w1, q)" by fastforce
  have s1: "shrunk w w1" using docs_shrunk[of w ?i] l by simp
  have keep: "cleared j w \<Longrightarrow> cleared j v" if "shrunk w v" for v
    using that by (auto simp: cleared_iff shrunk_def)
  have "objects_owned w' \<and> ac_clock w' = ac_clock w \<and> (cleared j w \<longrightarrow> cleared j w') \<and> (r = None \<longrightarrow> cleared ?i w')"
  proof (cases q)
    case (Inl e)
    with assms l s1 shrunk_owned[OF assms(2) s1] keep[OF s1] show ?thesis
      by (auto simp: Deleter_Delete_def shrunk_def)
  next
    case (Inr docs)
    from l[unfolded Inr] have docs: "docs = doc_ListByUserID ?i (ac_docs w1)"
      by (auto simp: acct_mem_def elim!: ac_call_ok)
    obtain w2 errs where d: "delete_objects acct_mem docs w1 = (w2, errs)" by fastforce
    note df = delete_objects_facts[OF d]
    have s2: "shrunk w w2" using shrunk_trans[OF s1] df by blast
    have o2: "objects_owned w2" by (rule shrunk_owned[OF assms(2) s2])
    show ?thesis
    proof (cases "errs = []")
      case False
      with assms(1) l Inr d s2 o2 keep[OF s2] show ?thesis by (auto simp: Deleter_Delete_def shrunk_def)
    next
      case True
      obtain w3 q3 where x: "ao_delete acct_mem ?i w2 = (w3, q3)" by fastforce
      have w': "w' = w3" "r = None \<longleftrightarrow> q3 = None"
        using assms(1) l Inr d True x by (auto simp: Deleter_Delete_def try_proc_def split: option.splits)
      note dr = delete_row[OF x]
      have "list_ex (\<lambda>(a, d). d_s3key d = k \<and> session_of w3 (d_user d) \<noteq> None) (ac_docs w3)"
        if k: "(k, b) \<in> set (ac_objects w3)" for k b
      proof -
        from o2 k dr(1) obtain a d where ad: "(a, d) \<in> set (ac_docs w2)" "d_s3key d = k" "session_of w2 (d_user d) \<noteq> None"
          by (auto simp: objects_owned_def list_all_iff list_ex_iff)
        have "ac_docs w2 = ac_docs w1" using df by (simp add: shrunk_def)
        then have "d_user d \<noteq> ?i"
          using df True docs k dr(1) ad by (force simp: doc_ListByUserID_def)
        with ad dr(3)[of "d_user d"] dr(4) show ?thesis by (auto simp: list_ex_iff)
      qed
      then have "objects_owned w3" by (auto simp: objects_owned_def list_all_iff)
      moreover have "cleared j w \<longrightarrow> cleared j w3"
      proof
        assume "cleared j w"
        from keep[OF s2 this] show "cleared j w3"
        proof (rule cleared_mono)
          show "session_of w3 j = None \<or> session_of w3 j = session_of w2 j"
            using dr(3)[of j] dr(4) by (cases "j = ?i") auto
          show "set (ac_docs w3) \<subseteq> set (ac_docs w2)" using dr(4) by auto
        qed
      qed
      moreover have "q3 = None \<longrightarrow> cleared ?i w3" using dr(5) by (simp add: cleared_def)
      ultimately show ?thesis using w' dr(2) s2 by (simp add: shrunk_def)
    qed
  qed
  then show "objects_owned w'" "ac_clock w' = ac_clock w" "cleared j w \<Longrightarrow> cleared j w'" "r = None \<Longrightarrow> cleared ?i w'"
    by blast+
qed

lemma warn_facts:
  assumes "objects_owned w"
  shows "objects_owned (fst (ao_warn acct_mem i w))" "cleared j w \<Longrightarrow> cleared j (fst (ao_warn acct_mem i w))"
    "ac_clock (fst (ao_warn acct_mem i w)) = ac_clock w"
proof -
  have dom: "session_of v j = None \<longleftrightarrow> session_of w j = None"
    if "(v, r) = on_sessions (ss_MarkWarned i (ac_clock w)) w" for v j r w
    using that by (auto simp: on_sessions_def ss_MarkWarned_def split: option.splits if_splits)
  let ?P = "\<lambda>v. objects_owned v \<and> (cleared j w \<longrightarrow> cleared j v) \<and> ac_clock v = ac_clock w"
  have "?P (fst (ac_proc (\<lambda>w. on_sessions (ss_MarkWarned i (ac_clock w)) w) w))"
  proof (rule ac_proc_keep[where P = ?P])
    show "?P w" using assms by simp
    show "?P (v\<lparr>ac_faults := fs\<rparr>)" if "?P v" for v fs
      using that by (auto simp: objects_owned_def cleared_def)
    show "?P (fst (on_sessions (ss_MarkWarned i (ac_clock v)) v))" if P: "?P v" for v
    proof -
      obtain u q where u: "on_sessions (ss_MarkWarned i (ac_clock v)) v = (u, q)" by fastforce
      have "ac_docs u = ac_docs v" "ac_objects u = ac_objects v" "ac_clock u = ac_clock v"
        using u by (auto simp: on_sessions_def split: prod.splits)
      with P u dom[OF u[symmetric]] show ?thesis
        by (simp add: objects_owned_def cleared_def)
    qed
  qed
  then show "objects_owned (fst (ao_warn acct_mem i w))" "cleared j w \<Longrightarrow> cleared j (fst (ao_warn acct_mem i w))"
    "ac_clock (fst (ao_warn acct_mem i w)) = ac_clock w"
    by (simp_all add: acct_mem_def)
qed

lemma sweep_one_facts:
  assumes "sweep_one acct_mem now sess res w = (w', res')" "objects_owned w"
  shows "objects_owned w'" "cleared j w \<Longrightarrow> cleared j w'" "sr_errors res' = [] \<Longrightarrow> sr_errors res = []"
    and "sr_errors res' = [] \<Longrightarrow> Expired sess now \<Longrightarrow> cleared (s_id sess) w'"
proof -
  obtain w1 q where d: "Deleter_Delete acct_mem sess w = (w1, q)" by fastforce
  obtain w2 p where m: "ao_warn acct_mem (s_id sess) w = (w2, p)" by fastforce
  note df = Deleter_facts[OF d assms(2)] and wf = warn_facts[OF assms(2), where i = "s_id sess", unfolded m fst_conv]
  show "objects_owned w'" "cleared j w \<Longrightarrow> cleared j w'" "sr_errors res' = [] \<Longrightarrow> sr_errors res = []"
    and "sr_errors res' = [] \<Longrightarrow> Expired sess now \<Longrightarrow> cleared (s_id sess) w'"
    using assms(1) df wf assms(2) d m
    by (auto simp: sweep_one_def try_proc_def sweep_error_def split: if_splits option.splits)
qed

lemma sweep_all_facts:
  "sweep_all acct_mem now ss res w = (w', res') \<Longrightarrow> objects_owned w \<Longrightarrow>
     objects_owned w' \<and> (\<forall>j. cleared j w \<longrightarrow> cleared j w') \<and>
     (sr_errors res' = [] \<longrightarrow> sr_errors res = [] \<and> (\<forall>sess\<in>set ss. Expired sess now \<longrightarrow> cleared (s_id sess) w'))"
proof (induction ss arbitrary: res w)
  case (Cons sess ss)
  obtain w1 res1 where o: "sweep_one acct_mem now sess res w = (w1, res1)" by fastforce
  note sf = sweep_one_facts[OF o Cons.prems(2)]
  have "sweep_all acct_mem now ss res1 w1 = (w', res')" using Cons.prems(1) o by simp
  from Cons.IH[OF this sf(1)] sf show ?case by auto
qed simp

text \<open>
  C31. Whatever calls fail, a sweep never leaves an object whose document row or session is gone, so
  a failed deletion can always be repeated; and a sweep that reports no error has removed every
  expired session with all its document rows and objects.
\<close>

theorem sweep_orphans_nothing:
  assumes "sessions_ok w" "objects_owned w" "Sweep_Run acct_mem w = (w', Inr res)"
  shows "objects_owned w' \<and>
    (if sr_errors res = []
     then list_all (\<lambda>(i, sess). if Expired sess (ac_clock w)
                                then session_of w' i = None \<and> doc_ListByUserID i (ac_docs w') = [] else True)
            (ss_sessions (ac_sessions w))
     else True)"
proof -
  obtain w1 q where l: "ao_list acct_mem w = (w1, q)" by fastforce
  with assms(3) obtain ss where q: "q = Inr ss" by (cases q) (auto simp: Sweep_Run_def)
  have w1: "\<exists>fs. w1 = w\<lparr>ac_faults := fs\<rparr>" "ss = gm_vals (ss_sessions (ac_sessions w))"
    using l[unfolded q] by (auto simp: acct_mem_def ss_ListForSweep_def elim!: ac_call_ok)
  have r: "sweep_all acct_mem (ac_clock w1) ss sweep_new w1 = (w', res)"
    using assms(3) l q by (auto simp: Sweep_Run_def acct_mem_def split: prod.splits)
  have "objects_owned w1" using w1(1) assms(2) by (auto simp: objects_owned_def)
  note sf = sweep_all_facts[OF r this]
  have "s_id sess = i" if "(i, sess) \<in> set (ss_sessions (ac_sessions w))" for i sess
    using that assms(1) by (auto simp: sessions_ok_def)
  moreover have "ac_clock w1 = ac_clock w" using w1(1) by auto
  ultimately show ?thesis using sf w1(2) by (force simp: list_all_iff cleared_def)
qed

subsection \<open>The banner and the sweep\<close>

lemma deletes_at_expired: "Expired sess now \<longleftrightarrow> deletes_at sess - now \<le> 0"
  by (auto simp: Expired_def deletes_at_def Let_def)

lemma deletes_at_due: "due_warning sess now \<longleftrightarrow> deletes_at sess - now \<le> WarningLeadTime"
  by (auto simp: due_warning_def deletes_at_def Let_def)

text \<open>With no outage, one step of the sweep decides its own session and leaves the others alone.\<close>

definition sweep_verdict :: "timestamp \<Rightarrow> session \<Rightarrow> session option" where
  "sweep_verdict now sess =
     (if Expired sess now then None
      else if s_warned sess = None \<and> due_warning sess now then Some (sess\<lparr>s_warned := Some now\<rparr>)
      else Some sess)"

lemma calm_ops:
  assumes "ac_faults w = []"
  shows "ao_obj_delete acct_mem k w = (w\<lparr>ac_objects := gm_del k (ac_objects w)\<rparr>, None)"
    and "ao_docs acct_mem i w = (w, Inr (doc_ListByUserID i (ac_docs w)))"
    and "ao_get acct_mem i w = (w, ss_GetByID i (ac_sessions w))"
    and "ao_list acct_mem w = (w, Inr (gm_vals (ss_sessions (ac_sessions w))))"
    and "ao_touch acct_mem i now w = (w\<lparr>ac_sessions := fst (ss_Touch i now (ac_sessions w))\<rparr>, None)"
    and "ao_delete acct_mem i w = (w\<lparr>ac_sessions := fst (ss_Delete i (ac_sessions w)),
           ac_docs := filter (\<lambda>p. d_user (snd p) \<noteq> i) (ac_docs w)\<rparr>, None)"
    and "session_of w i = Some sess \<Longrightarrow>
           ao_warn acct_mem i w = (w\<lparr>ac_sessions := fst (ss_MarkWarned i (ac_clock w) (ac_sessions w))\<rparr>, None)"
    and "ao_now acct_mem w = ac_clock w"
  using assms by (simp_all add: acct_mem_def ss_ListForSweep_def on_sessions_def ss_Touch_def
      ss_Delete_def ss_MarkWarned_def Let_def split: option.split)

lemma calm_objects:
  "ac_faults w = [] \<Longrightarrow> delete_objects acct_mem ds w = (w', errs) \<Longrightarrow>
     errs = [] \<and> ac_faults w' = [] \<and> ac_sessions w' = ac_sessions w \<and> ac_clock w' = ac_clock w"
proof (induction ds arbitrary: w errs)
  case (Cons d ds)
  obtain w1 where w1: "w1 = w\<lparr>ac_objects := gm_del (d_s3key d) (ac_objects w)\<rparr>" by blast
  from Cons.IH[of w1 "snd (delete_objects acct_mem ds w1)"] Cons.prems w1 show ?case
    by (auto simp: calm_ops split: prod.splits)
qed simp

lemma calm_Deleter:
  assumes "ac_faults w = []"
  shows "ac_faults (fst (Deleter_Delete acct_mem sess w)) = []"
    "session_of (fst (Deleter_Delete acct_mem sess w)) j = (if j = s_id sess then None else session_of w j)"
    "ac_clock (fst (Deleter_Delete acct_mem sess w)) = ac_clock w"
proof -
  obtain w1 errs where d: "delete_objects acct_mem (doc_ListByUserID (s_id sess) (ac_docs w)) w = (w1, errs)" by fastforce
  have l: "ao_docs acct_mem (s_id sess) w = (w, Inr (doc_ListByUserID (s_id sess) (ac_docs w)))"
    using assms by (simp add: calm_ops)
  note c = calm_objects[OF assms d]
  then have x: "ao_delete acct_mem (s_id sess) w1 =
      (w1\<lparr>ac_sessions := fst (ss_Delete (s_id sess) (ac_sessions w1)), ac_docs := filter (\<lambda>p. d_user (snd p) \<noteq> s_id sess) (ac_docs w1)\<rparr>, None)"
    by (simp add: calm_ops)
  show "ac_faults (fst (Deleter_Delete acct_mem sess w)) = []"
    "session_of (fst (Deleter_Delete acct_mem sess w)) j = (if j = s_id sess then None else session_of w j)"
    "ac_clock (fst (Deleter_Delete acct_mem sess w)) = ac_clock w"
    using c d by (simp_all add: Deleter_Delete_def l x ss_Delete_def)
qed

lemma calm_sweep_one:
  assumes "ac_faults w = []" "ac_clock w = now" "session_of w (s_id sess) = Some sess"
  shows "ac_faults (fst (sweep_one acct_mem now sess res w)) = [] \<and> ac_clock (fst (sweep_one acct_mem now sess res w)) = now \<and>
    session_of (fst (sweep_one acct_mem now sess res w)) j = (if j = s_id sess then sweep_verdict now sess else session_of w j)"
proof (cases "Expired sess now")
  case True
  with calm_Deleter[OF assms(1), of sess] assms(2) show ?thesis
    by (auto simp: sweep_one_def sweep_verdict_def try_proc_def split: prod.splits option.splits)
next
  case False
  have "ao_warn acct_mem (s_id sess) w = (w\<lparr>ac_sessions := fst (ss_MarkWarned (s_id sess) now (ac_sessions w))\<rparr>, None)"
    using assms by (simp add: calm_ops)
  with False assms show ?thesis
    by (auto simp: sweep_one_def sweep_verdict_def ss_MarkWarned_def)
qed

lemma calm_sweep_other:
  "ac_faults w = [] \<Longrightarrow> ac_clock w = now \<Longrightarrow> distinct (map s_id ss) \<Longrightarrow>
     (\<forall>s\<in>set ss. session_of w (s_id s) = Some s) \<Longrightarrow> j \<notin> s_id ` set ss \<Longrightarrow>
     session_of (fst (sweep_all acct_mem now ss res w)) j = session_of w j"
proof (induction ss arbitrary: w res)
  case (Cons b ss)
  obtain w1 res1 where o: "sweep_one acct_mem now b res w = (w1, res1)" by fastforce
  have c: "ac_faults w1 = [] \<and> ac_clock w1 = now \<and>
      session_of w1 j = (if j = s_id b then sweep_verdict now b else session_of w j)" for j
    using calm_sweep_one[OF Cons.prems(1,2), of b res j] Cons.prems(4) o by simp
  have "\<forall>s\<in>set ss. s_id s \<noteq> s_id b" using Cons.prems(3) by (auto simp: image_iff)
  with Cons.IH[of w1 res1] c Cons.prems(3-5) o show ?case by simp
qed simp

lemma calm_sweep_all:
  "ac_faults w = [] \<Longrightarrow> ac_clock w = now \<Longrightarrow> distinct (map s_id ss) \<Longrightarrow>
     (\<forall>s\<in>set ss. session_of w (s_id s) = Some s) \<Longrightarrow> sess \<in> set ss \<Longrightarrow>
     session_of (fst (sweep_all acct_mem now ss res w)) (s_id sess) = sweep_verdict now sess"
proof (induction ss arbitrary: w res)
  case (Cons a ss)
  obtain w1 res1 where o: "sweep_one acct_mem now a res w = (w1, res1)" by fastforce
  have c: "ac_faults w1 = [] \<and> ac_clock w1 = now \<and>
      session_of w1 j = (if j = s_id a then sweep_verdict now a else session_of w j)" for j
    using calm_sweep_one[OF Cons.prems(1,2), of a res j] Cons.prems(4) o by simp
  have "\<forall>s\<in>set ss. s_id s \<noteq> s_id a" using Cons.prems(3) by (auto simp: image_iff)
  with c Cons.prems(4) have in_w1: "\<forall>s\<in>set ss. session_of w1 (s_id s) = Some s" by simp
  show ?case
  proof (cases "sess = a")
    case True
    have "session_of (fst (sweep_all acct_mem now ss res1 w1)) (s_id a) = session_of w1 (s_id a)"
      by (rule calm_sweep_other) (use Cons.prems(3) c in_w1 in auto)
    with True o c[of "s_id a"] show ?thesis by simp
  next
    case False
    with Cons.IH[of w1 res1] c in_w1 Cons.prems(3,5) o show ?thesis by auto
  qed
qed simp

text \<open>
  C32. With no outage the status reply says what a sweep at that moment does with the session: it
  deletes the session exactly where the announced time has come, and then the warning is on; of the
  others it marks exactly those for which the warning is on and that it has not marked before; the
  rest, sessions already warned included, it leaves as they are.
\<close>

theorem banner_agrees_with_sweep:
  assumes "sessions_ok w" "ac_faults w = []" "session_of w i = Some sess" "rq_user r = Some i"
  shows "\<exists>st. account_status acct_mem r w = (w, Reply 200 st) \<and>
    session_of (fst (Sweep_Run acct_mem w)) i =
      (if as_deletes_at st \<le> ac_clock w then None
       else if as_warning st \<and> s_warned sess = None then Some (sess\<lparr>s_warned := Some (ac_clock w)\<rparr>)
       else Some sess) \<and>
    (as_deletes_at st \<le> ac_clock w \<longrightarrow> as_warning st)"
proof -
  let ?ss = "gm_vals (ss_sessions (ac_sessions w))" and ?now = "ac_clock w"
  have ids: "s_id s = j" if "(j, s) \<in> set (ss_sessions (ac_sessions w))" for j s
    using that assms(1) by (auto simp: sessions_ok_def)
  then have "map s_id ?ss = gm_keys (ss_sessions (ac_sessions w))" by (auto intro!: map_cong)
  then have dist: "distinct (map s_id ?ss)" using assms(1) by (simp only: sessions_ok_def)
  have mem: "\<forall>s\<in>set ?ss. session_of w (s_id s) = Some s"
    using ids assms(1) by (auto simp: sessions_ok_def)
  have "sess \<in> set ?ss" "s_id sess = i"
    using gm_val_mem[OF assms(3)] assms(1,3) by (simp_all add: sessions_ok_def)
  moreover have "fst (Sweep_Run acct_mem w) = fst (sweep_all acct_mem ?now ?ss sweep_new w)"
    using assms(2) by (simp add: Sweep_Run_def calm_ops split: prod.splits)
  ultimately have "session_of (fst (Sweep_Run acct_mem w)) i = sweep_verdict ?now sess"
    using calm_sweep_all[OF assms(2) refl dist mem] by metis
  moreover have "account_status acct_mem r w =
      (w, Reply 200 \<lparr>as_warning = (deletes_at sess - ?now \<le> WarningLeadTime), as_deletes_at = deletes_at sess\<rparr>)"
    using assms(2,3,4) by (simp add: account_status_def requireUserID_def calm_ops ss_GetByID_def)
  moreover have "sweep_verdict ?now sess =
      (if deletes_at sess \<le> ?now then None
       else if deletes_at sess - ?now \<le> WarningLeadTime \<and> s_warned sess = None then Some (sess\<lparr>s_warned := Some ?now\<rparr>)
       else Some sess)"
    unfolding sweep_verdict_def deletes_at_expired deletes_at_due by simp
  moreover have "deletes_at sess \<le> ?now \<Longrightarrow> deletes_at sess - ?now \<le> WarningLeadTime"
    by (simp add: WarningLeadTime_def)
  ultimately show ?thesis
    by (intro exI[of _ "\<lparr>as_warning = (deletes_at sess - ?now \<le> WarningLeadTime), as_deletes_at = deletes_at sess\<rparr>"])
      simp
qed

text \<open>
  Behind the middleware the status request is itself activity: the session has just been touched,
  so the banner can only announce the hard cap, never the idle timeout.
\<close>

lemma banner_never_idle:
  assumes "ac_faults w = []" "sessions_ok w" "parse v = Some i" "session_of w i = Some sess" "\<not> Expired sess (ac_clock w)"
  shows "\<exists>t. snd (auth_Middleware acct_mem us parse stats (account_status acct_mem) (Some v) r w) =
    (None, Reply 200 \<lparr>as_warning = (HardCap - (ac_clock w - s_created sess) \<le> WarningLeadTime), as_deletes_at = t\<rparr>)"
proof -
  have id: "s_id sess = i" using assms(2,4) by (auto simp: sessions_ok_def)
  let ?w = "w\<lparr>ac_sessions := fst (ss_Touch i (ac_clock w) (ac_sessions w))\<rparr>"
  have r: "resolveSession acct_mem parse (Some v) w = (?w, Some sess)"
    using assms by (simp add: resolveSession_def calm_ops ss_GetByID_def ignore_def id)
  have live: "session_of ?w i = Some (sess\<lparr>s_last_active := ac_clock w\<rparr>)" "ac_faults ?w = []" "ac_clock ?w = ac_clock w"
    using assms(1,4) by (simp_all add: ss_Touch_def Let_def)
  have "account_status acct_mem (WithUserID i r) ?w = (?w, Reply 200
      \<lparr>as_warning = (deletes_at (sess\<lparr>s_last_active := ac_clock w\<rparr>) - ac_clock w \<le> WarningLeadTime),
       as_deletes_at = deletes_at (sess\<lparr>s_last_active := ac_clock w\<rparr>)\<rparr>)"
    using live by (simp add: account_status_def requireUserID_def WithUserID_def calm_ops ss_GetByID_def)
  moreover have "deletes_at (sess\<lparr>s_last_active := ac_clock w\<rparr>) - ac_clock w \<le> WarningLeadTime \<longleftrightarrow>
      HardCap - (ac_clock w - s_created sess) \<le> WarningLeadTime"
    by (auto simp: deletes_at_def Let_def IdleTimeout_def WarningLeadTime_def hour_def)
  ultimately show ?thesis by (simp add: auth_Middleware_def r id)
qed

subsection \<open>Concrete stores\<close>

text \<open>One session idle for over six hours, one near the limit, one fresh; the first owns a file.\<close>

definition demo_acct :: acct where
  "demo_acct = acct_new\<lparr>ac_sessions := \<lparr>ss_sessions = [(1, demo_session 1 0), (2, demo_session 2 (hour div 2)),
       (3, demo_session 3 (6 * hour))], ss_touched = [], ss_create_err = None\<rparr>,
     ac_docs := [(7, upload_row 5 1 ''a.txt'' ''k'' ''text/plain'' 3)], ac_objects := [(''k'', ''abc'')],
     ac_next := 4, ac_clock := 6 * hour + hour div 3\<rparr>"

lemma demo_acct_ok: "sessions_ok demo_acct" "objects_owned demo_acct"
  by (auto simp: sessions_ok_def objects_owned_def demo_acct_def demo_session_def acct_new_def upload_row_def split: if_splits)

lemma demo_sweep:
  "snd (Sweep_Run acct_mem demo_acct) = Inr \<lparr>sr_warned = 1, sr_deleted = 1, sr_errors = []\<rparr>"
  by code_simp

theorem sweep_orphans_nothing_witness: "objects_owned (fst (Sweep_Run acct_mem demo_acct))"
  using sweep_orphans_nothing[OF demo_acct_ok, of "fst (Sweep_Run acct_mem demo_acct)"] demo_sweep
  by (metis prod.collapse)

definition demo_request :: request where
  "demo_request = \<lparr>rq_user = Some 2, rq_kb = '''', rq_doc = '''', rq_limit = '''', rq_after = ''''\<rparr>"

theorem banner_agrees_with_sweep_witness:
  "\<exists>st. account_status acct_mem demo_request demo_acct = (demo_acct, Reply 200 st) \<and> as_warning st \<and>
     session_of (fst (Sweep_Run acct_mem demo_acct)) 2 =
       Some ((demo_session 2 (hour div 2))\<lparr>s_warned := Some (ac_clock demo_acct)\<rparr>)"
proof -
  have st: "snd (account_status acct_mem demo_request demo_acct) =
      Reply 200 \<lparr>as_warning = True, as_deletes_at = hour div 2 + IdleTimeout\<rparr>"
    by code_simp
  have pre: "ac_faults demo_acct = []" "session_of demo_acct 2 = Some (demo_session 2 (hour div 2))" "rq_user demo_request = Some 2"
    by code_simp+
  have late: "\<not> hour div 2 + IdleTimeout \<le> ac_clock demo_acct" "s_warned (demo_session 2 (hour div 2)) = None"
    by code_simp+
  from banner_agrees_with_sweep[OF demo_acct_ok(1) pre] st late show ?thesis by (auto split: if_splits)
qed

end
