(* ===== verification/Search.thy ===== *)
theory Search
  imports Repositories Calls
begin

text \<open>
  Answering a question: \<^verbatim>\<open>internal/retrieval\<close> (rank fusion, the in-memory retriever),
  \<^verbatim>\<open>internal/router\<close> (the route of a question) and \<^verbatim>\<open>internal/search\<close>
  (the answerer with its footer filter, and the service).

  The language model is an operation that returns the text chunks it streamed and its result; the
  embedder and the graph legs are operations too. \<^verbatim>\<open>strings.ToLower\<close> is a parameter, because
  the code slices a text at positions found in its lower-case form: a slice out of range is the
  value \<open>None\<close>, the panic it is in Go. Square roots are a parameter.
\<close>

subsection \<open>Rank fusion\<close>

record scored =
  sc_chunk :: chunk
  sc_score :: float

definition rrfK :: float where
  "rrfK = 60"

type_synonym fusion = "(uuid, float) gomap \<times> (uuid, chunk) gomap"

definition fuse_one :: "fusion \<Rightarrow> nat \<times> scored \<Rightarrow> fusion" where
  "fuse_one acc p =
     (let (scores, byID) = acc; (i, sc) = p; d = c_id (sc_chunk sc)
      in (gm_put d (gm_get_or 0 scores d + 1 / (rrfK + of_nat (i + 1))) scores, gm_put d (sc_chunk sc) byID))"

definition fuse_list :: "fusion \<Rightarrow> scored list \<Rightarrow> fusion" where
  "fuse_list acc xs = foldl fuse_one acc (zip [0..<length xs] xs)"

definition fused_before :: "scored \<Rightarrow> scored \<Rightarrow> bool" where
  "fused_before a b =
     (if sc_score a \<noteq> sc_score b then sc_score a > sc_score b
      else c_id (sc_chunk a) < c_id (sc_chunk b))"

definition RRFMerge :: "nat \<Rightarrow> scored list list \<Rightarrow> scored list" where
  "RRFMerge k legs =
     (let (scores, byID) = foldl fuse_list ([], []) legs;
          out = sort_slice fused_before
                  (map (\<lambda>(d, score). \<lparr>sc_chunk = the (gm_get byID d), sc_score = score\<rparr>) scores)
      in if k > 0 \<and> length out > k then take k out else out)"

definition RRF :: "scored list \<Rightarrow> scored list \<Rightarrow> nat \<Rightarrow> scored list" where
  "RRF vectorRanked keywordRanked k = RRFMerge k [vectorRanked, keywordRanked]"

subsection \<open>The in-memory retriever\<close>

definition dot :: "float list \<Rightarrow> float list \<Rightarrow> float" where
  "dot a b = sum_list (map2 (*) a b)"

definition cosineSim :: "(float \<Rightarrow> float) \<Rightarrow> float list \<Rightarrow> float list \<Rightarrow> float" where
  "cosineSim rt a b =
     (if dot a a = 0 \<or> dot b b = 0 then 0 else dot a b / (rt (dot a a) * rt (dot b b)))"

definition plain_scored :: "chunk \<Rightarrow> scored" where
  "plain_scored c = \<lparr>sc_chunk = c, sc_score = 0\<rparr>"

definition vectorSearch :: "(float \<Rightarrow> float) \<Rightarrow> chunk list \<Rightarrow> float list \<Rightarrow> scored list" where
  "vectorSearch rt cs v =
     map plain_scored
       (sort_slice (\<lambda>a b. cosineSim rt v (c_embedding a) > cosineSim rt v (c_embedding b))
         (filter (\<lambda>c. \<not> (c_embedding c = [] \<or> v = [] \<or> length (c_embedding c) \<noteq> length v)) cs))"

definition keywordSearch :: "(string \<Rightarrow> string) \<Rightarrow> chunk list \<Rightarrow> string \<Rightarrow> scored list" where
  "keywordSearch lower cs q = map plain_scored (filter (\<lambda>c. str_contains (lower (c_text c)) (lower q)) cs)"

definition mem_Retrieve ::
    "(string \<Rightarrow> string) \<Rightarrow> (float \<Rightarrow> float) \<Rightarrow> (uuid \<Rightarrow> uuid \<Rightarrow> ('s, chunk list) call) \<Rightarrow> (string list \<Rightarrow> ('s, float list list) call) \<Rightarrow>
     uuid option \<Rightarrow> uuid \<Rightarrow> string \<Rightarrow> int \<Rightarrow> ('s, scored list) call" where
  "mem_Retrieve lower rt listByKB emb user kbID query k s =
     (case user of
        None \<Rightarrow> (s, Inl (Plain ''retrieval: unauthenticated: no user identity in context''))
      | Some userID \<Rightarrow>
          try_call (listByKB userID kbID) (\<lambda>e s. (s, Inl e)) (\<lambda>cs s.
            if k \<le> 0 then (s, Inl (Plain ''retrieval: k must be positive''))
            else try_call (emb [query]) (\<lambda>e s. (s, Inl e)) (\<lambda>vecs s.
              case vecs of
                [] \<Rightarrow> (s, Inl (Plain ''retrieval: embedder returned no vectors''))
              | v # _ \<Rightarrow>
                  if v = [] then (s, Inl (Plain ''retrieval: embedder returned zero-length embedding''))
                  else (s, Inr (RRF (vectorSearch rt cs v) (keywordSearch lower cs query) (nat k)))) s) s)"

subsection \<open>Routing\<close>

datatype query_type = NormalQuery | AggregationQuery | MultiHopQuery

definition query_type_of :: "string \<Rightarrow> query_type" where
  "query_type_of label =
     (if label = ''aggregation'' then AggregationQuery
      else if label = ''multi_hop'' then MultiHopQuery else NormalQuery)"

definition Route :: "(string \<Rightarrow> string) \<Rightarrow> (string \<Rightarrow> string) \<Rightarrow> (string \<Rightarrow> ('s, string) call) \<Rightarrow> string \<Rightarrow> ('s, query_type) call" where
  "Route lower fewShotPrompt generate query =
     try_call (generate (fewShotPrompt query))
       (\<lambda>e s. (s, Inl (Wrapf ''router: generate'' e)))
       (\<lambda>raw s. (s, Inr (query_type_of (trim_space (lower raw)))))"

subsection \<open>The footer filter\<close>

definition citationsMarker :: string where
  "citationsMarker = ''citations:''"

record footer =
  ff_buf :: string
  ff_matched :: bool

definition ff_new :: footer where
  "ff_new = \<lparr>ff_buf = '''', ff_matched = False\<rparr>"

text \<open>
  The loop that looks for the longest held suffix, from \<open>l\<close> bytes down. It slices the lower-case
  text from \<open>len(lower) - l\<close>, which is negative when that text is shorter.
\<close>

fun hold_back :: "string \<Rightarrow> nat \<Rightarrow> nat option" where
  "hold_back lower 0 = Some 0"
| "hold_back lower (Suc l) =
     (if Suc l > length lower then None
      else if has_prefix citationsMarker (drop (length lower - Suc l) lower) then Some (Suc l)
      else hold_back lower l)"

definition ff_Write :: "(string \<Rightarrow> string) \<Rightarrow> string \<Rightarrow> footer \<Rightarrow> (footer \<times> string) option" where
  "ff_Write lower delta f =
     (let combined = ff_buf f @ delta; low = lower combined
      in case str_index low citationsMarker of
           Some idx \<Rightarrow>
             (case (go_slice combined 0 idx, go_slice combined idx (length combined)) of
                (Some safe, Some held) \<Rightarrow> Some (\<lparr>ff_buf = held, ff_matched = True\<rparr>, safe)
              | _ \<Rightarrow> None)
         | None \<Rightarrow>
             if ff_matched f then Some (f\<lparr>ff_buf := ''''\<rparr>, '''')
             else
               (case hold_back low (min (length citationsMarker - 1) (length combined)) of
                  None \<Rightarrow> None
                | Some l \<Rightarrow>
                    let holdFrom = length combined - l
                    in Some (f\<lparr>ff_buf := drop holdFrom combined\<rparr>, take holdFrom combined)))"

definition ff_Flush :: "footer \<Rightarrow> string" where
  "ff_Flush f = (if ff_matched f then '''' else ff_buf f)"

text \<open>What reaches the client from a list of deltas: the non-empty results of the writes, then the flush.\<close>

primrec ff_writes :: "(string \<Rightarrow> string) \<Rightarrow> string list \<Rightarrow> footer \<Rightarrow> (footer \<times> string list) option" where
  "ff_writes lower [] f = Some (f, [])"
| "ff_writes lower (d # ds) f =
     (case ff_Write lower d f of
        None \<Rightarrow> None
      | Some (f, safe) \<Rightarrow>
          (case ff_writes lower ds f of
             None \<Rightarrow> None
           | Some (f, outs) \<Rightarrow> Some (f, (if safe \<noteq> '''' then safe # outs else outs))))"

definition ff_end :: "footer \<Rightarrow> string list" where
  "ff_end f = (if ff_Flush f \<noteq> '''' then [ff_Flush f] else [])"

subsection \<open>The answerer\<close>

record citation =
  ct_number :: nat
  ct_doc :: uuid
  ct_chunk :: uuid
  ct_start :: nat
  ct_end :: nat
  ct_text :: string
  ct_page :: "int option"
  ct_box :: "bounding_box option"

record query_result =
  qr_summary :: string
  qr_citations :: "citation list"
  qr_documents :: "uuid list"

definition notFoundSummary :: string where
  "notFoundSummary = ''I could not find relevant information to answer this question.''"

definition quotaExceededSummary :: string where
  "quotaExceededSummary = ''This app's monthly usage limit has been reached. Search will be available again next month -- thanks for your patience.''"

definition only_summary :: "string \<Rightarrow> query_result" where
  "only_summary s = \<lparr>qr_summary = s, qr_citations = [], qr_documents = []\<rparr>"

definition cite :: "scored list \<Rightarrow> nat \<Rightarrow> citation" where
  "cite chunks n =
     (let c = sc_chunk (chunks ! (n - 1))
      in \<lparr>ct_number = n, ct_doc = c_doc c, ct_chunk = c_id c, ct_start = c_start c, ct_end = c_end c,
          ct_text = c_text c, ct_page = c_page c, ct_box = c_box c\<rparr>)"

fun cited_numbers :: "nat \<Rightarrow> nat list \<Rightarrow> string list \<Rightarrow> nat list" where
  "cited_numbers k seen [] = []"
| "cited_numbers k seen (raw # rs) =
     (case atoi (trim_space raw) of
        None \<Rightarrow> cited_numbers k seen rs
      | Some n \<Rightarrow>
          if n < 1 \<or> n > int k \<or> List.member seen (nat n) then cited_numbers k seen rs
          else nat n # cited_numbers k (nat n # seen) rs)"

definition parseResponse :: "(string \<Rightarrow> string) \<Rightarrow> string \<Rightarrow> scored list \<Rightarrow> query_result option" where
  "parseResponse lower resp chunks =
     (if trim_space resp = notFoundSummary then Some (only_summary notFoundSummary)
      else case str_last_index (lower resp) citationsMarker of
        None \<Rightarrow> Some (only_summary (trim_space resp))
      | Some idx \<Rightarrow>
          (case (go_slice resp 0 idx, go_slice resp (idx + length citationsMarker) (length resp)) of
             (Some summary, Some section) \<Rightarrow>
               Some \<lparr>qr_summary = trim_space summary,
                     qr_citations = map (cite chunks) (cited_numbers (length chunks) [] (split_on (CHR '','') section)),
                     qr_documents = []\<rparr>
           | _ \<Rightarrow> None))"

definition chunk_entry :: "(uuid \<Rightarrow> string) \<Rightarrow> nat \<times> scored \<Rightarrow> string" where
  "chunk_entry us p =
     (let (i, sc) = p; c = sc_chunk sc
      in ''['' @ nat_str (i + 1) @ ''] (document:'' @ us (c_doc c) @ '' chars:'' @ nat_str (c_start c) @ ''-'' @
         nat_str (c_end c) @ '')'' @ [CHR 0x0A] @ c_text c @ [CHR 0x0A, CHR 0x0A])"

definition buildCacheablePrefix :: "(uuid \<Rightarrow> string) \<Rightarrow> string \<Rightarrow> scored list \<Rightarrow> string" where
  "buildCacheablePrefix us instructions chunks =
     instructions @ concat (map (chunk_entry us) (zip [0..<length chunks] chunks))"

definition buildDynamicSuffix :: "string \<Rightarrow> string" where
  "buildDynamicSuffix query =
     ''Question: '' @ query @ [CHR 0x0A, CHR 0x0A] @
     ''Write your answer using [N] citations, then on a new line write '' @ [CHR 0x22] @ ''CITATIONS: '' @ [CHR 0x22] @
     '' followed by a comma-separated list of the chunk numbers you relied on.'' @ [CHR 0x0A]"

text \<open>
  The generator streams its deltas and then returns; the visible chunks are computed as they
  arrive. The outer option is a panic in the filter or the parser.
\<close>

record 's llm_ops =
  lo_stream :: "string \<Rightarrow> string \<Rightarrow> 's \<Rightarrow> 's \<times> string list \<times> (gerror + string)"
  lo_lower :: "string \<Rightarrow> string"
  lo_us :: "uuid \<Rightarrow> string"
  lo_instructions :: string

definition AnswerStream ::
    "'s llm_ops \<Rightarrow> string \<Rightarrow> scored list \<Rightarrow> 's \<Rightarrow> ('s \<times> string list \<times> (gerror + query_result)) option" where
  "AnswerStream A query chunks s =
     (if chunks = [] then Some (s, [], Inr (only_summary notFoundSummary))
      else
        (case lo_stream A (buildCacheablePrefix (lo_us A) (lo_instructions A) chunks) (buildDynamicSuffix query) s of
           (s, deltas, res) \<Rightarrow>
             (case ff_writes (lo_lower A) deltas ff_new of
                None \<Rightarrow> None
              | Some (f, shown) \<Rightarrow>
                  (case res of
                     Inl e \<Rightarrow>
                       if errors_is e ErrQuotaExceeded then Some (s, shown, Inr (only_summary quotaExceededSummary))
                       else Some (s, shown, Inl (Wrapf ''search: generate'' e))
                   | Inr resp \<Rightarrow>
                       (case parseResponse (lo_lower A) resp chunks of
                          None \<Rightarrow> None
                        | Some r \<Rightarrow> Some (s, shown @ ff_end f, Inr r))))))"

definition Answer :: "'s llm_ops \<Rightarrow> string \<Rightarrow> scored list \<Rightarrow> 's \<Rightarrow> ('s \<times> (gerror + query_result)) option" where
  "Answer A query chunks s = map_option (\<lambda>(s, shown, r). (s, r)) (AnswerStream A query chunks s)"

subsection \<open>The service\<close>

datatype stream_event = RetrievedFilesEvent "uuid list" | DeltaEvent string

definition defaultK :: nat where
  "defaultK = 12"

record 's service =
  sv_llm :: "'s llm_ops"
  sv_retrieve :: "uuid \<Rightarrow> string \<Rightarrow> nat \<Rightarrow> ('s, scored list) call"
  sv_route :: "(string \<Rightarrow> ('s, query_type) call) option"
  sv_graph :: "((uuid \<Rightarrow> string \<Rightarrow> nat \<Rightarrow> ('s, scored list) call) \<times>
                (uuid \<Rightarrow> string \<Rightarrow> nat \<Rightarrow> ('s, scored list) call)) option"

definition retrievedDocuments :: "scored list \<Rightarrow> uuid list" where
  "retrievedDocuments chunks = dedup_by (\<lambda>sc. c_doc (sc_chunk sc)) [] chunks"

text \<open>The route of a query: the normal one without a router, and where the router hit the spend limit.\<close>

definition route_query :: "'s service \<Rightarrow> string \<Rightarrow> ('s, query_type) call" where
  "route_query A query =
     (case sv_route A of
        None \<Rightarrow> (\<lambda>s. (s, Inr NormalQuery))
      | Some route \<Rightarrow>
          try_call (route query)
            (\<lambda>e s. if errors_is e ErrQuotaExceeded then (s, Inr NormalQuery)
                   else (s, Inl (Wrapf ''search: route'' e)))
            (\<lambda>qt s. (s, Inr qt)))"

text \<open>The graph leg the route asks for, if the service has a graph retriever.\<close>

definition graph_legs :: "'s service \<Rightarrow> query_type \<Rightarrow> uuid \<Rightarrow> string \<Rightarrow> ('s, scored list list) call" where
  "graph_legs A qt kbID query =
     (case (sv_graph A, qt) of
        (Some (agg, trav), AggregationQuery) \<Rightarrow>
          try_call (agg kbID query defaultK) (\<lambda>e s. (s, Inl (Wrapf ''search: aggregation leg'' e))) (\<lambda>cs s. (s, Inr [cs]))
      | (Some (agg, trav), MultiHopQuery) \<Rightarrow>
          try_call (trav kbID query defaultK) (\<lambda>e s. (s, Inl (Wrapf ''search: traversal leg'' e))) (\<lambda>cs s. (s, Inr [cs]))
      | _ \<Rightarrow> (\<lambda>s. (s, Inr [])))"

text \<open>The chunks an answer is built on: the hybrid leg and the graph leg, fused.\<close>

definition gather :: "'s service \<Rightarrow> uuid \<Rightarrow> string \<Rightarrow> ('s, scored list) call" where
  "gather A kbID query =
     try_call (route_query A query) (\<lambda>e s. (s, Inl e)) (\<lambda>qt.
       try_call (sv_retrieve A kbID query defaultK) (\<lambda>e s. (s, Inl (Wrapf ''search: retrieve'' e))) (\<lambda>hybrid.
         try_call (graph_legs A qt kbID query) (\<lambda>e s. (s, Inl e)) (\<lambda>legs s.
           (s, Inr (RRFMerge defaultK (hybrid # legs))))))"

definition SearchStream ::
    "'s service \<Rightarrow> uuid \<Rightarrow> string \<Rightarrow> 's \<Rightarrow> ('s \<times> stream_event list \<times> (gerror + query_result)) option" where
  "SearchStream A kbID query s =
     (case gather A kbID query s of
        (s, Inl e) \<Rightarrow> Some (s, [], Inl e)
      | (s, Inr chunks) \<Rightarrow>
          let docs = retrievedDocuments chunks
          in (case AnswerStream (sv_llm A) query chunks s of
                None \<Rightarrow> None
              | Some (s, shown, res) \<Rightarrow>
                  Some (s, RetrievedFilesEvent docs # map DeltaEvent shown,
                        (case res of
                           Inl e \<Rightarrow> Inl (Wrapf ''search: answer'' e)
                         | Inr r \<Rightarrow> Inr (r\<lparr>qr_documents := docs\<rparr>)))))"

definition service_Search :: "'s service \<Rightarrow> uuid \<Rightarrow> string \<Rightarrow> 's \<Rightarrow> ('s \<times> (gerror + query_result)) option" where
  "service_Search A kbID query s = map_option (\<lambda>(s, evs, r). (s, r)) (SearchStream A kbID query s)"

subsection \<open>The filter shows the text before the first marker\<close>

lemma marker_length [simp]: "length citationsMarker = 10"
  by (simp add: citationsMarker_def)

definition marker_at :: "string \<Rightarrow> nat \<Rightarrow> bool" where
  "marker_at s j \<longleftrightarrow> take 10 (drop j s) = citationsMarker"

lemma marker_at_bound: "marker_at s j \<Longrightarrow> j + 10 \<le> length s"
proof -
  assume "marker_at s j"
  then have "length (take 10 (drop j s)) = 10" by (simp add: marker_at_def)
  then show ?thesis by simp
qed

lemma marker_at_append: "j + 10 \<le> length s \<Longrightarrow> marker_at (s @ x) j = marker_at s j"
  by (simp add: marker_at_def)

lemma marker_at_shift: "marker_at (s @ x) (length s + j) = marker_at x j"
  by (simp add: marker_at_def)

lemma marker_at_prefix: "marker_at (drop i s) 0 = marker_at s i" "marker_at s 0 = prefix citationsMarker s"
proof -
  show "marker_at (drop i s) 0 = marker_at s i" by (simp add: marker_at_def)
  show "marker_at s 0 = prefix citationsMarker s"
    by (metis append_eq_conv_conj drop0 marker_at_def marker_length prefix_def take_is_prefix)
qed

lemma marker_at_partial:
  assumes "marker_at (s @ x) j" "j \<le> length s" "length s < j + 10"
  shows "prefix (drop j s) citationsMarker"
proof -
  have "citationsMarker = drop j s @ take (10 - (length s - j)) x"
    using assms by (simp add: marker_at_def)
  then show ?thesis by (metis prefixI)
qed

lemma str_index_marker_iff:
  "str_index s citationsMarker = Some i \<longleftrightarrow> marker_at s i \<and> (\<forall>j<i. \<not> marker_at s j)"
  "str_index s citationsMarker = None \<longleftrightarrow> (\<forall>j. \<not> marker_at s j)"
proof -
  have some: "marker_at s k \<and> (\<forall>j<k. \<not> marker_at s j)" if "str_index s citationsMarker = Some k" for k
    using str_index_Some[OF that] str_index_least[OF that] by (simp add: marker_at_def)
  have none: "\<not> marker_at s j" if "str_index s citationsMarker = None" for j
    using str_index_None[OF that] by (simp add: marker_at_def)
  show "str_index s citationsMarker = Some i \<longleftrightarrow> marker_at s i \<and> (\<forall>j<i. \<not> marker_at s j)"
    using some none by (metis linorder_neqE_nat option.exhaust)
  show "str_index s citationsMarker = None \<longleftrightarrow> (\<forall>j. \<not> marker_at s j)"
    using some none by (metis option.exhaust)
qed

lemma hold_back_facts:
  "l \<le> length low \<Longrightarrow> \<exists>h\<le>l. hold_back low l = Some h \<and>
     (\<forall>m. h < m \<and> m \<le> l \<longrightarrow> \<not> prefix (drop (length low - m) low) citationsMarker)"
proof (induction l)
  case (Suc l)
  then obtain h where "h \<le> l" "hold_back low l = Some h"
    "\<forall>m. h < m \<and> m \<le> l \<longrightarrow> \<not> prefix (drop (length low - m) low) citationsMarker" by auto
  with Suc.prems show ?case by (auto simp: has_prefix_def le_Suc_eq intro: exI[of _ "Suc l"] exI[of _ h])
qed simp

text \<open>Text before the held suffix can never become part of a marker, whatever is appended.\<close>

lemma held_enough:
  assumes "str_index low citationsMarker = None" "hold_back low (min 9 (length low)) = Some h" "j < length low - h"
  shows "\<not> marker_at (low @ x) j"
proof
  assume at: "marker_at (low @ x) j"
  show False
  proof (cases "j + 10 \<le> length low")
    case True
    with at have "marker_at low j" by (simp only: marker_at_append)
    with assms(1) show False by (simp add: str_index_marker_iff)
  next
    case False
    define m where "m = length low - j"
    have m: "h < m" "m \<le> min 9 (length low)" "j = length low - m" "j \<le> length low"
      using False assms(3) by (auto simp: m_def)
    have "prefix (drop (length low - m) low) citationsMarker"
      using marker_at_partial[OF at m(4)] False m(3) by simp
    moreover obtain h' where "hold_back low (min 9 (length low)) = Some h'"
      "\<forall>m. h' < m \<and> m \<le> min 9 (length low) \<longrightarrow> \<not> prefix (drop (length low - m) low) citationsMarker"
      using hold_back_facts[of "min 9 (length low)" low] by auto
    ultimately show False using m(1,2) assms(2) by (metis option.inject)
  qed
qed

lemma ff_matched_writes:
  "ff_matched f \<Longrightarrow> prefix citationsMarker (map g (ff_buf f)) \<Longrightarrow>
     \<exists>f'. ff_writes (map g) ds f = Some (f', []) \<and> ff_matched f'"
proof (induction ds arbitrary: f)
  case (Cons d ds)
  have p: "prefix citationsMarker (map g (ff_buf f @ d))"
    using Cons.prems(2) by (simp add: prefix_prefix)
  then have "str_index (map g (ff_buf f @ d)) citationsMarker = Some 0"
    by (simp only: str_index_marker_iff marker_at_prefix) simp
  then have "ff_Write (map g) d f = Some (\<lparr>ff_buf = ff_buf f @ d, ff_matched = True\<rparr>, '''')"
    by (simp add: ff_Write_def Let_def go_slice_def)
  with Cons.IH[of "\<lparr>ff_buf = ff_buf f @ d, ff_matched = True\<rparr>"] p show ?case by auto
qed simp

text \<open>
  What is known of the text \<open>t\<close> seen so far while no marker has been: \<open>e\<close> was shown, \<open>b\<close> is held.
\<close>

definition filtering :: "(char \<Rightarrow> char) \<Rightarrow> string \<Rightarrow> string \<Rightarrow> string \<Rightarrow> bool" where
  "filtering g t e b \<longleftrightarrow> t = e @ b \<and> (\<forall>j<length e. \<forall>x. \<not> marker_at (map g (t @ x)) j) \<and>
     (\<forall>j. \<not> marker_at (map g t) j)"

definition before_marker :: "(string \<Rightarrow> string) \<Rightarrow> string \<Rightarrow> string" where
  "before_marker lower s = (case str_index (lower s) citationsMarker of None \<Rightarrow> s | Some i \<Rightarrow> take i s)"

lemma before_marker_cases:
  "str_index (lower s) citationsMarker = Some i \<Longrightarrow> before_marker lower s = take i s"
  "str_index (lower s) citationsMarker = None \<Longrightarrow> before_marker lower s = s"
  by (simp_all add: before_marker_def)

lemma marker_shift: "marker_at (map g ((e @ c) @ x)) (length e + j) = marker_at (map g (c @ x)) j"
  using marker_at_shift[of "map g e" "map g (c @ x)" j] by simp

lemma ff_Write_unmatched:
  assumes "filtering g t e b"
  obtains (more) safe held where "ff_Write (map g) d \<lparr>ff_buf = b, ff_matched = False\<rparr> = Some (\<lparr>ff_buf = held, ff_matched = False\<rparr>, safe)"
      "filtering g (t @ d) (e @ safe) held"
    | (found) safe held where "ff_Write (map g) d \<lparr>ff_buf = b, ff_matched = False\<rparr> = Some (\<lparr>ff_buf = held, ff_matched = True\<rparr>, safe)"
      "prefix citationsMarker (map g held)" "\<And>x. before_marker (map g) (t @ d @ x) = e @ safe"
proof -
  define c where "c = b @ d"
  have t: "t @ d = e @ c" using assms by (simp add: filtering_def c_def)
  have early: "\<not> marker_at (map g (t @ x)) j" if "j < length e" for j x
    using assms that unfolding filtering_def by blast
  show thesis
  proof (cases "str_index (map g c) citationsMarker")
    case None
    obtain h where h: "hold_back (map g c) (min 9 (length c)) = Some h" "h \<le> length c"
      using hold_back_facts[of "min 9 (length c)" "map g c"] by auto
    define H where "H = length c - h"
    have "ff_Write (map g) d \<lparr>ff_buf = b, ff_matched = False\<rparr> =
        Some (\<lparr>ff_buf = drop H c, ff_matched = False\<rparr>, take H c)"
      using None h by (simp add: ff_Write_def Let_def c_def[symmetric] H_def)
    moreover have "filtering g (t @ d) (e @ take H c) (drop H c)"
      unfolding filtering_def
    proof (intro conjI allI impI)
      show "t @ d = (e @ take H c) @ drop H c" using t by simp
      show "\<not> marker_at (map g ((t @ d) @ x)) j" if "j < length (e @ take H c)" for j x
      proof (cases "j < length e")
        case True
        then show ?thesis using early[of j "d @ x"] by simp
      next
        case False
        then obtain k where k: "j = length e + k" by (metis le_Suc_ex not_less)
        with that have "k < length (map g c) - h" using h(2) by (simp add: H_def)
        with held_enough[of "map g c" h k "map g x"] None h(1) show ?thesis
          unfolding t k marker_shift by (simp del: min_less_iff_conj)
      qed
      show "\<not> marker_at (map g (t @ d)) j" for j
      proof (cases "j < length e")
        case True
        then show ?thesis using early[of j d] by simp
      next
        case False
        then obtain k where k: "j = length e + k" by (metis le_Suc_ex not_less)
        show ?thesis using None marker_shift[of g e c "[]" k] unfolding t k by (simp add: str_index_marker_iff)
      qed
    qed
    ultimately show thesis by (rule more)
  next
    case (Some i)
    then have at: "marker_at (map g c) i" "\<forall>j<i. \<not> marker_at (map g c) j" by (simp_all add: str_index_marker_iff)
    have i: "i + 10 \<le> length c" using marker_at_bound[OF at(1)] by simp
    have w: "ff_Write (map g) d \<lparr>ff_buf = b, ff_matched = False\<rparr> =
        Some (\<lparr>ff_buf = drop i c, ff_matched = True\<rparr>, take i c)"
      using Some i by (simp add: ff_Write_def Let_def c_def[symmetric] go_slice_def)
    have "prefix citationsMarker (map g (drop i c))"
      using at(1) by (simp only: marker_at_prefix(2)[symmetric] drop_map[symmetric] marker_at_prefix(1))
    moreover have "before_marker (map g) (t @ d @ x) = e @ take i c" for x
    proof -
      have "marker_at (map g ((e @ c) @ x)) (length e + i)"
        unfolding marker_shift using at(1) i by (simp add: marker_at_append)
      moreover have "\<not> marker_at (map g ((e @ c) @ x)) j" if "j < length e + i" for j
      proof (cases "j < length e")
        case True
        then show ?thesis using early[of j "d @ x"] t by (metis append.assoc)
      next
        case False
        then obtain k where k: "j = length e + k" by (metis le_Suc_ex not_less)
        have "k < i" using that k by simp
        then have "\<not> marker_at (map g c) k" using at(2) by blast
        with \<open>k < i\<close> i show ?thesis unfolding k marker_shift by (simp add: marker_at_append)
      qed
      ultimately have "str_index (map g ((e @ c) @ x)) citationsMarker = Some (length e + i)"
        by (simp only: str_index_marker_iff) blast
      from before_marker_cases(1)[where lower = "map g", OF this] have "before_marker (map g) ((e @ c) @ x) = take (length e + i) ((e @ c) @ x)" .
      then have "before_marker (map g) ((e @ c) @ x) = e @ take i c" using i by simp
      moreover have "t @ d @ x = (e @ c) @ x" using t by (metis append.assoc)
      ultimately show ?thesis by (simp only:)
    qed
    ultimately show thesis using w found by blast
  qed
qed

lemma ff_writes_before_marker:
  "filtering g t e b \<Longrightarrow>
     \<exists>f outs. ff_writes (map g) ds \<lparr>ff_buf = b, ff_matched = False\<rparr> = Some (f, outs) \<and>
       e @ concat outs @ ff_Flush f = before_marker (map g) (t @ concat ds)"
proof (induction ds arbitrary: t e b)
  case Nil
  then have "str_index (map g t) citationsMarker = None" "t = e @ b"
    unfolding filtering_def str_index_marker_iff by blast+
  then show ?case by (simp add: before_marker_cases(2) ff_Flush_def del: map_append)
next
  case (Cons d ds)
  show ?case
  proof (rule ff_Write_unmatched[OF Cons.prems, where d = d], goal_cases)
    case more: (1 safe held)
    from Cons.IH[OF more(2)] obtain f outs where
      "ff_writes (map g) ds \<lparr>ff_buf = held, ff_matched = False\<rparr> = Some (f, outs)"
      "(e @ safe) @ concat outs @ ff_Flush f = before_marker (map g) ((t @ d) @ concat ds)" by blast
    with more(1) show ?thesis by auto
  next
    case found: (2 safe held)
    obtain f where f: "ff_writes (map g) ds \<lparr>ff_buf = held, ff_matched = True\<rparr> = Some (f, [])" "ff_matched f"
      using ff_matched_writes[of "\<lparr>ff_buf = held, ff_matched = True\<rparr>" g ds] found(2) by auto
    with found(1) found(3)[of "concat ds"] show ?thesis by (auto simp: ff_Flush_def)
  qed
qed

lemma ff_stream:
  "\<exists>f outs. ff_writes (map g) ds ff_new = Some (f, outs) \<and>
     concat outs @ ff_Flush f = before_marker (map g) (concat ds)"
proof -
  have "filtering g '''' '''' ''''"
    using marker_at_bound by (fastforce simp: filtering_def)
  from ff_writes_before_marker[OF this, of ds] show ?thesis by (simp add: ff_new_def)
qed

subsection \<open>Citations\<close>

lemma cited_numbers_facts:
  "list_all (\<lambda>n. 1 \<le> n \<and> n \<le> k) (cited_numbers k seen rs) \<and> distinct (cited_numbers k seen rs) \<and>
     set (cited_numbers k seen rs) \<inter> set seen = {}"
proof (induction rs arbitrary: seen)
  case (Cons raw rs)
  show ?case
  proof (cases "atoi (trim_space raw)")
    case (Some n)
    with Cons.IH[of seen] Cons.IH[of "nat n # seen"] show ?thesis by auto
  qed (use Cons.IH[of seen] in simp)
qed simp

text \<open>Every citation is one of the chunks handed over, under the number the model used, once.\<close>

definition citations_ok :: "scored list \<Rightarrow> query_result \<Rightarrow> bool" where
  "citations_ok chunks r \<longleftrightarrow>
     list_all (\<lambda>c. 1 \<le> ct_number c \<and> ct_number c \<le> length chunks \<and> c = cite chunks (ct_number c)) (qr_citations r) \<and>
     distinct (map ct_number (qr_citations r))"

lemma citations_of_numbers:
  "citations_ok chunks \<lparr>qr_summary = s, qr_citations = map (cite chunks) (cited_numbers (length chunks) [] rs), qr_documents = ds\<rparr>"
  using cited_numbers_facts[of "length chunks" "[]" rs]
  by (auto simp: citations_ok_def list_all_iff cite_def Let_def comp_def)

lemma parseResponse_facts:
  "\<exists>r. parseResponse (map g) resp chunks = Some r \<and> citations_ok chunks r \<and>
     (trim_space resp \<noteq> notFoundSummary \<longrightarrow>
        str_last_index (map g resp) citationsMarker = str_index (map g resp) citationsMarker \<longrightarrow>
        qr_summary r = trim_space (before_marker (map g) resp))"
proof (cases "trim_space resp = notFoundSummary")
  case False
  show ?thesis
  proof (cases "str_last_index (map g resp) citationsMarker")
    case None
    with False show ?thesis
      by (simp add: parseResponse_def only_summary_def citations_ok_def) (metis before_marker_cases(2))
  next
    case (Some i)
    from str_last_index_Some[OF this] have "i + 10 \<le> length resp" by simp
    with False Some show ?thesis
      by (simp add: parseResponse_def go_slice_def citations_of_numbers) (metis before_marker_cases(1))
  qed
qed (simp add: parseResponse_def only_summary_def citations_ok_def)

text \<open>
  C34. Where lower-casing works byte by byte, as it does on ASCII text, the answerer never panics;
  however the model's response is cut into deltas, the client is shown exactly the text before the
  first citations marker; the summary is that text trimmed when the marker occurs at most once; and
  every citation names, once, a chunk that was handed over.
\<close>

theorem answer_stream_faithful:
  assumes "lo_lower A = map g" "chunks \<noteq> []"
    and "lo_stream A (buildCacheablePrefix (lo_us A) (lo_instructions A) chunks) (buildDynamicSuffix query) s =
           (s', deltas, Inr (concat deltas))"
  shows "\<exists>shown r. AnswerStream A query chunks s = Some (s', shown, Inr r) \<and>
    concat shown = before_marker (map g) (concat deltas) \<and> citations_ok chunks r \<and>
    (if trim_space (concat deltas) = notFoundSummary \<or>
        str_last_index (map g (concat deltas)) citationsMarker \<noteq> str_index (map g (concat deltas)) citationsMarker
     then True else qr_summary r = trim_space (concat shown))"
proof -
  obtain f outs where f: "ff_writes (map g) deltas ff_new = Some (f, outs)"
    "concat outs @ ff_Flush f = before_marker (map g) (concat deltas)" using ff_stream by blast
  obtain r where r: "parseResponse (map g) (concat deltas) chunks = Some r" "citations_ok chunks r"
    "trim_space (concat deltas) \<noteq> notFoundSummary \<longrightarrow>
       str_last_index (map g (concat deltas)) citationsMarker = str_index (map g (concat deltas)) citationsMarker \<longrightarrow>
       qr_summary r = trim_space (before_marker (map g) (concat deltas))"
    using parseResponse_facts by blast
  have "AnswerStream A query chunks s = Some (s', outs @ ff_end f, Inr r)"
    using assms f(1) r(1) by (simp add: AnswerStream_def)
  moreover have "concat (outs @ ff_end f) = before_marker (map g) (concat deltas)"
    using f(2) by (cases "ff_Flush f = ''''") (simp_all add: ff_end_def)
  ultimately show ?thesis using r(2,3) by metis
qed

definition demo_chunk :: "uuid \<Rightarrow> uuid \<Rightarrow> chunk" where
  "demo_chunk i d =
     \<lparr>c_id = i, c_doc = d, c_kb = 1, c_user = 1, c_ordinal = 0, c_text = ''text'', c_tokens = 1, c_embedding = [],
      c_start = 0, c_end = 4, c_region = None, c_page = None, c_box = None\<rparr>"

definition demo_llm :: "unit llm_ops" where
  "demo_llm = \<lparr>lo_stream = \<lambda>p q s. (s, [''It is. [2]'' @ [CHR 0x0A] @ ''CITA'', ''TIONS: 2, 7''],
       Inr (''It is. [2]'' @ [CHR 0x0A] @ ''CITATIONS: 2, 7'')),
     lo_lower = to_lower, lo_us = nat_str, lo_instructions = ''''\<rparr>"

definition demo_chunks :: "scored list" where
  "demo_chunks = [plain_scored (demo_chunk 5 8), plain_scored (demo_chunk 6 9)]"

lemma demo_answer:
  "map_option (\<lambda>(s, shown, r). (shown, map_sum id (\<lambda>r. (qr_summary r, map ct_number (qr_citations r))) r))
     (AnswerStream demo_llm ''why'' demo_chunks ()) =
   Some ([''It is. [2]'' @ [CHR 0x0A]], Inr (''It is. [2]'', [2]))"
  by code_simp

theorem answer_stream_faithful_witness:
  "\<exists>shown r. AnswerStream demo_llm ''why'' demo_chunks () = Some ((), shown, Inr r) \<and> citations_ok demo_chunks r"
proof -
  let ?ds = "[''It is. [2]'' @ [CHR 0x0A] @ ''CITA'', ''TIONS: 2, 7'']"
  have lower: "lo_lower demo_llm = map lower_char" by (simp add: demo_llm_def to_lower_def fun_eq_iff)
  have some: "demo_chunks \<noteq> []" by (simp add: demo_chunks_def)
  have "lo_stream demo_llm p q () = ((), ?ds, Inr (concat ?ds))" for p q by (simp add: demo_llm_def)
  from answer_stream_faithful[where query = "''why''", OF lower some this] show ?thesis by blast
qed

subsection \<open>A letter whose lower case is shorter\<close>

text \<open>
  The dotted capital I of U+0130 is two bytes; Go lower-cases it to the one-byte letter i. On text
  without other letters beyond ASCII, \<open>lower_dotted\<close> is \<^verbatim>\<open>strings.ToLower\<close>.
\<close>

fun lower_dotted :: "string \<Rightarrow> string" where
  "lower_dotted (a # b # s) =
     (if byte a = 0xC4 \<and> byte b = 0xB0 then CHR ''i'' # lower_dotted s else lower_char a # lower_dotted (b # s))"
| "lower_dotted s = map lower_char s"

definition istanbul :: string where
  "istanbul = [CHR 0xC4, CHR 0xB0] @ ''zmir''"

text \<open>A first delta of nine bytes or fewer with the letter makes the filter slice from a negative position.\<close>

lemma short_delta_panics: "ff_Write lower_dotted istanbul ff_new = None"
  by code_simp

text \<open>
  In a complete response the position found in the lower-case form is one byte short for each such
  letter before it: the citation list then starts inside the marker and the first citation is lost.
\<close>

lemma dotted_citation_lost:
  "map_option (\<lambda>r. map ct_number (qr_citations r))
     (parseResponse lower_dotted (istanbul @ '' [1]'' @ [CHR 0x0A] @ ''CITATIONS: 1'') demo_chunks) = Some []"
  by code_simp

end
