(* ===== verification/Inquiry.thy ===== *)
theory Inquiry
  imports Search Server
begin

text \<open>
  The inquiry of a knowledge base, \<^verbatim>\<open>internal/inquiry\<close> with its in-memory repository, and
  the search routes, \<^verbatim>\<open>internal/server/searchhandler.go\<close>: a search is recorded as a user
  message and an assistant message, and an answer can be re-evaluated by running its query again.

  Server-Sent Events are the list of frames sent; a \<^verbatim>\<open>200\<close> reply carries the frames.
  Logging and the latency histogram are left out. The searcher is an operation that returns the
  events it emitted and its result.
\<close>

subsection \<open>Rows\<close>

datatype role = RoleUser | RoleAssistant

record inquiry =
  inq_id :: uuid
  inq_kb :: uuid
  inq_user :: uuid
  inq_title :: "string option"
  inq_created :: timestamp
  inq_updated :: timestamp

record inq_citation =
  ic_number :: nat
  ic_doc :: uuid
  ic_chunk :: uuid
  ic_start :: nat
  ic_end :: nat
  ic_file :: string
  ic_page :: "int option"
  ic_box :: "bounding_box option"

record retrieved_doc =
  rd_doc :: uuid
  rd_file :: string

record imessage =
  im_id :: uuid
  im_inquiry :: uuid
  im_kb :: uuid
  im_user :: uuid
  im_role :: role
  im_content :: string
  im_citations :: "inq_citation list"
  im_retrieved :: "retrieved_doc list"
  im_supersedes :: "uuid option"
  im_ordinal :: nat
  im_created :: timestamp

subsection \<open>The in-memory repository\<close>

record inq_repo =
  ir_inquiries :: "(uuid, inquiry) gomap"
  ir_byKBUser :: "(uuid \<times> uuid, uuid) gomap"
  ir_messages :: "(uuid, imessage list) gomap"

definition inq_New :: inq_repo where
  "inq_New = \<lparr>ir_inquiries = [], ir_byKBUser = [], ir_messages = []\<rparr>"

definition inq_GetOrCreate :: "uuid \<Rightarrow> timestamp \<Rightarrow> uuid \<Rightarrow> uuid \<Rightarrow> inq_repo \<Rightarrow> inq_repo \<times> inquiry" where
  "inq_GetOrCreate new_id now userID kbID r =
     (case gm_get (ir_byKBUser r) (kbID, userID) of
        Some i \<Rightarrow> (r, the (gm_get (ir_inquiries r) i))
      | None \<Rightarrow>
          let inq = \<lparr>inq_id = new_id, inq_kb = kbID, inq_user = userID, inq_title = None,
                     inq_created = now, inq_updated = now\<rparr>
          in (r\<lparr>ir_inquiries := gm_put new_id inq (ir_inquiries r),
                ir_byKBUser := gm_put (kbID, userID) new_id (ir_byKBUser r)\<rparr>, inq))"

definition inq_Get :: "uuid \<Rightarrow> uuid \<Rightarrow> inq_repo \<Rightarrow> gerror + inquiry" where
  "inq_Get userID kbID r =
     (case gm_get (ir_byKBUser r) (kbID, userID) of
        None \<Rightarrow> Inl ErrInquiryNotFound
      | Some i \<Rightarrow> Inr (the (gm_get (ir_inquiries r) i)))"

definition owns_inquiry :: "uuid \<Rightarrow> uuid \<Rightarrow> inq_repo \<Rightarrow> bool" where
  "owns_inquiry userID i r =
     (case gm_get (ir_inquiries r) i of None \<Rightarrow> False | Some inq \<Rightarrow> inq_user inq = userID)"

definition inq_AppendMessage ::
    "uuid \<Rightarrow> timestamp \<Rightarrow> uuid \<Rightarrow> imessage \<Rightarrow> inq_repo \<Rightarrow> inq_repo \<times> (gerror + imessage)" where
  "inq_AppendMessage new_id now userID msg r =
     (if \<not> owns_inquiry userID (im_inquiry msg) r then (r, Inl ErrInquiryNotFound)
      else
        let ms = gm_get_or [] (ir_messages r) (im_inquiry msg);
            cp = msg\<lparr>im_id := new_id, im_user := userID, im_ordinal := length ms, im_created := now\<rparr>
        in (r\<lparr>ir_messages := gm_put (im_inquiry msg) (ms @ [cp]) (ir_messages r)\<rparr>, Inr cp))"

definition inq_ListMessages :: "uuid \<Rightarrow> uuid \<Rightarrow> inq_repo \<Rightarrow> gerror + imessage list" where
  "inq_ListMessages userID i r =
     (if \<not> owns_inquiry userID i r then Inl ErrInquiryNotFound
      else Inr (sort_slice (\<lambda>a b. im_ordinal a < im_ordinal b) (gm_get_or [] (ir_messages r) i)))"

subsection \<open>What the search routes call\<close>

record 's thread_ops =
  th_get_or_create :: "uuid \<Rightarrow> uuid \<Rightarrow> ('s, inquiry) call"
  th_get :: "uuid \<Rightarrow> uuid \<Rightarrow> ('s, inquiry) call"
  th_append :: "uuid \<Rightarrow> imessage \<Rightarrow> ('s, imessage) call"
  th_list :: "uuid \<Rightarrow> uuid \<Rightarrow> ('s, imessage list) call"

record 's search_ops =
  so_kb_get :: "uuid \<Rightarrow> uuid \<Rightarrow> ('s, kbase) call"
  so_docs :: "uuid \<Rightarrow> uuid \<Rightarrow> ('s, document list) call"
  so_search :: "uuid \<Rightarrow> string \<Rightarrow> 's \<Rightarrow> 's \<times> stream_event list \<times> (gerror + query_result)"
  so_thread :: "'s thread_ops option"
  so_stats :: "(int \<Rightarrow> 's proc) option"
  so_now :: "'s \<Rightarrow> timestamp"
  so_us :: "uuid \<Rightarrow> string"

definition maxQueryBytes :: nat where
  "maxQueryBytes = 4000"

subsection \<open>The shapes sent to the client\<close>

record file_response =
  fi_doc :: string
  fi_file :: string

record cite_response =
  cp_number :: nat
  cp_doc :: string
  cp_chunk :: string
  cp_start :: nat
  cp_end :: nat
  cp_file :: string
  cp_locator :: "(string \<times> int) option"

datatype sse_event =
    RetrievedFilesFrame "file_response list"
  | DeltaFrame string
  | DoneFrame string "cite_response list"
  | ErrorFrame string

definition citationLocator :: "citation \<Rightarrow> (string \<times> int) option" where
  "citationLocator c = (case ct_page c of None \<Rightarrow> None | Some p \<Rightarrow> Some (''page'', p))"

definition buildCitations :: "(uuid \<Rightarrow> string) \<Rightarrow> citation list \<Rightarrow> (uuid, string) gomap \<Rightarrow> cite_response list" where
  "buildCitations us cs names =
     map (\<lambda>c. \<lparr>cp_number = ct_number c, cp_doc = us (ct_doc c), cp_chunk = us (ct_chunk c), cp_start = ct_start c,
                cp_end = ct_end c, cp_file = gm_get_or '''' names (ct_doc c), cp_locator = citationLocator c\<rparr>) cs"

definition buildRetrievedFiles :: "(uuid \<Rightarrow> string) \<Rightarrow> uuid list \<Rightarrow> (uuid, string) gomap \<Rightarrow> file_response list" where
  "buildRetrievedFiles us ds names = map (\<lambda>d. \<lparr>fi_doc = us d, fi_file = gm_get_or '''' names d\<rparr>) ds"

primrec toWireEvent :: "(uuid \<Rightarrow> string) \<Rightarrow> (uuid, string) gomap \<Rightarrow> stream_event \<Rightarrow> sse_event" where
  "toWireEvent us names (RetrievedFilesEvent ds) = RetrievedFilesFrame (buildRetrievedFiles us ds names)"
| "toWireEvent us names (DeltaEvent t) = DeltaFrame t"

definition fileNames :: "'s search_ops \<Rightarrow> uuid \<Rightarrow> uuid \<Rightarrow> 's \<Rightarrow> 's \<times> (uuid, string) gomap" where
  "fileNames A userID kbID =
     try_call (so_docs A userID kbID) (\<lambda>e s. (s, []))
       (\<lambda>docs s. (s, foldl (\<lambda>m d. gm_put (d_id d) (d_filename d) m) [] docs))"

definition recordQueryExecuted :: "'s search_ops \<Rightarrow> int \<Rightarrow> 's \<Rightarrow> 's" where
  "recordQueryExecuted A elapsed s =
     (case so_stats A of None \<Rightarrow> s | Some rec \<Rightarrow> fst (rec (elapsed div 1000000) s))"

text \<open>
  The searcher's events are sent as they come; a failure before the first is an ordinary error
  reply, one after it an error frame. The result is present when the caller should record it.
\<close>

definition streamAndAnswer ::
    "'s search_ops \<Rightarrow> uuid \<Rightarrow> string \<Rightarrow> (uuid, string) gomap \<Rightarrow> 's \<Rightarrow> 's \<times> sse_event list response \<times> query_result option" where
  "streamAndAnswer A kbID query names s0 =
     (case so_search A kbID query s0 of (s1, events, res) \<Rightarrow>
        let s = recordQueryExecuted A (so_now A s1 - so_now A s0) s1;
            frames = map (toWireEvent (so_us A) names) events
        in (case res of
              Inl e \<Rightarrow>
                if events = [] then (s, Problem 500 ''search failed'', None)
                else (s, Reply 200 (frames @ [ErrorFrame ''search failed'']), None)
            | Inr r \<Rightarrow>
                (s, Reply 200 (frames @ [DoneFrame (qr_summary r) (buildCitations (so_us A) (qr_citations r) names)]), Some r)))"

subsection \<open>Recording a turn\<close>

definition user_message :: "inquiry \<Rightarrow> uuid \<Rightarrow> string \<Rightarrow> imessage" where
  "user_message inq kbID query =
     \<lparr>im_id = uuid_nil, im_inquiry = inq_id inq, im_kb = kbID, im_user = uuid_nil, im_role = RoleUser,
      im_content = query, im_citations = [], im_retrieved = [], im_supersedes = None, im_ordinal = 0, im_created = 0\<rparr>"

definition persistUserMessage :: "'s search_ops \<Rightarrow> uuid \<Rightarrow> uuid \<Rightarrow> string \<Rightarrow> 's \<Rightarrow> 's \<times> inquiry option" where
  "persistUserMessage A userID kbID query s =
     (case so_thread A of
        None \<Rightarrow> (s, None)
      | Some T \<Rightarrow>
          try_call (th_get_or_create T userID kbID) (\<lambda>e s. (s, None))
            (\<lambda>inq s. (fst (th_append T userID (user_message inq kbID query) s), Some inq)) s)"

definition snapshot_citation :: "(uuid, string) gomap \<Rightarrow> citation \<Rightarrow> inq_citation" where
  "snapshot_citation names c =
     \<lparr>ic_number = ct_number c, ic_doc = ct_doc c, ic_chunk = ct_chunk c, ic_start = ct_start c, ic_end = ct_end c,
      ic_file = gm_get_or '''' names (ct_doc c), ic_page = ct_page c, ic_box = ct_box c\<rparr>"

definition assistant_message :: "inquiry \<Rightarrow> query_result \<Rightarrow> (uuid, string) gomap \<Rightarrow> uuid option \<Rightarrow> imessage" where
  "assistant_message inq res names supersedes =
     \<lparr>im_id = uuid_nil, im_inquiry = inq_id inq, im_kb = inq_kb inq, im_user = uuid_nil, im_role = RoleAssistant,
      im_content = qr_summary res, im_citations = map (snapshot_citation names) (qr_citations res),
      im_retrieved = map (\<lambda>d. \<lparr>rd_doc = d, rd_file = gm_get_or '''' names d\<rparr>) (qr_documents res),
      im_supersedes = supersedes, im_ordinal = 0, im_created = 0\<rparr>"

definition persistAssistantMessage ::
    "'s search_ops \<Rightarrow> uuid \<Rightarrow> inquiry option \<Rightarrow> query_result \<Rightarrow> (uuid, string) gomap \<Rightarrow> uuid option \<Rightarrow> 's \<Rightarrow> 's" where
  "persistAssistantMessage A userID inq res names supersedes s =
     (case (so_thread A, inq) of
        (Some T, Some i) \<Rightarrow> fst (th_append T userID (assistant_message i res names supersedes) s)
      | _ \<Rightarrow> s)"

subsection \<open>Which query to run again\<close>

text \<open>The walk up the supersedes chain; a chain with a cycle would never end.\<close>

partial_function (option) root_answer :: "(uuid, imessage) gomap \<Rightarrow> imessage \<Rightarrow> imessage option" where
  "root_answer byID m =
     (case im_supersedes m of
        None \<Rightarrow> Some m
      | Some p \<Rightarrow> (case gm_get byID p of None \<Rightarrow> Some m | Some parent \<Rightarrow> root_answer byID parent))"

declare root_answer.simps [code]

fun query_before :: "uuid \<Rightarrow> imessage option \<Rightarrow> imessage list \<Rightarrow> string option" where
  "query_before i before [] = None"
| "query_before i before (m # ms) =
     (if im_id m \<noteq> i then query_before i (Some m) ms
      else case before of
        None \<Rightarrow> None
      | Some prev \<Rightarrow> if im_role prev \<noteq> RoleUser then None else Some (im_content prev))"

definition queryForReEvaluation :: "imessage list \<Rightarrow> uuid \<Rightarrow> string option option" where
  "queryForReEvaluation messages messageID =
     (let byID = foldl (\<lambda>m x. gm_put (im_id x) x m) [] messages
      in case gm_get byID messageID of
           None \<Rightarrow> Some None
         | Some target \<Rightarrow>
             if im_role target \<noteq> RoleAssistant then Some None
             else map_option (\<lambda>first. query_before (im_id first) None messages) (root_answer byID target))"

subsection \<open>The routes\<close>

text \<open>
  A search up to the recording of its user message, and from there on: the two parts of
  \<^verbatim>\<open>search\<close> between which another request's steps can fall.
\<close>

definition search_checked ::
    "'s search_ops \<Rightarrow> (string \<Rightarrow> uuid option) \<Rightarrow> request \<Rightarrow> string option \<Rightarrow>
     (uuid \<Rightarrow> uuid \<Rightarrow> string \<Rightarrow> ('s, 'a) handler) \<Rightarrow> ('s, 'a) handler" where
  "search_checked A parse r body k =
     requireUserID r (\<lambda>userID. parseUUID parse (rq_kb r) (\<lambda>kbID.
       try_call (so_kb_get A userID kbID) (\<lambda>e s. (s, writeKBError e)) (\<lambda>_ s.
         case body of
           None \<Rightarrow> (s, Problem 400 ''invalid request body'')
         | Some query \<Rightarrow>
             if query = '''' then (s, Problem 400 ''query is required'')
             else if length query > maxQueryBytes
             then (s, Problem 400 (''query exceeds maximum length of '' @ nat_str maxQueryBytes @ '' characters''))
             else k userID kbID query s)))"

definition search_begin ::
    "'s search_ops \<Rightarrow> uuid \<Rightarrow> uuid \<Rightarrow> string \<Rightarrow> 's \<Rightarrow> 's \<times> (uuid, string) gomap \<times> inquiry option" where
  "search_begin A userID kbID query s =
     (case fileNames A userID kbID s of
        (s, names) \<Rightarrow> (case persistUserMessage A userID kbID query s of (s, inq) \<Rightarrow> (s, names, inq)))"

definition search_finish ::
    "'s search_ops \<Rightarrow> uuid \<Rightarrow> uuid \<Rightarrow> string \<Rightarrow> (uuid, string) gomap \<Rightarrow> inquiry option \<Rightarrow> ('s, sse_event list) handler" where
  "search_finish A userID kbID query names inq s =
     (case streamAndAnswer A kbID query names s of
        (s, resp, None) \<Rightarrow> (s, resp)
      | (s, resp, Some result) \<Rightarrow> (persistAssistantMessage A userID inq result names None s, resp))"

definition sh_search ::
    "'s search_ops \<Rightarrow> (string \<Rightarrow> uuid option) \<Rightarrow> request \<Rightarrow> string option \<Rightarrow> ('s, sse_event list) handler" where
  "sh_search A parse r body =
     search_checked A parse r body (\<lambda>userID kbID query s.
       case search_begin A userID kbID query s of
         (s, names, inq) \<Rightarrow> search_finish A userID kbID query names inq s)"

record message_response =
  mr_id :: string
  mr_role :: role
  mr_content :: string
  mr_citations :: "cite_response list"
  mr_retrieved :: "file_response list"
  mr_supersedes :: "string option"
  mr_created :: timestamp

record inquiry_response =
  iy_id :: "string option"
  iy_messages :: "message_response list"

definition inquiryCitationLocator :: "inq_citation \<Rightarrow> (string \<times> int) option" where
  "inquiryCitationLocator c = (case ic_page c of None \<Rightarrow> None | Some p \<Rightarrow> Some (''page'', p))"

definition message_of :: "(uuid \<Rightarrow> string) \<Rightarrow> imessage \<Rightarrow> message_response" where
  "message_of us m =
     (let names = foldl (\<lambda>n c. if ic_file c \<noteq> '''' then gm_put (ic_doc c) (ic_file c) n else n) [] (im_citations m)
      in \<lparr>mr_id = us (im_id m), mr_role = im_role m, mr_content = im_content m,
          mr_citations = map (\<lambda>c. \<lparr>cp_number = ic_number c, cp_doc = us (ic_doc c), cp_chunk = us (ic_chunk c),
             cp_start = ic_start c, cp_end = ic_end c, cp_file = ic_file c, cp_locator = inquiryCitationLocator c\<rparr>) (im_citations m),
          mr_retrieved = map (\<lambda>rd. \<lparr>fi_doc = us (rd_doc rd),
             fi_file = (if rd_file rd = '''' then gm_get_or '''' names (rd_doc rd) else rd_file rd)\<rparr>) (im_retrieved m),
          mr_supersedes = map_option us (im_supersedes m), mr_created = im_created m\<rparr>)"

definition buildInquiryMessages :: "(uuid \<Rightarrow> string) \<Rightarrow> imessage list \<Rightarrow> message_response list" where
  "buildInquiryMessages us ms = map (message_of us) ms"

definition getInquiry :: "'s search_ops \<Rightarrow> (string \<Rightarrow> uuid option) \<Rightarrow> request \<Rightarrow> ('s, inquiry_response) handler" where
  "getInquiry A parse r =
     requireUserID r (\<lambda>userID. parseUUID parse (rq_kb r) (\<lambda>kbID.
       try_call (so_kb_get A userID kbID) (\<lambda>e s. (s, writeKBError e)) (\<lambda>_ s.
         case so_thread A of
           None \<Rightarrow> (s, Reply 200 \<lparr>iy_id = None, iy_messages = []\<rparr>)
         | Some T \<Rightarrow>
             try_call (th_get T userID kbID)
               (\<lambda>e s. if errors_is e ErrInquiryNotFound then (s, Reply 200 \<lparr>iy_id = None, iy_messages = []\<rparr>)
                      else (s, Problem 500 ''failed to load inquiry''))
               (\<lambda>inq. try_call (th_list T userID (inq_id inq))
                  (\<lambda>e s. (s, Problem 500 ''failed to load inquiry''))
                  (\<lambda>ms s. (s, Reply 200 \<lparr>iy_id = Some (so_us A (inq_id inq)),
                                         iy_messages = buildInquiryMessages (so_us A) ms\<rparr>))) s)))"

text \<open>
  The result of the search for the query is unwrapped: every thread the routes build has one
  (\<open>query_found\<close> below).
\<close>

definition reevaluate ::
    "'s search_ops \<Rightarrow> (string \<Rightarrow> uuid option) \<Rightarrow> request \<Rightarrow> string \<Rightarrow> ('s, sse_event list) handler" where
  "reevaluate A parse r messageId =
     requireUserID r (\<lambda>userID. parseUUID parse (rq_kb r) (\<lambda>kbID. parseUUID parse messageId (\<lambda>messageID.
       try_call (so_kb_get A userID kbID) (\<lambda>e s. (s, writeKBError e)) (\<lambda>_ s.
         case so_thread A of
           None \<Rightarrow> (s, Problem 404 ''no inquiry for this knowledge base'')
         | Some T \<Rightarrow>
             try_call (th_get T userID kbID) (\<lambda>e s. (s, Problem 404 ''no inquiry for this knowledge base'')) (\<lambda>inq.
               try_call (th_list T userID (inq_id inq)) (\<lambda>e s. (s, Problem 500 ''failed to load inquiry'')) (\<lambda>ms s.
                 case the (queryForReEvaluation ms messageID) of
                   None \<Rightarrow> (s, Problem 400 ''message is not a re-evaluatable assistant answer'')
                 | Some query \<Rightarrow>
                     (case fileNames A userID kbID s of
                        (s, names) \<Rightarrow>
                          (case streamAndAnswer A kbID query names s of
                             (s, resp, None) \<Rightarrow> (s, resp)
                           | (s, resp, Some result) \<Rightarrow>
                               (persistAssistantMessage A userID (Some inq) result names (Some messageID) s, resp))))) s))))"


subsection \<open>Threads whose answers can be run again\<close>

text \<open>
  \<open>f\<close> gives for each answer the query it answered and whether that query is in the thread.
  \<open>turns_ok f n ms\<close>: identifiers below \<open>n\<close> and without repeats, ordinals the positions; an original
  answer whose query was recorded follows it; a re-evaluation supersedes an earlier answer, and where
  that one's query was recorded the two answer the same one.
\<close>

type_synonym asked_of = "uuid \<Rightarrow> (string \<times> bool) option"

definition turn_ok :: "asked_of \<Rightarrow> imessage list \<Rightarrow> nat \<Rightarrow> bool" where
  "turn_ok f ms i \<longleftrightarrow>
     (im_role (ms ! i) = RoleAssistant \<longrightarrow>
       (case im_supersedes (ms ! i) of
          None \<Rightarrow> (\<forall>a. f (im_id (ms ! i)) = Some (a, True) \<longrightarrow>
                    0 < i \<and> im_role (ms ! (i - 1)) = RoleUser \<and> a = im_content (ms ! (i - 1)))
        | Some p \<Rightarrow> \<exists>j<i. im_id (ms ! j) = p \<and> im_role (ms ! j) = RoleAssistant \<and>
                    (\<exists>a a' b. f p = Some (a, b) \<and> f (im_id (ms ! i)) = Some (a', b) \<and> (b \<longrightarrow> a' = a))))"

definition answered :: "imessage list \<Rightarrow> uuid \<Rightarrow> bool" where
  "answered ms x \<longleftrightarrow> list_ex (\<lambda>m. im_id m = x \<and> im_role m = RoleAssistant) ms"

definition turns_ok :: "asked_of \<Rightarrow> nat \<Rightarrow> imessage list \<Rightarrow> bool" where
  "turns_ok f n ms \<longleftrightarrow>
     distinct (map im_id ms) \<and> list_all (\<lambda>m. im_id m < n) ms \<and> map im_ordinal ms = [0..<length ms] \<and>
     (\<forall>i<length ms. turn_ok f ms i) \<and> (\<forall>x. f x \<noteq> None \<longleftrightarrow> answered ms x)"

lemma by_id_get:
  "distinct (map im_id ms) \<Longrightarrow>
     gm_get (foldl (\<lambda>m x. gm_put (im_id x) x m) [] ms) i = Some x \<longleftrightarrow> x \<in> set ms \<and> im_id x = i"
proof (induction ms rule: rev_induct)
  case (snoc a ms)
  then show ?case by (auto simp: image_iff)
qed simp

lemma root_answer_found:
  assumes "turns_ok f n ms" "i < length ms" "im_role (ms ! i) = RoleAssistant"
  shows "\<exists>j<length ms. root_answer (foldl (\<lambda>m x. gm_put (im_id x) x m) [] ms) (ms ! i) = Some (ms ! j) \<and>
    im_supersedes (ms ! j) = None \<and> im_role (ms ! j) = RoleAssistant \<and>
    (\<forall>a. f (im_id (ms ! i)) = Some (a, True) \<longrightarrow> f (im_id (ms ! j)) = Some (a, True))"
  using assms(2,3)
proof (induction i rule: less_induct)
  case (less i)
  let ?b = "foldl (\<lambda>m x. gm_put (im_id x) x m) [] ms"
  have ok: "turn_ok f ms i" "distinct (map im_id ms)" using assms(1) less.prems by (auto simp: turns_ok_def)
  show ?case
  proof (cases "im_supersedes (ms ! i)")
    case None
    then show ?thesis using less.prems by (subst root_answer.simps) auto
  next
    case (Some p)
    then obtain j where j: "j < i" "im_id (ms ! j) = p" "im_role (ms ! j) = RoleAssistant"
      and same: "\<And>a. f (im_id (ms ! i)) = Some (a, True) \<Longrightarrow> f p = Some (a, True)"
      using ok(1) less.prems(2) by (fastforce simp: turn_ok_def)
    have "gm_get ?b p = Some (ms ! j)" using j(1,2) less.prems(1) by (simp add: by_id_get[OF ok(2)])
    then have "root_answer ?b (ms ! i) = root_answer ?b (ms ! j)"
      using Some by (subst root_answer.simps) simp
    with less.IH[OF j(1)] j same less.prems show ?thesis by auto
  qed
qed

lemma query_before_nth:
  "distinct (map im_id ms) \<Longrightarrow> i < length ms \<Longrightarrow> im_id (ms ! i) = x \<Longrightarrow>
     query_before x before ms =
       (case (if i = 0 then before else Some (ms ! (i - 1))) of
          None \<Rightarrow> None | Some prev \<Rightarrow> if im_role prev \<noteq> RoleUser then None else Some (im_content prev))"
proof (induction ms arbitrary: i before)
  case (Cons m ms)
  show ?case
  proof (cases i)
    case (Suc k)
    then have "im_id m \<noteq> x" using Cons.prems by auto
    with Suc Cons.IH[of k "Some m"] Cons.prems show ?thesis by (cases k) auto
  qed (use Cons.prems in simp)
qed simp

lemma query_found:
  assumes ok: "turns_ok f n ms"
  shows "queryForReEvaluation ms x \<noteq> None" "f x = None \<Longrightarrow> queryForReEvaluation ms x = Some None"
    "f x = Some (a, True) \<Longrightarrow> queryForReEvaluation ms x = Some (Some a)"
proof -
  let ?b = "foldl (\<lambda>m x. gm_put (im_id x) x m) [] ms"
  have d: "distinct (map im_id ms)" and f: "f x \<noteq> None \<longleftrightarrow> answered ms x" using ok by (auto simp: turns_ok_def)
  have "queryForReEvaluation ms x \<noteq> None \<and> (f x = None \<longrightarrow> queryForReEvaluation ms x = Some None) \<and>
    (f x = Some (a, True) \<longrightarrow> queryForReEvaluation ms x = Some (Some a))"
  proof (cases "answered ms x")
    case True
    then obtain i where i: "i < length ms" "im_id (ms ! i) = x" "im_role (ms ! i) = RoleAssistant"
      by (auto simp: answered_def list_ex_iff in_set_conv_nth)
    from root_answer_found[OF ok i(1,3)] obtain j where j: "j < length ms" "root_answer ?b (ms ! i) = Some (ms ! j)"
      "im_supersedes (ms ! j) = None" "im_role (ms ! j) = RoleAssistant"
      "f x = Some (a, True) \<Longrightarrow> f (im_id (ms ! j)) = Some (a, True)" using i by blast
    have "gm_get ?b x = Some (ms ! i)" using i by (simp add: by_id_get[OF d])
    moreover have "query_before (im_id (ms ! j)) None ms = Some a" if "f x = Some (a, True)"
      using query_before_nth[OF d j(1) refl, of None] ok j(1,3,4) j(5)[OF that] by (auto simp: turns_ok_def turn_ok_def)
    ultimately show ?thesis using i j(2) True f by (auto simp: queryForReEvaluation_def)
  next
    case False
    then have "f x = None" using f by blast
    with False show ?thesis
      by (auto simp: queryForReEvaluation_def Let_def answered_def list_ex_iff by_id_get[OF d] split: option.split)
  qed
  then show "queryForReEvaluation ms x \<noteq> None" "f x = None \<Longrightarrow> queryForReEvaluation ms x = Some None"
    "f x = Some (a, True) \<Longrightarrow> queryForReEvaluation ms x = Some (Some a)" by blast+
qed

lemma turn_ok_append: "i < length ms \<Longrightarrow> turn_ok f (ms @ ns) i = turn_ok f ms i"
proof -
  assume i: "i < length ms"
  then have "(ms @ ns) ! i = ms ! i" "(ms @ ns) ! (i - 1) = ms ! (i - 1)"
    and "\<And>j. j < i \<Longrightarrow> (ms @ ns) ! j = ms ! j" by (simp_all add: nth_append)
  then show ?thesis unfolding turn_ok_def by (simp cong: conj_cong option.case_cong)
qed

lemma turn_ok_cong:
  assumes "\<And>m. m \<in> set ms \<Longrightarrow> g (im_id m) = f (im_id m)" "i < length ms"
  shows "turn_ok g ms i = turn_ok f ms i"
proof -
  have eq: "\<And>j. j \<le> i \<Longrightarrow> g (im_id (ms ! j)) = f (im_id (ms ! j))" using assms by simp
  have "(\<exists>j<i. im_id (ms ! j) = p \<and> im_role (ms ! j) = RoleAssistant \<and> P (g p)) \<longleftrightarrow>
      (\<exists>j<i. im_id (ms ! j) = p \<and> im_role (ms ! j) = RoleAssistant \<and> P (f p))" for p P
    using eq by (metis order_less_imp_le)
  from this[of _ "\<lambda>x. \<exists>a a' b. x = Some (a, b) \<and> f (im_id (ms ! i)) = Some (a', b) \<and> (b \<longrightarrow> a' = a)"]
  show ?thesis unfolding turn_ok_def eq[OF order_refl] by (simp split: option.split)
qed

lemma turns_ok_mono: "turns_ok f n ms \<Longrightarrow> n \<le> n' \<Longrightarrow> turns_ok f n' ms"
  by (auto simp: turns_ok_def list_all_iff)

lemma turns_ok_Nil [simp]: "turns_ok f n [] \<longleftrightarrow> f = (\<lambda>x. None)"
  by (simp add: turns_ok_def answered_def fun_eq_iff del: not_None_eq)

lemma answered_snoc: "answered (ms @ [m]) x \<longleftrightarrow> answered ms x \<or> im_id m = x \<and> im_role m = RoleAssistant"
  by (simp add: answered_def)

lemma turns_user:
  assumes "turns_ok f n ms" "im_role m = RoleUser" "im_id m = n" "im_ordinal m = length ms"
  shows "turns_ok f (Suc n) (ms @ [m])"
proof -
  have "turn_ok f (ms @ [m]) i" if "i < Suc (length ms)" for i
  proof (cases "i < length ms")
    case False
    then have "i = length ms" using that by simp
    then show ?thesis using assms(2) by (simp add: turn_ok_def)
  qed (use assms(1) in \<open>simp add: turn_ok_append turns_ok_def\<close>)
  then show ?thesis using assms by (auto simp: turns_ok_def answered_snoc list_all_iff)
qed

lemma turns_answer:
  assumes "turns_ok f n ms" "im_role m = RoleAssistant" "im_id m = n" "im_ordinal m = length ms"
    and "case im_supersedes m of
           None \<Rightarrow> b \<longrightarrow> ms \<noteq> [] \<and> im_role (last ms) = RoleUser \<and> q = im_content (last ms)
         | Some p \<Rightarrow> \<exists>a. f p = Some (a, b) \<and> (b \<longrightarrow> q = a)"
  shows "turns_ok (f(n := Some (q, b))) (Suc n) (ms @ [m])"
proof -
  have ids: "\<And>x. x \<in> set ms \<Longrightarrow> im_id x < n" using assms(1) by (auto simp: turns_ok_def list_all_iff)
  have old: "turn_ok (f(n := Some (q, b))) (ms @ [m]) i" if i: "i < length ms" for i
  proof -
    have "turn_ok f ms i" using assms(1) i by (simp add: turns_ok_def)
    moreover have "turn_ok (f(n := Some (q, b))) ms i = turn_ok f ms i"
      by (rule turn_ok_cong) (use ids i in auto)
    ultimately show ?thesis by (simp add: turn_ok_append i)
  qed
  have new: "turn_ok (f(n := Some (q, b))) (ms @ [m]) (length ms)"
  proof (cases "im_supersedes m")
    case None
    then show ?thesis using assms(2,3,5) by (auto simp: turn_ok_def nth_append last_conv_nth)
  next
    case (Some p)
    then obtain a where fp: "f p = Some (a, b)" "b \<longrightarrow> q = a" using assms(5) by auto
    then have "answered ms p" using assms(1) by (metis option.distinct(1) turns_ok_def)
    then obtain j where j: "j < length ms" "im_id (ms ! j) = p" "im_role (ms ! j) = RoleAssistant"
      by (auto simp: answered_def list_ex_iff in_set_conv_nth)
    then have "p < n" using ids nth_mem by blast
    with j fp Some assms(3) show ?thesis by (auto simp: turn_ok_def nth_append intro!: exI[of _ j])
  qed
  have "\<forall>i<Suc (length ms). turn_ok (f(n := Some (q, b))) (ms @ [m]) i" using old new less_Suc_eq by auto
  moreover have "(f(n := Some (q, b))) x \<noteq> None \<longleftrightarrow> answered (ms @ [m]) x" for x
    using assms(1-3) by (auto simp: answered_snoc turns_ok_def)
  ultimately show ?thesis using assms(1-4) by (auto simp: turns_ok_def list_all_iff)
qed


subsection \<open>The routes over the in-memory repository\<close>

record thread_world =
  tw_kbs :: kb_repo
  tw_docs :: doc_repo
  tw_inq :: inq_repo
  tw_next :: uuid
  tw_clock :: timestamp
  tw_asked :: "(uuid \<times> string) list"
  tw_outcome :: "stream_event list \<times> (gerror + query_result)"
  tw_faults :: "bool list"

text \<open>
  Each call to the thread store reads the tape: an outage strikes before the operation, which then
  does nothing, or after it, and the caller gets an error all the same.
\<close>

definition tw_call :: "(thread_world, 'a) call \<Rightarrow> (thread_world, 'a) call" where
  "tw_call p w =
     (case tw_faults w of
        True # fs \<Rightarrow> (w\<lparr>tw_faults := fs\<rparr>, Inl (Plain ''connection refused''))
      | False # True # fs \<Rightarrow> (fst (p (w\<lparr>tw_faults := fs\<rparr>)), Inl (Plain ''connection refused''))
      | False # False # fs \<Rightarrow> p (w\<lparr>tw_faults := fs\<rparr>)
      | _ \<Rightarrow> p w)"

definition tw_create :: "uuid \<Rightarrow> uuid \<Rightarrow> (thread_world, inquiry) call" where
  "tw_create u k w =
     (case inq_GetOrCreate (tw_next w) (tw_clock w) u k (tw_inq w) of
        (r, inq) \<Rightarrow> (w\<lparr>tw_inq := r, tw_next := Suc (tw_next w)\<rparr>, Inr inq))"

definition tw_append :: "uuid \<Rightarrow> imessage \<Rightarrow> (thread_world, imessage) call" where
  "tw_append u m w =
     (case inq_AppendMessage (tw_next w) (tw_clock w) u m (tw_inq w) of
        (r, x) \<Rightarrow> (w\<lparr>tw_inq := r, tw_next := Suc (tw_next w)\<rparr>, x))"

definition tw_thread :: "thread_world thread_ops" where
  "tw_thread =
     \<lparr>th_get_or_create = \<lambda>u k. tw_call (tw_create u k),
      th_get = \<lambda>u k. tw_call (\<lambda>w. (w, inq_Get u k (tw_inq w))),
      th_append = \<lambda>u m. tw_call (tw_append u m),
      th_list = \<lambda>u i. tw_call (\<lambda>w. (w, inq_ListMessages u i (tw_inq w)))\<rparr>"

definition tw_ops :: "(uuid \<Rightarrow> string) \<Rightarrow> thread_world search_ops" where
  "tw_ops us =
     \<lparr>so_kb_get = \<lambda>u k w. (w, kb_Get u k (tw_kbs w)),
      so_docs = \<lambda>u k w. (w, Inr (doc_ListByKB u k (tw_docs w))),
      so_search = \<lambda>k q w. (w\<lparr>tw_asked := tw_asked w @ [(k, q)]\<rparr>, fst (tw_outcome w), snd (tw_outcome w)),
      so_thread = Some tw_thread, so_stats = None, so_now = tw_clock, so_us = us\<rparr>"

datatype tw_event =
    Elsewhere kb_repo doc_repo timestamp "stream_event list" "gerror + query_result"
  | SearchRequest request "string option" "bool list"
  | InquiryRequest request "bool list"
  | ReevaluateRequest request string "bool list"

primrec tw_step :: "(uuid \<Rightarrow> string) \<Rightarrow> (string \<Rightarrow> uuid option) \<Rightarrow> tw_event \<Rightarrow> thread_world \<Rightarrow> thread_world" where
  "tw_step us parse (Elsewhere kbs docs now evs res) w =
     w\<lparr>tw_kbs := kbs, tw_docs := docs, tw_clock := now, tw_outcome := (evs, res)\<rparr>"
| "tw_step us parse (SearchRequest r body fs) w = fst (sh_search (tw_ops us) parse r body (w\<lparr>tw_faults := fs\<rparr>))"
| "tw_step us parse (InquiryRequest r fs) w = fst (getInquiry (tw_ops us) parse r (w\<lparr>tw_faults := fs\<rparr>))"
| "tw_step us parse (ReevaluateRequest r mid fs) w = fst (reevaluate (tw_ops us) parse r mid (w\<lparr>tw_faults := fs\<rparr>))"

definition thread_of :: "inq_repo \<Rightarrow> uuid \<Rightarrow> uuid \<Rightarrow> imessage list" where
  "thread_of r u k = (case gm_get (ir_byKBUser r) (k, u) of None \<Rightarrow> [] | Some i \<Rightarrow> gm_get_or [] (ir_messages r) i)"

text \<open>
  The history of a run: for every answer of a user's thread, the query that was asked when it was
  recorded, and whether that query is in the thread. A search that records both its query and its
  answer makes the thread longer by two; a re-evaluation's query is the one of the answer it
  supersedes.
\<close>

type_synonym origins = "uuid \<Rightarrow> uuid \<Rightarrow> asked_of"

definition query_recorded :: "origins \<Rightarrow> inq_repo \<Rightarrow> inq_repo \<Rightarrow> uuid \<Rightarrow> uuid \<Rightarrow> uuid \<Rightarrow> bool" where
  "query_recorded f r r' u k x =
     (case find (\<lambda>m. im_id m = x) (thread_of r' u k) of
        None \<Rightarrow> False
      | Some m \<Rightarrow>
          (case im_supersedes m of
             None \<Rightarrow> length (thread_of r' u k) = length (thread_of r u k) + 2
           | Some p \<Rightarrow> (case f u k p of None \<Rightarrow> False | Some (a, b) \<Rightarrow> b)))"

definition note_origins :: "thread_world \<Rightarrow> thread_world \<Rightarrow> origins \<Rightarrow> origins" where
  "note_origins w w' f =
     (\<lambda>u k x. if f u k x = None \<and> answered (thread_of (tw_inq w') u k) x
              then Some (snd (last (tw_asked w')), query_recorded f (tw_inq w) (tw_inq w') u k x) else f u k x)"

primrec tw_run ::
    "(uuid \<Rightarrow> string) \<Rightarrow> (string \<Rightarrow> uuid option) \<Rightarrow> tw_event list \<Rightarrow> thread_world \<times> origins \<Rightarrow> thread_world \<times> origins" where
  "tw_run us parse [] p = p"
| "tw_run us parse (ev # evs) p =
     (let w = tw_step us parse ev (fst p) in tw_run us parse evs (w, note_origins (fst p) w (snd p)))"

definition tw_start :: "uuid \<Rightarrow> thread_world \<times> origins" where
  "tw_start n =
     (\<lparr>tw_kbs = [], tw_docs = [], tw_inq = inq_New, tw_next = n, tw_clock = 0, tw_asked = [],
       tw_outcome = ([], Inr (only_summary '''')), tw_faults = []\<rparr>, \<lambda>u k x. None)"

subsection \<open>What is kept by every step\<close>

definition repo_ok :: "origins \<Rightarrow> nat \<Rightarrow> inq_repo \<Rightarrow> bool" where
  "repo_ok f n r \<longleftrightarrow>
     (\<forall>k u i. gm_get (ir_byKBUser r) (k, u) = Some i \<longrightarrow> i < n \<and>
        (\<exists>q. gm_get (ir_inquiries r) i = Some q \<and> inq_id q = i \<and> inq_kb q = k \<and> inq_user q = u)) \<and>
     (\<forall>i\<ge>n. gm_get_or [] (ir_messages r) i = []) \<and>
     (\<forall>u k. turns_ok (f u k) n (thread_of r u k))"

lemma repo_ok_key:
  assumes "repo_ok f n r" "gm_get (ir_byKBUser r) (k, u) = Some i"
  obtains q where "i < n" "gm_get (ir_inquiries r) i = Some q" "inq_id q = i" "inq_kb q = k" "inq_user q = u"
  using assms unfolding repo_ok_def by blast

lemma repo_ok_inj:
  "repo_ok f n r \<Longrightarrow> gm_get (ir_byKBUser r) (k, u) = Some i \<Longrightarrow> gm_get (ir_byKBUser r) (k', u') = Some i \<Longrightarrow>
     k' = k \<and> u' = u"
  by (metis option.inject repo_ok_key)

lemma repo_ok_turns: "repo_ok f n r \<Longrightarrow> turns_ok (f u k) n (thread_of r u k)"
  by (simp add: repo_ok_def)

lemma repo_ok_mono: "repo_ok f n r \<Longrightarrow> n \<le> n' \<Longrightarrow> repo_ok f n' r"
  unfolding repo_ok_def by (meson order_less_le_trans order_trans turns_ok_mono)

text \<open>The thread of a user in a knowledge base as the repository hands it out.\<close>

lemma thread_found:
  assumes "repo_ok f n r"
  shows "inq_Get u k r =
      (case gm_get (ir_byKBUser r) (k, u) of
         None \<Rightarrow> Inl ErrInquiryNotFound | Some i \<Rightarrow> Inr (the (gm_get (ir_inquiries r) i)))"
    and "inq_Get u k r = Inr q \<Longrightarrow>
      gm_get (ir_byKBUser r) (k, u) = Some (inq_id q) \<and> inq_kb q = k \<and> inq_user q = u \<and>
      owns_inquiry u (inq_id q) r \<and> inq_ListMessages u (inq_id q) r = Inr (thread_of r u k)"
proof -
  show "inq_Get u k r = (case gm_get (ir_byKBUser r) (k, u) of
      None \<Rightarrow> Inl ErrInquiryNotFound | Some i \<Rightarrow> Inr (the (gm_get (ir_inquiries r) i)))"
    by (simp add: inq_Get_def)
  assume "inq_Get u k r = Inr q"
  then obtain i where i: "gm_get (ir_byKBUser r) (k, u) = Some i" "q = the (gm_get (ir_inquiries r) i)"
    by (auto simp: inq_Get_def split: option.splits)
  with assms have q: "gm_get (ir_inquiries r) i = Some q" "inq_id q = i" "inq_kb q = k" "inq_user q = u"
    by (metis option.sel repo_ok_key)+
  let ?ms = "thread_of r u k"
  have "map im_ordinal ?ms = [0..<length ?ms]" using repo_ok_turns[OF assms] by (simp add: turns_ok_def)
  then have "sorted_wrt (\<lambda>a b. \<not> im_ordinal b < im_ordinal a) ?ms"
    unfolding not_less by (simp flip: sorted_wrt_map add: sorted_upt)
  then have "sort_slice (\<lambda>a b. im_ordinal a < im_ordinal b) ?ms = ?ms" by (rule sort_slice_id)
  with i(1) q show "gm_get (ir_byKBUser r) (k, u) = Some (inq_id q) \<and> inq_kb q = k \<and> inq_user q = u \<and>
      owns_inquiry u (inq_id q) r \<and> inq_ListMessages u (inq_id q) r = Inr (thread_of r u k)"
    by (simp add: owns_inquiry_def inq_ListMessages_def thread_of_def)
qed

lemma repo_create:
  assumes "repo_ok f n r" "inq_GetOrCreate n now u k r = (r', q)"
  shows "repo_ok f (Suc n) r'" "thread_of r' = thread_of r" "inq_Get u k r' = Inr q"
proof -
  have "repo_ok f (Suc n) r' \<and> thread_of r' = thread_of r \<and> inq_Get u k r' = Inr q"
  proof (cases "gm_get (ir_byKBUser r) (k, u)")
    case (Some i)
    then have "r' = r" "inq_Get u k r = Inr q" using assms(2) by (auto simp: inq_GetOrCreate_def inq_Get_def)
    then show ?thesis using repo_ok_mono[OF assms(1), of "Suc n"] by simp
  next
    case None
    then have r': "r' = r\<lparr>ir_inquiries := gm_put n q (ir_inquiries r), ir_byKBUser := gm_put (k, u) n (ir_byKBUser r)\<rparr>"
      and q: "inq_id q = n" "inq_kb q = k" "inq_user q = u"
      using assms(2) by (auto simp: inq_GetOrCreate_def Let_def)
    have empty: "gm_get_or [] (ir_messages r) n = []" using assms(1) by (simp add: repo_ok_def)
    have thr: "thread_of r' = thread_of r"
      using None empty by (auto simp: thread_of_def r' fun_eq_iff split: option.split)
    have "i < Suc n \<and> (\<exists>x. gm_get (ir_inquiries r') i = Some x \<and> inq_id x = i \<and> inq_kb x = k' \<and> inq_user x = u')"
      if "gm_get (ir_byKBUser r') (k', u') = Some i" for k' u' i
    proof (cases "(k', u') = (k, u)")
      case True
      then show ?thesis using that q by (auto simp: r')
    next
      case False
      then have i: "gm_get (ir_byKBUser r) (k', u') = Some i" using that by (auto simp: r' split: if_splits)
      obtain x where x: "i < n" "gm_get (ir_inquiries r) i = Some x" "inq_id x = i" "inq_kb x = k'" "inq_user x = u'"
        using repo_ok_key[OF assms(1) i] by blast
      then have "gm_get (ir_inquiries r') i = Some x" by (simp add: r')
      with x show ?thesis by simp
    qed
    moreover have "turns_ok (f u' k') (Suc n) (thread_of r' u' k')" for u' k'
      unfolding thr by (rule turns_ok_mono[OF repo_ok_turns[OF assms(1)]]) simp
    moreover have "gm_get_or [] (ir_messages r') i = []" if "Suc n \<le> i" for i
      using assms(1) that by (simp add: repo_ok_def r')
    ultimately have "repo_ok f (Suc n) r'" unfolding repo_ok_def by blast
    then show ?thesis using thr by (simp add: inq_Get_def r')
  qed
  then show "repo_ok f (Suc n) r'" "thread_of r' = thread_of r" "inq_Get u k r' = Inr q" by blast+
qed


text \<open>Appending to a user's thread leaves every other thread alone.\<close>

lemma append_effect:
  assumes "repo_ok f n r" "inq_Get u k r = Inr q" "im_inquiry m = inq_id q"
    and "inq_AppendMessage n now u m r = (r', x)"
  defines "cp \<equiv> m\<lparr>im_id := n, im_user := u, im_ordinal := length (thread_of r u k), im_created := now\<rparr>"
  shows "thread_of r' u' k' = (if u' = u \<and> k' = k then thread_of r u k @ [cp] else thread_of r u' k')"
    and "ir_inquiries r' = ir_inquiries r \<and> ir_byKBUser r' = ir_byKBUser r \<and>
      (\<forall>i\<ge>n. gm_get_or [] (ir_messages r') i = [])"
proof -
  have q: "gm_get (ir_byKBUser r) (k, u) = Some (inq_id q)" "owns_inquiry u (inq_id q) r" "inq_id q < n"
    using thread_found(2)[OF assms(1,2)] repo_ok_key[OF assms(1)] by (blast, blast, metis)
  have r': "r' = r\<lparr>ir_messages := gm_put (inq_id q) (thread_of r u k @ [cp]) (ir_messages r)\<rparr>"
    using assms(4) q by (simp add: inq_AppendMessage_def Let_def assms(3) cp_def thread_of_def)
  show "thread_of r' u' k' = (if u' = u \<and> k' = k then thread_of r u k @ [cp] else thread_of r u' k')"
  proof (cases "u' = u \<and> k' = k")
    case False
    then have "gm_get (ir_byKBUser r) (k', u') \<noteq> Some (inq_id q)"
      using repo_ok_inj[OF assms(1) q(1)] by blast
    with False show ?thesis by (auto simp: thread_of_def r' split: option.split)
  qed (simp add: thread_of_def r' q(1))
  show "ir_inquiries r' = ir_inquiries r \<and> ir_byKBUser r' = ir_byKBUser r \<and>
      (\<forall>i\<ge>n. gm_get_or [] (ir_messages r') i = [])"
    using assms(1) q(3) by (simp add: r' repo_ok_def)
qed

lemma repo_ok_threads:
  assumes "repo_ok f n r" "ir_inquiries r' = ir_inquiries r" "ir_byKBUser r' = ir_byKBUser r"
    and "\<forall>i\<ge>n. gm_get_or [] (ir_messages r') i = []" "\<And>u k. turns_ok (g u k) (Suc n) (thread_of r' u k)"
  shows "repo_ok g (Suc n) r'"
  using assms unfolding repo_ok_def by (metis Suc_leD less_SucI)

lemma repo_append_user:
  assumes "repo_ok f n r" "inq_Get u k r = Inr q" "im_inquiry m = inq_id q"
    and "inq_AppendMessage n now u m r = (r', x)" "im_role m = RoleUser"
  shows "repo_ok f (Suc n) r'"
proof (rule repo_ok_threads[OF assms(1)])
  fix u' k'
  have old: "turns_ok (f u' k') n (thread_of r u' k')" by (rule repo_ok_turns[OF assms(1)])
  show "turns_ok (f u' k') (Suc n) (thread_of r' u' k')"
    using turns_ok_mono[OF old] turns_user[OF old] assms(5)
    by (auto simp: append_effect(1)[OF assms(1-4)])
qed (use append_effect(2)[OF assms(1-4)] in blast)+

lemma repo_append_answer:
  assumes "repo_ok f n r" "inq_Get u k r = Inr q" "im_inquiry m = inq_id q"
    and "inq_AppendMessage n now u m r = (r', x)" "im_role m = RoleAssistant"
    and "case im_supersedes m of
           None \<Rightarrow> b \<longrightarrow> thread_of r u k \<noteq> [] \<and> im_role (last (thread_of r u k)) = RoleUser \<and> a = im_content (last (thread_of r u k))
         | Some p \<Rightarrow> \<exists>c. f u k p = Some (c, b) \<and> (b \<longrightarrow> a = c)"
  shows "repo_ok (\<lambda>u' k'. if u' = u \<and> k' = k then (f u k)(n := Some (a, b)) else f u' k') (Suc n) r'"
proof (rule repo_ok_threads[OF assms(1)])
  fix u' k'
  have old: "turns_ok (f u' k') n (thread_of r u' k')" by (rule repo_ok_turns[OF assms(1)])
  show "turns_ok (if u' = u \<and> k' = k then (f u k)(n := Some (a, b)) else f u' k') (Suc n) (thread_of r' u' k')"
    using turns_ok_mono[OF old] turns_answer[OF old, of _ b a] assms(5,6)
    by (auto simp: append_effect(1)[OF assms(1-4)])
qed (use append_effect(2)[OF assms(1-4)] in blast)+


subsection \<open>The history agrees with the threads\<close>

definition tw_ok :: "thread_world \<Rightarrow> origins \<Rightarrow> bool" where
  "tw_ok w f \<longleftrightarrow> repo_ok f (tw_next w) (tw_inq w)"

lemma note_origins_same: "tw_ok w f \<Longrightarrow> note_origins w0 w f = f"
  using repo_ok_turns unfolding tw_ok_def turns_ok_def note_origins_def by (auto simp: fun_eq_iff simp del: not_None_eq)

lemma note_origins_new:
  assumes "tw_ok w (\<lambda>u' k'. if u' = u \<and> k' = k then (f u k)(n := Some (a, b)) else f u' k')"
    and "f u k n = None" "snd (last (tw_asked w)) = a" "query_recorded f (tw_inq w0) (tw_inq w) u k n = b"
  shows "tw_ok w (note_origins w0 w f)"
proof -
  let ?g = "\<lambda>u' k'. if u' = u \<and> k' = k then (f u k)(n := Some (a, b)) else f u' k'"
  have iff: "?g u' k' x \<noteq> None \<longleftrightarrow> answered (thread_of (tw_inq w) u' k') x" for u' k' x
    using repo_ok_turns assms(1) unfolding tw_ok_def turns_ok_def by blast
  have "note_origins w0 w f u' k' x = ?g u' k' x" for u' k' x
  proof (cases "u' = u \<and> k' = k \<and> x = n")
    case True
    with iff[of u' k' x] assms(2-4) show ?thesis by (simp add: note_origins_def)
  next
    case False
    then have g: "?g u' k' x = f u' k' x" by auto
    show ?thesis using iff[of u' k' x] unfolding g by (simp add: note_origins_def del: not_None_eq)
  qed
  then have "note_origins w0 w f = ?g" by (intro ext)
  then show ?thesis using assms(1) by simp
qed

lemma turns_fresh: "turns_ok f n ms \<Longrightarrow> f n = None"
  unfolding turns_ok_def answered_def list_ex_iff list_all_iff by (metis less_irrefl)

lemma tw_ok_fresh: "tw_ok w f \<Longrightarrow> f u k (tw_next w) = None"
  unfolding tw_ok_def by (rule turns_fresh[OF repo_ok_turns])

lemma find_snoc:
  "\<forall>m\<in>set ms. im_id m \<noteq> x \<Longrightarrow> find (\<lambda>m. im_id m = x) (ms @ [c]) = (if im_id c = x then Some c else None)"
  by (induction ms) auto

lemma tw_call_cases:
  assumes "tw_call p w = (w', r)"
  obtains (before) fs e where "w' = w\<lparr>tw_faults := fs\<rparr>" "r = Inl e" "tw_faults w \<noteq> []"
    | (acts) fs q where "p (w\<lparr>tw_faults := fs\<rparr>) = (w', q)" "r = q \<or> tw_faults w \<noteq> [] \<and> (\<exists>e. r = Inl e)"
proof -
  have same: "p w = p (w\<lparr>tw_faults := tw_faults w\<rparr>)" by simp
  consider (plain) "p w = (w', r)" | (struck) fs where "tw_faults w = True # fs"
    | (after) b fs where "tw_faults w = False # b # fs"
  proof -
    have "p w = (w', r) \<or> (\<exists>fs. tw_faults w = True # fs) \<or> (\<exists>b fs. tw_faults w = False # b # fs)"
      using assms by (auto simp: tw_call_def split: list.splits bool.splits)
    with that show ?thesis by blast
  qed
  then show thesis
  proof cases
    case plain
    then have "p (w\<lparr>tw_faults := tw_faults w\<rparr>) = (w', r)" using same by (simp only:)
    then show thesis by (rule acts) simp
  next
    case (struck fs)
    then show thesis using assms before[of fs] by (auto simp: tw_call_def)
  next
    case (after b fs)
    obtain v q where q: "p (w\<lparr>tw_faults := fs\<rparr>) = (v, q)" by fastforce
    then show thesis using assms after acts[of fs q] by (cases b) (auto simp: tw_call_def)
  qed
qed

lemma tw_fileNames: "fst (fileNames (tw_ops us) u k w) = w"
  by (simp add: fileNames_def tw_ops_def try_call_def)

lemma tw_stream:
  "streamAndAnswer (tw_ops us) k q names w = (w', resp, res) \<Longrightarrow>
     w' = w\<lparr>tw_asked := tw_asked w @ [(k, q)]\<rparr>"
  by (auto simp: streamAndAnswer_def tw_ops_def recordQueryExecuted_def Let_def split: sum.splits prod.splits if_splits)

lemma tw_ops_thread [simp]: "so_thread (tw_ops us) = Some tw_thread"
  by (simp add: tw_ops_def)

lemma tw_ok_upd [simp]:
  "tw_ok (w\<lparr>tw_asked := a\<rparr>) f = tw_ok w f" "tw_ok (w\<lparr>tw_faults := fs\<rparr>) f = tw_ok w f"
  "tw_ok (w\<lparr>tw_kbs := b, tw_docs := d, tw_clock := t, tw_outcome := x\<rparr>) f = tw_ok w f"
  by (simp_all add: tw_ok_def)

text \<open>
  An answer to the query just asked, recorded or lost. \<open>b\<close> says whether the query is in the thread:
  for a search, whether the thread has grown by one since \<open>w0\<close>.
\<close>

lemma tw_persist_answer:
  assumes "tw_ok w f" "inq_Get u k (tw_inq w) = Inr q" "snd (last (tw_asked w)) = a"
    and ok: "case sm of
           None \<Rightarrow> (b \<longrightarrow> thread_of (tw_inq w) u k \<noteq> [] \<and> im_role (last (thread_of (tw_inq w) u k)) = RoleUser \<and>
                   a = im_content (last (thread_of (tw_inq w) u k))) \<and>
                   (b \<longleftrightarrow> length (thread_of (tw_inq w) u k) = length (thread_of (tw_inq w0) u k) + 1)
         | Some p \<Rightarrow> \<exists>c. f u k p = Some (c, b) \<and> (b \<longrightarrow> a = c)"
    and w'_def: "w' = persistAssistantMessage (tw_ops us) u (Some q) res names sm w"
  shows "tw_ok w' (note_origins w0 w' f)" "tw_asked w' = tw_asked w"
proof -
  let ?m = "assistant_message q res names sm"
  have "w' = fst (tw_call (tw_append u ?m) w)" by (simp add: w'_def persistAssistantMessage_def tw_thread_def)
  then obtain x where "tw_call (tw_append u ?m) w = (w', x)" by (metis prod.collapse)
  then have "tw_ok w' (note_origins w0 w' f) \<and> tw_asked w' = tw_asked w"
  proof (cases rule: tw_call_cases)
    case (before fs e)
    then show ?thesis using assms(1) by (simp add: note_origins_same)
  next
    case (acts fs y)
    let ?ms = "thread_of (tw_inq w) u k"
    obtain r z where r: "inq_AppendMessage (tw_next w) (tw_clock w) u ?m (tw_inq w) = (r, z)" by fastforce
    then have w': "w' = w\<lparr>tw_faults := fs, tw_inq := r, tw_next := Suc (tw_next w)\<rparr>"
      using acts(1) by (simp add: tw_append_def)
    have repo: "repo_ok f (tw_next w) (tw_inq w)" using assms(1) by (simp add: tw_ok_def)
    have thr: "thread_of r u k = ?ms @ [?m\<lparr>im_id := tw_next w, im_user := u, im_ordinal := length ?ms, im_created := tw_clock w\<rparr>]"
      using append_effect(1)[OF repo assms(2) _ r] by (simp add: assistant_message_def)
    have "\<forall>m\<in>set ?ms. im_id m \<noteq> tw_next w"
      using repo_ok_turns[OF repo, of u k] by (auto simp: turns_ok_def list_all_iff)
    from find_snoc[OF this] have rec: "query_recorded f (tw_inq w0) r u k (tw_next w) = b"
      using ok unfolding query_recorded_def thr by (cases sm) (auto simp: assistant_message_def)
    have "tw_ok w' (\<lambda>u' k'. if u' = u \<and> k' = k then (f u k)(tw_next w := Some (a, b)) else f u' k')"
      using repo_append_answer[OF repo assms(2) _ r, where b = b and a = a] ok
      by (cases sm) (auto simp: w' tw_ok_def assistant_message_def)
    then have "tw_ok w' (note_origins w0 w' f)"
      by (rule note_origins_new) (use tw_ok_fresh[OF assms(1)] assms(3) rec in \<open>simp_all add: w'\<close>)
    then show ?thesis by (simp add: w')
  qed
  then show "tw_ok w' (note_origins w0 w' f)" "tw_asked w' = tw_asked w" by blast+
qed

text \<open>The user message, for which the thread is made on first use; either can be lost.\<close>

lemma tw_create_ok:
  assumes "tw_ok w f" "tw_create u k w = (w', x)"
  shows "tw_ok w' f \<and> tw_asked w' = tw_asked w \<and> thread_of (tw_inq w') = thread_of (tw_inq w) \<and>
    (\<exists>q. x = Inr q \<and> inq_Get u k (tw_inq w') = Inr q)"
proof -
  obtain r1 q where c: "inq_GetOrCreate (tw_next w) (tw_clock w) u k (tw_inq w) = (r1, q)" by fastforce
  with assms repo_create[OF _ c] show ?thesis by (auto simp: tw_create_def tw_ok_def)
qed

lemma tw_append_user_ok:
  assumes "tw_ok w f" "inq_Get u k (tw_inq w) = Inr q" "tw_append u (user_message q k query) w = (w', x)"
  shows "tw_ok w' f \<and> tw_asked w' = tw_asked w \<and> inq_Get u k (tw_inq w') = Inr q \<and>
    (\<exists>m. thread_of (tw_inq w') u k = thread_of (tw_inq w) u k @ [m] \<and> im_role m = RoleUser \<and> im_content m = query)"
proof -
  obtain r2 y where a: "inq_AppendMessage (tw_next w) (tw_clock w) u (user_message q k query) (tw_inq w) = (r2, y)" by fastforce
  have w': "w' = w\<lparr>tw_inq := r2, tw_next := Suc (tw_next w)\<rparr>" using assms(3) a by (simp add: tw_append_def)
  have repo: "repo_ok f (tw_next w) (tw_inq w)" using assms(1) by (simp add: tw_ok_def)
  have "repo_ok f (Suc (tw_next w)) r2"
    by (rule repo_append_user[OF repo assms(2) _ a]) (simp_all add: user_message_def)
  moreover have "inq_Get u k r2 = Inr q" "thread_of r2 u k = thread_of (tw_inq w) u k @ [(user_message q k query)\<lparr>im_id := tw_next w,
      im_user := u, im_ordinal := length (thread_of (tw_inq w) u k), im_created := tw_clock w\<rparr>]"
    using append_effect[OF repo assms(2) _ a] assms(2) by (simp_all add: user_message_def inq_Get_def cong: option.case_cong)
  ultimately show ?thesis by (simp add: w' tw_ok_def user_message_def)
qed

lemma tw_persist_user:
  assumes "tw_ok w f" "persistUserMessage (tw_ops us) u k query w = (w', i)"
  shows "tw_ok w' f" "i = Some q \<Longrightarrow> inq_Get u k (tw_inq w') = Inr q \<and>
      (thread_of (tw_inq w') u k = thread_of (tw_inq w) u k \<or>
       (\<exists>m. thread_of (tw_inq w') u k = thread_of (tw_inq w) u k @ [m] \<and> im_role m = RoleUser \<and> im_content m = query))"
proof -
  obtain w1 x where c: "tw_call (tw_create u k) w = (w1, x)" by fastforce
  have w1: "tw_ok w1 f \<and> thread_of (tw_inq w1) = thread_of (tw_inq w) \<and> (\<forall>q. x = Inr q \<longrightarrow> inq_Get u k (tw_inq w1) = Inr q)"
    using c
  proof (cases rule: tw_call_cases)
    case (before fs e)
    then show ?thesis using assms(1) by simp
  next
    case (acts fs y)
    have "tw_ok (w\<lparr>tw_faults := fs\<rparr>) f" using assms(1) by simp
    from tw_create_ok[OF this acts(1)] acts(2) show ?thesis by auto
  qed
  have "tw_ok w' f \<and> (\<forall>q. i = Some q \<longrightarrow> inq_Get u k (tw_inq w') = Inr q \<and>
      (thread_of (tw_inq w') u k = thread_of (tw_inq w) u k \<or>
       (\<exists>m. thread_of (tw_inq w') u k = thread_of (tw_inq w) u k @ [m] \<and> im_role m = RoleUser \<and> im_content m = query)))"
  proof (cases x)
    case (Inl e)
    then show ?thesis using assms(2) c w1 by (auto simp: persistUserMessage_def tw_thread_def try_call_def)
  next
    case (Inr q)
    obtain w2 y where a: "tw_call (tw_append u (user_message q k query)) w1 = (w2, y)" by fastforce
    have e: "w' = w2" "i = Some q"
      using assms(2) c Inr a by (auto simp: persistUserMessage_def tw_thread_def try_call_def)
    show ?thesis
      using a
    proof (cases rule: tw_call_cases)
      case (before fs e)
      then show ?thesis using w1 Inr e by simp
    next
      case (acts fs z)
      have "tw_ok (w1\<lparr>tw_faults := fs\<rparr>) f" "inq_Get u k (tw_inq (w1\<lparr>tw_faults := fs\<rparr>)) = Inr q" using w1 Inr by simp_all
      from tw_append_user_ok[OF this acts(1)] show ?thesis using w1 e by auto
    qed
  qed
  then show "tw_ok w' f" "i = Some q \<Longrightarrow> inq_Get u k (tw_inq w') = Inr q \<and>
      (thread_of (tw_inq w') u k = thread_of (tw_inq w) u k \<or>
       (\<exists>m. thread_of (tw_inq w') u k = thread_of (tw_inq w) u k @ [m] \<and> im_role m = RoleUser \<and> im_content m = query))" by blast+
qed

lemma tw_ops_get [simp]: "so_kb_get (tw_ops us) u k w = (w, kb_Get u k (tw_kbs w))"
  by (simp add: tw_ops_def)

lemma search_finish_ok:
  assumes "tw_ok w f"
    and i: "\<And>q. i = Some q \<Longrightarrow> inq_Get u k (tw_inq w) = Inr q \<and> (thread_of (tw_inq w) u k = thread_of (tw_inq w0) u k \<or>
       (\<exists>m. thread_of (tw_inq w) u k = thread_of (tw_inq w0) u k @ [m] \<and> im_role m = RoleUser \<and> im_content m = query))"
    and w': "w' = fst (search_finish (tw_ops us) u k query names i w)"
  shows "tw_ok w' (note_origins w0 w' f)"
proof -
  obtain w1 resp res where st: "streamAndAnswer (tw_ops us) k query names w = (w1, resp, res)" by (metis prod_cases3)
  have w1: "w1 = w\<lparr>tw_asked := tw_asked w @ [(k, query)]\<rparr>" by (rule tw_stream[OF st])
  have ok1: "tw_ok w1 f" using assms(1) by (simp add: w1)
  show ?thesis
  proof (cases "res = None \<or> i = None")
    case True
    then have "w' = w1" using w' st by (auto simp: search_finish_def persistAssistantMessage_def split: option.splits)
    then show ?thesis using ok1 by (simp add: note_origins_same)
  next
    case False
    then obtain r q where rq: "res = Some r" "i = Some q" by auto
    then have p: "w' = persistAssistantMessage (tw_ops us) u (Some q) r names None w1"
      using w' st by (simp add: search_finish_def)
    let ?b = "length (thread_of (tw_inq w1) u k) = length (thread_of (tw_inq w0) u k) + 1"
    show ?thesis
      by (rule tw_persist_answer(1)[OF ok1 _ refl _ p, where b = ?b]) (use i[OF rq(2)] in \<open>auto simp: w1\<close>)
  qed
qed

lemma search_ok:
  assumes "tw_ok w f" "w' = fst (sh_search (tw_ops us) parse r body w)" "tw_inq w0 = tw_inq w"
  shows "tw_ok w' (note_origins w0 w' f)"
proof -
  have same: "tw_ok w (note_origins w0 w f)" using assms(1) note_origins_same by simp
  have go: "tw_ok w2 (note_origins w0 w2 f)"
    if "w2 = fst (case search_begin (tw_ops us) u k query w of
        (s, names, inq) \<Rightarrow> search_finish (tw_ops us) u k query names inq s)" for w2 u k query
  proof -
    obtain w1 i where p: "persistUserMessage (tw_ops us) u k query w = (w1, i)" by fastforce
    obtain names where fn: "fileNames (tw_ops us) u k w = (w, names)"
      using tw_fileNames[of us u k w] by (metis prod.collapse)
    have "w2 = fst (search_finish (tw_ops us) u k query names i w1)" using that p fn by (simp add: search_begin_def)
    from search_finish_ok[OF tw_persist_user(1)[OF assms(1) p] _ this] tw_persist_user(2)[OF assms(1) p] assms(3)
    show ?thesis by simp
  qed
  show ?thesis
    unfolding assms(2) sh_search_def search_checked_def requireUserID_def parseUUID_def try_call_def
    using same go by (auto split: option.split sum.split)
qed

text \<open>A read of the thread store: what it read is what there is, or it failed.\<close>

lemma tw_read:
  assumes "tw_call (\<lambda>w. (w, g w)) w = (w', x)" "\<And>v fs. g (v\<lparr>tw_faults := fs\<rparr>) = g v"
  obtains fs where "w' = w\<lparr>tw_faults := fs\<rparr>" "x = g w \<or> tw_faults w \<noteq> [] \<and> (\<exists>e. x = Inl e)" "tw_faults w = [] \<Longrightarrow> fs = []"
proof -
  have "\<exists>fs. w' = w\<lparr>tw_faults := fs\<rparr> \<and> (x = g w \<or> tw_faults w \<noteq> [] \<and> (\<exists>e. x = Inl e))"
    using assms(1) by (cases rule: tw_call_cases) (auto simp: assms(2))
  moreover have "w' = w \<and> x = g w" if "tw_faults w = []" using assms(1) that by (auto simp: tw_call_def)
  ultimately show thesis
  proof (cases "tw_faults w = []")
    case True
    show thesis by (rule that[of "tw_faults w"]) (use \<open>tw_faults w = [] \<Longrightarrow> w' = w \<and> x = g w\<close> True in simp_all)
  qed (use that in blast)
qed

text \<open>Re-evaluation: what it asks, and that the history stays right.\<close>

lemma reevaluate_effect:
  assumes "tw_ok w f" "rq_user r = Some u" "parse (rq_kb r) = Some k" "parse mid = Some x" "kb_Get u k (tw_kbs w) = Inr b"
    and "w' = fst (reevaluate (tw_ops us) parse r mid w)"
  shows "tw_ok w' (note_origins w0 w' f) \<and>
    (case f u k x of
       None \<Rightarrow> tw_asked w' = tw_asked w
     | Some (a, own) \<Rightarrow> own \<longrightarrow> tw_asked w' = tw_asked w @ [(k, a)] \<or> tw_faults w \<noteq> [] \<and> tw_asked w' = tw_asked w)"
proof -
  have ok: "repo_ok f (tw_next w) (tw_inq w)" using assms(1) by (simp add: tw_ok_def)
  let ?ms = "thread_of (tw_inq w) u k"
  note found = query_found[OF repo_ok_turns[OF ok, of u k], of x]
  have quiet: ?thesis if "w' = w\<lparr>tw_faults := fs\<rparr>" "tw_faults w \<noteq> [] \<or> (\<nexists>a. f u k x = Some (a, True))" for fs
    using that assms(1) by (auto simp: note_origins_same split: option.split)
  obtain w1 q1 where g: "tw_call (\<lambda>w. (w, inq_Get u k (tw_inq w))) w = (w1, q1)" by fastforce
  then obtain fs1 where w1: "w1 = w\<lparr>tw_faults := fs1\<rparr>"
    and q1: "q1 = inq_Get u k (tw_inq w) \<or> tw_faults w \<noteq> [] \<and> (\<exists>e. q1 = Inl e)" and c1: "tw_faults w = [] \<Longrightarrow> fs1 = []"
    by (rule tw_read) simp_all
  note pre = assms(2-5) g reevaluate_def requireUserID_def parseUUID_def
  show ?thesis
  proof (cases q1)
    case (Inl e)
    then have "w' = w1" using assms(6) by (simp add: pre tw_thread_def)
    moreover have "tw_faults w \<noteq> [] \<or> (\<nexists>a. f u k x = Some (a, True))"
    proof (cases "tw_faults w = []")
      case True
      then have "inq_Get u k (tw_inq w) = Inl e" using q1 Inl by auto
      then have "?ms = []" by (simp add: inq_Get_def thread_of_def split: option.splits)
      then have "f u k x = None" using repo_ok_turns[OF ok, of u k] by simp
      then show ?thesis by simp
    qed simp
    ultimately show ?thesis using quiet w1 by simp
  next
    case (Inr q)
    then have get: "inq_Get u k (tw_inq w) = Inr q" using q1 by auto
    note th = thread_found(2)[OF ok get]
    obtain w2 q2 where l: "tw_call (\<lambda>w. (w, inq_ListMessages u (inq_id q) (tw_inq w))) w1 = (w2, q2)" by fastforce
    then obtain fs2 where w2: "w2 = w1\<lparr>tw_faults := fs2\<rparr>"
      and q2: "q2 = inq_ListMessages u (inq_id q) (tw_inq w1) \<or> tw_faults w1 \<noteq> [] \<and> (\<exists>e. q2 = Inl e)"
      by (rule tw_read) simp_all
    show ?thesis
    proof (cases q2)
      case (Inl e)
      then have "w' = w2" using assms(6) Inr l by (simp add: pre tw_thread_def)
      moreover have "tw_faults w \<noteq> []" using q2 Inl th c1 w1 by auto
      ultimately show ?thesis using quiet w1 w2 by simp
    next
      case (Inr ms)
      then have ms: "ms = ?ms" using q2 th w1 by auto
      obtain a where a: "queryForReEvaluation ?ms x = Some a" using found(1) by blast
      show ?thesis
      proof (cases a)
        case None
        then have "w' = w2" using assms(6) \<open>q1 = Inr q\<close> l Inr a by (simp add: pre tw_thread_def ms)
        moreover have "\<nexists>a. f u k x = Some (a, True)" using found(3) a None by auto
        ultimately show ?thesis using quiet w1 w2 by simp
      next
        case (Some query)
        then obtain c own where c: "f u k x = Some (c, own)" using found(2) a by (cases "f u k x") auto
        have own: "own \<longrightarrow> query = c" using found(3)[of c] a Some c by (cases own) auto
        obtain names where fn: "fileNames (tw_ops us) u k w2 = (w2, names)"
          using tw_fileNames[of us u k w2] by (metis prod.collapse)
        obtain w3 resp res where st: "streamAndAnswer (tw_ops us) k query names w2 = (w3, resp, res)" by (metis prod_cases3)
        have w3: "w3 = w2\<lparr>tw_asked := tw_asked w2 @ [(k, query)]\<rparr>" by (rule tw_stream[OF st])
        have ok3: "tw_ok w3 f" using assms(1) by (simp add: w3 w2 w1)
        have "tw_ok w' (note_origins w0 w' f) \<and> tw_asked w' = tw_asked w3"
        proof (cases res)
          case None
          then have "w' = w3" using assms(6) \<open>q1 = Inr q\<close> l Inr a Some fn st by (simp add: pre tw_thread_def ms)
          then show ?thesis using ok3 by (simp add: note_origins_same)
        next
          case (Some res')
          then have w': "w' = persistAssistantMessage (tw_ops us) u (Some q) res' names (Some x) w3"
            using assms(6) \<open>q1 = Inr q\<close> l Inr a \<open>a = Some query\<close> fn st by (simp add: pre tw_thread_def ms)
          show ?thesis
            using tw_persist_answer[OF ok3 _ refl _ w', where b = own] get c own by (simp add: w3 w2 w1)
        qed
        then show ?thesis using c own by (auto simp: w3 w2 w1)
      qed
    qed
  qed
qed

lemma reevaluate_ok:
  assumes "tw_ok w f" "w' = fst (reevaluate (tw_ops us) parse r mid w)"
  shows "tw_ok w' (note_origins w0 w' f)"
proof (cases "\<exists>u k x b. rq_user r = Some u \<and> parse (rq_kb r) = Some k \<and> parse mid = Some x \<and> kb_Get u k (tw_kbs w) = Inr b")
  case True
  then show ?thesis using reevaluate_effect[OF assms(1) _ _ _ _ assms(2)] by blast
next
  case False
  then have "w' = w"
    using assms(2) by (auto simp: reevaluate_def requireUserID_def parseUUID_def try_call_def split: option.splits sum.splits)
  then show ?thesis using assms(1) by (simp add: note_origins_same)
qed

lemma getInquiry_reads:
  assumes "w' = fst (getInquiry (tw_ops us) parse r w)"
  shows "\<exists>fs. w' = w\<lparr>tw_faults := fs\<rparr>"
proof (cases "\<exists>u k b. rq_user r = Some u \<and> parse (rq_kb r) = Some k \<and> kb_Get u k (tw_kbs w) = Inr b")
  case False
  then have "w' = w"
    using assms by (auto simp: getInquiry_def requireUserID_def parseUUID_def try_call_def split: option.splits sum.splits)
  then show ?thesis by (intro exI[of _ "tw_faults w"]) simp
next
  case True
  then obtain u k b where guards: "rq_user r = Some u" "parse (rq_kb r) = Some k" "kb_Get u k (tw_kbs w) = Inr b" by blast
  obtain w1 q1 where g: "tw_call (\<lambda>w. (w, inq_Get u k (tw_inq w))) w = (w1, q1)" by fastforce
  then obtain fs1 where w1: "w1 = w\<lparr>tw_faults := fs1\<rparr>" by (rule tw_read) simp_all
  note pre = guards g getInquiry_def requireUserID_def parseUUID_def tw_thread_def
  show ?thesis
  proof (cases q1)
    case (Inl e)
    then have "w' = w1" using assms by (auto simp: pre split: if_splits)
    then show ?thesis using w1 by blast
  next
    case (Inr q)
    obtain w2 q2 where l: "tw_call (\<lambda>w. (w, inq_ListMessages u (inq_id q) (tw_inq w))) w1 = (w2, q2)" by fastforce
    then obtain fs2 where w2: "w2 = w1\<lparr>tw_faults := fs2\<rparr>" by (rule tw_read) simp_all
    have "w' = w2" using assms Inr l by (cases q2) (simp_all add: pre)
    then show ?thesis using w1 w2 by auto
  qed
qed

lemma tw_step_ok: "tw_ok w f \<Longrightarrow> w' = tw_step us parse ev w \<Longrightarrow> tw_ok w' (note_origins w w' f)"
proof (cases ev)
  case (InquiryRequest r fs)
  assume a: "tw_ok w f" "w' = tw_step us parse ev w"
  then obtain fs' where "w' = w\<lparr>tw_faults := fs'\<rparr>"
    using getInquiry_reads[of w' us parse r "w\<lparr>tw_faults := fs\<rparr>"] InquiryRequest by auto
  then show "tw_ok w' (note_origins w w' f)" using a(1) by (simp add: note_origins_same)
next
  case (SearchRequest r body fs)
  assume "tw_ok w f" "w' = tw_step us parse ev w"
  then show "tw_ok w' (note_origins w w' f)"
    using search_ok[of "w\<lparr>tw_faults := fs\<rparr>" f w' us parse r body w] SearchRequest by simp
next
  case (ReevaluateRequest r mid fs)
  assume "tw_ok w f" "w' = tw_step us parse ev w"
  then show "tw_ok w' (note_origins w w' f)"
    using reevaluate_ok[of "w\<lparr>tw_faults := fs\<rparr>" f w' us parse r mid w] ReevaluateRequest by simp
qed (simp add: note_origins_same)

lemma tw_run_ok: "tw_ok (fst p) (snd p) \<Longrightarrow> tw_run us parse evs p = (w, f) \<Longrightarrow> tw_ok w f"
proof (induction evs arbitrary: p)
  case (Cons ev evs)
  let ?w = "tw_step us parse ev (fst p)"
  have "tw_run us parse evs (?w, note_origins (fst p) ?w (snd p)) = (w, f)" using Cons.prems(2) by (simp add: Let_def)
  with Cons.IH[of "(?w, note_origins (fst p) ?w (snd p))"] tw_step_ok[OF Cons.prems(1) refl] show ?case by simp
qed auto

lemma tw_start_ok: "tw_ok (fst (tw_start n)) (snd (tw_start n))"
  by (simp add: tw_start_def tw_ok_def repo_ok_def inq_New_def thread_of_def)

text \<open>
  C35. In any run of searches, failed or answered, and re-evaluations by any users in any knowledge
  bases, each request running by itself and the thread store failing before or after any of its
  calls: the walk up the supersedes chain always ends; the messages that name a query are exactly the
  recorded answers; re-evaluating an answer whose query is in the thread asks exactly the query it
  answered, also when that answer is itself a re-evaluation, unless the store fails that very request,
  which then asks nothing; and re-evaluating anything else asks nothing. Nothing is promised for an
  answer whose query was lost, which the handler records all the same.
\<close>

theorem reevaluation_asks_own_query:
  assumes "tw_run us parse evs (tw_start n) = (w, f)"
    and "rq_user r = Some u" "parse (rq_kb r) = Some k" "parse mid = Some x" "kb_Get u k (tw_kbs w) = Inr b"
    and "w' = fst (reevaluate (tw_ops us) parse r mid (w\<lparr>tw_faults := fs\<rparr>))"
  shows "queryForReEvaluation (thread_of (tw_inq w) u k) x \<noteq> None \<and>
    (f u k x \<noteq> None \<longleftrightarrow> answered (thread_of (tw_inq w) u k) x) \<and>
    (case f u k x of
       None \<Rightarrow> tw_asked w' = tw_asked w
     | Some (a, own) \<Rightarrow> own \<longrightarrow> tw_asked w' = tw_asked w @ [(k, a)] \<or> fs \<noteq> [] \<and> tw_asked w' = tw_asked w)"
proof -
  have ok: "tw_ok w f" by (rule tw_run_ok[OF tw_start_ok assms(1)])
  then have t: "turns_ok (f u k) (tw_next w) (thread_of (tw_inq w) u k)"
    by (simp add: tw_ok_def repo_ok_turns)
  have "tw_ok (w\<lparr>tw_faults := fs\<rparr>) f" using ok by simp
  note e = reevaluate_effect[OF this assms(2-4) _ assms(6), where b = b and ?w0.0 = w]
  have "case f u k x of None \<Rightarrow> tw_asked w' = tw_asked w
     | Some (a, own) \<Rightarrow> own \<longrightarrow> tw_asked w' = tw_asked w @ [(k, a)] \<or> fs \<noteq> [] \<and> tw_asked w' = tw_asked w"
    using e assms(5) by (auto split: option.splits)
  moreover have "f u k x \<noteq> None \<longleftrightarrow> answered (thread_of (tw_inq w) u k) x" using t unfolding turns_ok_def by blast
  ultimately show ?thesis using query_found(1)[OF t] by blast
qed

definition demo_kb :: kbase where
  "demo_kb = \<lparr>kb_id = 7, kb_user = 1, kb_name = ''kb'', kb_created = 0, kb_updated = 0\<rparr>"

definition demo_request :: request where
  "demo_request = \<lparr>rq_user = Some 1, rq_kb = ''7'', rq_doc = '''', rq_limit = '''', rq_after = ''''\<rparr>"

definition demo_parse :: "string \<Rightarrow> uuid option" where
  "demo_parse s = (if s = ''7'' then Some 7 else if s = ''102'' then Some 102 else if s = ''103'' then Some 103
                   else if s = ''104'' then Some 104 else if s = ''105'' then Some 105 else None)"

definition demo_found :: "gerror + query_result \<Rightarrow> tw_event" where
  "demo_found res = Elsewhere [(7, demo_kb)] [] 5 [] res"

definition demo_thread_events :: "tw_event list" where
  "demo_thread_events =
     [demo_found (Inr (only_summary ''an answer'')),
      SearchRequest demo_request (Some ''why'') [], ReevaluateRequest demo_request ''102'' []]"

lemma demo_thread:
  "(case tw_run nat_str demo_parse demo_thread_events (tw_start 100) of
      (w, f) \<Rightarrow> map (\<lambda>m. (im_id m, im_role m, im_supersedes m, f 1 7 (im_id m))) (thread_of (tw_inq w) 1 7)) =
   [(101, RoleUser, None, None), (102, RoleAssistant, None, Some (''why'', True)),
    (103, RoleAssistant, Some 102, Some (''why'', True))]"
  by code_simp

theorem reevaluation_asks_own_query_witness:
  "case tw_run nat_str demo_parse demo_thread_events (tw_start 100) of
     (w, f) \<Rightarrow> tw_asked (fst (reevaluate (tw_ops nat_str) demo_parse demo_request ''103'' (w\<lparr>tw_faults := []\<rparr>))) =
       tw_asked w @ [(7, ''why'')]"
proof -
  obtain w f where run: "tw_run nat_str demo_parse demo_thread_events (tw_start 100) = (w, f)" by fastforce
  have "case tw_run nat_str demo_parse demo_thread_events (tw_start 100) of
      (w, f) \<Rightarrow> f 1 7 103 = Some (''why'', True) \<and> kb_Get 1 7 (tw_kbs w) = Inr demo_kb"
    by code_simp
  then have "f 1 7 103 = Some (''why'', True)" "kb_Get 1 7 (tw_kbs w) = Inr demo_kb" using run by simp_all
  moreover have "rq_user demo_request = Some 1" "demo_parse (rq_kb demo_request) = Some 7" "demo_parse ''103'' = Some 103"
    by (simp_all add: demo_request_def demo_parse_def)
  ultimately show ?thesis
    using reevaluation_asks_own_query[OF run _ _ _ _ refl, where fs = "[]"] run by fastforce
qed

subsection \<open>A query that is lost\<close>

text \<open>
  The search for the first query fails and leaves its user message. The second query is lost to an
  outage of the store, but its answer is recorded: it follows the first query, and re-evaluating it
  asks that one.
\<close>

definition demo_lost_query :: "tw_event list" where
  "demo_lost_query =
     [demo_found (Inl (Plain ''timeout'')), SearchRequest demo_request (Some ''first query'') [],
      demo_found (Inr (only_summary ''an answer'')), SearchRequest demo_request (Some ''second query'') [False, False, True]]"

lemma lost_query_asks_other:
  "(case tw_run nat_str demo_parse demo_lost_query (tw_start 100) of
      (w, f) \<Rightarrow> (map (\<lambda>m. (im_id m, im_content m)) (thread_of (tw_inq w) 1 7), f 1 7 103,
                 map snd (tw_asked (tw_step nat_str demo_parse (ReevaluateRequest demo_request ''103'' []) w)))) =
   ([(101, ''first query''), (103, ''an answer'')], Some (''second query'', False),
    [''first query'', ''second query'', ''first query''])"
  by code_simp

subsection \<open>Two searches at once\<close>

text \<open>
  When a second search of the same user in the same knowledge base begins before the first has
  finished, the first answer follows the second query: re-evaluating the first answer asks the
  second query, and the second answer cannot be re-evaluated.
\<close>

definition interleaved :: thread_world where
  "interleaved =
     (let A = tw_ops nat_str;
          w = tw_step nat_str demo_parse (demo_found (Inr (only_summary ''an answer''))) (fst (tw_start 100));
          (w1, n1, i1) = search_begin A 1 7 ''first query'' w;
          (w2, n2, i2) = search_begin A 1 7 ''second query'' w1;
          w3 = fst (search_finish A 1 7 ''first query'' n1 i1 w2)
      in fst (search_finish A 1 7 ''second query'' n2 i2 w3))"

lemma interleaved_answer_asks_other:
  "map (\<lambda>m. (im_id m, im_role m, im_content m)) (thread_of (tw_inq interleaved) 1 7) =
     [(101, RoleUser, ''first query''), (103, RoleUser, ''second query''),
      (104, RoleAssistant, ''an answer''), (105, RoleAssistant, ''an answer'')]"
  "tw_asked (tw_step nat_str demo_parse (ReevaluateRequest demo_request ''104'' []) interleaved) =
     tw_asked interleaved @ [(7, ''second query'')]"
  "tw_asked (tw_step nat_str demo_parse (ReevaluateRequest demo_request ''105'' []) interleaved) = tw_asked interleaved"
  by code_simp+


end
