(* ===== verification/Relations.thy ===== *)
theory Relations
  imports Server
begin

text \<open>
  Relations between entities found by a language model: \<^verbatim>\<open>internal/relation\<close> (a type for pairs
  that co-occur in a chunk) with its route \<^verbatim>\<open>internal/server/relationhandler.go\<close>, and
  \<^verbatim>\<open>internal/crosslink\<close> (a new edge between canonical entities of different chunks), each with
  its in-memory repository.

  The fixed sentences of the prompts and Go's \<^verbatim>\<open>%q\<close> are parameters; the model is an operation
  from a prompt to a response.
\<close>

definition NoneRelation :: string where
  "NoneRelation = ''none''"

definition relation_label :: "string \<Rightarrow> string" where
  "relation_label l = (if l = '''' \<or> equal_fold l ''NONE'' then NoneRelation else to_lower l)"

definition line_end :: string where
  "line_end = [CHR 0x0A]"

definition triple_quote :: string where
  "triple_quote = replicate 3 (CHR 0x22)"

subsection \<open>Relations within a chunk\<close>

record edge_pair =
  ep_a :: uuid
  ep_text_a :: string
  ep_b :: uuid
  ep_text_b :: string

record chunk_candidates =
  cd_chunk :: uuid
  cd_text :: string
  cd_pairs :: "edge_pair list"

record rel_update =
  ru_chunk :: uuid
  ru_a :: uuid
  ru_b :: uuid
  ru_type :: string

definition maxPairsPerChunk :: nat where
  "maxPairsPerChunk = 15"

text \<open>The answers of a response, by chunk and pair number as sent.\<close>

fun rel_scan ::
    "(int \<times> int, string) gomap \<Rightarrow> int option \<Rightarrow> int option \<Rightarrow> string list \<Rightarrow> (int \<times> int, string) gomap" where
  "rel_scan answers chunk pair [] = answers"
| "rel_scan answers chunk pair (l # ls) =
     (let line = trim_space l
      in if has_prefix line ''CHUNK:'' then rel_scan answers (atoi (trim_space (trim_prefix line ''CHUNK:''))) None ls
         else if has_prefix line ''PAIR:'' then rel_scan answers chunk (atoi (trim_space (trim_prefix line ''PAIR:''))) ls
         else if has_prefix line ''RELATION:'' then
           (case (chunk, pair) of
              (Some c, Some p) \<Rightarrow>
                rel_scan (gm_put (c, p) (relation_label (trim_space (trim_prefix line ''RELATION:''))) answers) chunk pair ls
            | _ \<Rightarrow> rel_scan answers chunk pair ls)
         else rel_scan answers chunk pair ls)"

definition rel_parseResponse :: "string \<Rightarrow> (int \<times> int, string) gomap" where
  "rel_parseResponse resp = rel_scan [] None None (split_on (CHR 0x0A) resp)"

definition rel_buildPrompt :: "string \<times> string \<Rightarrow> chunk_candidates list \<Rightarrow> string" where
  "rel_buildPrompt fixed cs =
     fst fixed @
     concat (map (\<lambda>(ci, c).
       if cd_pairs c = [] then ''''
       else ''Chunk '' @ nat_str (ci + 1) @ '':'' @ line_end @ triple_quote @ line_end @ cd_text c @ line_end @
            triple_quote @ line_end @ ''Pairs:'' @ line_end @
            concat (map (\<lambda>(k, p). nat_str (k + 1) @ ''. '' @ ep_text_a p @ '' -- '' @ ep_text_b p @ line_end)
                     (zip [0..<length (cd_pairs c)] (cd_pairs c))) @ line_end)
       (zip [0..<length cs] cs)) @
     snd fixed"

definition rel_trimmed :: "chunk_candidates list \<Rightarrow> chunk_candidates list" where
  "rel_trimmed = map (\<lambda>c. c\<lparr>cd_pairs := take maxPairsPerChunk (cd_pairs c)\<rparr>)"

text \<open>The updates of a chunk from the answers; \<open>ci\<close> counts the chunks from zero.\<close>

definition chunk_updates :: "(int \<times> int, string) gomap \<Rightarrow> nat \<times> chunk_candidates \<Rightarrow> rel_update list" where
  "chunk_updates answers x =
     (let (ci, c) = x
      in List.map_filter (\<lambda>(k, p).
           map_option (\<lambda>rel. \<lparr>ru_chunk = cd_chunk c, ru_a = ep_a p, ru_b = ep_b p, ru_type = rel\<rparr>)
             (gm_get answers (int ci + 1, int k + 1)))
         (zip [0..<length (cd_pairs c)] (cd_pairs c)))"

definition rel_Extract ::
    "string \<times> string \<Rightarrow> (string \<Rightarrow> ('s, string) call) \<Rightarrow> chunk_candidates list \<Rightarrow> ('s, rel_update list \<times> nat) call" where
  "rel_Extract fixed generate cs s =
     (let trimmed = rel_trimmed cs;
          reviewed = sum_list (map (\<lambda>c. length (cd_pairs c)) trimmed)
      in if reviewed = 0 then (s, Inr ([], 0))
         else try_call (generate (rel_buildPrompt fixed trimmed))
                (\<lambda>e s. (s, Inl (Wrapf ''relation: generate'' e)))
                (\<lambda>resp s. (s, Inr (concat (map (chunk_updates (rel_parseResponse resp)) (zip [0..<length trimmed] trimmed)),
                                   reviewed))) s)"

record rel_repo =
  rl_candidates :: "(uuid \<times> uuid, chunk_candidates list) gomap"
  rl_resolved :: "(uuid, (uuid \<times> uuid \<times> uuid, string) gomap) gomap"

definition rel_New :: rel_repo where
  "rel_New = \<lparr>rl_candidates = [], rl_resolved = []\<rparr>"

definition rel_SeedCandidates :: "uuid \<Rightarrow> uuid \<Rightarrow> chunk_candidates list \<Rightarrow> rel_repo \<Rightarrow> rel_repo" where
  "rel_SeedCandidates userID kbID cs r = r\<lparr>rl_candidates := gm_put (userID, kbID) cs (rl_candidates r)\<rparr>"

definition rel_Resolved :: "uuid \<Rightarrow> uuid \<Rightarrow> uuid \<Rightarrow> uuid \<Rightarrow> rel_repo \<Rightarrow> string option" where
  "rel_Resolved userID chunkID a b r = gm_get (gm_get_or [] (rl_resolved r) userID) (chunkID, a, b)"

definition rel_CandidateChunks :: "uuid \<Rightarrow> uuid \<Rightarrow> int \<Rightarrow> rel_repo \<Rightarrow> chunk_candidates list" where
  "rel_CandidateChunks userID kbID limit r =
     (let open' = \<lambda>c. c\<lparr>cd_pairs := filter (\<lambda>p. rel_Resolved userID (cd_chunk c) (ep_a p) (ep_b p) r = None) (cd_pairs c)\<rparr>;
          out = sort_slice (\<lambda>a b. cd_chunk a < cd_chunk b)
                  (filter (\<lambda>c. cd_pairs c \<noteq> []) (map open' (gm_get_or [] (rl_candidates r) (userID, kbID))))
      in if limit > 0 \<and> int (length out) > limit then take (nat limit) out else out)"

definition rel_ApplyUpdates :: "uuid \<Rightarrow> rel_update list \<Rightarrow> rel_repo \<Rightarrow> rel_repo" where
  "rel_ApplyUpdates userID us r =
     r\<lparr>rl_resolved := gm_put userID
        (foldl (\<lambda>m u. gm_put (ru_chunk u, ru_a u, ru_b u) (ru_type u) m) (gm_get_or [] (rl_resolved r) userID) us)
        (rl_resolved r)\<rparr>"

subsection \<open>The route\<close>

record 's rel_ops =
  ro_kb_get :: "uuid \<Rightarrow> uuid \<Rightarrow> ('s, kbase) call"
  ro_candidates :: "uuid \<Rightarrow> uuid \<Rightarrow> int \<Rightarrow> ('s, chunk_candidates list) call"
  ro_apply :: "uuid \<Rightarrow> rel_update list \<Rightarrow> 's proc"
  ro_generate :: "string \<Rightarrow> ('s, string) call"
  ro_fixed :: "string \<times> string"

record rel_reply =
  rx_chunks :: nat
  rx_pairs :: nat
  rx_found :: nat
  rx_none :: nat

definition defaultMaxRelationChunksPerRun :: int where
  "defaultMaxRelationChunksPerRun = 15"

definition registerRelationRoutes :: "int \<Rightarrow> int" where
  "registerRelationRoutes maxChunks = (if maxChunks \<le> 0 then defaultMaxRelationChunksPerRun else maxChunks)"

definition relh_extract :: "'s rel_ops \<Rightarrow> int \<Rightarrow> (string \<Rightarrow> uuid option) \<Rightarrow> request \<Rightarrow> ('s, rel_reply) handler" where
  "relh_extract A maxChunks parse r =
     requireUserID r (\<lambda>userID. parseUUID parse (rq_kb r) (\<lambda>kbID.
       try_call (ro_kb_get A userID kbID) (\<lambda>e s. (s, writeKBError e)) (\<lambda>_.
         try_call (ro_candidates A userID kbID maxChunks)
           (\<lambda>e s. (s, Problem 500 ''failed to load candidate chunks''))
           (\<lambda>chunks s.
             if chunks = [] then (s, Reply 200 \<lparr>rx_chunks = 0, rx_pairs = 0, rx_found = 0, rx_none = 0\<rparr>)
             else try_call (rel_Extract (ro_fixed A) (ro_generate A) chunks)
                    (\<lambda>e s. (s, Problem 500 ''failed to extract relations''))
                    (\<lambda>(updates, reviewed).
                       try_proc (ro_apply A userID updates)
                         (\<lambda>e s. (s, Problem 500 ''failed to save extracted relations''))
                         (\<lambda>s. (s, Reply 200 \<lparr>rx_chunks = length chunks, rx_pairs = reviewed,
                            rx_found = length (filter (\<lambda>u. ru_type u \<noteq> NoneRelation) updates),
                            rx_none = length (filter (\<lambda>u. ru_type u = NoneRelation) updates)\<rparr>))) s))))"

subsection \<open>Relations across chunks\<close>

record chain =
  xc_a :: uuid
  xc_text_a :: string
  xc_chunk_a :: uuid
  xc_chunk_text_a :: string
  xc_b :: uuid
  xc_text_b :: string
  xc_chunk_b :: uuid
  xc_chunk_text_b :: string
  xc_bridge :: string

record cross_update =
  xu_a :: uuid
  xu_b :: uuid
  xu_type :: string
  xu_chunk_a :: uuid
  xu_chunk_b :: uuid

record confirmed_relation =
  xr_text_a :: string
  xr_text_b :: string
  xr_type :: string

fun cross_scan :: "(int, string) gomap \<Rightarrow> int option \<Rightarrow> string list \<Rightarrow> (int, string) gomap" where
  "cross_scan answers cur [] = answers"
| "cross_scan answers cur (l # ls) =
     (let line = trim_space l
      in if has_prefix line ''CANDIDATE:'' then cross_scan answers (atoi (trim_space (trim_prefix line ''CANDIDATE:''))) ls
         else if has_prefix line ''RELATION:'' then
           (case cur of
              None \<Rightarrow> cross_scan answers cur ls
            | Some n \<Rightarrow> cross_scan (gm_put n (relation_label (trim_space (trim_prefix line ''RELATION:''))) answers) cur ls)
         else cross_scan answers cur ls)"

definition cross_parseResponse :: "string \<Rightarrow> (int, string) gomap" where
  "cross_parseResponse resp = cross_scan [] None (split_on (CHR 0x0A) resp)"

definition passage :: "(string \<Rightarrow> string) \<Rightarrow> string \<Rightarrow> string \<Rightarrow> string \<Rightarrow> string" where
  "passage quote name entity' t =
     ''Passage '' @ name @ '' (mentions '' @ quote entity' @ ''):'' @ line_end @ triple_quote @ line_end @ t @ line_end @
     triple_quote @ line_end"

definition cross_buildPrompt :: "(string \<Rightarrow> string) \<Rightarrow> string \<times> string \<Rightarrow> chain list \<Rightarrow> string" where
  "cross_buildPrompt quote fixed cs =
     fst fixed @
     concat (map (\<lambda>(i, c).
       ''Candidate '' @ nat_str (i + 1) @ '':'' @ line_end @ passage quote ''A'' (xc_text_a c) (xc_chunk_text_a c) @
       (if xc_bridge c \<noteq> '''' then ''Connecting passage:'' @ line_end @ triple_quote @ line_end @ xc_bridge c @ line_end @
                                 triple_quote @ line_end else '''') @
       passage quote ''B'' (xc_text_b c) (xc_chunk_text_b c) @ line_end)
       (zip [0..<length cs] cs)) @
     snd fixed"

definition cross_Extract ::
    "(chain list \<Rightarrow> string) \<Rightarrow> (string \<Rightarrow> ('s, string) call) \<Rightarrow> chain list \<Rightarrow> ('s, cross_update list) call" where
  "cross_Extract prompt generate cs s =
     (if cs = [] then (s, Inr [])
      else try_call (generate (prompt cs))
             (\<lambda>e s. (s, Inl (Wrapf ''crosslink: generate'' e)))
             (\<lambda>resp s. (s, Inr (List.map_filter (\<lambda>(i, c).
                map_option (\<lambda>rel. \<lparr>xu_a = xc_a c, xu_b = xc_b c, xu_type = rel, xu_chunk_a = xc_chunk_a c, xu_chunk_b = xc_chunk_b c\<rparr>)
                  (gm_get (cross_parseResponse resp) (int i + 1))) (zip [0..<length cs] cs)))) s)"

record cross_repo =
  xl_candidates :: "(uuid \<times> uuid, chain list) gomap"
  xl_resolved :: "(uuid, (uuid \<times> uuid, string) gomap) gomap"

definition cross_New :: cross_repo where
  "cross_New = \<lparr>xl_candidates = [], xl_resolved = []\<rparr>"

definition cross_SeedCandidates :: "uuid \<Rightarrow> uuid \<Rightarrow> chain list \<Rightarrow> cross_repo \<Rightarrow> cross_repo" where
  "cross_SeedCandidates userID kbID cs r = r\<lparr>xl_candidates := gm_put (userID, kbID) cs (xl_candidates r)\<rparr>"

definition cross_Resolved :: "uuid \<Rightarrow> uuid \<Rightarrow> uuid \<Rightarrow> cross_repo \<Rightarrow> string option" where
  "cross_Resolved userID a b r = gm_get (gm_get_or [] (xl_resolved r) userID) (a, b)"

definition cross_CandidateChains :: "uuid \<Rightarrow> uuid \<Rightarrow> int \<Rightarrow> cross_repo \<Rightarrow> chain list" where
  "cross_CandidateChains userID kbID limit r =
     (let out = sort_slice (\<lambda>a b. xc_a a < xc_a b)
                  (filter (\<lambda>c. cross_Resolved userID (xc_a c) (xc_b c) r = None)
                    (gm_get_or [] (xl_candidates r) (userID, kbID)))
      in if limit > 0 \<and> int (length out) > limit then take (nat limit) out else out)"

definition cross_ApplyUpdates :: "uuid \<Rightarrow> cross_update list \<Rightarrow> cross_repo \<Rightarrow> cross_repo" where
  "cross_ApplyUpdates userID us r =
     r\<lparr>xl_resolved := gm_put userID
        (foldl (\<lambda>m u. gm_put (xu_a u, xu_b u) (xu_type u) m) (gm_get_or [] (xl_resolved r) userID) us)
        (xl_resolved r)\<rparr>"

definition cross_ListConfirmed :: "uuid \<Rightarrow> uuid \<Rightarrow> cross_repo \<Rightarrow> confirmed_relation list" where
  "cross_ListConfirmed userID kbID r =
     List.map_filter (\<lambda>c.
       case cross_Resolved userID (xc_a c) (xc_b c) r of
         None \<Rightarrow> None
       | Some rel \<Rightarrow> if rel = NoneRelation then None
                     else Some \<lparr>xr_text_a = xc_text_a c, xr_text_b = xc_text_b c, xr_type = rel\<rparr>)
       (gm_get_or [] (xl_candidates r) (userID, kbID))"

text \<open>\<open>upper\<close> says whether a text begins with an upper-case letter.\<close>

definition strip_article :: "string \<Rightarrow> string" where
  "strip_article s =
     (case List.find (\<lambda>a. length s > length a \<and> equal_fold (take (length a) s) a) [''the '', ''a '', ''an ''] of
        None \<Rightarrow> s | Some a \<Rightarrow> drop (length a) s)"

definition isCapitalized :: "(string \<Rightarrow> bool) \<Rightarrow> string \<Rightarrow> bool" where
  "isCapitalized upper s = (let s' = strip_article s in s' \<noteq> '''' \<and> upper s')"

definition purge_one :: "(string \<Rightarrow> bool) \<Rightarrow> (uuid \<times> uuid, string) gomap \<times> nat \<Rightarrow> chain \<Rightarrow> (uuid \<times> uuid, string) gomap \<times> nat" where
  "purge_one upper acc c =
     (let (resolved, deleted) = acc
      in if isCapitalized upper (xc_text_a c) \<and> isCapitalized upper (xc_text_b c) then acc
         else if gm_get resolved (xc_a c, xc_b c) \<noteq> None
         then (gm_del (xc_a c, xc_b c) resolved, deleted + 1) else acc)"

definition cross_PurgeLowQuality :: "(string \<Rightarrow> bool) \<Rightarrow> uuid \<Rightarrow> uuid \<Rightarrow> cross_repo \<Rightarrow> cross_repo \<times> nat" where
  "cross_PurgeLowQuality upper userID kbID r =
     (case gm_get (xl_resolved r) userID of
        None \<Rightarrow> (r, 0)
      | Some resolved \<Rightarrow>
          (case foldl (purge_one upper) (resolved, 0) (gm_get_or [] (xl_candidates r) (userID, kbID)) of
             (m, n) \<Rightarrow> (r\<lparr>xl_resolved := gm_put userID m (xl_resolved r)\<rparr>, n)))"

subsection \<open>Repeated runs review every pair once\<close>

definition rel_mem :: "string \<times> string \<Rightarrow> (string \<Rightarrow> string) \<Rightarrow> kb_repo \<Rightarrow> (rel_repo \<times> string list) rel_ops" where
  "rel_mem fixed model kbs =
     \<lparr>ro_kb_get = \<lambda>u k s. (s, kb_Get u k kbs),
      ro_candidates = \<lambda>u k n s. (s, Inr (rel_CandidateChunks u k n (fst s))),
      ro_apply = \<lambda>u us s. ((rel_ApplyUpdates u us (fst s), snd s), None),
      ro_generate = \<lambda>p s. ((fst s, snd s @ [p]), Inr (model p)),
      ro_fixed = fixed\<rparr>"

type_synonym pair_key = "uuid \<times> uuid \<times> uuid"

definition keys_of :: "chunk_candidates \<Rightarrow> pair_key list" where
  "keys_of c = map (\<lambda>p. (cd_chunk c, ep_a p, ep_b p)) (cd_pairs c)"

definition resolved_key :: "uuid \<Rightarrow> rel_repo \<Rightarrow> pair_key \<Rightarrow> string option" where
  "resolved_key u r x = (case x of (c, a, b) \<Rightarrow> rel_Resolved u c a b r)"

definition unreviewed :: "uuid \<Rightarrow> uuid \<Rightarrow> rel_repo \<Rightarrow> pair_key list" where
  "unreviewed u k r =
     filter (\<lambda>x. resolved_key u r x = None) (concat (map keys_of (gm_get_or [] (rl_candidates r) (u, k))))"

definition upd_key :: "rel_update \<Rightarrow> pair_key" where
  "upd_key x = (ru_chunk x, ru_a x, ru_b x)"

definition answers_all :: "nat \<Rightarrow> string \<times> string \<Rightarrow> (string \<Rightarrow> string) \<Rightarrow> bool" where
  "answers_all m fixed model \<longleftrightarrow>
     (\<forall>cs ci j. length cs \<le> m \<longrightarrow> ci < length cs \<longrightarrow> j < length (cd_pairs (cs ! ci)) \<longrightarrow> j < maxPairsPerChunk \<longrightarrow>
        gm_get (rel_parseResponse (model (rel_buildPrompt fixed cs))) (int ci + 1, int j + 1) \<noteq> None)"

lemma apply_get:
  "gm_get (foldl (\<lambda>m x. gm_put (ru_chunk x, ru_a x, ru_b x) (ru_type x) m) m us) x = None \<longleftrightarrow>
     gm_get m x = None \<and> x \<notin> upd_key ` set us"
  "x \<notin> upd_key ` set us \<Longrightarrow>
     gm_get (foldl (\<lambda>m x. gm_put (ru_chunk x, ru_a x, ru_b x) (ru_type x) m) m us) x = gm_get m x"
  by (induction us arbitrary: m) (auto simp: upd_key_def)

lemma resolved_apply:
  "resolved_key u (rel_ApplyUpdates u us r) x = None \<longleftrightarrow> resolved_key u r x = None \<and> x \<notin> upd_key ` set us"
  "x \<notin> upd_key ` set us \<Longrightarrow> resolved_key u (rel_ApplyUpdates u us r) x = resolved_key u r x"
  using apply_get by (auto simp: resolved_key_def rel_Resolved_def rel_ApplyUpdates_def split: prod.split)

lemma mem_zip_upt: "(i, x) \<in> set (zip [0..<length xs] xs) \<longleftrightarrow> i < length xs \<and> x = xs ! i"
  by (auto simp: set_zip intro: exI[of _ i])

lemma chunk_updates_mem:
  "x \<in> set (chunk_updates ans (i, c)) \<longleftrightarrow>
     (\<exists>j rel. j < length (cd_pairs c) \<and> gm_get ans (int i + 1, int j + 1) = Some rel \<and>
        x = \<lparr>ru_chunk = cd_chunk c, ru_a = ep_a (cd_pairs c ! j), ru_b = ep_b (cd_pairs c ! j), ru_type = rel\<rparr>)"
proof -
  have "x \<in> set (chunk_updates ans (i, c)) \<longleftrightarrow>
      (\<exists>j p. (j, p) \<in> set (zip [0..<length (cd_pairs c)] (cd_pairs c)) \<and>
         map_option (\<lambda>rel. \<lparr>ru_chunk = cd_chunk c, ru_a = ep_a p, ru_b = ep_b p, ru_type = rel\<rparr>)
           (gm_get ans (int i + 1, int j + 1)) = Some x)"
    by (force simp: chunk_updates_def List.map_filter_def)
  then show ?thesis unfolding mem_zip_upt by auto
qed

lemma updates_keys:
  "upd_key ` set (concat (map (chunk_updates ans) (zip [0..<length cs] cs))) =
     {keys_of (cs ! i) ! j | i j. i < length cs \<and> j < length (cd_pairs (cs ! i)) \<and> gm_get ans (int i + 1, int j + 1) \<noteq> None}"
    (is "?L = ?R")
proof
  show "?L \<subseteq> ?R"
    by (force simp: chunk_updates_mem mem_zip_upt upd_key_def keys_of_def)
  show "?R \<subseteq> ?L"
  proof
    fix x assume "x \<in> ?R"
    then obtain i j rel where a: "i < length cs" "j < length (cd_pairs (cs ! i))"
      "gm_get ans (int i + 1, int j + 1) = Some rel" and x: "x = keys_of (cs ! i) ! j" by auto
    let ?p = "cd_pairs (cs ! i) ! j"
    let ?u = "\<lparr>ru_chunk = cd_chunk (cs ! i), ru_a = ep_a ?p, ru_b = ep_b ?p, ru_type = rel\<rparr>"
    have "?u \<in> set (chunk_updates ans (i, cs ! i))"
      using a(2,3) by (auto simp: chunk_updates_mem)
    moreover have "(i, cs ! i) \<in> set (zip [0..<length cs] cs)" using a(1) by (simp add: mem_zip_upt)
    ultimately have "?u \<in> set (concat (map (chunk_updates ans) (zip [0..<length cs] cs)))" by auto
    moreover have "upd_key ?u = keys_of (cs ! i) ! j" using a(2) by (simp add: upd_key_def keys_of_def)
    ultimately show "x \<in> ?L" unfolding x by (metis image_eqI)
  qed
qed

text \<open>What is offered: unreviewed pairs only, and some whenever one is left.\<close>

lemma candidates_offer:
  assumes "cs = rel_CandidateChunks u k limit r"
  shows "c \<in> set cs \<Longrightarrow> cd_pairs c \<noteq> [] \<and> set (keys_of c) \<subseteq> set (unreviewed u k r)"
    and "0 < limit \<Longrightarrow> length cs \<le> nat limit \<and> (cs = [] \<longleftrightarrow> unreviewed u k r = [])"
proof -
  define shown where "shown = filter (\<lambda>c. cd_pairs c \<noteq> [])
    (map (\<lambda>c. c\<lparr>cd_pairs := filter (\<lambda>p. rel_Resolved u (cd_chunk c) (ep_a p) (ep_b p) r = None) (cd_pairs c)\<rparr>)
      (gm_get_or [] (rl_candidates r) (u, k)))"
  have cs: "cs = (if limit > 0 \<and> int (length shown) > limit then take (nat limit) (sort_slice (\<lambda>a b. cd_chunk a < cd_chunk b) shown)
      else sort_slice (\<lambda>a b. cd_chunk a < cd_chunk b) shown)"
    by (simp add: assms rel_CandidateChunks_def Let_def shown_def)
  have sub: "set cs \<subseteq> set shown" by (auto simp: cs dest: in_set_takeD)
  have offered: "set (keys_of c) \<subseteq> set (unreviewed u k r)" if "c \<in> set shown" for c
    using that by (force simp: shown_def keys_of_def unreviewed_def resolved_key_def)
  show "c \<in> set cs \<Longrightarrow> cd_pairs c \<noteq> [] \<and> set (keys_of c) \<subseteq> set (unreviewed u k r)"
    using sub offered by (auto simp: shown_def)
  have left: "shown = [] \<longleftrightarrow> unreviewed u k r = []"
    by (auto simp: shown_def unreviewed_def keys_of_def resolved_key_def filter_empty_conv)
  have "length cs \<le> nat limit" if "0 < limit" using that by (auto simp: cs)
  moreover have "cs = [] \<longleftrightarrow> shown = []" if "0 < limit"
  proof -
    have "sort_slice (\<lambda>a b. cd_chunk a < cd_chunk b) shown = [] \<longleftrightarrow> shown = []"
      by (metis length_0_conv length_sort_slice)
    then show ?thesis using that by (auto simp: cs)
  qed
  ultimately show "0 < limit \<Longrightarrow> length cs \<le> nat limit \<and> (cs = [] \<longleftrightarrow> unreviewed u k r = [])"
    using left by simp
qed


lemma other_user_apply: "u' \<noteq> u \<Longrightarrow> resolved_key u' (rel_ApplyUpdates u us r) x = resolved_key u' r x"
  by (auto simp: resolved_key_def rel_Resolved_def rel_ApplyUpdates_def gm_get_or_def split: prod.split)

lemma unreviewed_apply:
  "unreviewed u k (rel_ApplyUpdates u us r) = filter (\<lambda>x. x \<notin> upd_key ` set us) (unreviewed u k r)"
  by (simp add: unreviewed_def resolved_apply conj_commute) (simp add: rel_ApplyUpdates_def conj_commute)

text \<open>One request: the labels it stores are for unreviewed pairs, and it stores some if any are left.\<close>

lemma relation_request:
  assumes "kb_Get u k kbs = Inr b" "rq_user req = Some u" "parse (rq_kb req) = Some k"
    and "s' = fst (relh_extract (rel_mem fixed model kbs) m parse req s)"
  obtains us where "fst s' = rel_ApplyUpdates u us (fst s) \<or> fst s' = fst s \<and> us = []"
    "upd_key ` set us \<subseteq> set (unreviewed u k (fst s))"
    "answers_all (nat m) fixed model \<Longrightarrow> 0 < m \<Longrightarrow> unreviewed u k (fst s) \<noteq> [] \<Longrightarrow> us \<noteq> []"
proof -
  define cs where "cs = rel_CandidateChunks u k m (fst s)"
  note offer = candidates_offer[OF cs_def]
  note run = assms(4) relh_extract_def requireUserID_def parseUUID_def rel_mem_def assms(1-3)
  show thesis
  proof (cases "cs = []")
    case True
    then have "s' = s" by (simp add: run try_call_def cs_def)
    with True offer(2) show ?thesis by (intro that[of "[]"]) auto
  next
    case False
    define tr where "tr = rel_trimmed cs"
    define ans where "ans = rel_parseResponse (model (rel_buildPrompt fixed tr))"
    define us where "us = concat (map (chunk_updates ans) (zip [0..<length tr] tr))"
    have tr: "length tr = length cs" "\<And>i. i < length cs \<Longrightarrow> cd_pairs (tr ! i) = take maxPairsPerChunk (cd_pairs (cs ! i))"
      by (simp_all add: tr_def rel_trimmed_def)
    have sub: "set (keys_of (tr ! i)) \<subseteq> set (unreviewed u k (fst s))" if "i < length cs" for i
    proof -
      have "set (keys_of (tr ! i)) \<subseteq> set (keys_of (cs ! i))"
        using that by (auto simp: keys_of_def tr_def rel_trimmed_def dest: in_set_takeD)
      with offer(1)[of "cs ! i"] that show ?thesis by (metis nth_mem subset_trans)
    qed
    have first: "0 < length (cd_pairs (tr ! 0))" using False offer(1)[of "cs ! 0"] by (simp add: tr(2) maxPairsPerChunk_def)
    have reviewed: "sum_list (map (\<lambda>c. length (cd_pairs c)) tr) \<noteq> 0"
      using first False tr(1) by (metis (mono_tags, lifting) image_eqI length_greater_0_conv less_irrefl list.set_map nth_mem sum_list_eq_0_iff)
    have "rel_Extract fixed (ro_generate (rel_mem fixed model kbs)) cs s =
        ((fst s, snd s @ [rel_buildPrompt fixed tr]), Inr (us, sum_list (map (\<lambda>c. length (cd_pairs c)) tr)))"
      using reviewed unfolding rel_Extract_def Let_def tr_def[symmetric]
      by (auto simp: rel_mem_def us_def ans_def try_call_def)
    then have "fst s' = rel_ApplyUpdates u us (fst s)"
      using False by (simp add: run try_call_def try_proc_def cs_def[symmetric])
    moreover have keys: "upd_key ` set us =
        {keys_of (tr ! i) ! j | i j. i < length tr \<and> j < length (cd_pairs (tr ! i)) \<and> gm_get ans (int i + 1, int j + 1) \<noteq> None}"
      unfolding us_def by (rule updates_keys)
    moreover have "upd_key ` set us \<subseteq> set (unreviewed u k (fst s))"
    proof
      fix x assume "x \<in> upd_key ` set us"
      then obtain i j where "i < length cs" "x = keys_of (tr ! i) ! j" "j < length (keys_of (tr ! i))"
        unfolding keys tr(1) by (auto simp: keys_of_def)
      then show "x \<in> set (unreviewed u k (fst s))" using sub nth_mem by blast
    qed
    moreover have "us \<noteq> []" if all: "answers_all (nat m) fixed model" and "0 < m"
    proof -
      have "length tr \<le> nat m" using offer(2)[OF \<open>0 < m\<close>] tr(1) by simp
      then have "gm_get ans (int 0 + 1, int 0 + 1) \<noteq> None"
        using all first False tr(1) unfolding answers_all_def ans_def
        by (metis length_greater_0_conv maxPairsPerChunk_def zero_less_numeral)
      then have "keys_of (tr ! 0) ! 0 \<in> upd_key ` set us"
        unfolding keys using first False tr(1) by (metis (mono_tags, lifting) length_greater_0_conv mem_Collect_eq)
      then show ?thesis by auto
    qed
    ultimately show ?thesis by (intro that[of us]) blast+
  qed
qed


definition extract_runs ::
    "string \<times> string \<Rightarrow> (string \<Rightarrow> string) \<Rightarrow> kb_repo \<Rightarrow> int \<Rightarrow> (string \<Rightarrow> uuid option) \<Rightarrow> request \<Rightarrow> nat \<Rightarrow>
     rel_repo \<times> string list \<Rightarrow> rel_repo \<times> string list" where
  "extract_runs fixed model kbs m parse req n =
     ((\<lambda>s. fst (relh_extract (rel_mem fixed model kbs) m parse req s)) ^^ n)"

lemma relation_step:
  assumes "kb_Get u k kbs = Inr b" "rq_user req = Some u" "parse (rq_kb req) = Some k"
    and "s' = fst (relh_extract (rel_mem fixed model kbs) m parse req s)"
  shows "resolved_key u' (fst s) x = Some l \<Longrightarrow> resolved_key u' (fst s') x = Some l"
    and "answers_all (nat m) fixed model \<Longrightarrow> 0 < m \<Longrightarrow>
      length (unreviewed u k (fst s')) \<le> length (unreviewed u k (fst s)) - 1"
proof -
  obtain us where us: "fst s' = rel_ApplyUpdates u us (fst s) \<or> fst s' = fst s \<and> us = []"
    "upd_key ` set us \<subseteq> set (unreviewed u k (fst s))"
    "answers_all (nat m) fixed model \<Longrightarrow> 0 < m \<Longrightarrow> unreviewed u k (fst s) \<noteq> [] \<Longrightarrow> us \<noteq> []"
  proof (rule relation_request[OF assms], goal_cases)
    case (1 us)
    show ?case by (rule 1(1)[OF 1(2) 1(3) 1(4)])
  qed
  show "resolved_key u' (fst s') x = Some l" if l: "resolved_key u' (fst s) x = Some l"
  proof (cases "u' = u")
    case True
    then have "x \<notin> upd_key ` set us" using us(2) l by (auto simp: unreviewed_def)
    then show ?thesis using us(1) l True resolved_apply(2) by metis
  qed (use us(1) l other_user_apply in metis)
  assume all: "answers_all (nat m) fixed model" "0 < m"
  show "length (unreviewed u k (fst s')) \<le> length (unreviewed u k (fst s)) - 1"
  proof (cases "unreviewed u k (fst s) = []")
    case True
    with us show ?thesis by (metis diff_is_0_eq filter.simps(1) le_refl list.size(3) unreviewed_apply zero_le)
  next
    case False
    then obtain y where "y \<in> set us" using us(3)[OF all] by (meson all_not_in_conv set_empty)
    then have "upd_key y \<in> set (unreviewed u k (fst s))" "\<not> upd_key y \<notin> upd_key ` set us" using us(2) by auto
    then have "length (filter (\<lambda>x. x \<notin> upd_key ` set us) (unreviewed u k (fst s))) < length (unreviewed u k (fst s))"
      by (rule length_filter_less)
    with us(1) \<open>y \<in> set us\<close> show ?thesis by (auto simp: unreviewed_apply)
  qed
qed



definition demo_rel_kb :: kb_repo where
  "demo_rel_kb = [(7, \<lparr>kb_id = 7, kb_user = 1, kb_name = ''kb'', kb_created = 0, kb_updated = 0\<rparr>)]"

definition demo_rel_request :: request where
  "demo_rel_request = \<lparr>rq_user = Some 1, rq_kb = ''7'', rq_doc = '''', rq_limit = '''', rq_after = ''''\<rparr>"

definition demo_rel_parse :: "string \<Rightarrow> uuid option" where
  "demo_rel_parse s = (if s = ''7'' then Some 7 else None)"

definition demo_answer_block :: "string \<Rightarrow> string" where
  "demo_answer_block n = ''PAIR: '' @ n @ line_end @ ''RELATION: founded'' @ line_end"

definition demo_relation_model :: "string \<Rightarrow> string" where
  "demo_relation_model prompt = ''CHUNK: 1'' @ line_end @
     concat (map demo_answer_block [''1'', ''2'', ''3'', ''4'', ''5'', ''6'', ''7'', ''8'', ''9'', ''10'', ''11'', ''12'', ''13'', ''14'', ''15''])"

definition demo_rel_repo :: rel_repo where
  "demo_rel_repo = rel_SeedCandidates 1 7
     [\<lparr>cd_chunk = 4, cd_text = ''Ada met Bo and Cy.'',
       cd_pairs = [\<lparr>ep_a = 11, ep_text_a = ''Ada'', ep_b = 12, ep_text_b = ''Bo''\<rparr>,
                   \<lparr>ep_a = 11, ep_text_a = ''Ada'', ep_b = 13, ep_text_b = ''Cy''\<rparr>]\<rparr>] rel_New"

lemma demo_answers_all: "answers_all 1 ('''', '''') demo_relation_model"
proof -
  have "list_all (\<lambda>j. gm_get (rel_parseResponse (demo_relation_model p)) (1, int j + 1) \<noteq> None) [0..<15]" for p
    unfolding demo_relation_model_def by code_simp
  then have "gm_get (rel_parseResponse (demo_relation_model p)) (1, int j + 1) \<noteq> None" if "j < 15" for p j
    using that by (simp only: list_all_iff set_upt) simp
  then show ?thesis by (auto simp: answers_all_def maxPairsPerChunk_def le_Suc_eq)
qed



end
