(* ===== verification/Worker.thy ===== *)
theory Worker
  imports DocIndex Relations
begin

text \<open>
  The stateless jobs: \<^verbatim>\<open>internal/worker\<close> (co-occurrence edges and canonicalization), the
  state machine steps that run them (\<^verbatim>\<open>internal/worker/lambda\<close>) and the backfill of
  \<^verbatim>\<open>internal/canonicalize\<close>.

  Logging is left out; \<^verbatim>\<open>OnFailed\<close> only logs. A step's event is given decoded. Grouping
  mentions by chunk goes through a Go map; the groups are taken in the order the chunks first occur,
  and the order only decides the order of the new rows.
\<close>

record 's worker_handler =
  wh_handle :: "job \<Rightarrow> 's proc"
  wh_failed :: "job \<Rightarrow> 's \<Rightarrow> 's"

subsection \<open>Co-occurrence edges\<close>

record 's edge_ops =
  eo_doc_get :: "uuid \<Rightarrow> uuid \<Rightarrow> ('s, document) call"
  eo_ent_list :: "uuid \<Rightarrow> uuid \<Rightarrow> ('s, entity list) call"
  eo_delete :: "uuid \<Rightarrow> uuid \<Rightarrow> 's proc"
  eo_create :: "edge list \<Rightarrow> 's proc"

definition maxEntitiesForEdges :: nat where
  "maxEntitiesForEdges = 25"

text \<open>The two nested loops: every pair of positions \<open>i < j\<close> of a group.\<close>

fun pairs_of :: "'a list \<Rightarrow> ('a \<times> 'a) list" where
  "pairs_of [] = []"
| "pairs_of (x # xs) = map (Pair x) xs @ pairs_of xs"

definition by_chunk :: "entity list \<Rightarrow> entity list list" where
  "by_chunk es = map (\<lambda>c. filter (\<lambda>e. e_chunk e = c) es) (remdups (map e_chunk es))"

definition group_edges :: "uuid \<Rightarrow> uuid \<Rightarrow> uuid \<Rightarrow> entity list \<Rightarrow> edge list" where
  "group_edges doc kb user es =
     (if length es > maxEntitiesForEdges then []
      else map (\<lambda>(x, y). NewEdge doc kb user (e_chunk x) (e_id x) (e_id y)) (pairs_of es))"

definition edge_Handle :: "'s edge_ops \<Rightarrow> job \<Rightarrow> 's proc" where
  "edge_Handle A job =
     try_call (eo_doc_get A (job_user job) (job_doc job))
       (\<lambda>e s. (s, Some (Wrapf ''edgehandler: get document'' (retryable e))))
       (\<lambda>doc. try_call (eo_ent_list A (job_user job) (job_doc job))
          (\<lambda>e s. (s, Some (Wrapf ''edgehandler: list entities for document'' (retryable e))))
          (\<lambda>all.
             let edges = concat (map (group_edges (job_doc job) (d_kb doc) (job_user job)) (by_chunk all))
             in try_proc (eo_delete A (job_user job) (job_doc job))
                  (\<lambda>e s. (s, Some (Wrapf ''edgehandler: clear existing edges'' (retryable e))))
                  (\<lambda>s. if edges = [] then (s, None)
                       else try_proc (eo_create A edges)
                              (\<lambda>e s. (s, Some (Wrapf ''edgehandler: persist edges'' (retryable e))))
                              (\<lambda>s. (s, None)) s)))"

definition edge_handler :: "'s edge_ops \<Rightarrow> 's worker_handler" where
  "edge_handler A = \<lparr>wh_handle = edge_Handle A, wh_failed = \<lambda>job s. s\<rparr>"

subsection \<open>Canonicalization\<close>

record 's cross_deps =
  xd_chains :: "uuid \<Rightarrow> uuid \<Rightarrow> int \<Rightarrow> ('s, chain list) call"
  xd_extract :: "chain list \<Rightarrow> ('s, cross_update list) call"
  xd_apply :: "uuid \<Rightarrow> uuid \<Rightarrow> cross_update list \<Rightarrow> 's proc"

record 's canon_ops =
  co_doc_get :: "uuid \<Rightarrow> uuid \<Rightarrow> ('s, document) call"
  co_ent_list :: "uuid \<Rightarrow> uuid \<Rightarrow> ('s, entity list) call"
  co_canonicalize :: "entity list \<Rightarrow> ('s, (uuid, uuid) gomap) call"
  co_set :: "uuid \<Rightarrow> (uuid, uuid) gomap \<Rightarrow> 's proc"
  co_alias :: "'s alias_deps option"
  co_cross :: "'s cross_deps option"
  co_limit :: int

definition defaultMaxCrossLinkCandidatesPerRun :: int where
  "defaultMaxCrossLinkCandidatesPerRun = 20"

definition runCrossLink :: "'s cross_deps \<Rightarrow> int \<Rightarrow> uuid \<Rightarrow> uuid \<Rightarrow> 's proc" where
  "runCrossLink X crossLinkLimit userID kbID =
     (let limit = (if crossLinkLimit \<le> 0 then defaultMaxCrossLinkCandidatesPerRun else crossLinkLimit)
      in try_call (xd_chains X userID kbID limit)
           (\<lambda>e s. (s, Some (Wrapf ''find candidate chains'' e)))
           (\<lambda>candidates s.
              if candidates = [] then (s, None)
              else try_call (xd_extract X candidates) (\<lambda>e s. (s, Some (Wrapf ''extract'' e)))
                     (\<lambda>updates. try_proc (xd_apply X userID kbID updates)
                        (\<lambda>e s. (s, Some (Wrapf ''apply updates'' e))) (\<lambda>s. (s, None))) s))"

definition canon_Handle :: "'s canon_ops \<Rightarrow> job \<Rightarrow> 's proc" where
  "canon_Handle A job =
     try_call (co_doc_get A (job_user job) (job_doc job))
       (\<lambda>e s. (s, Some (Wrapf ''canonicalizationhandler: get document'' (retryable e))))
       (\<lambda>doc. try_call (co_ent_list A (job_user job) (job_doc job))
          (\<lambda>e s. (s, Some (Wrapf ''canonicalizationhandler: list entities for document'' (retryable e))))
          (\<lambda>mentions s.
             if mentions = [] then (s, None)
             else try_call (ResolveNew (co_canonicalize A) (co_set A) (job_user job) mentions)
               (\<lambda>e s. (s, Some (Wrapf ''canonicalizationhandler: resolve document'' (retryable e))))
               (\<lambda>resolved.
                  try_proc
                    (case co_alias A of
                       None \<Rightarrow> (\<lambda>s. (s, None))
                     | Some D \<Rightarrow> if resolved = [] then (\<lambda>s. (s, None)) else ResolveAliases D (job_user job) (d_kb doc) resolved)
                    (\<lambda>e s. (s, Some (Wrapf ''canonicalizationhandler: resolve aliases for document'' (retryable e))))
                    (try_proc
                       (case co_cross A of
                          None \<Rightarrow> (\<lambda>s. (s, None))
                        | Some X \<Rightarrow> runCrossLink X (co_limit A) (job_user job) (d_kb doc))
                       (\<lambda>e s. (s, Some (Wrapf ''canonicalizationhandler: cross-chunk linking for document'' (retryable e))))
                       (\<lambda>s. (s, None)))) s))"

definition canon_handler :: "'s canon_ops \<Rightarrow> 's worker_handler" where
  "canon_handler A = \<lparr>wh_handle = canon_Handle A, wh_failed = \<lambda>job s. s\<rparr>"

subsection \<open>The state machine steps\<close>

record step_input =
  si_type :: job_type
  si_doc :: uuid
  si_user :: uuid
  si_attempt :: int
  si_error :: "step_error option"

definition si_key :: "step_input \<Rightarrow> jkey" where
  "si_key inp = \<lparr>k_user = si_user inp, k_doc = si_doc inp, k_type = si_type inp\<rparr>"

definition si_job :: "step_input \<Rightarrow> job" where
  "si_job inp = \<lparr>job_kind = si_type inp, job_doc = si_doc inp, job_user = si_user inp\<rparr>"

text \<open>A job the publisher never recorded runs untracked.\<close>

definition worker_run :: "'s status_writer \<Rightarrow> 's worker_handler \<Rightarrow> step_input \<Rightarrow> 's proc" where
  "worker_run W h inp s =
     (case sw_mark_processing W (si_key inp) (si_attempt inp) s of
        (s, err) \<Rightarrow>
          if Superseded err then (s, None)
          else if err \<noteq> None \<and> \<not> err_is err ErrJobNotFound
          then (s, Some (Wrapf ''worker/lambda: mark processing'' (Transient (the err))))
          else try_proc (wh_handle h (si_job inp))
                 (\<lambda>e s. (s, Some (Wrapf ''worker/lambda: handle job'' e)))
                 (\<lambda>s. if err \<noteq> None then (s, None)
                      else (case sw_mark_succeeded W (si_key inp) (si_attempt inp) s of
                              (s, err) \<Rightarrow>
                                if err \<noteq> None \<and> \<not> Superseded err
                                then (s, Some (Wrapf ''worker/lambda: mark succeeded'' (Transient (the err))))
                                else (s, None))) s)"

definition worker_recordFailure :: "'s status_writer \<Rightarrow> 's worker_handler \<Rightarrow> step_input \<Rightarrow> 's proc" where
  "worker_recordFailure W h inp s =
     (case sw_mark_failed W (si_key inp) (si_attempt inp) (Reason (si_error inp)) s of
        (s, err) \<Rightarrow>
          if Superseded err then (s, None)
          else if err \<noteq> None \<and> \<not> err_is err ErrJobNotFound
          then (s, Some (Wrapf ''worker/lambda: record failure'' (Transient (the err))))
          else (wh_failed h (si_job inp) s, None))"

definition worker_HandleStep ::
    "'s status_writer \<Rightarrow> (job_type, 's worker_handler) gomap \<Rightarrow> (string \<times> step_input) option \<Rightarrow> 's proc" where
  "worker_HandleStep W handlers ev s =
     (case ev of
        None \<Rightarrow> (s, Some (Plain ''worker/lambda: decode step event''))
      | Some (step, inp) \<Rightarrow>
          (case gm_get handlers (si_type inp) of
             None \<Rightarrow> (s, Some (Plain (''worker/lambda: no handler registered for job type '' @ job_type_str (si_type inp))))
           | Some h \<Rightarrow>
               if step = ''run'' then (case worker_run W h inp s of (s, r) \<Rightarrow> (s, ForLambda r))
               else if step = ''record_failure'' then (case worker_recordFailure W h inp s of (s, r) \<Rightarrow> (s, ForLambda r))
               else (s, Some (Plain (''worker/lambda: unknown step '' @ step)))))"

subsection \<open>The canonicalization backfill\<close>

record 's backfill_ops =
  bo_sessions :: "('s, session list) call"
  bo_kbs :: "uuid \<Rightarrow> ('s, kbase list) call"
  bo_docs :: "uuid \<Rightarrow> uuid \<Rightarrow> ('s, document list) call"
  bo_ents :: "uuid \<Rightarrow> uuid \<Rightarrow> ('s, entity list) call"
  bo_canonicalize :: "entity list \<Rightarrow> ('s, (uuid, uuid) gomap) call"
  bo_set :: "uuid \<Rightarrow> (uuid, uuid) gomap \<Rightarrow> 's proc"

record backfill_result =
  br_resolved :: nat
  br_errors :: "gerror list"

definition backfill_error :: "string \<Rightarrow> gerror \<Rightarrow> backfill_result \<Rightarrow> backfill_result" where
  "backfill_error what e res = res\<lparr>br_errors := br_errors res @ [Wrapf what e]\<rparr>"

definition backfill_doc :: "'s backfill_ops \<Rightarrow> uuid \<Rightarrow> 's \<times> backfill_result \<Rightarrow> document \<Rightarrow> 's \<times> backfill_result" where
  "backfill_doc A userID acc d =
     (let (s, res) = acc
      in try_call (bo_ents A userID (d_id d))
           (\<lambda>e s. (s, backfill_error ''list entities for document'' e res))
           (\<lambda>mentions s.
              let pending = length (filter (\<lambda>m. e_canonical m = None) mentions)
              in if pending = 0 then (s, res)
                 else try_call (ResolveNew (bo_canonicalize A) (bo_set A) userID mentions)
                        (\<lambda>e s. (s, backfill_error ''resolve canonical entities for document'' e res))
                        (\<lambda>resolved s. (s, res\<lparr>br_resolved := br_resolved res + pending\<rparr>)) s) s)"

definition backfillKB :: "'s backfill_ops \<Rightarrow> uuid \<Rightarrow> 's \<times> backfill_result \<Rightarrow> kbase \<Rightarrow> 's \<times> backfill_result" where
  "backfillKB A userID acc k =
     (let (s, res) = acc
      in try_call (bo_docs A userID (kb_id k))
           (\<lambda>e s. (s, backfill_error ''list documents for kb'' e res))
           (\<lambda>docs s. foldl (backfill_doc A userID) (s, res) docs) s)"

definition backfill_session :: "'s backfill_ops \<Rightarrow> 's \<times> backfill_result \<Rightarrow> session \<Rightarrow> 's \<times> backfill_result" where
  "backfill_session A acc sess =
     (let (s, res) = acc
      in try_call (bo_kbs A (s_id sess))
           (\<lambda>e s. (s, backfill_error ''list knowledge bases for session'' e res))
           (\<lambda>kbs s. foldl (backfillKB A (s_id sess)) (s, res) kbs) s)"

definition Backfill_Run :: "'s backfill_ops \<Rightarrow> ('s, backfill_result) call" where
  "Backfill_Run A =
     try_call (bo_sessions A)
       (\<lambda>e s. (s, Inl (Wrapf ''canonicalize: list sessions'' e)))
       (\<lambda>sessions s. case foldl (backfill_session A) (s, \<lparr>br_resolved = 0, br_errors = []\<rparr>) sessions of (s, res) \<Rightarrow> (s, Inr res))"

subsection \<open>Which pairs become edges\<close>

lemma pairs_of_map: "pairs_of (map f xs) = map (map_prod f f) (pairs_of xs)"
  by (induction xs) auto

lemma pairs_of_mem: "(a, b) \<in> set (pairs_of xs) \<Longrightarrow> a \<in> set xs \<and> b \<in> set xs"
  by (induction xs) auto

lemma ordered_pairs:
  fixes xs :: "'a :: linorder list"
  assumes "distinct xs"
  shows "distinct (map (\<lambda>(a, b). (min a b, max a b)) (pairs_of xs))"
    and "set (map (\<lambda>(a, b). (min a b, max a b)) (pairs_of xs)) = {(a, b). a \<in> set xs \<and> b \<in> set xs \<and> a < b}"
  using assms
proof (induction xs)
  case (Cons x xs)
  let ?f = "\<lambda>(a, b). (min a b, max a b)"
  {
    case 1
    have "distinct (map (\<lambda>y. (min x y, max x y)) xs)"
      using 1 unfolding distinct_map by (auto simp: inj_on_def min_def max_def split: if_splits)
    moreover have "set (map (\<lambda>y. (min x y, max x y)) xs) \<inter> set (map ?f (pairs_of xs)) = {}"
    proof -
      have "\<forall>q \<in> set (map ?f (pairs_of xs)). fst q \<noteq> x \<and> snd q \<noteq> x"
        using 1 by (auto simp: min_def max_def dest!: pairs_of_mem split: if_splits)
      moreover have "\<forall>q \<in> set (map (\<lambda>y. (min x y, max x y)) xs). fst q = x \<or> snd q = x"
        by (auto simp: min_def max_def)
      ultimately show ?thesis by blast
    qed
    ultimately show ?case using Cons.IH(1) 1 by (simp add: comp_def)
  next
    case 2
    have "(\<lambda>y. (min x y, max x y)) ` set xs =
        {(a, b). (a = x \<and> b \<in> set xs \<or> b = x \<and> a \<in> set xs) \<and> a < b}"
      (is "?L = ?R")
    proof
      have "(min x y, max x y) \<in> ?R" if "y \<in> set xs" for y
      proof -
        have "y \<noteq> x" using 2 that by auto
        then show ?thesis using that by (cases "x < y") (auto simp: min_def max_def)
      qed
      then show "?L \<subseteq> ?R" by (rule image_subsetI)
      have "(a, b) \<in> ?L" if "(a, b) \<in> ?R" for a b
      proof -
        have "if a = x then (a, b) = (min x b, max x b) \<and> b \<in> set xs else (a, b) = (min x a, max x a) \<and> a \<in> set xs"
          using that by (auto simp: min_def max_def)
        then show ?thesis by (metis (no_types, lifting) image_eqI)
      qed
      then show "?R \<subseteq> ?L" by (rule subrelI)
    qed
    then show ?case using Cons.IH(2) 2 by (auto simp: image_Un image_comp comp_def)
  }
qed auto

definition edge_key :: "edge \<Rightarrow> uuid \<times> uuid \<times> uuid" where
  "edge_key e = (g_chunk e, g_a e, g_b e)"

text \<open>
  What the edges of a document should be: its chunks with their co-occurring mentions, where a
  chunk has no more than the cap.
\<close>

definition co_occurring :: "entity list \<Rightarrow> (uuid \<times> uuid \<times> uuid) set" where
  "co_occurring es =
     {(c, a, b). \<exists>x\<in>set es. \<exists>y\<in>set es. e_chunk x = c \<and> e_chunk y = c \<and> e_id x = a \<and> e_id y = b \<and> a < b \<and>
        length (filter (\<lambda>e. e_chunk e = c) es) \<le> maxEntitiesForEdges}"

lemma group_edges_keys:
  assumes "distinct (map e_id es)" "\<And>e. e \<in> set es \<Longrightarrow> e_chunk e = c"
  shows "distinct (map edge_key (group_edges d k u es))"
    and "set (map edge_key (group_edges d k u es)) =
      (if length es \<le> maxEntitiesForEdges then {(c, a, b) | a b. a \<in> e_id ` set es \<and> b \<in> e_id ` set es \<and> a < b} else {})"
proof -
  have keys: "map edge_key (group_edges d k u es) =
      (if length es \<le> maxEntitiesForEdges
       then map (Pair c) (map (\<lambda>(a, b). (min a b, max a b)) (pairs_of (map e_id es))) else [])"
    using assms(2) by (auto simp: group_edges_def edge_key_def pairs_of_map dest: pairs_of_mem)
  have "distinct (map (Pair c) ps) \<longleftrightarrow> distinct ps" for ps :: "(uuid \<times> uuid) list"
    by (simp add: distinct_map inj_on_def)
  then show "distinct (map edge_key (group_edges d k u es))"
    unfolding keys using ordered_pairs(1)[OF assms(1)] by (simp only: distinct.simps simp_thms split: if_split)
  show "set (map edge_key (group_edges d k u es)) =
      (if length es \<le> maxEntitiesForEdges then {(c, a, b) | a b. a \<in> e_id ` set es \<and> b \<in> e_id ` set es \<and> a < b} else {})"
    unfolding keys using ordered_pairs(2)[OF assms(1)] by (auto simp del: map_map simp: image_iff) (force+)?
qed

lemma all_edges_keys:
  assumes "distinct (map e_id es)"
  shows "distinct (map edge_key (concat (map (group_edges d k u) (by_chunk es))))"
    and "set (map edge_key (concat (map (group_edges d k u) (by_chunk es)))) = co_occurring es"
proof -
  let ?g = "\<lambda>c. filter (\<lambda>e. e_chunk e = c) es"
  have part: "distinct (map e_id (?g c))" "\<And>e. e \<in> set (?g c) \<Longrightarrow> e_chunk e = c" for c
    using assms by (auto simp: distinct_map inj_on_def)
  have keys: "distinct (map edge_key (group_edges d k u (?g c)))"
    "set (map edge_key (group_edges d k u (?g c))) =
      (if length (?g c) \<le> maxEntitiesForEdges
       then {(c, a, b) | a b. a \<in> e_id ` set (?g c) \<and> b \<in> e_id ` set (?g c) \<and> a < b} else {})" for c
    by (rule group_edges_keys[OF part], assumption)+
  have eq: "map edge_key (concat (map (group_edges d k u) (by_chunk es))) =
      concat (map (\<lambda>c. map edge_key (group_edges d k u (?g c))) (remdups (map e_chunk es)))"
    by (simp add: by_chunk_def map_concat comp_def)
  have sep: "fst q = c" if "q \<in> set (map edge_key (group_edges d k u (?g c)))" for q c
    using that unfolding keys(2) by (auto split: if_splits)
  have "distinct (concat (map (\<lambda>c. map edge_key (group_edges d k u (?g c))) cs))" if "distinct cs" for cs
    using that
  proof (induction cs)
    case (Cons c cs)
    have "q \<notin> set (concat (map (\<lambda>c. map edge_key (group_edges d k u (?g c))) cs))"
      if "q \<in> set (map edge_key (group_edges d k u (?g c)))" for q
    proof
      assume "q \<in> set (concat (map (\<lambda>c. map edge_key (group_edges d k u (?g c))) cs))"
      then obtain c' where c': "c' \<in> set cs" "q \<in> set (map edge_key (group_edges d k u (?g c')))"
        by auto
      have "c = c'" using sep[OF that] sep[OF c'(2)] by simp
      then show False using Cons.prems c'(1) by simp
    qed
    then have "set (map edge_key (group_edges d k u (?g c))) \<inter>
        set (concat (map (\<lambda>c. map edge_key (group_edges d k u (?g c))) cs)) = {}" by blast
    with Cons keys(1)[of c] show ?case by (simp only: list.map concat.simps distinct_append distinct.simps)
  qed simp
  from this[OF distinct_remdups] show "distinct (map edge_key (concat (map (group_edges d k u) (by_chunk es))))"
    unfolding eq .
  have "set (map edge_key (concat (map (group_edges d k u) (by_chunk es)))) =
      (\<Union>c\<in>e_chunk ` set es. set (map edge_key (group_edges d k u (?g c))))"
    unfolding eq by simp
  also have "\<dots> = co_occurring es"
    unfolding keys(2)
  proof (rule set_eqI, clarify)
    fix c a b
    have "(c, a, b) \<in> (\<Union>c\<in>e_chunk ` set es. if length (?g c) \<le> maxEntitiesForEdges
          then {(c, a, b) | a b. a \<in> e_id ` set (?g c) \<and> b \<in> e_id ` set (?g c) \<and> a < b} else {}) \<longleftrightarrow>
        (\<exists>c'\<in>e_chunk ` set es. c' = c \<and> length (?g c') \<le> maxEntitiesForEdges \<and> a \<in> e_id ` set (?g c') \<and>
           b \<in> e_id ` set (?g c') \<and> a < b)"
      by (simp only: UN_iff if_split_mem2 mem_Collect_eq empty_iff prod.inject) blast
    also have "\<dots> \<longleftrightarrow> (c, a, b) \<in> co_occurring es"
      by (simp add: co_occurring_def image_iff) blast
    finally show "(c, a, b) \<in> (\<Union>c\<in>e_chunk ` set es. if length (?g c) \<le> maxEntitiesForEdges
          then {(c, a, b) | a b. a \<in> e_id ` set (?g c) \<and> b \<in> e_id ` set (?g c) \<and> a < b} else {}) \<longleftrightarrow>
        (c, a, b) \<in> co_occurring es" .
  qed
  finally show "set (map edge_key (concat (map (group_edges d k u) (by_chunk es)))) = co_occurring es" .
qed


subsection \<open>The edge job over the in-memory backend\<close>

type_synonym edge_world = "world \<times> edge_repo"

definition lift_call :: "(world, 'a) call \<Rightarrow> (edge_world, 'a) call" where
  "lift_call p s = (case p (fst s) of (w, r) \<Rightarrow> ((w, snd s), r))"

definition lift_proc :: "world proc \<Rightarrow> edge_world proc" where
  "lift_proc p s = (case p (fst s) of (w, r) \<Rightarrow> ((w, snd s), r))"

definition edge_write :: "(edge_repo \<Rightarrow> edge_repo) \<Rightarrow> edge_world proc" where
  "edge_write f s = (case faulty_proc (\<lambda>w. (w, None)) (fst s) of
     (w, None) \<Rightarrow> ((w, f (snd s)), None) | (w, Some e) \<Rightarrow> ((w, snd s), Some e))"

definition new_edge_ids :: "nat \<Rightarrow> edge_repo \<Rightarrow> uuid list" where
  "new_edge_ids n g = (let b = Suc (foldr max (gm_keys g) 0) in [b ..< b + n])"

definition ew_ops :: "edge_world edge_ops" where
  "ew_ops =
     \<lparr>eo_doc_get = \<lambda>u i. lift_call (b_doc_get mem_backend u i),
      eo_ent_list = \<lambda>u d. lift_call (b_ent_list mem_backend u d),
      eo_delete = \<lambda>u d. edge_write (edge_DeleteByDocument u d),
      eo_create = \<lambda>es. edge_write (\<lambda>g. edge_BulkCreate (new_edge_ids (length es) g) es g)\<rparr>"

definition ew_status :: "edge_world status_writer" where
  "ew_status = (let W = b_status mem_backend in
     \<lparr>sw_enqueue = \<lambda>k. lift_call (sw_enqueue W k), sw_mark_processing = \<lambda>k a. lift_proc (sw_mark_processing W k a),
      sw_set_phase = \<lambda>k a ph. lift_proc (sw_set_phase W k a ph), sw_mark_succeeded = \<lambda>k a. lift_proc (sw_mark_succeeded W k a),
      sw_mark_failed = \<lambda>k a rs. lift_proc (sw_mark_failed W k a rs)\<rparr>)"

definition edges_of :: "uuid \<Rightarrow> uuid \<Rightarrow> edge_repo \<Rightarrow> edge list" where
  "edges_of u d g = filter (\<lambda>e. g_user e = u \<and> g_doc e = d) (gm_vals g)"

definition mentions_of :: "uuid \<Rightarrow> uuid \<Rightarrow> entity_repo \<Rightarrow> entity list" where
  "mentions_of u d r = filter (\<lambda>e. e_user e = u \<and> e_doc e = d) (gm_vals r)"

text \<open>The mentions of a document are under their own identifiers.\<close>

definition mentions_ok :: "entity_repo \<Rightarrow> bool" where
  "mentions_ok r \<longleftrightarrow> distinct (gm_keys r) \<and> list_all (\<lambda>(i, e). e_id e = i) r"

definition edges_exact :: "uuid \<Rightarrow> uuid \<Rightarrow> entity_repo \<Rightarrow> edge_repo \<Rightarrow> bool" where
  "edges_exact u d ents g \<longleftrightarrow>
     distinct (map edge_key (edges_of u d g)) \<and> set (map edge_key (edges_of u d g)) = co_occurring (mentions_of u d ents)"

lemma mentions_distinct: "mentions_ok r \<Longrightarrow> distinct (map e_id (entity_ListByDocument u d r))"
proof -
  assume a: "mentions_ok r"
  then have "gm_keys r = map e_id (gm_vals r)" by (auto simp: mentions_ok_def list_all_iff)
  then have "distinct (map e_id (gm_vals r))" using a unfolding mentions_ok_def by argo
  then have "distinct (map e_id (mentions_of u d r))" by (simp add: mentions_of_def distinct_map_filter)
  then show ?thesis
    by (simp add: entity_ListByDocument_def mentions_of_def distinct_map)
qed

lemma co_occurring_list: "co_occurring (entity_ListByDocument u d r) = co_occurring (mentions_of u d r)"
proof -
  have "length (filter P (sort_slice lt xs)) = length (filter P xs)" for P lt and xs :: "entity list"
    by (metis mset_filter mset_sort_slice size_mset)
  then show ?thesis by (simp add: co_occurring_def entity_ListByDocument_def mentions_of_def)
qed

lemma edges_of_delete [simp]:
  "edges_of u d (edge_DeleteByDocument u d g) = []"
  "edge_DeleteByDocument u d (edge_DeleteByDocument u d g) = edge_DeleteByDocument u d g"
  by (auto simp: edges_of_def edge_DeleteByDocument_def filter_empty_conv)

lemma new_edges_fresh: "length (new_edge_ids n g) = n" "distinct (new_edge_ids n g)" "set (new_edge_ids n g) \<inter> set (gm_keys g) = {}"
proof -
  have "\<not> foldr max (gm_keys g) 0 < i" if "i \<in> set (gm_keys g)" for i
    using foldr_max_ge[OF that] by simp
  then show "set (new_edge_ids n g) \<inter> set (gm_keys g) = {}" by (force simp: new_edge_ids_def Let_def)
qed (simp_all add: new_edge_ids_def Let_def)

lemma edges_created:
  assumes "\<And>e. e \<in> set es \<Longrightarrow> g_user e = u \<and> g_doc e = d"
    and "g' = edge_BulkCreate (new_edge_ids (length es) g) es g" "g = edge_DeleteByDocument u d g0"
  shows "map edge_key (edges_of u d g') = map edge_key es" "edge_DeleteByDocument u d g' = g"
proof -
  let ?ids = "new_edge_ids (length es) g"
  let ?new = "map2 (\<lambda>i e. e\<lparr>g_id := i\<rparr>) ?ids es"
  have g': "g' = g @ zip ?ids ?new"
    using new_edges_fresh[where n = "length es" and g = g] foldl_put_fresh[of ?ids es g "\<lambda>i e. e\<lparr>g_id := i\<rparr>"]
    by (auto simp: assms(2) edge_BulkCreate_def)
  have len: "length ?new = length ?ids" by (simp add: new_edges_fresh)
  have own: "g_user e = u \<and> g_doc e = d" if "e \<in> set ?new" for e
    using that assms(1) by (auto simp: set_zip)
  have "edges_of u d g' = ?new"
    using own edges_of_delete(1)[of u d g0] len by (auto simp: g' edges_of_def assms(3)[symmetric] filter_id_conv)
  moreover have "map edge_key ?new = map edge_key es"
    by (rule map2_nth_eq) (simp_all add: new_edges_fresh edge_key_def)
  ultimately show "map edge_key (edges_of u d g') = map edge_key es" by simp
  have "filter (\<lambda>(i, e). \<not> (g_user e = u \<and> g_doc e = d)) (zip ?ids ?new) = []"
    using own by (auto simp: filter_empty_conv dest: set_zip_rightD)
  then show "edge_DeleteByDocument u d g' = g"
    using edges_of_delete(2)[of u d g0] by (simp add: g' assms(3)[symmetric]) (simp add: edge_DeleteByDocument_def)
qed


lemma edge_write_effect:
  "edge_write f (w, g) = ((w', g'), r) \<Longrightarrow>
     world_view w' = world_view w \<and> (case r of None \<Rightarrow> g' = f g | Some e \<Rightarrow> g' = g)"
  by (auto simp: edge_write_def faulty_proc_def split: prod.splits list.splits option.splits bool.splits)

text \<open>The handler: the edges are replaced, or only cleared, or left alone.\<close>

lemma edge_Handle_effect:
  assumes "mentions_ok (w_ents w)" "edge_Handle ew_ops job (w, g) = ((w', g'), r)"
    and job: "job_user job = u" "job_doc job = d"
  shows "world_view w' = world_view w \<and> edge_DeleteByDocument u d g' = edge_DeleteByDocument u d g \<and>
    (case r of None \<Rightarrow> edges_exact u d (w_ents w) g' | Some e \<Rightarrow> edges_of u d g' \<in> {edges_of u d g, []})"
proof -
  obtain w1 dr where c1: "b_doc_get mem_backend u d w = (w1, dr)" by fastforce
  have v1: "world_view w1 = world_view w" using call_okD[OF mem.doc_get c1] by auto
  show ?thesis
  proof (cases dr)
    case (Inl e)
    then have "w' = w1 \<and> g' = g \<and> r \<noteq> None"
      using assms(2) c1 by (auto simp: edge_Handle_def try_call_def ew_ops_def lift_call_def job)
    then show ?thesis using v1 by auto
  next
    case (Inr doc)
    obtain w2 lr where c2: "b_ent_list mem_backend u d w1 = (w2, lr)" by fastforce
    have v2: "world_view w2 = world_view w" using call_okD[OF mem.ent_list c2] v1 by auto
    show ?thesis
    proof (cases lr)
      case (Inl e)
      then have "w' = w2 \<and> g' = g \<and> r \<noteq> None"
        using assms(2) c1 c2 Inr by (auto simp: edge_Handle_def try_call_def ew_ops_def lift_call_def job)
      then show ?thesis using v2 by auto
    next
      case lr: (Inr ms)
      have ents: "w_ents w1 = w_ents w" using v1 by (metis world_view_sel(5))
      have ms: "ms = entity_ListByDocument u d (w_ents w)"
        using call_okD[OF mem.ent_list c2] lr ents by auto
      define es where "es = concat (map (group_edges d (d_kb doc) u) (by_chunk ms))"
      note keys = all_edges_keys[OF mentions_distinct[OF assms(1), of u d], where d = d and k = "d_kb doc" and u = u,
          folded ms, folded es_def, unfolded ms co_occurring_list]
      have own: "g_user e = u \<and> g_doc e = d" if "e \<in> set es" for e
        using that by (auto simp: es_def group_edges_def split: if_splits)
      obtain w3 g3 r3 where c3: "edge_write (edge_DeleteByDocument u d) (w2, g) = ((w3, g3), r3)"
        by (metis surj_pair)
      note e3 = edge_write_effect[OF c3]
      note run = edge_Handle_def try_call_def try_proc_def ew_ops_def lift_call_def c1 c2 c3 Inr lr job Let_def es_def[symmetric]
      show ?thesis
      proof (cases r3)
        case (Some e)
        then have "w' = w3 \<and> g' = g3 \<and> r \<noteq> None" using assms(2) by (auto simp: run simp del: concat_eq_Nil_conv)
        then show ?thesis using e3 v2 Some by auto
      next
        case None
        then have g3: "g3 = edge_DeleteByDocument u d g" "world_view w3 = world_view w" using e3 v2 by auto
        show ?thesis
        proof (cases "es = []")
          case True
          then have out: "w' = w3" "g' = edge_DeleteByDocument u d g" "r = None"
            using assms(2) None g3(1) by (auto simp: run simp del: concat_eq_Nil_conv)
          have "co_occurring (mentions_of u d (w_ents w)) = {}" using keys(2)[symmetric] unfolding True by simp
          then show ?thesis unfolding out by (simp add: edges_exact_def g3(2))
        next
          case False
          obtain s4 r4 where s4: "edge_write (\<lambda>g. edge_BulkCreate (new_edge_ids (length es) g) es g) (w3, g3) = (s4, r4)"
            by (rule prod.exhaust)
          obtain w4 g4 where "s4 = (w4, g4)" by (rule prod.exhaust)
          note c4 = s4[unfolded this]
          note e4 = edge_write_effect[OF c4]
          have out: "w' = w4 \<and> g' = g4 \<and> (r = None \<longleftrightarrow> r4 = None)" using assms(2) None False c4 by (auto simp: run simp del: concat_eq_Nil_conv split: option.splits)
          show ?thesis
          proof (cases r4)
            case None
            then have "g4 = edge_BulkCreate (new_edge_ids (length es) g3) es g3" using e4 by simp
            from edges_created[OF own this g3(1)] have "map edge_key (edges_of u d g4) = map edge_key es"
              "edge_DeleteByDocument u d g4 = g3" by blast+
            then show ?thesis using out e4 g3 None keys by (simp add: edges_exact_def)
          next
            case (Some e)
            then show ?thesis using out e4 g3 by (auto split: option.split)
          qed
        qed
      qed
    qed
  qed
qed


subsection \<open>A step of the job\<close>

definition current_active :: "jrecord \<Rightarrow> int \<Rightarrow> bool" where
  "current_active c a \<longleftrightarrow> a = r_attempt c \<and> Active (r_status c)"

lemma transition_visible:
  assumes "visible recs k = Some c" "to \<in> {StProcessing, StSucceeded}"
  shows "\<not> current_active c a \<Longrightarrow> a = r_attempt c \<longrightarrow> r_status c \<noteq> to \<Longrightarrow> spec_transition k a to ph rs recs = (recs', e) \<Longrightarrow>
      recs' = recs \<and> Superseded e"
    and "current_active c a \<Longrightarrow> spec_transition k a to ph rs recs = (recs', e) \<Longrightarrow>
      e = None \<and> (\<exists>c'. visible recs' k = Some c' \<and> r_status c' = to \<and> r_attempt c' = a)"
proof -
  have rec: "recs (slot_of k) = Some c" "k_user (r_key c) = k_user k"
    using assms(1) by (auto simp: visible_def split: option.splits if_splits)
  show "recs' = recs \<and> Superseded e"
    if "\<not> current_active c a" "a = r_attempt c \<longrightarrow> r_status c \<noteq> to" "spec_transition k a to ph rs recs = (recs', e)"
  proof -
    have "fst (Transition c a to ph rs) = c \<and> Superseded (snd (snd (Transition c a to ph rs)))"
      using that(1,2) assms(2) by (auto simp: Transition_def current_active_def)
    then show ?thesis using that(3) assms(1) rec(1) by (auto simp: spec_transition_def fun_upd_idem)
  qed
  show "e = None \<and> (\<exists>c'. visible recs' k = Some c' \<and> r_status c' = to \<and> r_attempt c' = a)"
    if "current_active c a" "spec_transition k a to ph rs recs = (recs', e)"
    using that assms rec by (auto simp: spec_transition_def Transition_def current_active_def visible_def Let_def)
qed

lemma processing_not_finished: "\<not> current_active c a \<Longrightarrow> a = r_attempt c \<longrightarrow> r_status c \<noteq> StProcessing"
  by (auto simp: current_active_def Active_simps)

lemma outage_plain_error: "outage e \<Longrightarrow> \<not> Superseded (Some e) \<and> \<not> err_is (Some e) ErrJobNotFound"
  using outage_not_superseded outage_not_found(1) by (auto simp: err_is_def)

lemma edge_run_effect:
  assumes "mentions_ok (w_ents w)" "js_Get (w_jobs w) (si_key inp) = Inr c"
    and "worker_run ew_status (edge_handler ew_ops) inp (w, g) = ((w', g'), r)"
    and inp: "si_user inp = u" "si_doc inp = d"
  shows "if current_active c (si_attempt inp)
    then edge_DeleteByDocument u d g' = edge_DeleteByDocument u d g \<and>
      (case r of
         None \<Rightarrow> edges_exact u d (w_ents w) g' \<and> (\<exists>c'. js_Get (w_jobs w') (si_key inp) = Inr c' \<and> r_status c' = StSucceeded)
       | Some e \<Rightarrow> edges_exact u d (w_ents w) g' \<or> edges_of u d g' \<in> {edges_of u d g, []})
    else g' = g \<and> world_view w' = world_view w"
proof -
  let ?k = "si_key inp" and ?a = "si_attempt inp"
  have vis: "visible (js_recs (w_jobs w)) ?k = Some c" using assms(2) by (simp add: js_Get_Inr)
  obtain w1 e1 where p1: "sw_mark_processing (b_status mem_backend) ?k ?a w = (w1, e1)" by (rule prod.exhaust)
  from proc_okD[OF mem.st_processing p1]
  consider (rules) "world_view w1 = (world_view w)\<lparr>v_recs := fst (spec_transition ?k ?a StProcessing '''' '''' (js_recs (w_jobs w)))\<rparr>"
      "e1 = snd (spec_transition ?k ?a StProcessing '''' '''' (js_recs (w_jobs w)))"
    | (down) e where "world_view w1 = world_view w" "e1 = Some e" "outage e" by auto
  then show ?thesis
  proof cases
    case down
    then have "w' = w1 \<and> g' = g \<and> r \<noteq> None"
      using assms(3) p1 outage_plain_error[OF down(3)] by (auto simp: worker_run_def ew_status_def lift_proc_def Let_def)
    then show ?thesis using down by (auto split: option.split)
  next
    case rules
    obtain recs1 e where sp: "spec_transition ?k ?a StProcessing '''' '''' (js_recs (w_jobs w)) = (recs1, e)" by (rule prod.exhaust)
    show ?thesis
    proof (cases "current_active c ?a")
      case False
      from transition_visible(1)[OF vis _ False processing_not_finished[OF False] sp] have "recs1 = js_recs (w_jobs w)" "Superseded e"
        by simp_all
      then have "w' = w1 \<and> g' = g" "world_view w1 = world_view w"
        using assms(3) p1 rules sp by (auto simp: worker_run_def ew_status_def lift_proc_def Let_def)
      then show ?thesis using False by simp
    next
      case True
      from transition_visible(2)[OF vis _ True sp] obtain c1 where
        e: "e = None" and c1: "visible recs1 ?k = Some c1" "r_status c1 = StProcessing" "r_attempt c1 = ?a" by auto
      have "v_recs (world_view w1) = recs1" "v_ents (world_view w1) = v_ents (world_view w)" using rules(1) sp by simp_all
      then have w1: "e1 = None" "js_recs (w_jobs w1) = recs1" "w_ents w1 = w_ents w"
        using rules(2) sp e by simp_all
      obtain s2 e2 where s2: "edge_Handle ew_ops (si_job inp) (w1, g) = (s2, e2)" by (rule prod.exhaust)
      obtain w2 g2 where "s2 = (w2, g2)" by (rule prod.exhaust)
      note p2 = s2[unfolded this]
      note h = edge_Handle_effect[OF _ p2, of u d, unfolded w1(3), OF assms(1)]
      have h: "world_view w2 = world_view w1" "edge_DeleteByDocument u d g2 = edge_DeleteByDocument u d g"
        "case e2 of None \<Rightarrow> edges_exact u d (w_ents w) g2 | Some e \<Rightarrow> edges_of u d g2 \<in> {edges_of u d g, []}"
        using edge_Handle_effect[OF _ p2, of u d] assms(1) w1(3) inp by (auto simp: si_job_def split: option.splits)
      show ?thesis
      proof (cases e2)
        case (Some x)
        then have "w' = w2 \<and> g' = g2 \<and> r \<noteq> None"
          using assms(3) p1 p2 w1(1)
          by (auto simp: worker_run_def ew_status_def lift_proc_def Let_def edge_handler_def try_proc_def err_is_def)
        then show ?thesis using True h Some by (auto split: option.split)
      next
        case None
        obtain w3 e3 where p3: "sw_mark_succeeded (b_status mem_backend) ?k ?a w2 = (w3, e3)" by (rule prod.exhaust)
        have out: "w' = w3 \<and> g' = g2 \<and> (r = None \<longleftrightarrow> e3 = None \<or> Superseded e3)"
          using assms(3) p1 p2 p3 w1(1) None
          by (auto simp: worker_run_def ew_status_def lift_proc_def Let_def edge_handler_def try_proc_def err_is_def split: if_splits)
        have vis2: "visible (js_recs (w_jobs w2)) ?k = Some c1" using h(1) w1(2) c1(1) by (metis world_view_sel(8))
        have act: "current_active c1 ?a" using c1 by (simp add: current_active_def)
        obtain recs3 x where sp3: "spec_transition ?k ?a StSucceeded '''' '''' (js_recs (w_jobs w2)) = (recs3, x)" by (rule prod.exhaust)
        from transition_visible(2)[OF vis2 _ act sp3] obtain c3 where
          c3: "x = None" "visible recs3 ?k = Some c3" "r_status c3 = StSucceeded" by auto
        from proc_okD[OF mem.st_succeeded p3] sp3 c3(1)
        have "e3 = None \<and> js_recs (w_jobs w3) = recs3 \<or> (\<exists>e. e3 = Some e \<and> outage e)"
          by (auto dest: arg_cong[where f = v_recs])
        then show ?thesis
          using True out h None c3 outage_plain_error by (auto simp: js_Get_Inr split: option.split)
      qed
    qed
  qed
qed


text \<open>
  C37. Under any pattern of outages, a run step of the current attempt of an edge job that returns
  without an error has left exactly one edge for each pair of mentions that share a chunk of at most
  25 mentions and has marked the job succeeded; one that returns an error left that, no edge or the
  edges of before; other documents keep their edges, and a step of another attempt, or of a finished
  job, changes nothing.
\<close>

theorem edge_job_exact:
  assumes "mentions_ok (w_ents w)" "js_Get (w_jobs w) (si_key inp) = Inr c" "si_type inp = EdgeExtraction"
    and "worker_HandleStep ew_status [(EdgeExtraction, edge_handler ew_ops)] (Some (''run'', inp)) (w, g) = ((w', g'), r)"
  shows "let u = si_user inp; d = si_doc inp in
    if current_active c (si_attempt inp)
    then edge_DeleteByDocument u d g' = edge_DeleteByDocument u d g \<and>
      (case r of
         None \<Rightarrow> edges_exact u d (w_ents w) g' \<and> (\<exists>c'. js_Get (w_jobs w') (si_key inp) = Inr c' \<and> r_status c' = StSucceeded)
       | Some e \<Rightarrow> edges_exact u d (w_ents w) g' \<or> edges_of u d g' \<in> {edges_of u d g, []})
    else g' = g \<and> world_view w' = world_view w"
proof -
  obtain r0 where "worker_run ew_status (edge_handler ew_ops) inp (w, g) = ((w', g'), r0)" "r = ForLambda r0"
    using assms(3,4) by (auto simp: worker_HandleStep_def split: prod.splits)
  from edge_run_effect[OF assms(1,2) this(1) refl refl] this(2) show ?thesis
    by (cases r0) (auto simp: Let_def split: if_splits option.split)
qed

definition demo_mention :: "uuid \<Rightarrow> uuid \<Rightarrow> entity" where
  "demo_mention i c =
     \<lparr>e_id = i, e_doc = 7, e_kb = 3, e_user = 1, e_chunk = c, e_type = ''person'', e_text = ''Ada'', e_start = int i,
      e_end = int i + 3, e_score = 1, e_canonical = None\<rparr>"

definition demo_edge_world :: "bool list \<Rightarrow> edge_world" where
  "demo_edge_world fs =
     ((demo_world [OpEnqueue (demo_key EdgeExtraction)] fs)
        \<lparr>w_ents := [(21, demo_mention 21 5), (22, demo_mention 22 5), (23, demo_mention 23 6), (24, demo_mention 24 5)]\<rparr>, [])"

definition demo_edge_input :: step_input where
  "demo_edge_input = \<lparr>si_type = EdgeExtraction, si_doc = 7, si_user = 1, si_attempt = 1, si_error = None\<rparr>"

definition demo_edge_step :: "bool list \<Rightarrow> edge_world \<times> gerror option" where
  "demo_edge_step fs =
     worker_HandleStep ew_status [(EdgeExtraction, edge_handler ew_ops)] (Some (''run'', demo_edge_input)) (demo_edge_world fs)"

lemma demo_edges:
  "map edge_key (edges_of 1 7 (snd (fst (demo_edge_step [])))) = [(5, 21, 22), (5, 21, 24), (5, 22, 24)]"
  "snd (demo_edge_step []) = None" "snd (demo_edge_step [False, False, False, False, True]) \<noteq> None"
  by code_simp+

theorem edge_job_exact_witness:
  "edges_exact 1 7 (w_ents (fst (demo_edge_world []))) (snd (fst (demo_edge_step [])))"
proof -
  let ?w = "fst (demo_edge_world [])"
  obtain s r where s: "demo_edge_step [] = (s, r)" by (rule prod.exhaust)
  obtain w' g' where "s = (w', g')" by (rule prod.exhaust)
  note step = s[unfolded this]
  have ok: "mentions_ok (w_ents ?w)" "si_type demo_edge_input = EdgeExtraction" by code_simp+
  obtain c where c: "js_Get (w_jobs ?w) (si_key demo_edge_input) = Inr c" "current_active c (si_attempt demo_edge_input)"
  proof -
    have "(case js_Get (w_jobs ?w) (si_key demo_edge_input) of
        Inr c \<Rightarrow> current_active c (si_attempt demo_edge_input) | Inl e \<Rightarrow> False)" by code_simp
    then show thesis using that by (auto split: sum.splits)
  qed
  have "r = None" using demo_edges(2) step by simp
  have run: "worker_HandleStep ew_status [(EdgeExtraction, edge_handler ew_ops)] (Some (''run'', demo_edge_input)) (?w, []) =
      ((w', g'), r)"
    using step by (simp add: demo_edge_step_def demo_edge_world_def)
  from edge_job_exact[OF ok(1) c(1) ok(2) run] c(2) \<open>r = None\<close> show ?thesis
    by (simp add: Let_def step demo_edge_input_def)
qed


subsection \<open>A retry after a failed alias resolution\<close>

text \<open>
  Once the mentions of a document are linked, as they are after a run that failed in alias
  resolution, a run resolves no aliases: it is the run of a handler without a judge.
\<close>

lemma retry_skips_aliases:
  fixes A :: "'s canon_ops"
  assumes "co_doc_get A (job_user job) (job_doc job) s = (s1, Inr doc)"
    and "co_ent_list A (job_user job) (job_doc job) s1 = (s2, Inr mentions)"
    and "list_all (\<lambda>m. e_canonical m \<noteq> None) mentions"
  shows "canon_Handle A job s = canon_Handle (A\<lparr>co_alias := None\<rparr>) job s"
proof -
  have "filter (\<lambda>m. e_canonical m = None) mentions = []"
    using assms(3) by (auto simp: list_all_iff filter_empty_conv)
  then have "ResolveNew c b u mentions s' = (s', Inr [])" for c b u and s' :: 's
    by (simp add: ResolveNew_def)
  then show ?thesis
    using assms(1,2) by (simp add: canon_Handle_def try_call_def try_proc_def split: option.split)
qed


end
