(* ===== verification/Insights.thy ===== *)
theory Insights
  imports Canonical Server
begin

text \<open>
  What a knowledge base's communities are about, and how good they are: \<^verbatim>\<open>internal/theme\<close>
  labels the largest communities and \<^verbatim>\<open>internal/intrusion\<close> asks a judge to find an entity planted
  in a community from another one, each with its in-memory repository and its routes
  (\<^verbatim>\<open>server/themehandler.go\<close>, \<^verbatim>\<open>server/intrusionhandler.go\<close>).

  The fixed sentences of the prompts and the NFKC form are parameters, the model is an operation from
  a prompt to a response, and the random generator is a state with its two operations.
\<close>

subsection \<open>Themes\<close>

record entity_ref =
  er_text :: string
  er_type :: string

record community_members =
  cm_id :: int
  cm_entities :: "entity_ref list"

record theme =
  tm_id :: int
  tm_label :: string
  tm_summary :: string
  tm_count :: nat

record theme_result =
  tr_computed_at :: timestamp
  tr_themes :: "theme list"

definition theme_ErrNoResult :: gerror where
  "theme_ErrNoResult = Plain ''theme: no result''"

definition maxSelectedCommunities :: nat where
  "maxSelectedCommunities = 5"

text \<open>
  The code multiplies by the double nearest 0.05. The ceiling of the rounded product and of the exact
  twentieth are the same up to a hundred communities, and both are over the cap beyond eighty.
\<close>

definition SelectTopCommunities :: "community_members list \<Rightarrow> community_members list" where
  "SelectTopCommunities members =
     (if members = [] then []
      else let sorted = sort_slice (\<lambda>a b. length (cm_entities a) > length (cm_entities b)) members;
               n = nat \<lceil>of_nat (length sorted) * (1 / 20 :: rat)\<rceil>;
               n = (if n < 1 then 1 else n);
               n = (if n > maxSelectedCommunities then maxSelectedCommunities else n)
           in take n sorted)"

definition maxEntitiesPerPrompt :: nat where
  "maxEntitiesPerPrompt = 30"

definition maxSignificantThemes :: nat where
  "maxSignificantThemes = 3"

definition newline :: string where
  "newline = [CHR 0x0A]"

definition theme_buildPrompt :: "string \<times> string \<Rightarrow> community_members list \<Rightarrow> string" where
  "theme_buildPrompt fixed candidates =
     fst fixed @
     concat (map (\<lambda>cm.
       let entities = (if length (cm_entities cm) > maxEntitiesPerPrompt
                       then take maxEntitiesPerPrompt (cm_entities cm) else cm_entities cm)
       in ''Community '' @ itoa (cm_id cm) @ '':'' @ newline @
          concat (map (\<lambda>e. ''- '' @ er_text e @ '' ('' @ er_type e @ '')'' @ newline) entities) @ newline) candidates) @
     snd fixed"

definition fallbackLabel :: string where
  "fallbackLabel = ''Untitled theme''"

text \<open>\<open>cur\<close> is the block being read; a finished block is kept only for a known community.\<close>

definition theme_flush :: "(int, nat) gomap \<Rightarrow> theme list \<Rightarrow> theme option \<Rightarrow> theme list" where
  "theme_flush counts themes cur =
     (case cur of
        None \<Rightarrow> themes
      | Some t \<Rightarrow>
          (case gm_get counts (tm_id t) of
             None \<Rightarrow> themes
           | Some n \<Rightarrow>
               let t = (if tm_label t = '''' then t\<lparr>tm_label := fallbackLabel\<rparr> else t)
               in themes @ [t\<lparr>tm_count := n\<rparr>]))"

fun theme_scan ::
    "(int, nat) gomap \<Rightarrow> theme list \<Rightarrow> string \<Rightarrow> theme option \<Rightarrow> string list \<Rightarrow> theme list \<times> string" where
  "theme_scan counts themes note cur [] = (theme_flush counts themes cur, note)"
| "theme_scan counts themes note cur (l # ls) =
     (let line = trim_space l
      in if has_prefix line ''COMMUNITY:''
         then theme_scan counts (theme_flush counts themes cur) note
                (map_option (\<lambda>i. \<lparr>tm_id = i, tm_label = '''', tm_summary = '''', tm_count = 0\<rparr>)
                  (atoi (trim_space (trim_prefix line ''COMMUNITY:'')))) ls
         else if has_prefix line ''NOTE:''
         then theme_scan counts (theme_flush counts themes cur) (trim_space (trim_prefix line ''NOTE:'')) None ls
         else (case cur of
                 None \<Rightarrow> theme_scan counts themes note cur ls
               | Some t \<Rightarrow>
                   if has_prefix line ''LABEL:''
                   then theme_scan counts themes note (Some (t\<lparr>tm_label := trim_space (trim_prefix line ''LABEL:'')\<rparr>)) ls
                   else if has_prefix line ''SUMMARY:''
                   then theme_scan counts themes note (Some (t\<lparr>tm_summary := trim_space (trim_prefix line ''SUMMARY:'')\<rparr>)) ls
                   else theme_scan counts themes note cur ls))"

definition theme_parseResponse :: "string \<Rightarrow> community_members list \<Rightarrow> theme list \<times> string" where
  "theme_parseResponse resp candidates =
     (let counts = foldl (\<lambda>m cm. gm_put (cm_id cm) (length (cm_entities cm)) m) [] candidates;
          (themes, note) = theme_scan counts [] '''' None (split_on (CHR 0x0A) resp);
          themes = (if length themes > maxSignificantThemes then take maxSignificantThemes themes else themes)
      in (themes, if length themes = 0 then '''' else note))"

definition Summarize ::
    "string \<times> string \<Rightarrow> (string \<Rightarrow> ('s, string) call) \<Rightarrow> community_members list \<Rightarrow> ('s, theme list \<times> string) call" where
  "Summarize fixed generate candidates s =
     (if candidates = [] then (s, Inr ([], ''''))
      else try_call (generate (theme_buildPrompt fixed candidates))
             (\<lambda>e s. (s, Inl (Wrapf ''theme: generate'' e)))
             (\<lambda>resp s. (s, Inr (theme_parseResponse resp candidates))) s)"

subsection \<open>Stored themes\<close>

record theme_repo =
  tp_members :: "(uuid \<times> uuid, community_members list) gomap"
  tp_results :: "(uuid \<times> uuid, theme_result) gomap"

definition theme_New :: theme_repo where
  "theme_New = \<lparr>tp_members = [], tp_results = []\<rparr>"

definition theme_SeedCommunityMembers :: "uuid \<Rightarrow> uuid \<Rightarrow> community_members list \<Rightarrow> theme_repo \<Rightarrow> theme_repo" where
  "theme_SeedCommunityMembers userID kbID ms r = r\<lparr>tp_members := gm_put (userID, kbID) ms (tp_members r)\<rparr>"

definition theme_CommunityMembers :: "uuid \<Rightarrow> uuid \<Rightarrow> theme_repo \<Rightarrow> community_members list" where
  "theme_CommunityMembers userID kbID r = gm_get_or [] (tp_members r) (userID, kbID)"

definition theme_SaveResult :: "uuid \<Rightarrow> uuid \<Rightarrow> theme list \<Rightarrow> timestamp \<Rightarrow> theme_repo \<Rightarrow> theme_repo" where
  "theme_SaveResult userID kbID ts computedAt r =
     r\<lparr>tp_results := gm_put (userID, kbID) \<lparr>tr_computed_at = computedAt, tr_themes = ts\<rparr> (tp_results r)\<rparr>"

definition theme_GetResult :: "uuid \<Rightarrow> uuid \<Rightarrow> theme_repo \<Rightarrow> gerror + theme_result" where
  "theme_GetResult userID kbID r =
     (case gm_get (tp_results r) (userID, kbID) of
        None \<Rightarrow> Inl theme_ErrNoResult
      | Some res \<Rightarrow> if length (tr_themes res) = 0 then Inl theme_ErrNoResult else Inr res)"

subsection \<open>The theme routes\<close>

record 's theme_ops =
  to_kb_get :: "uuid \<Rightarrow> uuid \<Rightarrow> ('s, kbase) call"
  to_members :: "uuid \<Rightarrow> uuid \<Rightarrow> ('s, community_members list) call"
  to_save :: "uuid \<Rightarrow> uuid \<Rightarrow> theme list \<Rightarrow> timestamp \<Rightarrow> 's proc"
  to_get :: "uuid \<Rightarrow> uuid \<Rightarrow> ('s, theme_result) call"
  to_generate :: "string \<Rightarrow> ('s, string) call"
  to_fixed :: "string \<times> string"

record theme_reply =
  ty_computed_at :: "timestamp option"
  ty_themes :: "theme list"
  ty_note :: string

definition moreThemesNote :: "nat \<Rightarrow> theme list \<Rightarrow> string \<Rightarrow> string" where
  "moreThemesNote totalCommunities ts reason =
     (if length ts = 0 \<or> totalCommunities \<le> length ts then '''' else reason)"

definition themeh_recompute ::
    "'s theme_ops \<Rightarrow> timestamp \<Rightarrow> (string \<Rightarrow> uuid option) \<Rightarrow> request \<Rightarrow> ('s, theme_reply) handler" where
  "themeh_recompute A now parse r =
     requireUserID r (\<lambda>userID. parseUUID parse (rq_kb r) (\<lambda>kbID.
       try_call (to_kb_get A userID kbID) (\<lambda>e s. (s, writeKBError e)) (\<lambda>_.
         try_call (to_members A userID kbID)
           (\<lambda>e s. (s, Problem 500 ''failed to load community membership''))
           (\<lambda>members s.
             if length members = 0 then (s, Problem 422 ''compute communities before generating themes'')
             else try_call (Summarize (to_fixed A) (to_generate A) (SelectTopCommunities members))
                    (\<lambda>e s. (s, Problem 500 ''failed to generate themes''))
                    (\<lambda>(ts, reason).
                       try_proc (to_save A userID kbID ts now)
                         (\<lambda>e s. (s, Problem 500 ''failed to save themes''))
                         (\<lambda>s. (s, Reply 200 \<lparr>ty_computed_at = Some now, ty_themes = ts,
                                  ty_note = moreThemesNote (length members) ts reason\<rparr>))) s))))"

definition themeh_get :: "'s theme_ops \<Rightarrow> (string \<Rightarrow> uuid option) \<Rightarrow> request \<Rightarrow> ('s, theme_reply) handler" where
  "themeh_get A parse r =
     requireUserID r (\<lambda>userID. parseUUID parse (rq_kb r) (\<lambda>kbID.
       try_call (to_kb_get A userID kbID) (\<lambda>e s. (s, writeKBError e)) (\<lambda>_.
         try_call (to_get A userID kbID)
           (\<lambda>e s. if errors_is e theme_ErrNoResult
                  then (s, Reply 200 \<lparr>ty_computed_at = None, ty_themes = [], ty_note = ''''\<rparr>)
                  else (s, Problem 500 ''failed to load themes''))
           (\<lambda>res s. (s, Reply 200 \<lparr>ty_computed_at = Some (tr_computed_at res), ty_themes = tr_themes res, ty_note = ''''\<rparr>)))))"

subsection \<open>The intrusion test\<close>

record intrusion_community =
  ic_id :: int
  ic_members :: "string list"
  ic_intruder :: string
  ic_answer :: string
  ic_correct :: bool

record intrusion_result =
  ir_computed_at :: timestamp
  ir_score :: float
  ir_tested :: nat
  ir_communities :: "intrusion_community list"

definition intrusion_ErrNoResult :: gerror where
  "intrusion_ErrNoResult = Plain ''intrusion: no result''"

definition minRealMembers :: nat where
  "minRealMembers = 3"

definition realMembersPerSet :: nat where
  "realMembersPerSet = 4"

definition maxCommunitiesPerRun :: nat where
  "maxCommunitiesPerRun = 30"

text \<open>
  \<^verbatim>\<open>math/rand\<close>, seeded with a constant: \<^verbatim>\<open>Intn(n)\<close> draws from \<open>0 .. n - 1\<close> and
  \<^verbatim>\<open>Shuffle\<close> permutes.
\<close>

record 'g rng =
  rn_seeded :: 'g
  rn_intn :: "nat \<Rightarrow> 'g \<Rightarrow> 'g \<times> nat"
  rn_shuffle :: "string list \<Rightarrow> 'g \<Rightarrow> 'g \<times> string list"

record test_set =
  ts_id :: int
  ts_members :: "string list"
  ts_intruder :: string
  ts_items :: "string list"

definition qualifying :: "community_members list \<Rightarrow> community_members list" where
  "qualifying members =
     (let sorted = sort_slice (\<lambda>a b. cm_id a < cm_id b) members;
          q = filter (\<lambda>cm. minRealMembers \<le> length (cm_entities cm)) sorted
      in if length q < 2 then []
         else if length q > maxCommunitiesPerRun then take maxCommunitiesPerRun q else q)"

definition build_set :: "'g rng \<Rightarrow> community_members list \<Rightarrow> nat \<times> community_members \<Rightarrow> 'g \<Rightarrow> 'g \<times> test_set" where
  "build_set R q x g =
     (let (i, cm) = x;
          realCount = (if realMembersPerSet > length (cm_entities cm) then length (cm_entities cm) else realMembersPerSet);
          memberTexts = map er_text (take realCount (cm_entities cm));
          (g, n) = rn_intn R (length q - 1) g;
          offset = 1 + n;
          other = q ! ((i + offset) mod length q);
          (g, m) = rn_intn R (length (cm_entities other)) g;
          intruderText = er_text (cm_entities other ! m);
          (g, items) = rn_shuffle R (memberTexts @ [intruderText]) g
      in (g, \<lparr>ts_id = cm_id cm, ts_members = memberTexts, ts_intruder = intruderText, ts_items = items\<rparr>))"

fun build_each :: "'g rng \<Rightarrow> community_members list \<Rightarrow> (nat \<times> community_members) list \<Rightarrow> 'g \<Rightarrow> test_set list" where
  "build_each R q [] g = []"
| "build_each R q (x # xs) g = (let (g', t) = build_set R q x g in t # build_each R q xs g')"

definition buildSets :: "'g rng \<Rightarrow> community_members list \<Rightarrow> test_set list" where
  "buildSets R members =
     (let q = qualifying members in build_each R q (zip [0..<length q] q) (rn_seeded R))"

definition intrusion_buildPrompt :: "string \<times> string \<Rightarrow> test_set list \<Rightarrow> string" where
  "intrusion_buildPrompt fixed sets =
     fst fixed @
     concat (map (\<lambda>(i, t). ''Set '' @ nat_str (i + 1) @ '':'' @ newline @
                      concat (map (\<lambda>item. ''- '' @ item @ newline) (ts_items t)) @ newline)
       (zip [0..<length sets] sets)) @
     snd fixed"

fun intrusion_scan :: "(int, string) gomap \<Rightarrow> int \<Rightarrow> string list \<Rightarrow> (int, string) gomap" where
  "intrusion_scan answers curSet [] = answers"
| "intrusion_scan answers curSet (l # ls) =
     (let line = trim_space l
      in if has_prefix line ''SET:''
         then intrusion_scan answers
                (case atoi (trim_space (trim_prefix line ''SET:'')) of None \<Rightarrow> 0 | Some n \<Rightarrow> n) ls
         else if has_prefix line ''INTRUDER:''
         then intrusion_scan
                (if curSet \<noteq> 0 then gm_put curSet (trim_space (trim_prefix line ''INTRUDER:'')) answers else answers)
                curSet ls
         else intrusion_scan answers curSet ls)"

definition intrusion_parseResponse :: "string \<Rightarrow> (int, string) gomap" where
  "intrusion_parseResponse resp = intrusion_scan [] 0 (split_on (CHR 0x0A) resp)"

definition score_set :: "(string \<Rightarrow> string) \<Rightarrow> (int, string) gomap \<Rightarrow> nat \<times> test_set \<Rightarrow> intrusion_community" where
  "score_set nfkc answers x =
     (let (i, s) = x; answer = gm_get_or '''' answers (int i + 1)
      in \<lparr>ic_id = ts_id s, ic_members = ts_members s, ic_intruder = ts_intruder s, ic_answer = answer,
          ic_correct = (answer \<noteq> '''' \<and> Normalize nfkc answer = Normalize nfkc (ts_intruder s))\<rparr>)"

definition intrusion_Run ::
    "(string \<Rightarrow> string) \<Rightarrow> string \<times> string \<Rightarrow> 'g rng \<Rightarrow> timestamp \<Rightarrow> (string \<Rightarrow> ('s, string) call) \<Rightarrow>
     community_members list \<Rightarrow> ('s, intrusion_result) call" where
  "intrusion_Run nfkc fixed R now generate members s =
     (let sets = buildSets R members
      in if length sets = 0
         then (s, Inr \<lparr>ir_computed_at = now, ir_score = 0, ir_tested = 0, ir_communities = []\<rparr>)
         else try_call (generate (intrusion_buildPrompt fixed sets))
                (\<lambda>e s. (s, Inl (Wrapf ''intrusion: generate'' e)))
                (\<lambda>resp s.
                   let communities = map (score_set nfkc (intrusion_parseResponse resp)) (zip [0..<length sets] sets);
                       correct = length (filter ic_correct communities)
                   in (s, Inr \<lparr>ir_computed_at = now, ir_score = of_nat correct / of_nat (length sets),
                               ir_tested = length sets, ir_communities = communities\<rparr>)) s)"

record intrusion_repo =
  ip_results :: "(uuid \<times> uuid, intrusion_result) gomap"

definition intrusion_New :: intrusion_repo where
  "intrusion_New = \<lparr>ip_results = []\<rparr>"

definition intrusion_SaveResult :: "uuid \<Rightarrow> uuid \<Rightarrow> intrusion_result \<Rightarrow> intrusion_repo \<Rightarrow> intrusion_repo" where
  "intrusion_SaveResult userID kbID res r = r\<lparr>ip_results := gm_put (userID, kbID) res (ip_results r)\<rparr>"

definition intrusion_GetResult :: "uuid \<Rightarrow> uuid \<Rightarrow> intrusion_repo \<Rightarrow> gerror + intrusion_result" where
  "intrusion_GetResult userID kbID r =
     (case gm_get (ip_results r) (userID, kbID) of
        None \<Rightarrow> Inl intrusion_ErrNoResult
      | Some res \<Rightarrow> if length (ir_communities res) = 0 then Inl intrusion_ErrNoResult else Inr res)"

subsection \<open>The intrusion routes\<close>

record 's intrusion_ops =
  io_kb_get :: "uuid \<Rightarrow> uuid \<Rightarrow> ('s, kbase) call"
  io_members :: "uuid \<Rightarrow> uuid \<Rightarrow> ('s, community_members list) call"
  io_save :: "uuid \<Rightarrow> uuid \<Rightarrow> intrusion_result \<Rightarrow> 's proc"
  io_get :: "uuid \<Rightarrow> uuid \<Rightarrow> ('s, intrusion_result) call"
  io_run :: "timestamp \<Rightarrow> community_members list \<Rightarrow> ('s, intrusion_result) call"

record intrusion_reply =
  iy_computed_at :: "timestamp option"
  iy_score :: float
  iy_tested :: nat
  iy_communities :: "intrusion_community list"

text \<open>A stored time is never Go's zero time: the clock wrote it.\<close>

definition toIntrusionResultResponse :: "intrusion_result \<Rightarrow> intrusion_reply" where
  "toIntrusionResultResponse res = \<lparr>iy_computed_at = Some (ir_computed_at res), iy_score = ir_score res,
     iy_tested = ir_tested res, iy_communities = ir_communities res\<rparr>"

definition intrusionh_recompute ::
    "'s intrusion_ops \<Rightarrow> timestamp \<Rightarrow> timestamp \<Rightarrow> (string \<Rightarrow> uuid option) \<Rightarrow> request \<Rightarrow> ('s, intrusion_reply) handler" where
  "intrusionh_recompute A now now2 parse r =
     requireUserID r (\<lambda>userID. parseUUID parse (rq_kb r) (\<lambda>kbID.
       try_call (io_kb_get A userID kbID) (\<lambda>e s. (s, writeKBError e)) (\<lambda>_.
         try_call (io_members A userID kbID)
           (\<lambda>e s. (s, Problem 500 ''failed to load community membership''))
           (\<lambda>members s.
             if length members = 0 then (s, Problem 422 ''compute communities before running an intrusion test'')
             else try_call (io_run A now members)
                    (\<lambda>e s. (s, Problem 500 ''failed to run intrusion test''))
                    (\<lambda>res.
                       let res = (if ir_tested res = 0 then res\<lparr>ir_computed_at := now2\<rparr> else res)
                       in try_proc (io_save A userID kbID res)
                            (\<lambda>e s. (s, Problem 500 ''failed to save intrusion test result''))
                            (\<lambda>s. (s, Reply 200 (toIntrusionResultResponse res)))) s))))"

definition intrusionh_get :: "'s intrusion_ops \<Rightarrow> (string \<Rightarrow> uuid option) \<Rightarrow> request \<Rightarrow> ('s, intrusion_reply) handler" where
  "intrusionh_get A parse r =
     requireUserID r (\<lambda>userID. parseUUID parse (rq_kb r) (\<lambda>kbID.
       try_call (io_kb_get A userID kbID) (\<lambda>e s. (s, writeKBError e)) (\<lambda>_.
         try_call (io_get A userID kbID)
           (\<lambda>e s. if errors_is e intrusion_ErrNoResult
                  then (s, Reply 200 \<lparr>iy_computed_at = None, iy_score = 0, iy_tested = 0, iy_communities = []\<rparr>)
                  else (s, Problem 500 ''failed to load intrusion test result''))
           (\<lambda>res s. (s, Reply 200 (toIntrusionResultResponse res))))))"

subsection \<open>What the labels are about\<close>

lemma SelectTop_subset: "set (SelectTopCommunities ms) \<subseteq> set ms"
  using set_take_subset[of _ "sort_slice (\<lambda>a b. length (cm_entities a) > length (cm_entities b)) ms"]
  by (auto simp: SelectTopCommunities_def Let_def split: if_splits)

lemma SelectTop_length:
  "length (SelectTopCommunities ms) \<le> maxSelectedCommunities" "ms \<noteq> [] \<Longrightarrow> SelectTopCommunities ms \<noteq> []"
  by (auto simp: SelectTopCommunities_def Let_def maxSelectedCommunities_def min_def)
    (metis length_0_conv length_sort_slice)+

text \<open>No community left out is larger than one that was taken.\<close>

lemma SelectTop_largest:
  obtains rest' where "mset ms = mset (SelectTopCommunities ms @ rest')"
    "\<And>a b. a \<in> set (SelectTopCommunities ms) \<Longrightarrow> b \<in> set rest' \<Longrightarrow> length (cm_entities b) \<le> length (cm_entities a)"
proof -
  let ?s = "sort_slice (\<lambda>a b. length (cm_entities a) > length (cm_entities b)) ms"
  have "\<exists>n. SelectTopCommunities ms = take n ?s"
    by (cases "ms = []") (auto simp: SelectTopCommunities_def Let_def)
  then obtain n where n: "SelectTopCommunities ms = take n ?s" by blast
  have "weak_order (\<lambda>a b. length (cm_entities a) > length (cm_entities b))" by (rule weak_orderI) auto
  then have sorted: "sorted_wrt (\<lambda>a b. \<not> length (cm_entities b) > length (cm_entities a)) (take n ?s @ drop n ?s)"
    using sort_slice_sorted by simp
  show ?thesis
  proof (rule that[of "drop n ?s"])
    show "mset ms = mset (SelectTopCommunities ms @ drop n ?s)" using n by (metis append_take_drop_id mset_sort_slice)
    show "length (cm_entities b) \<le> length (cm_entities a)" if "a \<in> set (SelectTopCommunities ms)" "b \<in> set (drop n ?s)" for a b
    proof -
      have "\<not> length (cm_entities b) > length (cm_entities a)"
        using sorted that(2) that(1)[unfolded n] unfolding sorted_wrt_append by blast
      then show ?thesis by simp
    qed
  qed
qed

definition theme_ok :: "(int, nat) gomap \<Rightarrow> theme \<Rightarrow> bool" where
  "theme_ok counts t \<longleftrightarrow> tm_label t \<noteq> '''' \<and> gm_get counts (tm_id t) = Some (tm_count t)"

lemma theme_flush_ok:
  "\<forall>t\<in>set themes. theme_ok counts t \<Longrightarrow> \<forall>t\<in>set (theme_flush counts themes cur). theme_ok counts t"
  by (auto simp: theme_flush_def theme_ok_def fallbackLabel_def Let_def split: option.splits)

lemma theme_scan_ok:
  "\<forall>t\<in>set themes. theme_ok counts t \<Longrightarrow> \<forall>t\<in>set (fst (theme_scan counts themes note cur ls)). theme_ok counts t"
proof (induction counts themes "note" cur ls rule: theme_scan.induct)
  case (1 counts themes nt cur)
  then show ?case using theme_flush_ok by simp
next
  case (2 counts themes nt cur l ls)
  note flushed = theme_flush_ok[OF "2.prems", of cur]
  show ?case
    using "2.IH"(1)[OF refl _ flushed] "2.IH"(2)[OF refl _ _ flushed] "2.IH"(3-6) "2.prems"
    by (simp add: Let_def split: option.split)
qed

lemma counts_get:
  "gm_get (foldl (\<lambda>m cm. gm_put (cm_id cm) (length (cm_entities cm)) m) m0 cs) i = Some n \<Longrightarrow>
     gm_get m0 i = Some n \<or> (\<exists>cm\<in>set cs. cm_id cm = i \<and> length (cm_entities cm) = n)"
proof (induction cs arbitrary: m0)
  case (Cons c cs)
  then show ?case by (fastforce split: if_splits)
qed simp

lemma theme_parse_ok:
  assumes "theme_parseResponse resp cs = (ts, note)" "t \<in> set ts"
  shows "tm_label t \<noteq> '''' \<and> (\<exists>cm\<in>set cs. cm_id cm = tm_id t \<and> tm_count t = length (cm_entities cm))"
proof -
  let ?counts = "foldl (\<lambda>m cm. gm_put (cm_id cm) (length (cm_entities cm)) m) [] cs"
  have "t \<in> set (fst (theme_scan ?counts [] '''' None (split_on (CHR 0x0A) resp)))"
    using assms by (auto simp: theme_parseResponse_def Let_def dest: in_set_takeD split: prod.splits if_splits)
  then have "theme_ok ?counts t" using theme_scan_ok[of "[]" ?counts] by simp
  then show ?thesis using counts_get[of "[]" cs "tm_id t" "tm_count t"] by (auto simp: theme_ok_def)
qed

lemma theme_parse_size:
  assumes "theme_parseResponse resp cs = (ts, note)"
  shows "length ts \<le> maxSignificantThemes" "ts = [] \<Longrightarrow> note = ''''"
  using assms by (auto simp: theme_parseResponse_def Let_def split: prod.splits if_splits)

text \<open>A run that finds nothing to say reads, afterwards, as if none had ever been made.\<close>

lemma empty_themes_look_never_computed:
  "theme_GetResult userID kbID (theme_SaveResult userID kbID [] now r) = Inl theme_ErrNoResult"
  by (simp add: theme_GetResult_def theme_SaveResult_def)

subsection \<open>What a test set holds\<close>

definition rng_ok :: "'g rng \<Rightarrow> bool" where
  "rng_ok R \<longleftrightarrow> (\<forall>n g. 0 < n \<longrightarrow> snd (rn_intn R n g) < n) \<and> (\<forall>xs g. mset (snd (rn_shuffle R xs g)) = mset xs)"

lemma qualifying_props:
  assumes "qualifying ms \<noteq> []"
  shows "2 \<le> length (qualifying ms)" "set (qualifying ms) \<subseteq> set ms" "distinct (map cm_id ms) \<Longrightarrow> distinct (map cm_id (qualifying ms))"
    and "\<And>cm. cm \<in> set (qualifying ms) \<Longrightarrow> minRealMembers \<le> length (cm_entities cm)"
proof -
  let ?q = "filter (\<lambda>cm. minRealMembers \<le> length (cm_entities cm)) (sort_slice (\<lambda>a b. cm_id a < cm_id b) ms)"
  have two: "2 \<le> length ?q" using assms by (auto simp: qualifying_def Let_def split: if_splits)
  define n where "n = (if length ?q > maxCommunitiesPerRun then maxCommunitiesPerRun else length ?q)"
  have n: "qualifying ms = take n ?q" "n = length ?q \<or> n = maxCommunitiesPerRun"
    using two by (simp_all add: qualifying_def Let_def n_def)
  show "2 \<le> length (qualifying ms)" using n two by (auto simp: maxCommunitiesPerRun_def)
  show "set (qualifying ms) \<subseteq> set ms" using n(1) set_take_subset[of n ?q] by auto
  show "minRealMembers \<le> length (cm_entities cm)" if "cm \<in> set (qualifying ms)" for cm
    using that n(1) set_take_subset[of n ?q] by auto
  assume "distinct (map cm_id ms)"
  then have "distinct (map cm_id (sort_slice (\<lambda>a b. cm_id a < cm_id b) ms))"
    by (metis mset_map mset_sort_slice mset_eq_imp_distinct_iff)
  then have "distinct (map cm_id ?q)" by (rule distinct_map_filter)
  then show "distinct (map cm_id (qualifying ms))" 
    unfolding n(1) take_map[symmetric] by (rule distinct_take)
qed

text \<open>The other index differs from this one, whatever is drawn.\<close>

lemma other_index:
  fixes n :: nat
  assumes "i < n" "k < n - 1"
  shows "(i + (1 + k)) mod n < n" "(i + (1 + k)) mod n \<noteq> i"
proof -
  define m where "m = i + (1 + k)"
  have "m mod n \<noteq> i"
  proof (cases "m < n")
    case False
    then have "n \<le> m" by simp
    then have "m mod n = (m - n) mod n" by (rule le_mod_geq)
    moreover have "m - n < n" using assms by (simp add: m_def)
    ultimately have "m mod n = m - n" by simp
    then show ?thesis using False assms by (simp add: m_def)
  qed (simp add: m_def)
  then show "(i + (1 + k)) mod n \<noteq> i" by (simp add: m_def)
qed (use assms in simp)

definition set_ok :: "community_members list \<Rightarrow> test_set \<Rightarrow> bool" where
  "set_ok q t \<longleftrightarrow> (\<exists>cm\<in>set q. \<exists>cm'\<in>set q. cm_id cm = ts_id t \<and> cm_id cm' \<noteq> ts_id t \<and>
     ts_members t = map er_text (take realMembersPerSet (cm_entities cm)) \<and>
     ts_intruder t \<in> er_text ` set (cm_entities cm') \<and>
     mset (ts_items t) = add_mset (ts_intruder t) (mset (ts_members t)))"

lemma build_set_ok:
  assumes R: "rng_ok R" and q: "2 \<le> length q" "distinct (map cm_id q)" "\<forall>cm\<in>set q. minRealMembers \<le> length (cm_entities cm)"
    and i: "i < length q" "cm = q ! i"
  shows "set_ok q (snd (build_set R q (i, cm) g))"
proof -
  obtain g1 n where n: "rn_intn R (length q - 1) g = (g1, n)" by force
  let ?j = "(i + (1 + n)) mod length q"
  obtain g2 m where m: "rn_intn R (length (cm_entities (q ! ?j))) g1 = (g2, m)" by force
  let ?mem = "map er_text (take realMembersPerSet (cm_entities cm))"
  let ?int = "er_text (cm_entities (q ! ?j) ! m)"
  obtain g3 its where its: "rn_shuffle R (?mem @ [?int]) g2 = (g3, its)" by force
  have take_eq: "take (if realMembersPerSet > length (cm_entities cm) then length (cm_entities cm) else realMembersPerSet) (cm_entities cm) =
      take realMembersPerSet (cm_entities cm)" by simp
  have t: "snd (build_set R q (i, cm) g) = \<lparr>ts_id = cm_id cm, ts_members = ?mem, ts_intruder = ?int, ts_items = its\<rparr>"
    unfolding build_set_def Let_def prod.case n m take_eq its by simp
  have "n < length q - 1" using R q(1) n unfolding rng_ok_def by (metis snd_conv zero_less_diff Suc_1 Suc_le_lessD)
  then have j: "?j < length q" "?j \<noteq> i" using other_index[OF i(1)] by auto
  then have jq: "q ! ?j \<in> set q" by simp
  have "0 < length (cm_entities (q ! ?j))" using q(3) jq by (force simp: minRealMembers_def)
  then have "m < length (cm_entities (q ! ?j))" using R m unfolding rng_ok_def by (metis snd_conv)
  moreover have "cm_id (q ! ?j) \<noteq> cm_id cm"
    using q(2) j i nth_eq_iff_index_eq[of "map cm_id q" ?j i] by simp
  moreover have "mset its = add_mset ?int (mset ?mem)"
    using R its unfolding rng_ok_def by (metis mset_append mset.simps snd_conv union_mset_add_mset_right add.right_neutral)
  ultimately show ?thesis unfolding set_ok_def t using jq i by (intro bexI[of _ cm] bexI[of _ "q ! ?j"]) simp_all
qed

lemma build_each_ok:
  assumes "\<And>x g. x \<in> set xs \<Longrightarrow> P (snd (build_set R q x g))"
  shows "\<forall>t\<in>set (build_each R q xs g). P t"
  using assms
proof (induction xs arbitrary: g)
  case (Cons x xs)
  obtain g' t where t: "build_set R q x g = (g', t)" by force
  have "P t" using Cons.prems[of x g] t by simp
  moreover have "\<forall>t\<in>set (build_each R q xs g'). P t" by (rule Cons.IH) (use Cons.prems in auto)
  ultimately show ?case using t by simp
qed simp

lemma buildSets_ok:
  assumes "rng_ok R" "distinct (map cm_id ms)"
  shows "\<forall>t\<in>set (buildSets R ms). set_ok (qualifying ms) t"
proof (cases "qualifying ms = []")
  case False
  note q = qualifying_props[OF False]
  have "set_ok (qualifying ms) (snd (build_set R (qualifying ms) x g))"
    if "x \<in> set (zip [0..<length (qualifying ms)] (qualifying ms))" for x g
  proof -
    have "\<exists>i. x = (i, qualifying ms ! i) \<and> i < length (qualifying ms)"
      using that by (auto simp: set_zip)
    then obtain i where x: "x = (i, qualifying ms ! i)" "i < length (qualifying ms)" by blast
    show ?thesis unfolding x(1)
      by (rule build_set_ok[OF assms(1) q(1) q(3)[OF assms(2)] _ x(2) refl]) (use q(4) in blast)
  qed
  then show ?thesis unfolding buildSets_def Let_def by (rule build_each_ok)
qed (simp add: buildSets_def)

lemma intrusion_score_bounds:
  assumes "snd (intrusion_Run nfkc fixed R now generate ms s) = Inr res"
  shows "0 \<le> ir_score res \<and> ir_score res \<le> 1"
proof -
  have le: "length (filter P (zip [0..<length xs] xs)) \<le> length xs" for P and xs :: "test_set list"
    by (rule order_trans[OF length_filter_le]) simp
  have "of_nat (length (filter P (zip [0..<length xs] xs))) / of_nat (length xs) \<le> (1 :: float)"
    if "xs \<noteq> []" for P and xs :: "test_set list"
    using le[of P xs] that by (simp add: divide_le_eq_1)
  then show ?thesis using assms
    by (auto simp: intrusion_Run_def Let_def try_call_def filter_map split: if_splits prod.splits sum.splits)
qed

subsection \<open>Properties\<close>

text \<open>
  C40. Whatever the model answers, a theme that is kept has a label, names one of the communities
  that were offered and carries that community's size; there are at most three, and an answer without
  themes carries no note.
\<close>

theorem themes_name_offered_communities:
  assumes "snd (Summarize fixed generate (SelectTopCommunities ms) s) = Inr (ts, nt)"
  shows "length ts \<le> maxSignificantThemes \<and> (ts = [] \<longrightarrow> nt = '''') \<and>
    (\<forall>t\<in>set ts. tm_label t \<noteq> '''' \<and>
       (\<exists>cm\<in>set (SelectTopCommunities ms). cm_id cm = tm_id t \<and> tm_count t = length (cm_entities cm)))"
proof (cases "SelectTopCommunities ms = []")
  case True
  then show ?thesis using assms by (simp add: Summarize_def)
next
  case False
  then obtain resp where "theme_parseResponse resp (SelectTopCommunities ms) = (ts, nt)"
    using assms by (auto simp: Summarize_def try_call_def split: prod.splits sum.splits)
  then show ?thesis using theme_parse_size theme_parse_ok by blast
qed

definition demo_community :: "int \<Rightarrow> string \<Rightarrow> community_members" where
  "demo_community i name = \<lparr>cm_id = i, cm_entities = replicate 3 \<lparr>er_text = name, er_type = ''concept''\<rparr>\<rparr>"

definition demo_theme_answer :: string where
  "demo_theme_answer = ''COMMUNITY: 9'' @ newline @ ''LABEL: made up'' @ newline @ ''COMMUNITY: 4'' @ newline @
     ''SUMMARY: about graphs'' @ newline @ ''NOTE: it stood out''"

theorem themes_name_offered_communities_witness:
  "let r = Summarize ('''', '''') (\<lambda>p s. (s, Inr demo_theme_answer)) (SelectTopCommunities [demo_community 4 ''graph'']) ()
   in r = ((), Inr ([\<lparr>tm_id = 4, tm_label = fallbackLabel, tm_summary = ''about graphs'', tm_count = 3\<rparr>], ''it stood out'')) \<and>
      length [\<lparr>tm_id = 4, tm_label = fallbackLabel, tm_summary = ''about graphs'', tm_count = 3\<rparr>] \<le> maxSignificantThemes"
proof -
  have r: "Summarize ('''', '''') (\<lambda>p s. (s, Inr demo_theme_answer)) (SelectTopCommunities [demo_community 4 ''graph'']) () =
      ((), Inr ([\<lparr>tm_id = 4, tm_label = fallbackLabel, tm_summary = ''about graphs'', tm_count = 3\<rparr>], ''it stood out''))"
    by code_simp
  then have "snd (Summarize ('''', '''') (\<lambda>p s. (s, Inr demo_theme_answer)) (SelectTopCommunities [demo_community 4 ''graph'']) ()) =
      Inr ([\<lparr>tm_id = 4, tm_label = fallbackLabel, tm_summary = ''about graphs'', tm_count = 3\<rparr>], ''it stood out'')" by simp
  from themes_name_offered_communities[OF this] r show ?thesis unfolding Let_def by blast
qed

text \<open>
  C39. Every set of an intrusion test shows members of one community and exactly one entity of
  another, whatever the random generator draws, in some order.
\<close>

theorem intruder_from_another_community:
  assumes "rng_ok R" and "distinct (map cm_id ms)" and "t \<in> set (buildSets R ms)"
  shows "\<exists>cm\<in>set ms. \<exists>cm'\<in>set ms. cm_id cm = ts_id t \<and> cm_id cm' \<noteq> ts_id t \<and>
     ts_members t = map er_text (take realMembersPerSet (cm_entities cm)) \<and> minRealMembers \<le> length (ts_members t) \<and>
     ts_intruder t \<in> er_text ` set (cm_entities cm') \<and>
     mset (ts_items t) = add_mset (ts_intruder t) (mset (ts_members t))"
proof -
  have ne: "qualifying ms \<noteq> []" using assms(3) by (auto simp: buildSets_def)
  note q = qualifying_props[OF ne]
  have "set_ok (qualifying ms) t" using buildSets_ok[OF assms(1,2)] assms(3) by blast
  then obtain cm cm' where cm: "cm \<in> set (qualifying ms)" "cm' \<in> set (qualifying ms)" "cm_id cm = ts_id t" "cm_id cm' \<noteq> ts_id t"
    "ts_members t = map er_text (take realMembersPerSet (cm_entities cm))" "ts_intruder t \<in> er_text ` set (cm_entities cm')"
    "mset (ts_items t) = add_mset (ts_intruder t) (mset (ts_members t))"
    unfolding set_ok_def by blast
  moreover have "minRealMembers \<le> length (ts_members t)"
    using q(4)[OF cm(1)] cm(5) by (simp add: minRealMembers_def realMembersPerSet_def)
  ultimately show ?thesis using q(2) by blast
qed

definition demo_rng :: "nat rng" where
  "demo_rng = \<lparr>rn_seeded = 42, rn_intn = (\<lambda>n g. (g div 3, g mod n)), rn_shuffle = (\<lambda>xs g. (g + 1, rev xs))\<rparr>"

theorem intruder_from_another_community_witness:
  "let ms = [demo_community 4 ''graph'', demo_community 5 ''tax'']
   in buildSets demo_rng ms = [\<lparr>ts_id = 4, ts_members = [''graph'', ''graph'', ''graph''], ts_intruder = ''tax'',
        ts_items = [''tax'', ''graph'', ''graph'', ''graph'']\<rparr>, \<lparr>ts_id = 5, ts_members = [''tax'', ''tax'', ''tax''],
        ts_intruder = ''graph'', ts_items = [''graph'', ''tax'', ''tax'', ''tax'']\<rparr>] \<and>
      (\<exists>cm'\<in>set ms. cm_id cm' \<noteq> 4 \<and> ''tax'' \<in> er_text ` set (cm_entities cm'))"
proof -
  let ?ms = "[demo_community 4 ''graph'', demo_community 5 ''tax'']"
  let ?t = "\<lparr>ts_id = 4, ts_members = [''graph'', ''graph'', ''graph''], ts_intruder = ''tax'', ts_items = [''tax'', ''graph'', ''graph'', ''graph'']\<rparr>"
  have sets: "buildSets demo_rng ?ms = [?t, \<lparr>ts_id = 5, ts_members = [''tax'', ''tax'', ''tax''],
        ts_intruder = ''graph'', ts_items = [''graph'', ''tax'', ''tax'', ''tax'']\<rparr>]" by code_simp
  have R: "rng_ok demo_rng" by (simp add: rng_ok_def demo_rng_def)
  have d: "distinct (map cm_id ?ms)" by (simp add: demo_community_def)
  have t: "?t \<in> set (buildSets demo_rng ?ms)" unfolding sets by simp
  from intruder_from_another_community[OF R d t] have "\<exists>cm'\<in>set ?ms. cm_id cm' \<noteq> 4 \<and> ''tax'' \<in> er_text ` set (cm_entities cm')"
    by (simp only: test_set.simps) blast
  then show ?thesis using sets unfolding Let_def by blast
qed

end
