(* ===== verification/JobStatusPg.thy ===== *)
theory JobStatusPg
  imports JobStatus Calls "HOL-Library.Sublist"
begin

text \<open>
  The Postgres job status store (\<^verbatim>\<open>internal/jobstatus/pgstore\<close>) over the row-level-security
  transaction runner (\<^verbatim>\<open>internal/rls\<close>). The table \<^verbatim>\<open>document_job_status\<close> is a map
  from its primary key, document and job type, to the other columns; each SQL statement of the store
  is an operation on it, under the policy of \<^verbatim>\<open>migrations/031_document_job_status.sql\<close>: a row is
  seen or written only by the user the transaction runs as.

  Beginning a transaction, each statement and the commit can fail: they read a tape of faults, and a
  failure either keeps the message from the server or loses only its reply. A transaction that fails
  before its commit leaves the table as it found it. A commit that fails may have been made: where
  only the reply was lost the writes stay, and the caller is told that the call failed. Transactions
  run one at a time, each at an instant of its own, which is what \<^verbatim>\<open>NOW()\<close> returns. An identifier's
  text form is the identifier.
\<close>

subsection \<open>The table and its statements\<close>

record pg_row =
  pj_user :: uuid
  pj_status :: string
  pj_phase :: "string option"
  pj_attempt :: int
  pj_error :: "string option"
  pj_enqueued :: timestamp
  pj_updated :: timestamp

text \<open>What becomes of a message: it is answered, never arrives, or arrives and its reply is lost.\<close>

datatype pg_fault = Answered | Lost | ReplyLost

record pg_db =
  pg_rows :: "(slot, pg_row) gomap"
  pg_clock :: timestamp
  pg_faults :: "pg_fault list"

text \<open>One message to the server: the client sees an error unless it is answered.\<close>

definition pg_send :: "pg_db proc" where
  "pg_send db =
     (case pg_faults db of
        [] \<Rightarrow> (db, None)
      | f # fs \<Rightarrow> (db\<lparr>pg_faults := fs\<rparr>, if f = Answered then None else Some (Plain ''pgx: connection lost'')))"

text \<open>Whether the server gets the next message.\<close>

definition pg_reached :: "pg_db \<Rightarrow> bool" where
  "pg_reached db = (case pg_faults db of [] \<Rightarrow> True | f # fs \<Rightarrow> f \<noteq> Lost)"

definition null_if :: "string \<Rightarrow> string option" where
  "null_if s = (if s = '''' then None else Some s)"

definition or_empty :: "string option \<Rightarrow> string" where
  "or_empty v = (case v of None \<Rightarrow> '''' | Some s \<Rightarrow> s)"

definition pg_insert :: "uuid \<Rightarrow> slot \<Rightarrow> (timestamp \<Rightarrow> pg_row) \<Rightarrow> (pg_db, nat) call" where
  "pg_insert who sl row =
     try_proc pg_send (\<lambda>e db. (db, Inl e))
       (\<lambda>db. if pj_user (row (pg_clock db)) \<noteq> who
             then (db, Inl (SQLError ''42501'' ''new row violates row-level security policy''))
             else if gm_get (pg_rows db) sl \<noteq> None then (db, Inr 0)
             else (db\<lparr>pg_rows := gm_put sl (row (pg_clock db)) (pg_rows db)\<rparr>, Inr 1))"

definition pg_visible :: "uuid \<Rightarrow> jkey \<Rightarrow> pg_db \<Rightarrow> pg_row option" where
  "pg_visible who key db =
     (case gm_get (pg_rows db) (slot_of key) of
        None \<Rightarrow> None
      | Some row \<Rightarrow> if pj_user row = who \<and> pj_user row = k_user key then Some row else None)"

definition pg_select :: "uuid \<Rightarrow> jkey \<Rightarrow> (pg_db, pg_row option) call" where
  "pg_select who key = try_proc pg_send (\<lambda>e db. (db, Inl e)) (\<lambda>db. (db, Inr (pg_visible who key db)))"

definition pg_update :: "uuid \<Rightarrow> jkey \<Rightarrow> (timestamp \<Rightarrow> pg_row \<Rightarrow> pg_row) \<Rightarrow> pg_db proc" where
  "pg_update who key f =
     try_proc pg_send (\<lambda>e db. (db, Some e))
       (\<lambda>db. (case pg_visible who key db of
                None \<Rightarrow> db
              | Some row \<Rightarrow> db\<lparr>pg_rows := gm_put (slot_of key) (f (pg_clock db) row) (pg_rows db)\<rparr>, None))"

subsection \<open>Transactions\<close>

text \<open>
  \<open>who\<close> is the identity the context carries, if any. A commit the server gets is made, whether or not
  its reply arrives.
\<close>

definition RunInTx :: "uuid option \<Rightarrow> (uuid \<Rightarrow> (pg_db, 'a) call) \<Rightarrow> (pg_db, 'a) call" where
  "RunInTx who fn db =
     (case who of
        None \<Rightarrow> (db, Inl (Plain ''rls: unauthenticated: no user identity in context''))
      | Some userID \<Rightarrow>
          try_proc pg_send (\<lambda>e db. (db, Inl (Wrapf ''rls: begin tx'' e)))
            (\<lambda>db. let tx = db\<lparr>pg_clock := pg_clock db + 1\<rparr>;
                       rollback = (\<lambda>db'. db'\<lparr>pg_rows := pg_rows tx\<rparr>)
                   in try_proc pg_send (\<lambda>e db'. (rollback db', Inl (Wrapf ''rls: set context'' e)))
                        (try_call (fn userID) (\<lambda>e db'. (rollback db', Inl e))
                           (\<lambda>v db'. try_proc pg_send
                                     (\<lambda>e db''. (if pg_reached db' then db'' else rollback db'', Inl e))
                                     (\<lambda>db''. (db'', Inr v)) db')) tx) db)"

subsection \<open>The store\<close>

definition status_of :: "string \<Rightarrow> jstatus" where
  "status_of s =
     (if s = ''pending'' then StPending else if s = ''processing'' then StProcessing
      else if s = ''succeeded'' then StSucceeded else if s = ''failed'' then StFailed else StOther s)"

definition row_record :: "jkey \<Rightarrow> pg_row \<Rightarrow> jrecord" where
  "row_record key row = \<lparr>r_key = key, r_status = status_of (pj_status row), r_phase = or_empty (pj_phase row),
     r_attempt = pj_attempt row, r_last_error = or_empty (pj_error row)\<rparr>"

definition lockRecord :: "uuid \<Rightarrow> jkey \<Rightarrow> (pg_db, jrecord) call" where
  "lockRecord who key =
     try_call (pg_select who key) (\<lambda>e db. (db, Inl e))
       (\<lambda>row db. (db, case row of None \<Rightarrow> Inl ErrJobNotFound | Some row \<Rightarrow> Inr (row_record key row)))"

text \<open>The two transactions, each the closure the store hands to \<open>RunInTx\<close>.\<close>

definition enqueue_tx :: "jkey \<Rightarrow> uuid \<Rightarrow> (pg_db, enqueued) call" where
  "enqueue_tx key userID =
     try_call
       (pg_insert userID (slot_of key) (\<lambda>now. \<lparr>pj_user = k_user key, pj_status = jstatus_str StPending,
          pj_phase = None, pj_attempt = 1, pj_error = None, pj_enqueued = now, pj_updated = now\<rparr>))
       (\<lambda>e db. (db, Inl e))
       (\<lambda>n db.
          if n = 1 then (db, Inr \<lparr>enq_attempt = 1, enq_started = True\<rparr>)
          else try_call (lockRecord userID key) (\<lambda>e db. (db, Inl e))
                 (\<lambda>cur db.
                    let (nxt, r) = Enqueue (Some cur) key
                    in if \<not> enq_started r then (db, Inr r)
                       else try_proc
                              (pg_update userID key (\<lambda>now row. row\<lparr>pj_status := jstatus_str (r_status nxt),
                                 pj_phase := None, pj_attempt := r_attempt nxt, pj_error := None,
                                 pj_enqueued := now, pj_updated := now\<rparr>))
                              (\<lambda>e db. (db, Inl e)) (\<lambda>db. (db, Inr r)) db) db)"

definition pg_Enqueue :: "uuid option \<Rightarrow> jkey \<Rightarrow> (pg_db, enqueued) call" where
  "pg_Enqueue who key =
     try_call (RunInTx who (enqueue_tx key))
       (\<lambda>e db. (db, Inl (Wrapf ''jobstatus: enqueue'' e)))
       (\<lambda>r db. (db, Inr r))"

definition transition_tx :: "jkey \<Rightarrow> int \<Rightarrow> jstatus \<Rightarrow> string \<Rightarrow> string \<Rightarrow> uuid \<Rightarrow> (pg_db, unit) call" where
  "transition_tx key attempt to phase reason userID =
     try_call (lockRecord userID key) (\<lambda>e db. (db, Inl e))
       (\<lambda>cur db.
          case Transition cur attempt to phase reason of
            (nxt, changed, Some e) \<Rightarrow> (db, Inl e)
          | (nxt, changed, None) \<Rightarrow>
              if \<not> changed then (db, Inr ())
              else try_proc
                     (pg_update userID key (\<lambda>now row. row\<lparr>pj_status := jstatus_str (r_status nxt),
                        pj_phase := null_if (r_phase nxt), pj_error := null_if (r_last_error nxt),
                        pj_updated := now\<rparr>))
                     (\<lambda>e db. (db, Inl e)) (\<lambda>db. (db, Inr ())) db)"

definition pg_transition :: "uuid option \<Rightarrow> jkey \<Rightarrow> int \<Rightarrow> jstatus \<Rightarrow> string \<Rightarrow> string \<Rightarrow> pg_db proc" where
  "pg_transition who key attempt to phase reason =
     try_call (RunInTx who (transition_tx key attempt to phase reason))
       (\<lambda>e db. (db, Some (Wrapf ''jobstatus: mark'' e)))
       (\<lambda>_ db. (db, None))"

definition pg_MarkProcessing :: "uuid option \<Rightarrow> jkey \<Rightarrow> int \<Rightarrow> pg_db proc" where
  "pg_MarkProcessing who key attempt = pg_transition who key attempt StProcessing '''' ''''"

definition pg_SetPhase :: "uuid option \<Rightarrow> jkey \<Rightarrow> int \<Rightarrow> string \<Rightarrow> pg_db proc" where
  "pg_SetPhase who key attempt phase = pg_transition who key attempt StProcessing phase ''''"

definition pg_MarkSucceeded :: "uuid option \<Rightarrow> jkey \<Rightarrow> int \<Rightarrow> pg_db proc" where
  "pg_MarkSucceeded who key attempt = pg_transition who key attempt StSucceeded '''' ''''"

definition pg_MarkFailed :: "uuid option \<Rightarrow> jkey \<Rightarrow> int \<Rightarrow> string \<Rightarrow> pg_db proc" where
  "pg_MarkFailed who key attempt reason = pg_transition who key attempt StFailed '''' reason"

definition pg_Get :: "uuid option \<Rightarrow> jkey \<Rightarrow> (pg_db, jrecord) call" where
  "pg_Get who key =
     try_call
       (RunInTx who (\<lambda>userID.
          try_call (pg_select userID key) (\<lambda>e db. (db, Inl e))
            (\<lambda>row db. (db, case row of None \<Rightarrow> Inl ErrJobNotFound | Some row \<Rightarrow> Inr (row_record key row)))))
       (\<lambda>e db. (db, Inl (if errors_is e ErrJobNotFound then e else Wrapf ''jobstatus: get'' e)))
       (\<lambda>rec db. (db, Inr rec))"

text \<open>\<^verbatim>\<open>ORDER BY document_id, enqueued_at\<close> leaves rows with the same two in any order.\<close>

definition pg_active_rows :: "uuid \<Rightarrow> uuid \<Rightarrow> uuid list \<Rightarrow> pg_db \<Rightarrow> (slot \<times> pg_row) list" where
  "pg_active_rows who userID documentIDs db =
     sort_slice (\<lambda>a b. if fst (fst a) \<noteq> fst (fst b) then fst (fst a) < fst (fst b)
                         else pj_enqueued (snd a) < pj_enqueued (snd b))
       (filter (\<lambda>(sl, row). pj_user row = who \<and> fst sl \<in> set documentIDs \<and> pj_user row = userID \<and>
                             pj_status row \<in> {''pending'', ''processing''}) (pg_rows db))"

definition row_status :: "slot \<times> pg_row \<Rightarrow> job_status" where
  "row_status x = \<lparr>jst_type = snd (fst x), jst_phase = or_empty (pj_phase (snd x)),
     jst_status = pj_status (snd x), jst_last_error = or_empty (pj_error (snd x))\<rparr>"

definition pg_ActiveJobsForDocuments ::
    "uuid option \<Rightarrow> uuid \<Rightarrow> uuid list \<Rightarrow> (pg_db, (uuid, job_status list) gomap) call" where
  "pg_ActiveJobsForDocuments who userID documentIDs db =
     (if documentIDs = [] then (db, Inr [])
      else try_call
             (RunInTx who (\<lambda>me. try_proc pg_send (\<lambda>e db. (db, Inl e))
                (\<lambda>db. (db, Inr (foldl (\<lambda>out x. gm_put (fst (fst x)) (gm_get_or [] out (fst (fst x)) @ [row_status x]) out)
                                  [] (pg_active_rows me userID documentIDs db))))))
             (\<lambda>e db. (db, Inl (Wrapf ''jobstatus: active jobs for documents'' e)))
             (\<lambda>out db. (db, Inr out)) db)"

subsection \<open>What a transaction does\<close>

text \<open>What the server's failures look like to the caller: none is an answer about a job.\<close>

lemma pg_send_cases:
  obtains (ok) db' where "pg_send db = (db', None)" "pg_rows db' = pg_rows db" "pg_clock db' = pg_clock db"
    | (down) db' e where "pg_send db = (db', Some e)" "pg_rows db' = pg_rows db" "pg_clock db' = pg_clock db"
        "\<not> status_error e"
  unfolding pg_send_def by (cases "pg_faults db"; cases "hd (pg_faults db)") (auto simp: status_error_def)

lemma pg_send_up: "pg_faults db = [] \<Longrightarrow> pg_send db = (db, None)"
  by (simp add: pg_send_def)

lemma RunInTx_cases:
  assumes "RunInTx (Some u) fn db = (db', r)"
  obtains (down) e where "pg_rows db' = pg_rows db" "r = Inl e" "\<not> status_error e" "pg_clock db \<le> pg_clock db'"
    | (failed) tx tx' e where "pg_rows tx = pg_rows db" "pg_clock tx = pg_clock db + 1" "fn u tx = (tx', Inl e)"
        "pg_rows db' = pg_rows db" "pg_clock db' = pg_clock tx'" "r = Inl e"
    | (commit_lost) tx tx' v e where "pg_rows tx = pg_rows db" "pg_clock tx = pg_clock db + 1" "fn u tx = (tx', Inr v)"
        "pg_rows db' = pg_rows db" "pg_clock db' = pg_clock tx'" "r = Inl e" "\<not> status_error e"
    | (reply_lost) tx tx' v e where "pg_rows tx = pg_rows db" "pg_clock tx = pg_clock db + 1" "fn u tx = (tx', Inr v)"
        "pg_rows db' = pg_rows tx'" "pg_clock db' = pg_clock tx'" "r = Inl e" "\<not> status_error e"
    | (committed) tx tx' v where "pg_rows tx = pg_rows db" "pg_clock tx = pg_clock db + 1" "fn u tx = (tx', Inr v)"
        "pg_rows db' = pg_rows tx'" "pg_clock db' = pg_clock tx'" "r = Inr v"
proof (cases rule: pg_send_cases[of db])
  case (down d e)
  then show ?thesis using assms that(1) by (auto simp: RunInTx_def status_error_def)
next
  case (ok d)
  let ?tx = "d\<lparr>pg_clock := pg_clock d + 1\<rparr>"
  show ?thesis
  proof (cases rule: pg_send_cases[of ?tx])
    case (down d2 e)
    then show ?thesis using assms ok that(1)[of "Wrapf ''rls: set context'' e"]
      by (auto simp: RunInTx_def Let_def status_error_def)
  next
    case send: (ok tx)
    obtain tx' q where fn: "fn u tx = (tx', q)" by force
    show ?thesis
    proof (cases q)
      case (Inl e)
      then show ?thesis using assms ok send fn that(2)[OF _ _ fn[unfolded Inl]]
        by (auto simp: RunInTx_def Let_def)
    next
      case (Inr v)
      note fn = fn[unfolded Inr]
      have run: "RunInTx (Some u) fn db = try_proc pg_send
          (\<lambda>e d'. (if pg_reached tx' then d' else d'\<lparr>pg_rows := pg_rows ?tx\<rparr>, Inl e)) (\<lambda>d'. (d', Inr v)) tx'"
        using ok(1) send(1) fn by (simp add: RunInTx_def Let_def)
      have tx: "pg_rows tx = pg_rows db" "pg_clock tx = pg_clock db + 1" using ok send by simp_all
      show ?thesis
      proof (cases rule: pg_send_cases[of tx'])
        case answer: (ok d')
        then have "db' = d'" "r = Inr v" using assms run by simp_all
        then show ?thesis using that(5)[OF tx fn] answer by simp
      next
        case (down d' e)
        then have "db' = (if pg_reached tx' then d' else d'\<lparr>pg_rows := pg_rows ?tx\<rparr>)" "r = Inl e" using assms run by simp_all
        then show ?thesis using that(3)[OF tx fn] that(4)[OF tx fn] down ok(2) by (cases "pg_reached tx'") simp_all
      qed
    qed
  qed
qed

lemma pg_visible_rows: "pg_rows db = pg_rows db' \<Longrightarrow> pg_visible who k db = pg_visible who k db'"
  by (simp add: pg_visible_def)

lemma lockRecord_cases:
  obtains (found) db' row where "lockRecord u k db = (db', Inr (row_record k row))" "pg_visible u k db = Some row"
      "pg_rows db' = pg_rows db" "pg_clock db' = pg_clock db"
    | (missing) db' where "lockRecord u k db = (db', Inl ErrJobNotFound)" "pg_visible u k db = None"
      "pg_rows db' = pg_rows db" "pg_clock db' = pg_clock db"
    | (down) db' e where "lockRecord u k db = (db', Inl e)" "\<not> status_error e"
      "pg_rows db' = pg_rows db" "pg_clock db' = pg_clock db"
proof (cases rule: pg_send_cases[of db])
  case (ok d)
  then show ?thesis using that(1,2) pg_visible_rows[OF ok(2), of u k]
    by (cases "pg_visible u k db") (auto simp: lockRecord_def pg_select_def)
next
  case (down d e)
  then show ?thesis using that(3) by (auto simp: lockRecord_def pg_select_def)
qed

lemma pg_update_cases:
  assumes "pg_visible u k db = Some row"
  obtains (ok) db' where "pg_update u k f db = (db', None)"
      "pg_rows db' = gm_put (slot_of k) (f (pg_clock db) row) (pg_rows db)" "pg_clock db' = pg_clock db"
    | (down) db' e where "pg_update u k f db = (db', Some e)" "\<not> status_error e" "pg_clock db' = pg_clock db"
proof (cases rule: pg_send_cases[of db])
  case (ok d)
  then show ?thesis using that(1) assms pg_visible_rows[OF ok(2), of u k] by (auto simp: pg_update_def)
next
  case (down d e)
  then show ?thesis using that(2) by (auto simp: pg_update_def)
qed

subsection \<open>The store follows the pure rules\<close>

definition pg_recs :: "pg_db \<Rightarrow> slot \<Rightarrow> jrecord option" where
  "pg_recs db sl = map_option (\<lambda>row. row_record \<lparr>k_user = pj_user row, k_doc = fst sl, k_type = snd sl\<rparr> row)
     (gm_get (pg_rows db) sl)"

lemma pg_recs_rows: "pg_rows db = pg_rows db' \<Longrightarrow> pg_recs db = pg_recs db'"
  by (simp add: pg_recs_def fun_eq_iff)

lemma key_of_slot [simp]: "\<lparr>k_user = k_user k, k_doc = fst (slot_of k), k_type = snd (slot_of k)\<rparr> = k"
  by (cases k) (simp add: slot_of_def)

lemma row_key: "pj_user row = k_user k \<Longrightarrow> \<lparr>k_user = pj_user row, k_doc = fst (slot_of k), k_type = snd (slot_of k)\<rparr> = k"
  by (cases k) (simp add: slot_of_def)

lemma row_record_key [simp]: "r_key (row_record k row) = k" "r_attempt (row_record k row) = pj_attempt row"
  by (simp_all add: row_record_def)

lemma pg_visible_recs: "visible (pg_recs db) k = map_option (row_record k) (pg_visible (k_user k) k db)"
  by (auto simp: visible_def pg_recs_def pg_visible_def row_key split: option.splits)

lemma pg_visible_get: "pg_visible u k db = Some row \<Longrightarrow> gm_get (pg_rows db) (slot_of k) = Some row \<and> pj_user row = u \<and> u = k_user k"
  by (auto simp: pg_visible_def split: option.splits if_splits)

lemma or_empty_null_if [simp]: "or_empty (null_if s) = s" "or_empty None = ''''"
  by (simp_all add: or_empty_def null_if_def)

lemma status_of_str [simp]:
  "status_of ''pending'' = StPending" "status_of ''processing'' = StProcessing"
  "status_of ''succeeded'' = StSucceeded" "status_of ''failed'' = StFailed"
  by (simp_all add: status_of_def)

lemma Transition_target: "Transition cur a to ph rs = (n, True, None) \<Longrightarrow> to \<in> {StProcessing, StSucceeded, StFailed} \<and> r_status n = to"
  by (auto simp: Transition_def Let_def split: if_splits)

lemma Transition_unchanged: "Transition cur a to ph rs = (n, False, None) \<Longrightarrow> n = cur"
  by (auto simp: Transition_def Let_def split: if_splits)

text \<open>
  A caller tells errors apart with \<^verbatim>\<open>errors.Is\<close>, which sees through the sentence the store puts in
  front; \<open>without_wrap\<close> takes that sentence off.
\<close>

definition without_wrap :: "gerror \<Rightarrow> gerror" where
  "without_wrap e = (case e of Wrapf m e' \<Rightarrow> e' | _ \<Rightarrow> e)"

lemma without_wrap_simps [simp]: "without_wrap (Wrapf m e) = e"
  by (simp add: without_wrap_def)

lemma status_error_wrapped [simp]: "status_error (Wrapf m e) = status_error e"
  by (simp add: status_error_def)

definition wrote :: "jkey \<Rightarrow> (pg_row \<Rightarrow> bool) \<Rightarrow> pg_db \<Rightarrow> pg_db \<Rightarrow> bool" where
  "wrote k P db db' \<longleftrightarrow>
     (\<exists>row. pg_rows db' = gm_put (slot_of k) row (pg_rows db) \<and> pj_user row = k_user k \<and>
        pj_status row \<in> set (map jstatus_str [StPending, StProcessing, StSucceeded, StFailed]) \<and> P row)"

lemma wrote_recs:
  "pg_rows db' = gm_put (slot_of k) row (pg_rows db) \<Longrightarrow> pj_user row = k_user k \<Longrightarrow>
     pg_recs db' = (pg_recs db)(slot_of k \<mapsto> row_record k row)"
proof -
  assume a: "pg_rows db' = gm_put (slot_of k) row (pg_rows db)" "pj_user row = k_user k"
  have "pg_recs db' sl = ((pg_recs db)(slot_of k \<mapsto> row_record k row)) sl" for sl
    using a by (cases "sl = slot_of k") (simp_all add: pg_recs_def)
  then show ?thesis by (rule ext)
qed

text \<open>
  What a transaction leaves behind: nothing where it fails by an outage, and what the pure rules say
  where it does not.
\<close>

definition transition_left :: "jkey \<Rightarrow> int \<Rightarrow> jstatus \<Rightarrow> string \<Rightarrow> string \<Rightarrow> pg_db \<Rightarrow> pg_db \<times> (gerror + unit) \<Rightarrow> bool" where
  "transition_left k a to ph rs tx q \<longleftrightarrow> pg_clock (fst q) = pg_clock tx \<and>
     ((\<exists>e. snd q = Inl e \<and> \<not> status_error e) \<or>
      (\<exists>e. snd q = Inl e \<and> (pg_recs tx, Some e) = spec_transition k a to ph rs (pg_recs tx)) \<or>
      (snd q = Inr () \<and> pg_rows (fst q) = pg_rows tx \<and> (pg_recs tx, None) = spec_transition k a to ph rs (pg_recs tx)) \<or>
      (\<exists>row. snd q = Inr () \<and> gm_get (pg_rows tx) (slot_of k) = Some row \<and>
         wrote k (\<lambda>row'. pj_enqueued row' = pj_enqueued row) tx (fst q) \<and>
         (pg_recs (fst q), None) = spec_transition k a to ph rs (pg_recs tx)))"

lemma transition_tx_write:
  assumes found: "pg_visible (k_user k) k tx = Some row"
    and t: "Transition (row_record k row) a to ph rs = (n, True, None)"
    and d: "pg_rows d = pg_rows tx" "pg_clock d = pg_clock tx"
  shows "transition_left k a to ph rs tx
    (try_proc (pg_update (k_user k) k (\<lambda>now row. row\<lparr>pj_status := jstatus_str (r_status n),
        pj_phase := null_if (r_phase n), pj_error := null_if (r_last_error n), pj_updated := now\<rparr>))
      (\<lambda>e db. (db, Inl e)) (\<lambda>db. (db, Inr ())) d)"
    (is "transition_left k a to ph rs tx (try_proc (pg_update _ _ ?f) _ _ _)")
proof -
  have row: "gm_get (pg_rows tx) (slot_of k) = Some row" "pj_user row = k_user k"
    using pg_visible_get[OF found] by auto
  have n: "r_status n \<in> {StProcessing, StSucceeded, StFailed}"
    using Transition_target[of "row_record k row" a to ph rs n] t by auto
  have key: "r_key n = k" "r_attempt n = pj_attempt row"
    using Transition_key[of "row_record k row" a to ph rs] t by auto
  have spec: "spec_transition k a to ph rs (pg_recs tx) = ((pg_recs tx)(slot_of k \<mapsto> n), None)"
    using found t pg_visible_recs[of tx k] by (simp add: spec_transition_def)
  have vd: "pg_visible (k_user k) k d = Some row" using found pg_visible_rows[OF d(1)] by simp
  show ?thesis
    using vd
  proof (cases rule: pg_update_cases[where f = ?f])
    case (down d2 e2)
    then show ?thesis using d by (auto simp: transition_left_def)
  next
    case (ok d2)
    have rec: "row_record k (?f (pg_clock d) row) = n" using n key by (cases n) (auto simp: row_record_def)
    have rows: "pg_rows d2 = gm_put (slot_of k) (?f (pg_clock d) row) (pg_rows tx)" using ok d by simp
    have "wrote k (\<lambda>row'. pj_enqueued row' = pj_enqueued row) tx d2"
      using rows row n by (auto simp: wrote_def intro!: exI[of _ "?f (pg_clock d) row"])
    moreover have "pg_recs d2 = (pg_recs tx)(slot_of k \<mapsto> n)" using wrote_recs[OF rows] row rec by simp
    ultimately show ?thesis using ok row spec d by (auto simp: transition_left_def)
  qed
qed

lemma transition_tx_left: "transition_left k a to ph rs tx (transition_tx k a to ph rs (k_user k) tx)"
proof (cases rule: lockRecord_cases[of "k_user k" k tx])
  case (missing d)
  then show ?thesis using pg_visible_recs[of tx k]
    by (auto simp: transition_tx_def transition_left_def spec_transition_def)
next
  case (down d e)
  then show ?thesis by (auto simp: transition_tx_def transition_left_def)
next
  case (found d row)
  have vis: "visible (pg_recs tx) k = Some (row_record k row)" using found(2) pg_visible_recs[of tx k] by simp
  have same: "(pg_recs tx)(slot_of k \<mapsto> row_record k row) = pg_recs tx"
    using pg_visible_get[OF found(2)] by (simp add: fun_upd_idem pg_recs_def row_key)
  obtain n c e where t: "Transition (row_record k row) a to ph rs = (n, c, e)" by (metis prod_cases3)
  have spec: "spec_transition k a to ph rs (pg_recs tx) = ((pg_recs tx)(slot_of k \<mapsto> n), e)"
    using vis t by (simp add: spec_transition_def)
  consider (refused) x where "e = Some x" | (unchanged) "e = None" "\<not> c" | (changed) "e = None" "c" by auto
  then show ?thesis
  proof cases
    case (refused x)
    then have "n = row_record k row" using Transition_err_same[of "row_record k row" a to ph rs] t by simp
    then show ?thesis using refused found t spec same by (auto simp: transition_tx_def transition_left_def)
  next
    case unchanged
    then have "n = row_record k row" using Transition_unchanged[of "row_record k row" a to ph rs n] t by simp
    then show ?thesis using unchanged found t spec same by (auto simp: transition_tx_def transition_left_def)
  next
    case changed
    then show ?thesis using found t transition_tx_write[OF found(2), of a to ph rs n d]
      by (simp add: transition_tx_def)
  qed
qed

lemma pg_transition_effect:
  assumes "pg_transition (Some (k_user k)) k a to ph rs db = (db', r)"
  obtains (down) e where "pg_rows db' = pg_rows db" "r = Some e" "\<not> status_error e" "pg_clock db \<le> pg_clock db'"
    | (refused) "pg_rows db' = pg_rows db" "pg_clock db \<le> pg_clock db'"
        "(pg_recs db, map_option without_wrap r) = spec_transition k a to ph rs (pg_recs db)"
    | (written) row where "gm_get (pg_rows db) (slot_of k) = Some row" "pg_clock db \<le> pg_clock db'"
        "wrote k (\<lambda>row'. pj_enqueued row' = pj_enqueued row) db db'"
        "(pg_recs db', None) = spec_transition k a to ph rs (pg_recs db)"
        "r = None \<or> (\<exists>e. r = Some e \<and> \<not> status_error e)"
proof -
  note left = transition_tx_left[of k a to ph rs, unfolded transition_left_def]
  obtain x where x: "RunInTx (Some (k_user k)) (transition_tx k a to ph rs) db = (db', x)"
    "r = (case x of Inl e \<Rightarrow> Some (Wrapf ''jobstatus: mark'' e) | Inr _ \<Rightarrow> None)"
    using assms unfolding pg_transition_def try_call_def by (auto split: prod.splits sum.splits)
  show ?thesis
    using x(1)
  proof (cases rule: RunInTx_cases)
    case (down e)
    then show ?thesis using that(1)[of "Wrapf ''jobstatus: mark'' e"] x(2) by simp
  next
    case (failed tx tx' e)
    have recs: "pg_recs tx = pg_recs db" by (rule pg_recs_rows[OF failed(1)])
    have clock: "pg_clock tx' = pg_clock tx \<Longrightarrow> pg_clock db \<le> pg_clock db'" using failed by simp
    show ?thesis using left[of tx] failed x(2) recs clock
        that(1)[of "Wrapf ''jobstatus: mark'' e"] that(2) by auto
  next
    case (commit_lost tx tx' v e)
    then show ?thesis using that(1)[of "Wrapf ''jobstatus: mark'' e"] x(2) left[of tx] by auto
  next
    case (reply_lost tx tx' v e)
    have recs: "pg_recs tx = pg_recs db" by (rule pg_recs_rows[OF reply_lost(1)])
    have recs': "pg_recs db' = pg_recs tx'" by (rule pg_recs_rows[OF reply_lost(4)])
    have "wrote k P db db'" if "wrote k P tx tx'" for P using that reply_lost(1,4) by (simp add: wrote_def)
    then show ?thesis using left[of tx] reply_lost x(2) recs recs' that(3) that(1)[of "Wrapf ''jobstatus: mark'' e"] by auto
  next
    case (committed tx tx' v)
    have recs: "pg_recs tx = pg_recs db" by (rule pg_recs_rows[OF committed(1)])
    have recs': "pg_recs db' = pg_recs tx'" by (rule pg_recs_rows[OF committed(4)])
    have "wrote k P db db'" if "wrote k P tx tx'" for P using that committed(1,4) by (simp add: wrote_def)
    then show ?thesis using left[of tx] committed x(2) recs recs' that(2,3) by auto
  qed
qed

lemma pg_insert_cases:
  obtains (new) db' where "pg_insert u sl row db = (db', Inr 1)" "gm_get (pg_rows db) sl = None"
      "pg_rows db' = gm_put sl (row (pg_clock db)) (pg_rows db)" "pg_clock db' = pg_clock db"
    | (old) db' where "pg_insert u sl row db = (db', Inr 0)" "gm_get (pg_rows db) sl \<noteq> None"
      "pg_rows db' = pg_rows db" "pg_clock db' = pg_clock db"
    | (down) db' e where "pg_insert u sl row db = (db', Inl e)" "\<not> status_error e" "pg_clock db' = pg_clock db"
proof (cases rule: pg_send_cases[of db])
  case (ok d)
  then show ?thesis using that
    by (cases "pj_user (row (pg_clock db)) = u"; cases "gm_get (pg_rows db) sl")
      (auto simp: pg_insert_def status_error_def)
next
  case (down d e)
  then show ?thesis using that(3) by (auto simp: pg_insert_def)
qed

definition enqueue_left :: "jkey \<Rightarrow> pg_db \<Rightarrow> pg_db \<times> (gerror + enqueued) \<Rightarrow> bool" where
  "enqueue_left k tx q \<longleftrightarrow> pg_clock (fst q) = pg_clock tx \<and>
     ((\<exists>e. snd q = Inl e \<and> \<not> status_error e) \<or>
      (\<exists>e. snd q = Inl e \<and> (pg_recs tx, snd q) = spec_enqueue k (pg_recs tx)) \<or>
      (\<exists>x. snd q = Inr x \<and> \<not> enq_started x \<and> pg_rows (fst q) = pg_rows tx \<and> (pg_recs tx, snd q) = spec_enqueue k (pg_recs tx)) \<or>
      (\<exists>x. snd q = Inr x \<and> enq_started x \<and> wrote k (\<lambda>row. pj_enqueued row = pg_clock tx) tx (fst q) \<and>
         (pg_recs (fst q), snd q) = spec_enqueue k (pg_recs tx)))"

text \<open>The branch that restarts a finished job.\<close>

lemma enqueue_tx_restart:
  assumes found: "pg_visible (k_user k) k tx = Some row" and over: "\<not> Active (status_of (pj_status row))"
    and d: "pg_rows d = pg_rows tx" "pg_clock d = pg_clock tx"
  shows "enqueue_left k tx
    (try_proc (pg_update (k_user k) k (\<lambda>now row'. row'\<lparr>pj_status := jstatus_str StPending,
        pj_phase := None, pj_attempt := pj_attempt row + 1, pj_error := None, pj_enqueued := now, pj_updated := now\<rparr>))
      (\<lambda>e db. (db, Inl e)) (\<lambda>db. (db, Inr \<lparr>enq_attempt = pj_attempt row + 1, enq_started = True\<rparr>)) d)"
    (is "enqueue_left k tx (try_proc (pg_update _ _ ?f) _ _ _)")
proof -
  let ?n = "\<lparr>r_key = k, r_status = StPending, r_phase = '''', r_attempt = pj_attempt row + 1, r_last_error = ''''\<rparr>"
  have row: "gm_get (pg_rows tx) (slot_of k) = Some row" "pj_user row = k_user k"
    using pg_visible_get[OF found] by auto
  have spec: "spec_enqueue k (pg_recs tx) =
      ((pg_recs tx)(slot_of k \<mapsto> ?n), Inr \<lparr>enq_attempt = pj_attempt row + 1, enq_started = True\<rparr>)"
    using found over pg_visible_recs[of tx k] by (simp add: spec_enqueue_def Enqueue_def row_record_def)
  have vd: "pg_visible (k_user k) k d = Some row" using found pg_visible_rows[OF d(1)] by simp
  show ?thesis
    using vd
  proof (cases rule: pg_update_cases[where f = ?f])
    case (down d3 e)
    then show ?thesis using d by (auto simp: enqueue_left_def)
  next
    case (ok d3)
    have rows: "pg_rows d3 = gm_put (slot_of k) (?f (pg_clock tx) row) (pg_rows tx)" using ok d by simp
    have "wrote k (\<lambda>row. pj_enqueued row = pg_clock tx) tx d3"
      using rows row unfolding wrote_def by (intro exI[of _ "?f (pg_clock tx) row"]) simp
    moreover have "row_record k (?f (pg_clock tx) row) = ?n" by (simp add: row_record_def)
    then have "pg_recs d3 = (pg_recs tx)(slot_of k \<mapsto> ?n)" using wrote_recs[OF rows] row by simp
    ultimately show ?thesis using ok spec d by (auto simp: enqueue_left_def)
  qed
qed

text \<open>A row the insert met is locked; an active one is answered with its attempt.\<close>

lemma enqueue_tx_old:
  assumes ins: "pg_insert (k_user k) (slot_of k)
      (\<lambda>now. \<lparr>pj_user = k_user k, pj_status = jstatus_str StPending, pj_phase = None, pj_attempt = 1,
         pj_error = None, pj_enqueued = now, pj_updated = now\<rparr>) tx = (d, Inr 0)"
    and some: "gm_get (pg_rows tx) (slot_of k) \<noteq> None" and d: "pg_rows d = pg_rows tx" "pg_clock d = pg_clock tx"
  shows "enqueue_left k tx (enqueue_tx k (k_user k) tx)"
proof (cases rule: lockRecord_cases[of "k_user k" k d])
  case (down d2 e)
  then show ?thesis using ins d by (auto simp: enqueue_tx_def enqueue_left_def)
next
  case (missing d2)
  have "visible (pg_recs tx) k = None" "pg_recs tx (slot_of k) \<noteq> None"
    using missing(2) some pg_visible_recs[of tx k] pg_visible_rows[OF d(1), of "k_user k" k] by (simp_all add: pg_recs_def)
  then show ?thesis using ins missing d by (auto simp: enqueue_tx_def enqueue_left_def spec_enqueue_def)
next
  case (found d2 row)
  have vt: "pg_visible (k_user k) k tx = Some row" using found(2) pg_visible_rows[OF d(1), of "k_user k" k] by simp
  have vis: "visible (pg_recs tx) k = Some (row_record k row)" using vt pg_visible_recs[of tx k] by simp
  have same: "(pg_recs tx)(slot_of k \<mapsto> row_record k row) = pg_recs tx"
    using pg_visible_get[OF vt] by (simp add: fun_upd_idem pg_recs_def row_key)
  show ?thesis
  proof (cases "Active (r_status (row_record k row))")
    case True
    then have "Enqueue (Some (row_record k row)) k = (row_record k row, \<lparr>enq_attempt = pj_attempt row, enq_started = False\<rparr>)"
      by (simp add: Enqueue_def)
    then show ?thesis using ins found d vis same by (auto simp: enqueue_tx_def enqueue_left_def spec_enqueue_def)
  next
    case False
    then have "Enqueue (Some (row_record k row)) k =
        (\<lparr>r_key = k, r_status = StPending, r_phase = '''', r_attempt = pj_attempt row + 1, r_last_error = ''''\<rparr>,
         \<lparr>enq_attempt = pj_attempt row + 1, enq_started = True\<rparr>)"
      by (simp add: Enqueue_def)
    then show ?thesis using ins found d enqueue_tx_restart[OF vt, of d2] False
      by (simp add: enqueue_tx_def row_record_def)
  qed
qed

lemma enqueue_tx_left: "enqueue_left k tx (enqueue_tx k (k_user k) tx)"
proof (cases rule: pg_insert_cases[of "k_user k" "slot_of k" "\<lambda>now. \<lparr>pj_user = k_user k,
    pj_status = jstatus_str StPending, pj_phase = None, pj_attempt = 1, pj_error = None,
    pj_enqueued = now, pj_updated = now\<rparr>" tx])
  case (down d e)
  then show ?thesis by (auto simp: enqueue_tx_def enqueue_left_def)
next
  case (new d)
  let ?row = "\<lparr>pj_user = k_user k, pj_status = jstatus_str StPending, pj_phase = None, pj_attempt = 1,
      pj_error = None, pj_enqueued = pg_clock tx, pj_updated = pg_clock tx\<rparr>"
  have "spec_enqueue k (pg_recs tx) = ((pg_recs tx)(slot_of k \<mapsto> row_record k ?row), Inr \<lparr>enq_attempt = 1, enq_started = True\<rparr>)"
    using new(2) by (simp add: spec_enqueue_def visible_def Enqueue_def pg_recs_def row_record_def)
  moreover have "wrote k (\<lambda>row. pj_enqueued row = pg_clock tx) tx d"
    using new(3) unfolding wrote_def by (intro exI[of _ ?row]) simp
  ultimately show ?thesis using new wrote_recs[OF new(3)] by (auto simp: enqueue_tx_def enqueue_left_def)
qed (rule enqueue_tx_old)

lemma pg_Enqueue_effect:
  assumes "pg_Enqueue (Some (k_user k)) k db = (db', r)"
  obtains (down) e where "pg_rows db' = pg_rows db" "r = Inl e" "\<not> status_error e" "pg_clock db \<le> pg_clock db'"
    | (kept) "pg_rows db' = pg_rows db" "pg_clock db \<le> pg_clock db'"
        "(pg_recs db, map_sum without_wrap id r) = spec_enqueue k (pg_recs db)"
        "\<not> (\<exists>x. r = Inr x \<and> enq_started x)"
    | (written) x where "pg_clock db < pg_clock db'" "wrote k (\<lambda>row. pj_enqueued row = pg_clock db') db db'"
        "(pg_recs db', Inr x) = spec_enqueue k (pg_recs db)" "enq_started x"
        "r = Inr x \<or> (\<exists>e. r = Inl e \<and> \<not> status_error e)"
proof -
  note left = enqueue_tx_left[of k, unfolded enqueue_left_def]
  obtain x where x: "RunInTx (Some (k_user k)) (enqueue_tx k) db = (db', x)"
    "r = (case x of Inl e \<Rightarrow> Inl (Wrapf ''jobstatus: enqueue'' e) | Inr v \<Rightarrow> Inr v)"
    using assms unfolding pg_Enqueue_def try_call_def[of "RunInTx A B" for A B] by (auto split: prod.splits sum.splits)
  show ?thesis
    using x(1)
  proof (cases rule: RunInTx_cases)
    case (down e)
    then show ?thesis using that(1)[of "Wrapf ''jobstatus: enqueue'' e"] x(2) by simp
  next
    case (failed tx tx' e)
    have recs: "pg_recs tx = pg_recs db" by (rule pg_recs_rows[OF failed(1)])
    show ?thesis using left[of tx] failed x(2) recs
        that(1)[of "Wrapf ''jobstatus: enqueue'' e"] that(2) by auto
  next
    case (commit_lost tx tx' v e)
    then show ?thesis using that(1)[of "Wrapf ''jobstatus: enqueue'' e"] x(2) left[of tx] by auto
  next
    case (reply_lost tx tx' v e)
    have recs: "pg_recs tx = pg_recs db" by (rule pg_recs_rows[OF reply_lost(1)])
    have recs': "pg_recs db' = pg_recs tx'" by (rule pg_recs_rows[OF reply_lost(4)])
    have "wrote k P db db'" if "wrote k P tx tx'" for P using that reply_lost(1,4) by (simp add: wrote_def)
    then show ?thesis using left[of tx] reply_lost x(2) recs recs' that(3) that(1)[of "Wrapf ''jobstatus: enqueue'' e"] by auto
  next
    case (committed tx tx' v)
    have recs: "pg_recs tx = pg_recs db" by (rule pg_recs_rows[OF committed(1)])
    have recs': "pg_recs db' = pg_recs tx'" by (rule pg_recs_rows[OF committed(4)])
    have "wrote k P db db'" if "wrote k P tx tx'" for P using that committed(1,4) by (simp add: wrote_def)
    then show ?thesis using left[of tx] committed x(2) recs recs' that(2,3) by auto
  qed
qed

text \<open>
  What the store promises its callers is less than the in-memory store does: a call that fails for no
  reason of the job's may have taken effect all the same.
\<close>

definition write_unsure ::
  "((slot \<Rightarrow> jrecord option) \<Rightarrow> (slot \<Rightarrow> jrecord option) \<times> gerror option) \<Rightarrow>
   ('s \<Rightarrow> slot \<Rightarrow> jrecord option) \<Rightarrow> 's proc \<Rightarrow> bool" where
  "write_unsure sp recs p \<longleftrightarrow>
     (\<forall>s s' r. p s = (s', r) \<longrightarrow>
        (recs s', r) = sp (recs s) \<or>
        ((recs s' = recs s \<or> (recs s', None) = sp (recs s)) \<and> (\<exists>e. r = Some e \<and> \<not> status_error e)))"

definition enqueue_unsure ::
  "jkey \<Rightarrow> ('s \<Rightarrow> slot \<Rightarrow> jrecord option) \<Rightarrow> ('s, enqueued) call \<Rightarrow> bool" where
  "enqueue_unsure k recs p \<longleftrightarrow>
     (\<forall>s s' r. p s = (s', r) \<longrightarrow>
        (recs s', r) = spec_enqueue k (recs s) \<or>
        ((recs s' = recs s \<or> (\<exists>x. (recs s', Inr x) = spec_enqueue k (recs s))) \<and> (\<exists>e. r = Inl e \<and> \<not> status_error e)))"

locale unsure_store =
  fixes W :: "'s status_writer"
    and recs :: "'s \<Rightarrow> slot \<Rightarrow> jrecord option"
  assumes enqueue_law: "enqueue_unsure k recs (sw_enqueue W k)"
    and processing_law: "write_unsure (spec_transition k a StProcessing '''' '''') recs (sw_mark_processing W k a)"
    and phase_law: "write_unsure (spec_transition k a StProcessing ph '''') recs (sw_set_phase W k a ph)"
    and succeeded_law: "write_unsure (spec_transition k a StSucceeded '''' '''') recs (sw_mark_succeeded W k a)"
    and failed_law: "write_unsure (spec_transition k a StFailed '''' rs) recs (sw_mark_failed W k a rs)"
begin

text \<open>It is still enough for what a step of the pipeline relies on.\<close>

definition is_report :: "jkey \<Rightarrow> int \<Rightarrow> 's proc \<Rightarrow> bool" where
  "is_report k a p \<longleftrightarrow> p = sw_mark_processing W k a \<or> (\<exists>ph. p = sw_set_phase W k a ph) \<or>
     p = sw_mark_succeeded W k a \<or> (\<exists>rs. p = sw_mark_failed W k a rs)"

lemma report_cases:
  assumes "is_report k a p" "p s = (s', r)"
  obtains (unchanged) "recs s' = recs s" | (rules) to ph rs q where "(recs s', q) = spec_transition k a to ph rs (recs s)"
proof -
  have "write_unsure (spec_transition k a StProcessing '''' '''') recs p \<or> (\<exists>ph. write_unsure (spec_transition k a StProcessing ph '''') recs p) \<or>
      write_unsure (spec_transition k a StSucceeded '''' '''') recs p \<or> (\<exists>rs. write_unsure (spec_transition k a StFailed '''' rs) recs p)"
    using assms(1) processing_law phase_law succeeded_law failed_law unfolding is_report_def by metis
  then obtain to ph rs where "write_unsure (spec_transition k a to ph rs) recs p" by blast
  with assms(2) have "recs s' = recs s \<or> (\<exists>q. (recs s', q) = spec_transition k a to ph rs (recs s))"
    unfolding write_unsure_def by blast
  then show thesis using that by blast
qed

lemma late_report_unchanged:
  assumes "is_report k a p" "p s = (s', r)" "recs s (slot_of k) = Some c" "a \<noteq> r_attempt c"
  shows "recs s' = recs s"
  using assms(1,2)
proof (cases rule: report_cases)
  case (rules to ph rs q)
  then show ?thesis using assms(3) Transition_stale[OF assms(4)]
    by (auto simp: spec_transition_def visible_def fun_upd_idem split: if_splits)
qed

lemma finished_unchanged:
  assumes "is_report k a p" "p s = (s', r)" "recs s (slot_of k) = Some c" "\<not> Active (r_status c)"
  shows "recs s' = recs s"
  using assms(1,2)
proof (cases rule: report_cases)
  case (rules to ph rs q)
  then show ?thesis using assms(3) Transition_finished[OF assms(4)]
    by (auto simp: spec_transition_def visible_def fun_upd_idem split: if_splits)
qed

lemma enqueue_active_unchanged:
  assumes "sw_enqueue W k s = (s', r)" "visible (recs s) k = Some c" "Active (r_status c)"
  shows "recs s' = recs s"
proof -
  have "fst (spec_enqueue k (recs s)) = recs s"
    using assms(2,3) by (auto simp: spec_enqueue_def visible_def Enqueue_def fun_upd_idem split: option.splits if_splits)
  moreover have "recs s' = recs s \<or> recs s' = fst (spec_enqueue k (recs s))"
    using enqueue_law[of k] assms(1) unfolding enqueue_unsure_def by (metis fst_conv)
  ultimately show ?thesis by auto
qed

end

sublocale job_status_store \<subseteq> unsure: unsure_store W recs
proof
  show "enqueue_unsure k recs (sw_enqueue W k)" for k
    using enqueue_law[of k] unfolding enqueue_refines_def enqueue_unsure_def by blast
  have weaker: "write_refines sp recs p \<Longrightarrow> write_unsure sp recs p" for sp p
    unfolding write_refines_def write_unsure_def by blast
  show "write_unsure (spec_transition k a StProcessing '''' '''') recs (sw_mark_processing W k a)"
    "write_unsure (spec_transition k a StProcessing ph '''') recs (sw_set_phase W k a ph)"
    "write_unsure (spec_transition k a StSucceeded '''' '''') recs (sw_mark_succeeded W k a)"
    "write_unsure (spec_transition k a StFailed '''' rs) recs (sw_mark_failed W k a rs)" for k a ph rs
    by (rule weaker, rule processing_law, rule weaker, rule phase_law, rule weaker, rule succeeded_law, rule weaker, rule failed_law)
qed

text \<open>The store, with the identity of the job's user in every context, implements the interface.\<close>

definition pg_plain :: "pg_db status_writer" where
  "pg_plain =
     \<lparr>sw_enqueue = (\<lambda>k db. map_prod id (map_sum without_wrap id) (pg_Enqueue (Some (k_user k)) k db)),
      sw_mark_processing = (\<lambda>k a db. map_prod id (map_option without_wrap) (pg_MarkProcessing (Some (k_user k)) k a db)),
      sw_set_phase = (\<lambda>k a ph db. map_prod id (map_option without_wrap) (pg_SetPhase (Some (k_user k)) k a ph db)),
      sw_mark_succeeded = (\<lambda>k a db. map_prod id (map_option without_wrap) (pg_MarkSucceeded (Some (k_user k)) k a db)),
      sw_mark_failed = (\<lambda>k a rs db. map_prod id (map_option without_wrap) (pg_MarkFailed (Some (k_user k)) k a rs db))\<rparr>"

lemma pg_down_plain: "\<not> status_error e \<Longrightarrow> \<not> status_error (without_wrap e)"
  by (cases e) (auto simp: without_wrap_def status_error_def)

lemma pg_transition_law:
  "write_unsure (spec_transition k a to ph rs) pg_recs
     (\<lambda>db. map_prod id (map_option without_wrap) (pg_transition (Some (k_user k)) k a to ph rs db))"
proof -
  have "(pg_recs db', map_option without_wrap r) = spec_transition k a to ph rs (pg_recs db) \<or>
      (pg_recs db' = pg_recs db \<or> (pg_recs db', None) = spec_transition k a to ph rs (pg_recs db)) \<and>
      (\<exists>e. map_option without_wrap r = Some e \<and> \<not> status_error e)"
    if "pg_transition (Some (k_user k)) k a to ph rs db = (db', r)" for db db' r
    using that
  proof (cases rule: pg_transition_effect)
    case (down e)
    then show ?thesis using pg_down_plain by (auto intro: pg_recs_rows)
  next
    case refused
    then show ?thesis using pg_recs_rows[OF refused(1)] by simp
  next
    case (written row)
    then show ?thesis using pg_down_plain by auto
  qed
  then show ?thesis unfolding write_unsure_def by (fastforce simp: map_prod_def split: prod.splits)
qed

lemma pg_enqueue_law:
  "enqueue_unsure k pg_recs (\<lambda>db. map_prod id (map_sum without_wrap id) (pg_Enqueue (Some (k_user k)) k db))"
proof -
  have "(pg_recs db', map_sum without_wrap id r) = spec_enqueue k (pg_recs db) \<or>
      (pg_recs db' = pg_recs db \<or> (\<exists>x. (pg_recs db', Inr x) = spec_enqueue k (pg_recs db))) \<and>
      (\<exists>e. map_sum without_wrap id r = Inl e \<and> \<not> status_error e)"
    if "pg_Enqueue (Some (k_user k)) k db = (db', r)" for db db' r
    using that
  proof (cases rule: pg_Enqueue_effect)
    case (down e)
    then show ?thesis using pg_down_plain by (auto intro: pg_recs_rows)
  next
    case kept
    then show ?thesis using pg_recs_rows[OF kept(1)] by simp
  next
    case (written x)
    then show ?thesis using pg_down_plain by auto
  qed
  then show ?thesis unfolding enqueue_unsure_def by (fastforce simp: map_prod_def split: prod.splits)
qed

lemmas pg_mark_defs = pg_MarkProcessing_def pg_SetPhase_def pg_MarkSucceeded_def pg_MarkFailed_def

interpretation pg: unsure_store pg_plain pg_recs
  by unfold_locales (simp_all add: pg_plain_def pg_mark_defs pg_transition_law pg_enqueue_law)

subsection \<open>Histories\<close>

definition pg_new :: "timestamp \<Rightarrow> pg_fault list \<Rightarrow> pg_db" where
  "pg_new t faults = \<lparr>pg_rows = [], pg_clock = t, pg_faults = faults\<rparr>"

fun pg_step :: "jstore_op \<Rightarrow> pg_db \<Rightarrow> pg_db \<times> gerror option" where
  "pg_step (OpEnqueue k) db =
     (case pg_Enqueue (Some (k_user k)) k db of (db', r) \<Rightarrow> (db', case r of Inl e \<Rightarrow> Some e | Inr _ \<Rightarrow> None))"
| "pg_step (OpProcessing k a) db = pg_MarkProcessing (Some (k_user k)) k a db"
| "pg_step (OpPhase k a ph) db = pg_SetPhase (Some (k_user k)) k a ph db"
| "pg_step (OpSucceeded k a) db = pg_MarkSucceeded (Some (k_user k)) k a db"
| "pg_step (OpFailed k a rs) db = pg_MarkFailed (Some (k_user k)) k a rs db"

definition pg_run :: "jstore_op list \<Rightarrow> pg_db \<Rightarrow> pg_db" where
  "pg_run ops db = fold (\<lambda>op db. fst (pg_step op db)) ops db"

text \<open>
  The calls the store answered, and those that took effect: the answered ones and, of those that met
  an outage, the ones whose transaction was committed and changed the table.
\<close>

definition answered :: "gerror option \<Rightarrow> bool" where
  "answered r = (case r of None \<Rightarrow> True | Some e \<Rightarrow> status_error e)"

fun pg_answered :: "jstore_op list \<Rightarrow> pg_db \<Rightarrow> jstore_op list" where
  "pg_answered [] db = []"
| "pg_answered (op # ops) db =
     (case pg_step op db of (db', r) \<Rightarrow> (if answered r then [op] else []) @ pg_answered ops db')"

fun pg_took :: "jstore_op list \<Rightarrow> pg_db \<Rightarrow> jstore_op list" where
  "pg_took [] db = []"
| "pg_took (op # ops) db =
     (case pg_step op db of
        (db', r) \<Rightarrow> (if answered r \<or> pg_rows db' \<noteq> pg_rows db then [op] else []) @ pg_took ops db')"

lemma pg_took_run:
  "pg_took (op # ops) db =
     (if answered (snd (pg_step op db)) \<or> pg_rows (fst (pg_step op db)) \<noteq> pg_rows db then [op] else []) @
     pg_took ops (fst (pg_step op db))"
  by (simp split: prod.split)

lemma answered_took: "subseq (pg_answered ops db) (pg_took ops db)"
proof (induction ops arbitrary: db)
  case (Cons op ops)
  then show ?case by (cases "pg_step op db") (auto simp del: pg_step.simps)
qed simp

lemma took_called: "subseq (pg_took ops db) ops"
proof (induction ops arbitrary: db)
  case (Cons op ops)
  then show ?case by (cases "pg_step op db") (auto simp del: pg_step.simps)
qed simp

definition enq_of :: "pg_db \<Rightarrow> slot \<Rightarrow> timestamp option" where
  "enq_of db sl = map_option pj_enqueued (gm_get (pg_rows db) sl)"

definition seq_of :: "jstore \<Rightarrow> slot \<Rightarrow> nat option" where
  "seq_of s sl = map_option row_seq (gm_get (js_rows s) sl)"

text \<open>
  The two stores hold the same records, and the time a job was enqueued orders them as the sequence
  number does.
\<close>

definition pg_table_ok :: "pg_db \<Rightarrow> bool" where
  "pg_table_ok db \<longleftrightarrow> distinct (gm_keys (pg_rows db)) \<and>
     (\<forall>sl row. gm_get (pg_rows db) sl = Some row \<longrightarrow> pj_enqueued row \<le> pg_clock db \<and>
        pj_status row \<in> set (map jstatus_str [StPending, StProcessing, StSucceeded, StFailed]))"

definition same_order :: "pg_db \<Rightarrow> jstore \<Rightarrow> bool" where
  "same_order db s \<longleftrightarrow>
     (\<forall>sl sl' a b m n. enq_of db sl = Some a \<longrightarrow> enq_of db sl' = Some b \<longrightarrow> seq_of s sl = Some m \<longrightarrow>
        seq_of s sl' = Some n \<longrightarrow> (a \<le> b \<longleftrightarrow> m \<le> n))"

definition pg_sim :: "pg_db \<Rightarrow> jstore \<Rightarrow> bool" where
  "pg_sim db s \<longleftrightarrow> pg_recs db = js_recs s \<and> js_wf s \<and> pg_table_ok db \<and> same_order db s"

lemma pg_table_okD:
  assumes "pg_table_ok db" "gm_get (pg_rows db) sl = Some row"
  shows "pj_enqueued row \<le> pg_clock db"
    and "pj_status row \<in> set (map jstatus_str [StPending, StProcessing, StSucceeded, StFailed])"
  using assms unfolding pg_table_ok_def by blast+

lemma pg_table_ok_same:
  "pg_table_ok db \<Longrightarrow> pg_rows db' = pg_rows db \<Longrightarrow> pg_clock db \<le> pg_clock db' \<Longrightarrow> pg_table_ok db'"
  unfolding pg_table_ok_def by force

lemma pg_table_ok_wrote:
  assumes "pg_table_ok db" "wrote k P db db'" "pg_clock db \<le> pg_clock db'" "\<And>row. P row \<Longrightarrow> pj_enqueued row \<le> pg_clock db'"
  shows "pg_table_ok db'"
proof -
  obtain row where row: "pg_rows db' = gm_put (slot_of k) row (pg_rows db)"
    "pj_status row \<in> set (map jstatus_str [StPending, StProcessing, StSucceeded, StFailed])" "P row"
    using assms(2) unfolding wrote_def by blast
  show ?thesis unfolding pg_table_ok_def
  proof (intro conjI allI impI)
    show "distinct (gm_keys (pg_rows db'))" using assms(1) row(1) by (simp add: pg_table_ok_def)
    fix sl q assume q: "gm_get (pg_rows db') sl = Some q"
    show "pj_enqueued q \<le> pg_clock db'"
    proof (cases "sl = slot_of k")
      case True
      then show ?thesis using q row(1,3) assms(4) by simp
    next
      case False
      then show ?thesis using q row(1) pg_table_okD(1)[OF assms(1), of sl q] assms(3) by simp
    qed
    show "pj_status q \<in> set (map jstatus_str [StPending, StProcessing, StSucceeded, StFailed])"
    proof (cases "sl = slot_of k")
      case True
      then show ?thesis using q row(1,2) by simp
    next
      case False
      then show ?thesis using q row(1) pg_table_okD(2)[OF assms(1), of sl q] by simp
    qed
  qed
qed

lemma same_order_cong: "enq_of db' = enq_of db \<Longrightarrow> seq_of s' = seq_of s \<Longrightarrow> same_order db s \<Longrightarrow> same_order db' s'"
  by (simp add: same_order_def)

lemma enq_of_wrote:
  "wrote k (\<lambda>row. pj_enqueued row = t) db db' \<Longrightarrow> enq_of db' = (enq_of db)(slot_of k \<mapsto> t)"
  by (auto simp: wrote_def enq_of_def fun_eq_iff)

lemma seq_of_transition: "seq_of (fst (js_transition k a to ph rs s)) = seq_of s"
  by (auto simp: seq_of_def js_transition_def fun_eq_iff split: option.split prod.split)

lemma js_Enqueue_cases:
  obtains (started) rec x where "js_Enqueue k s = (s\<lparr>js_seq := js_seq s + 1,
      js_rows := gm_put (slot_of k) \<lparr>row_rec = rec, row_seq = js_seq s + 1\<rparr> (js_rows s)\<rparr>, Inr x)" "enq_started x"
    | (not_started) r where "js_Enqueue k s = (s, r)" "\<And>x. r = Inr x \<Longrightarrow> \<not> enq_started x"
proof (cases "Enqueue (map_option row_rec (gm_get (js_rows s) (slot_of k))) k")
  case (Pair n res)
  let ?foreign = "case gm_get (js_rows s) (slot_of k) of None \<Rightarrow> False | Some r \<Rightarrow> k_user (r_key (row_rec r)) \<noteq> k_user k"
  show ?thesis using that Pair
    by (cases ?foreign; cases "enq_started res") (simp_all add: js_Enqueue_def Let_def)
qed

lemma seq_of_Enqueue:
  assumes "snd (js_Enqueue k s) = Inr x" "enq_started x"
  shows "seq_of (fst (js_Enqueue k s)) = (seq_of s)(slot_of k \<mapsto> js_seq s + 1)"
  using assms by (cases rule: js_Enqueue_cases[of k s]) (auto simp: seq_of_def fun_eq_iff)

lemma js_Enqueue_kept: "\<not> (\<exists>x. snd (js_Enqueue k s) = Inr x \<and> enq_started x) \<Longrightarrow> fst (js_Enqueue k s) = s"
  by (cases rule: js_Enqueue_cases[of k s]) auto

lemma seq_le: "js_wf s \<Longrightarrow> seq_of s sl = Some n \<Longrightarrow> n \<le> js_seq s"
  using js_wfD(3)[of s sl] by (auto simp: seq_of_def)

lemma enq_le: "pg_table_ok db \<Longrightarrow> enq_of db sl = Some t \<Longrightarrow> t \<le> pg_clock db"
  using pg_table_okD(1)[of db sl] by (cases "gm_get (pg_rows db) sl") (auto simp: enq_of_def)

lemma refused_status_error:
  "snd (spec_transition k a to ph rs recs) = Some e \<Longrightarrow> status_error e"
proof -
  have "case snd (spec_transition k a to ph rs recs) of None \<Rightarrow> True | Some e \<Rightarrow> status_error e"
    by (simp add: spec_transition_def Transition_def Let_def status_error_def split: option.split)
  then show "snd (spec_transition k a to ph rs recs) = Some e \<Longrightarrow> status_error e" by simp
qed

lemma answered_transition:
  assumes "(recs', map_option without_wrap r) = spec_transition k a to ph rs recs"
  shows "answered r"
proof (cases r)
  case (Some e)
  then have "snd (spec_transition k a to ph rs recs) = Some (without_wrap e)" using assms by (metis option.simps(9) snd_conv)
  then have "status_error (without_wrap e)" by (rule refused_status_error)
  then show ?thesis using Some pg_down_plain by (auto simp: answered_def)
qed (simp add: answered_def)

lemma answered_enqueue:
  assumes "(recs', map_sum without_wrap id r) = spec_enqueue k recs" "r = Inl e"
  shows "status_error e"
proof -
  have "snd (spec_enqueue k recs) = Inl (without_wrap e)" using assms by (metis map_sum.simps(1) snd_conv)
  then have "status_error (without_wrap e)" by (auto simp: spec_enqueue_def status_error_def split: if_splits)
  then show ?thesis using pg_down_plain by auto
qed

text \<open>One answered write does to the table what it does to the in-memory store.\<close>

lemma pg_simI:
  assumes "pg_sim db s" "pg_recs db' = js_recs s'" "js_wf s'" "pg_table_ok db'"
    and "enq_of db' = enq_of db" "seq_of s' = seq_of s"
  shows "pg_sim db' s'"
  using assms same_order_cong[of db' db s' s] by (simp add: pg_sim_def)

lemma pg_sim_same:
  assumes "pg_sim db s" "pg_rows db' = pg_rows db" "pg_clock db \<le> pg_clock db'"
  shows "pg_sim db' s"
  using assms pg_recs_rows[OF assms(2)] pg_table_ok_same[of db db']
  by (intro pg_simI[OF assms(1)]) (simp_all add: pg_sim_def enq_of_def fun_eq_iff)

lemma js_transition_spec:
  "js_recs (fst (js_transition k a to ph rs s)) = fst (spec_transition k a to ph rs (js_recs s))"
  using js_recs_transition by (metis fst_conv prod.collapse)

lemma pg_sim_transition:
  assumes sim: "pg_sim db s" and run: "pg_transition (Some (k_user k)) k a to ph rs db = (db', r)"
  shows "if answered r \<or> pg_rows db' \<noteq> pg_rows db then pg_sim db' (fst (js_transition k a to ph rs s)) else pg_sim db' s"
proof -
  let ?s = "fst (js_transition k a to ph rs s)"
  have s: "pg_recs db = js_recs s" "js_wf s" "pg_table_ok db" using sim by (auto simp: pg_sim_def)
  have simI: "pg_sim db' ?s"
    if "pg_recs db' = fst (spec_transition k a to ph rs (pg_recs db))" "pg_table_ok db'" "enq_of db' = enq_of db"
    using that s by (intro pg_simI[OF sim]) (simp_all add: js_transition_spec js_wf_transition seq_of_transition)
  show ?thesis
    using run
  proof (cases rule: pg_transition_effect)
    case (down e)
    then show ?thesis using pg_sim_same[OF sim] by (simp add: answered_def)
  next
    case refused
    have "fst (spec_transition k a to ph rs (pg_recs db)) = pg_recs db" using refused(3) by (metis fst_conv)
    then have "pg_sim db' ?s"
      using pg_recs_rows[OF refused(1)] pg_table_ok_same[OF s(3) refused(1,2)] refused(1)
      by (intro simI) (simp_all add: enq_of_def fun_eq_iff)
    then show ?thesis using answered_transition[OF refused(3)] by simp
  next
    case (written row)
    have enq: "enq_of db' = enq_of db" using written(1,3) by (auto simp: wrote_def enq_of_def fun_eq_iff)
    have "pj_enqueued row \<le> pg_clock db'"
      using enq_le[OF s(3), of "slot_of k" "pj_enqueued row"] written(1,2) by (simp add: enq_of_def)
    then have "pg_table_ok db'" using pg_table_ok_wrote[OF s(3) written(3,2)] by simp
    then have new: "pg_sim db' ?s" using written(4) enq by (intro simI) (metis fst_conv)+
    show ?thesis
    proof (cases "pg_rows db' = pg_rows db")
      case True
      then show ?thesis using new pg_sim_same[OF sim True written(2)] by simp
    qed (use new in simp)
  qed
qed

lemma pg_sim_Enqueue:
  assumes sim: "pg_sim db s" and run: "pg_Enqueue (Some (k_user k)) k db = (db', r)"
  shows "if (\<exists>e. r = Inl e \<and> \<not> status_error e) \<and> pg_rows db' = pg_rows db then pg_sim db' s
    else pg_sim db' (fst (js_Enqueue k s))"
proof -
  have s: "pg_recs db = js_recs s" "js_wf s" "pg_table_ok db" "same_order db s" using sim by (auto simp: pg_sim_def)
  have js: "(js_recs (fst (js_Enqueue k s)), snd (js_Enqueue k s)) = spec_enqueue k (pg_recs db)"
    using js_recs_Enqueue[of k s] s(1) by (metis prod.collapse)
  show ?thesis
    using run
  proof (cases rule: pg_Enqueue_effect)
    case (down e)
    then show ?thesis using pg_sim_same[OF sim] by auto
  next
    case kept
    have "snd (js_Enqueue k s) = map_sum without_wrap id r" using js kept(3) by (metis snd_conv)
    then have "\<not> (\<exists>x. snd (js_Enqueue k s) = Inr x \<and> enq_started x)" using kept(4) by (cases r) auto
    then show ?thesis using js_Enqueue_kept pg_sim_same[OF sim kept(1,2)] by simp
  next
    case (written x)
    have js': "snd (js_Enqueue k s) = Inr x" using js written(3) by (metis snd_conv)
    have enq: "enq_of db' = (enq_of db)(slot_of k \<mapsto> pg_clock db')" by (rule enq_of_wrote[OF written(2)])
    have seq: "seq_of (fst (js_Enqueue k s)) = (seq_of s)(slot_of k \<mapsto> js_seq s + 1)"
      by (rule seq_of_Enqueue[OF js' written(4)])
    have order: "same_order db' (fst (js_Enqueue k s))"
      unfolding same_order_def enq seq
    proof (intro allI impI)
      fix sl sl' a b m n
      assume "((enq_of db)(slot_of k \<mapsto> pg_clock db')) sl = Some a" "((enq_of db)(slot_of k \<mapsto> pg_clock db')) sl' = Some b"
        "((seq_of s)(slot_of k \<mapsto> js_seq s + 1)) sl = Some m" "((seq_of s)(slot_of k \<mapsto> js_seq s + 1)) sl' = Some n"
      then show "a \<le> b \<longleftrightarrow> m \<le> n"
        using s(4) enq_le[OF s(3), of sl] enq_le[OF s(3), of sl'] seq_le[OF s(2), of sl] seq_le[OF s(2), of sl'] written(1)
        unfolding same_order_def by (fastforce split: if_splits)
    qed
    have recs: "pg_recs db' = js_recs (fst (js_Enqueue k s))" using js written(3) by (metis fst_conv)
    have "pg_table_ok db'" using pg_table_ok_wrote[OF s(3) written(2)] written(1) by simp
    then have new: "pg_sim db' (fst (js_Enqueue k s))" using recs order js_wf_Enqueue[OF s(2)] by (simp add: pg_sim_def)
    show ?thesis
    proof (cases "pg_rows db' = pg_rows db")
      case True
      then show ?thesis using new pg_sim_same[OF sim True] written(1) by simp
    qed (use new in simp)
  qed
qed

lemma pg_sim_step:
  assumes "pg_sim db s"
  shows "if answered (snd (pg_step op db)) \<or> pg_rows (fst (pg_step op db)) \<noteq> pg_rows db
    then pg_sim (fst (pg_step op db)) (js_step op s) else pg_sim (fst (pg_step op db)) s"
proof (cases "is_enqueue op")
  case True
  then obtain k where op: "op = OpEnqueue k" by (cases op) auto
  obtain db' r where E: "pg_Enqueue (Some (k_user k)) k db = (db', r)" by force
  show ?thesis using pg_sim_Enqueue[OF assms E] op E by (auto simp: answered_def split: sum.splits if_splits)
next
  case False
  obtain k a to ph rs where step: "pg_step op db = pg_transition (Some (k_user k)) k a to ph rs db"
    "js_step op s = fst (js_transition k a to ph rs s)"
    using False by (cases op) (auto simp: pg_mark_defs js_mark_defs)
  obtain db' r where t: "pg_transition (Some (k_user k)) k a to ph rs db = (db', r)" by force
  show ?thesis using pg_sim_transition[OF assms t] step t by simp
qed

lemma pg_sim_run: "pg_sim db s \<Longrightarrow> pg_sim (pg_run ops db) (js_run (pg_took ops db) s)"
proof (induction ops arbitrary: db s)
  case (Cons op ops)
  let ?db = "fst (pg_step op db)"
  have run: "pg_run (op # ops) db = pg_run ops ?db" by (simp add: pg_run_def)
  show ?case
  proof (cases "answered (snd (pg_step op db)) \<or> pg_rows ?db \<noteq> pg_rows db")
    case True
    then have "js_run (pg_took (op # ops) db) s = js_run (pg_took ops ?db) (js_step op s)"
      unfolding pg_took_run by (simp add: js_run_def)
    moreover have "pg_sim ?db (js_step op s)" using pg_sim_step[OF Cons.prems, of op] True by simp
    ultimately show ?thesis unfolding run using Cons.IH by simp
  next
    case False
    then have "pg_took (op # ops) db = pg_took ops ?db" unfolding pg_took_run by simp
    moreover have "pg_sim ?db s" using pg_sim_step[OF Cons.prems, of op] False by (simp only: if_False)
    ultimately show ?thesis unfolding run using Cons.IH by simp
  qed
qed (simp add: pg_run_def js_run_def)

lemma pg_sim_new: "pg_sim (pg_new t faults) js_new"
proof -
  have "js_recs js_new = (\<lambda>sl. None)" by (simp add: js_recs_def[abs_def] js_new_def)
  then show ?thesis
    using js_wf_new by (simp add: pg_sim_def pg_new_def pg_table_ok_def same_order_def enq_of_def pg_recs_def[abs_def])
qed

subsection \<open>The listing\<close>

lemma active_str: "s \<in> set (map jstatus_str [StPending, StProcessing, StSucceeded, StFailed]) \<Longrightarrow>
    s \<in> {''pending'', ''processing''} \<longleftrightarrow> Active (status_of s)"
  by auto

lemma str_of_status: "s \<in> set (map jstatus_str [StPending, StProcessing, StSucceeded, StFailed]) \<Longrightarrow> jstatus_str (status_of s) = s"
  by auto

lemma pg_active_mem:
  assumes "pg_table_ok db"
  shows "x \<in> set (pg_active_rows u u ds db) \<longleftrightarrow> gm_get (pg_rows db) (fst x) = Some (snd x) \<and> pj_user (snd x) = u \<and>
      fst (fst x) \<in> set ds \<and> Active (status_of (pj_status (snd x)))"
proof -
  have "x \<in> set (pg_rows db) \<longleftrightarrow> gm_get (pg_rows db) (fst x) = Some (snd x)"
    using gm_mem_iff[of "pg_rows db" "fst x" "snd x"] assms by (simp add: pg_table_ok_def)
  then show ?thesis using pg_table_okD(2)[OF assms, of "fst x" "snd x"] active_str[of "pj_status (snd x)"]
    by (auto simp: pg_active_rows_def split_beta)
qed

text \<open>What the listing says of a job, as a function of its slot.\<close>

definition entry_at :: "jstore \<Rightarrow> slot \<Rightarrow> job_status" where
  "entry_at s sl = job_status_of (the (js_recs s sl))"

lemma sim_row:
  assumes "pg_recs db = js_recs s"
  shows "gm_get (pg_rows db) sl = Some row \<Longrightarrow> \<exists>q. gm_get (js_rows s) sl = Some q \<and>
      k_user (r_key (row_rec q)) = pj_user row \<and> r_status (row_rec q) = status_of (pj_status row)"
    and "gm_get (js_rows s) sl = Some q \<Longrightarrow> \<exists>row. gm_get (pg_rows db) sl = Some row \<and>
      k_user (r_key (row_rec q)) = pj_user row \<and> r_status (row_rec q) = status_of (pj_status row)"
proof -
  have eq: "map_option (\<lambda>row. row_record \<lparr>k_user = pj_user row, k_doc = fst sl, k_type = snd sl\<rparr> row) (gm_get (pg_rows db) sl) = map_option row_rec (gm_get (js_rows s) sl)"
    using fun_cong[OF assms, of sl] by (simp add: pg_recs_def js_recs_def)
  have rec: "row_rec q = row_record \<lparr>k_user = pj_user row, k_doc = fst sl, k_type = snd sl\<rparr> row"
    if "gm_get (pg_rows db) sl = Some row" "gm_get (js_rows s) sl = Some q" for row q
    using eq that by simp
  show "gm_get (pg_rows db) sl = Some row \<Longrightarrow> \<exists>q. gm_get (js_rows s) sl = Some q \<and>
      k_user (r_key (row_rec q)) = pj_user row \<and> r_status (row_rec q) = status_of (pj_status row)"
    using eq rec[of row] by (cases "gm_get (js_rows s) sl") (auto simp: row_record_def)
  show "gm_get (js_rows s) sl = Some q \<Longrightarrow> \<exists>row. gm_get (pg_rows db) sl = Some row \<and>
      k_user (r_key (row_rec q)) = pj_user row \<and> r_status (row_rec q) = status_of (pj_status row)"
    using eq rec[of _ q] by (cases "gm_get (pg_rows db) sl") (auto simp: row_record_def)
qed

text \<open>
  The slots of the active rows of one document, as the table and as the memory store list them:
  the same slots, each once, in the order in which the jobs were enqueued.
\<close>

abbreviation pg_active_of :: "uuid \<Rightarrow> uuid \<Rightarrow> uuid list \<Rightarrow> pg_db \<Rightarrow> (slot \<times> pg_row) list" where
  "pg_active_of d u ds db \<equiv> filter (\<lambda>x. fst (fst x) = d) (pg_active_rows u u ds db)"

abbreviation js_active_of :: "uuid \<Rightarrow> uuid \<Rightarrow> uuid list \<Rightarrow> jstore \<Rightarrow> jrow list" where
  "js_active_of d u ds s \<equiv> filter (\<lambda>r. k_doc (r_key (row_rec r)) = d) (js_matches s u ds)"

abbreviation row_slot :: "jrow \<Rightarrow> slot" where
  "row_slot r \<equiv> slot_of (r_key (row_rec r))"

lemma pg_slots_mem:
  assumes "pg_table_ok db"
  shows "sl \<in> fst ` set (pg_active_of d u ds db) \<longleftrightarrow> fst sl = d \<and> d \<in> set ds \<and>
    (\<exists>row. gm_get (pg_rows db) sl = Some row \<and> pj_user row = u \<and> Active (status_of (pj_status row)))"
proof -
  have "sl \<in> fst ` set (pg_active_of d u ds db) \<longleftrightarrow> (\<exists>row. (sl, row) \<in> set (pg_active_of d u ds db))"
    by (metis (no_types, lifting) imageE image_eqI prod.collapse fst_conv)
  then show ?thesis using pg_active_mem[OF assms, of "(sl, row)" u ds for row] by auto
qed

lemma js_slots_mem:
  assumes "js_wf s"
  shows "sl \<in> row_slot ` set (js_active_of d u ds s) \<longleftrightarrow> fst sl = d \<and> d \<in> set ds \<and>
    (\<exists>q. gm_get (js_rows s) sl = Some q \<and> k_user (r_key (row_rec q)) = u \<and> Active (r_status (row_rec q)))"
proof -
  let ?B = "js_active_of d u ds s"
  have "sl \<in> row_slot ` set ?B \<longleftrightarrow> (\<exists>q. gm_get (js_rows s) sl = Some q \<and> q \<in> set ?B)"
  proof
    assume "sl \<in> row_slot ` set ?B"
    then obtain q where q: "q \<in> set ?B" "sl = row_slot q" by blast
    then obtain sl' where "gm_get (js_rows s) sl' = Some q" using js_matches_mem[OF assms, of q u ds] by auto
    then show "\<exists>q. gm_get (js_rows s) sl = Some q \<and> q \<in> set ?B" using q js_wfD(1)[OF assms, of sl' q] by auto
  next
    assume "\<exists>q. gm_get (js_rows s) sl = Some q \<and> q \<in> set ?B"
    then obtain q where q: "gm_get (js_rows s) sl = Some q" "q \<in> set ?B" by blast
    show "sl \<in> row_slot ` set ?B" using q(2) js_wfD(1)[OF assms q(1)] by (intro image_eqI[of _ _ q]) simp_all
  qed
  moreover have "q \<in> set ?B \<longleftrightarrow> fst sl = d \<and> d \<in> set ds \<and> k_user (r_key (row_rec q)) = u \<and> Active (r_status (row_rec q))"
    if "gm_get (js_rows s) sl = Some q" for q
    using that js_matches_mem[OF assms, of q u ds] js_wfD(1)[OF assms that] by (auto simp: slot_of_def)
  ultimately show ?thesis by blast
qed

lemma same_slots:
  assumes "pg_sim db s"
  shows "fst ` set (pg_active_of d u ds db) = row_slot ` set (js_active_of d u ds s)"
proof (rule set_eqI)
  fix sl
  have s: "pg_recs db = js_recs s" "js_wf s" "pg_table_ok db" using assms by (auto simp: pg_sim_def)
  show "sl \<in> fst ` set (pg_active_of d u ds db) \<longleftrightarrow> sl \<in> row_slot ` set (js_active_of d u ds s)"
    unfolding pg_slots_mem[OF s(3)] js_slots_mem[OF s(2)]
    using sim_row(1)[OF s(1), of sl] sim_row(2)[OF s(1), of sl] by metis
qed

lemma pg_slots_distinct:
  assumes "pg_table_ok db"
  shows "distinct (map fst (pg_active_of d u ds db))"
proof -
  have "distinct (map fst (pg_rows db))" using assms by (simp add: pg_table_ok_def)
  then have "distinct (map fst (pg_active_rows u u ds db))"
    unfolding pg_active_rows_def by (metis (no_types, lifting) distinct_map_filter mset_sort_slice mset_map mset_eq_imp_distinct_iff)
  then show ?thesis by (rule distinct_map_filter)
qed

lemma js_slots_distinct:
  assumes "js_wf s"
  shows "distinct (map row_slot (js_active_of d u ds s))"
proof -
  let ?B = "js_active_of d u ds s"
  have "inj_on row_slot (set ?B)"
  proof (rule inj_onI)
    fix q q' assume q: "q \<in> set ?B" "q' \<in> set ?B" "row_slot q = row_slot q'"
    obtain sl where "gm_get (js_rows s) sl = Some q" using q(1) js_matches_mem[OF assms, of q u ds] by auto
    moreover obtain sl' where "gm_get (js_rows s) sl' = Some q'" using q(2) js_matches_mem[OF assms, of q' u ds] by auto
    ultimately show "q = q'" using q(3) js_rows_inj[OF assms] by blast
  qed
  then show ?thesis unfolding distinct_map using distinct_filter[OF js_matches_distinct[OF assms, of u ds]] by blast
qed

definition enqueued_before :: "jstore \<Rightarrow> slot \<Rightarrow> slot \<Rightarrow> bool" where
  "enqueued_before s a b \<longleftrightarrow> the (seq_of s a) \<le> the (seq_of s b)"

lemma pg_slots_sorted:
  assumes "pg_sim db s"
  shows "sorted_wrt (enqueued_before s) (map fst (pg_active_of d u ds db))"
proof -
  let ?A = "pg_active_of d u ds db"
  have s: "pg_recs db = js_recs s" "pg_table_ok db" "same_order db s" using assms by (auto simp: pg_sim_def)
  have "sorted_wrt (\<lambda>a b. fst (fst a) = fst (fst b) \<longrightarrow> pj_enqueued (snd a) \<le> pj_enqueued (snd b)) (pg_active_rows u u ds db)"
    using sort_slice_sorted[OF weak_order_lex[of "\<lambda>x. fst (fst x)" "\<lambda>x. pj_enqueued (snd x)"]]
    unfolding pg_active_rows_def by (rule sorted_wrt_mono_rel[rotated]) auto
  then have "sorted_wrt (\<lambda>a b. fst (fst a) = fst (fst b) \<longrightarrow> pj_enqueued (snd a) \<le> pj_enqueued (snd b)) ?A"
    by (rule sorted_wrt_filter)
  then have "sorted_wrt (\<lambda>a b. enqueued_before s (fst a) (fst b)) ?A"
  proof (rule sorted_wrt_mono_rel[rotated])
    fix a b assume ab: "a \<in> set ?A" "b \<in> set ?A"
      "fst (fst a) = fst (fst b) \<longrightarrow> pj_enqueued (snd a) \<le> pj_enqueued (snd b)"
    have get: "enq_of db (fst x) = Some (pj_enqueued (snd x)) \<and> (\<exists>n. seq_of s (fst x) = Some n)" if "x \<in> set ?A" for x
      using that pg_active_mem[OF s(2), of x u ds] sim_row(1)[OF s(1), of "fst x" "snd x"]
      by (auto simp: enq_of_def seq_of_def)
    show "enqueued_before s (fst a) (fst b)" unfolding enqueued_before_def
      using get[OF ab(1)] get[OF ab(2)] ab s(3)[unfolded same_order_def, rule_format, of "fst a" _ "fst b"] by force
  qed
  then show ?thesis by (simp add: sorted_wrt_map)
qed

lemma js_slots_sorted:
  assumes "js_wf s"
  shows "sorted_wrt (enqueued_before s) (map row_slot (js_active_of d u ds s))"
proof -
  let ?B = "js_active_of d u ds s"
  have "sorted_wrt (\<lambda>a b. row_seq a \<le> row_seq b) ?B" by (rule sorted_wrt_filter[OF js_matches_sorted])
  then have "sorted_wrt (\<lambda>a b. enqueued_before s (row_slot a) (row_slot b)) ?B"
  proof (rule sorted_wrt_mono_rel[rotated])
    fix a b assume ab: "a \<in> set ?B" "b \<in> set ?B" "row_seq a \<le> row_seq b"
    have "seq_of s (row_slot x) = Some (row_seq x)" if "x \<in> set ?B" for x
      using that js_matches_mem[OF assms, of x u ds] js_wfD(1)[OF assms] by (auto simp: seq_of_def)
    then show "enqueued_before s (row_slot a) (row_slot b)" using ab by (simp add: enqueued_before_def)
  qed
  then show ?thesis by (simp add: sorted_wrt_map)
qed

lemma pg_entries:
  assumes sim: "pg_sim db s"
  shows "map fst (pg_active_of d u ds db) = map row_slot (js_active_of d u ds s)" (is "?L = ?R")
proof (rule sorted_wrt_unique[where R = "enqueued_before s"])
  have s: "js_wf s" "pg_table_ok db" using sim by (auto simp: pg_sim_def)
  have sets: "set ?L = set ?R" unfolding set_map by (rule same_slots[OF sim])
  then show "mset ?L = mset ?R"
    by (rule set_eq_iff_mset_eq_distinct[OF pg_slots_distinct[OF s(2)] js_slots_distinct[OF s(1)], THEN iffD1])
  show "sorted_wrt (enqueued_before s) ?L" by (rule pg_slots_sorted[OF sim])
  show "sorted_wrt (enqueued_before s) ?R" by (rule js_slots_sorted[OF s(1)])
  fix x y assume xy: "x \<in> set ?L" "y \<in> set ?L" "enqueued_before s x y" "enqueued_before s y x"
  have "\<exists>q. gm_get (js_rows s) z = Some q" if "z \<in> set ?L" for z
    using that js_slots_mem[OF s(1), of z d u ds] same_slots[OF sim, of d u ds] by auto
  then obtain q q' where "gm_get (js_rows s) x = Some q" "gm_get (js_rows s) y = Some q'" using xy(1,2) by blast
  then show "x = y" using xy(3,4) js_wf_seq_inj[OF s(1), of x q y q'] by (simp add: seq_of_def enqueued_before_def)
qed

lemma pg_listing:
  assumes sim: "pg_sim db s"
  shows "map row_status (filter (\<lambda>x. fst (fst x) = d) (pg_active_rows u u ds db)) =
         gm_get_or [] (js_ActiveJobsForDocuments s u ds) d"
proof -
  have s: "pg_recs db = js_recs s" "js_wf s" "pg_table_ok db" using sim by (auto simp: pg_sim_def)
  let ?A = "filter (\<lambda>x. fst (fst x) = d) (pg_active_rows u u ds db)"
  let ?B = "filter (\<lambda>r. k_doc (r_key (row_rec r)) = d) (js_matches s u ds)"
  have A: "row_status x = entry_at s (fst x)" if "x \<in> set ?A" for x
    using that pg_active_mem[OF s(3), of x u ds] fun_cong[OF s(1), of "fst x"] pg_table_okD(2)[OF s(3), of "fst x" "snd x"]
      str_of_status[of "pj_status (snd x)"]
    unfolding entry_at_def s(1)[symmetric]
    by (auto simp: row_status_def job_status_of_def pg_recs_def row_record_def simp del: set_map)
  have B: "(job_status_of \<circ> row_rec) r = entry_at s (slot_of (r_key (row_rec r)))" if "r \<in> set ?B" for r
    using that js_matches_mem[OF s(2), of r u ds] js_wfD(1)[OF s(2)] by (auto simp: entry_at_def js_recs_def)
  have "map row_status ?A = map (entry_at s) (map fst ?A)" using A by simp
  also have "\<dots> = map (entry_at s) (map (\<lambda>r. slot_of (r_key (row_rec r))) ?B)" using pg_entries[OF sim] by simp
  also have "\<dots> = map (job_status_of \<circ> row_rec) ?B" using B by simp
  finally show ?thesis by (simp add: active_jobs_get)
qed

lemma pg_ActiveJobs_cases:
  assumes "pg_ActiveJobsForDocuments (Some u) u ds db = (db', Inr out)"
  shows "gm_get_or [] out d = (if ds = [] then [] else map row_status (filter (\<lambda>x. fst (fst x) = d) (pg_active_rows u u ds db)))"
proof (cases "ds = []")
  case False
  let ?fn = "\<lambda>me. try_proc pg_send (\<lambda>e db. (db, Inl e))
      (\<lambda>db. (db, Inr (foldl (\<lambda>out x. gm_put (fst (fst x)) (gm_get_or [] out (fst (fst x)) @ [row_status x]) out)
                        [] (pg_active_rows me u ds db))))"
  have run: "RunInTx (Some u) ?fn db = (db', Inr out)"
  proof -
    obtain d2 q where q: "RunInTx (Some u) ?fn db = (d2, q)" by force
    then show ?thesis using assms False by (cases q) (simp_all add: pg_ActiveJobsForDocuments_def)
  qed
  show ?thesis
    using run
  proof (cases rule: RunInTx_cases)
    case (committed tx tx' v)
    have rows: "pg_active_rows u u ds d2 = pg_active_rows u u ds db" if "pg_rows d2 = pg_rows db" for d2
      using that by (simp add: pg_active_rows_def)
    show ?thesis
    proof (cases rule: pg_send_cases[of tx])
      case (down d e)
      then show ?thesis using committed(3) by simp
    next
      case (ok d)
      have "v = foldl (\<lambda>out x. gm_put (fst (fst x)) (gm_get_or [] out (fst (fst x)) @ [row_status x]) out) []
          (pg_active_rows u u ds db)"
        using committed(1,3) ok rows[of d] by simp
      then show ?thesis
        using committed(6) False grouped_get[where f = "\<lambda>x. fst (fst x)" and g = row_status and ?m0.0 = "[]"] by simp
    qed
  qed auto
qed (use assms in \<open>auto simp: pg_ActiveJobsForDocuments_def\<close>)

subsection \<open>Row-level security\<close>

text \<open>
  A call whose key names another user than its context writes nothing: the row is invisible to it,
  and a new one would violate the policy.
\<close>

lemma RunInTx_rows:
  assumes "\<And>tx. pg_rows tx = pg_rows db \<Longrightarrow> pg_rows (fst (fn u tx)) = pg_rows db"
  shows "pg_rows (fst (RunInTx (Some u) fn db)) = pg_rows db"
proof -
  obtain db' r where run: "RunInTx (Some u) fn db = (db', r)" by force
  have "pg_rows db' = pg_rows db"
    using run
  proof (cases rule: RunInTx_cases)
    case (reply_lost tx tx' v e)
    then show ?thesis using assms[of tx] by simp
  next
    case (committed tx tx' v)
    then show ?thesis using assms[of tx] by simp
  qed simp_all
  then show ?thesis by (simp add: run)
qed

lemma foreign_lockRecord:
  assumes "u \<noteq> k_user k"
  shows "\<exists>e. snd (lockRecord u k db) = Inl e \<and> pg_rows (fst (lockRecord u k db)) = pg_rows db"
  using assms by (cases rule: lockRecord_cases[of u k db]) (auto dest: pg_visible_get)

lemma foreign_call_writes_nothing:
  assumes "u \<noteq> k_user k"
  shows "pg_rows (fst (pg_transition (Some u) k a to ph rs db)) = pg_rows db"
    and "pg_rows (fst (pg_Enqueue (Some u) k db)) = pg_rows db"
proof -
  have fst_try: "fst (try_call p (\<lambda>e db. (db, f e)) (\<lambda>v db. (db, g v)) db) = fst (p db)"
    for p :: "(pg_db, 'x) call" and f and g :: "'x \<Rightarrow> 'y" and db
    by (simp add: try_call_def split: prod.split sum.split)
  show "pg_rows (fst (pg_transition (Some u) k a to ph rs db)) = pg_rows db"
    unfolding pg_transition_def fst_try
  proof (rule RunInTx_rows, goal_cases)
    case (1 tx)
    obtain d e where "lockRecord u k tx = (d, Inl e)" "pg_rows d = pg_rows tx"
      using foreign_lockRecord[OF assms, of tx] by (metis prod.collapse)
    then show ?case using 1 by (simp add: transition_tx_def)
  qed
  show "pg_rows (fst (pg_Enqueue (Some u) k db)) = pg_rows db"
    unfolding pg_Enqueue_def fst_try
  proof (rule RunInTx_rows, goal_cases)
    case (1 tx)
    have refused: "\<exists>d e. pg_insert u sl row tx = (d, Inl e) \<and> pg_rows d = pg_rows tx"
      if "\<And>now. pj_user (row now) = k_user k" for sl row
      using assms that by (cases rule: pg_send_cases[of tx]) (auto simp: pg_insert_def)
    have "\<exists>d e. pg_insert u (slot_of k) (\<lambda>now. \<lparr>pj_user = k_user k, pj_status = jstatus_str StPending,
               pj_phase = None, pj_attempt = 1, pj_error = None, pj_enqueued = now, pj_updated = now\<rparr>) tx = (d, Inl e) \<and>
        pg_rows d = pg_rows tx"
      by (rule refused) simp
    then obtain d e where "pg_insert u (slot_of k) (\<lambda>now. \<lparr>pj_user = k_user k, pj_status = jstatus_str StPending,
               pj_phase = None, pj_attempt = 1, pj_error = None, pj_enqueued = now, pj_updated = now\<rparr>) tx = (d, Inl e)"
      "pg_rows d = pg_rows tx" by blast
    then show ?case using 1 by (simp add: enqueue_tx_def)
  qed
qed

subsection \<open>Properties\<close>

text \<open>
  C7. The Postgres store is the in-memory store, lost commit replies included: whatever messages of
  its transactions fail, before or after the server gets them, after any sequence of enqueues and
  reports it holds the records the in-memory store holds after the calls that took effect, and a
  listing that succeeds gives every document the entries, in the order, that the in-memory listing
  gives. Every answered call took effect; a call that met an outage either took effect as a whole, its
  commit made and only the reply lost, or left the table as it was.
\<close>

theorem pg_store_is_memory_store:
  assumes "pg_ActiveJobsForDocuments (Some u) u ds (pg_run ops (pg_new t faults)) = (db', Inr out)"
  shows "let s = js_run (pg_took ops (pg_new t faults)) js_new
    in pg_recs (pg_run ops (pg_new t faults)) = js_recs s \<and>
       gm_get_or [] out d = gm_get_or [] (js_ActiveJobsForDocuments s u ds) d \<and>
       subseq (pg_answered ops (pg_new t faults)) (pg_took ops (pg_new t faults)) \<and>
       subseq (pg_took ops (pg_new t faults)) ops"
proof -
  have sim: "pg_sim (pg_run ops (pg_new t faults)) (js_run (pg_took ops (pg_new t faults)) js_new)"
    by (rule pg_sim_run[OF pg_sim_new])
  have "gm_get_or [] (js_ActiveJobsForDocuments s u []) d = []" for s
    by (simp add: active_jobs_get js_matches_def)
  then show ?thesis using sim pg_ActiveJobs_cases[OF assms, of d] pg_listing[OF sim, of d u ds] answered_took took_called
    by (auto simp: pg_sim_def Let_def)
qed

text \<open>
  The failure report of a running job loses the reply to its commit: the caller sees an error, and the
  job is failed.
\<close>

theorem pg_store_is_memory_store_witness:
  "let k = \<lparr>k_user = 1, k_doc = 7, k_type = DocumentIndexing\<rparr>;
       ops = [OpEnqueue k, OpPhase k 1 ''embedding'', OpFailed k 1 ''x''];
       db = pg_new 0 (replicate 13 Answered @ [ReplyLost])
   in pg_answered ops db = [OpEnqueue k, OpPhase k 1 ''embedding''] \<and>
      pg_recs (pg_run ops db) = js_recs (js_run ops js_new) \<and>
      gm_get_or [] (js_ActiveJobsForDocuments (js_run ops js_new) 1 [7]) 7 = []"
proof -
  let ?k = "\<lparr>k_user = 1, k_doc = 7, k_type = DocumentIndexing\<rparr>"
  let ?ops = "[OpEnqueue ?k, OpPhase ?k 1 ''embedding'', OpFailed ?k 1 ''x'']"
  let ?db = "pg_new 0 (replicate 13 Answered @ [ReplyLost])"
  have answered: "pg_answered ?ops ?db = [OpEnqueue ?k, OpPhase ?k 1 ''embedding'']" by code_simp
  have took: "pg_took ?ops ?db = ?ops" by code_simp
  have out: "snd (pg_ActiveJobsForDocuments (Some 1) 1 [7] (pg_run ?ops ?db)) = Inr []" by code_simp
  obtain db' where "pg_ActiveJobsForDocuments (Some 1) 1 [7] (pg_run ?ops ?db) = (db', Inr [])"
    using out by (metis prod.collapse)
  from pg_store_is_memory_store[OF this, of 7, unfolded took] answered show ?thesis by (simp add: Let_def gm_get_or_def)
qed

end
