(* ===== verification/BatchEmbed.thy ===== *)
theory BatchEmbed
  imports World Louvain
begin

text \<open>
  Embedding outside the pipeline: \<^verbatim>\<open>internal/awsbatch\<close> (the Batch client and its mock),
  \<^verbatim>\<open>internal/llm/awsbatch\<close> (an embedder that submits a job and waits for it) and
  \<^verbatim>\<open>internal/reembed\<close> (filling in missing vectors across all tenants).

  The AWS calls are parameters. Objects are the decoded JSON of the job's protocol, as in \<open>Backend\<close>;
  \<^verbatim>\<open>json.Marshal\<close> of the request cannot fail. The random suffix of the object names is an argument.
\<close>

subsection \<open>The Batch client\<close>

datatype batch_status = BatchRunning | BatchSucceeded | BatchFailed

record submit_params =
  sp_name :: string
  sp_queue :: string
  sp_definition :: string
  sp_env :: "(string, string) gomap"

record job_state =
  bj_status :: batch_status
  bj_reason :: string

text \<open>What \<^verbatim>\<open>DescribeJobs\<close> says of one job; a nil string reads as the empty one.\<close>

record container_detail =
  ct_reason :: "string option"
  ct_log_stream :: "string option"

record described_job =
  dj_status :: string
  dj_reason :: "string option"
  dj_container :: "container_detail option"

definition to_string :: "string option \<Rightarrow> string" where
  "to_string v = (case v of None \<Rightarrow> '''' | Some s \<Rightarrow> s)"

definition client_SubmitJob ::
    "(submit_params \<Rightarrow> ('s, string option) call) \<Rightarrow> submit_params \<Rightarrow> ('s, string) call" where
  "client_SubmitJob aws_submit params =
     try_call (aws_submit params)
       (\<lambda>e s. (s, Inl (Wrapf ''awsbatch: submit job'' e)))
       (\<lambda>i s. (s, Inr (to_string i)))"

definition client_JobState ::
    "(string \<Rightarrow> ('s, described_job list) call) \<Rightarrow> string \<Rightarrow> ('s, job_state) call" where
  "client_JobState describe jobID =
     try_call (describe jobID)
       (\<lambda>e s. (s, Inl (Wrapf ''awsbatch: describe job'' e)))
       (\<lambda>jobs s.
          (s, case jobs of
                [] \<Rightarrow> Inl (Plain ''awsbatch: describe job: not found'')
              | job # _ \<Rightarrow>
                  if dj_status job = ''SUCCEEDED'' then Inr \<lparr>bj_status = BatchSucceeded, bj_reason = ''''\<rparr>
                  else if dj_status job = ''FAILED'' then
                    let reason = to_string (dj_reason job);
                        reason = (case dj_container job of
                                    None \<Rightarrow> reason
                                  | Some c \<Rightarrow> if to_string (ct_reason c) \<noteq> '''' then to_string (ct_reason c) else reason)
                    in Inr \<lparr>bj_status = BatchFailed, bj_reason = reason\<rparr>
                  else Inr \<lparr>bj_status = BatchRunning, bj_reason = ''''\<rparr>))"

definition client_JobLogs ::
    "(string \<Rightarrow> ('s, described_job list) call) \<Rightarrow> (string \<Rightarrow> ('s, string option list) call) \<Rightarrow> string \<Rightarrow> ('s, string) call" where
  "client_JobLogs describe get_events jobID =
     try_call (describe jobID)
       (\<lambda>e s. (s, Inl (Wrapf ''awsbatch: describe job for logs'' e)))
       (\<lambda>jobs s.
          case (case jobs of [] \<Rightarrow> None | job # _ \<Rightarrow> dj_container job) of
            None \<Rightarrow> (s, Inl (Plain ''awsbatch: job has no container detail''))
          | Some c \<Rightarrow>
              let streamName = to_string (ct_log_stream c)
              in if streamName = '''' then (s, Inl (Plain ''awsbatch: job has no log stream (never started running?)''))
                 else try_call (get_events streamName)
                        (\<lambda>e s. (s, Inl (Wrapf ''awsbatch: get log events for stream'' e)))
                        (\<lambda>events s. (s, Inr (join_with [CHR 0x0A] (map to_string events)))) s)"

subsection \<open>The mock client\<close>

record batch_mock =
  bm_submit_err :: "gerror option"
  bm_next :: nat
  bm_states :: "(string, job_state) gomap"
  bm_logs :: "(string, string) gomap"
  bm_logs_err :: "(string, gerror) gomap"
  bm_submitted :: "submit_params list"

definition bm_New :: batch_mock where
  "bm_New = \<lparr>bm_submit_err = None, bm_next = 0, bm_states = [], bm_logs = [], bm_logs_err = [], bm_submitted = []\<rparr>"

definition bm_NextJobID :: "batch_mock \<Rightarrow> string" where
  "bm_NextJobID c = ''mock-job-'' @ nat_str (bm_next c + 1)"

definition bm_SubmitJob :: "submit_params \<Rightarrow> (batch_mock, string) call" where
  "bm_SubmitJob params c =
     (case bm_submit_err c of
        Some e \<Rightarrow> (c, Inl e)
      | None \<Rightarrow>
          (let c = c\<lparr>bm_next := bm_next c + 1\<rparr>; jobID = ''mock-job-'' @ nat_str (bm_next c)
           in (c\<lparr>bm_submitted := bm_submitted c @ [params]\<rparr>, Inr jobID)))"

definition bm_JobState :: "string \<Rightarrow> (batch_mock, job_state) call" where
  "bm_JobState jobID c =
     (c, Inr (case gm_get (bm_states c) jobID of Some st \<Rightarrow> st | None \<Rightarrow> \<lparr>bj_status = BatchRunning, bj_reason = ''''\<rparr>))"

definition bm_JobLogs :: "string \<Rightarrow> (batch_mock, string) call" where
  "bm_JobLogs jobID c =
     (c, case gm_get (bm_logs_err c) jobID of Some e \<Rightarrow> Inl e | None \<Rightarrow> Inr (gm_get_or '''' (bm_logs c) jobID))"

definition bm_SetState :: "string \<Rightarrow> job_state \<Rightarrow> batch_mock \<Rightarrow> batch_mock" where
  "bm_SetState jobID st c = c\<lparr>bm_states := gm_put jobID st (bm_states c)\<rparr>"

definition bm_SetLogs :: "string \<Rightarrow> string \<Rightarrow> batch_mock \<Rightarrow> batch_mock" where
  "bm_SetLogs jobID logs c = c\<lparr>bm_logs := gm_put jobID logs (bm_logs c)\<rparr>"

definition bm_SetLogsErr :: "string \<Rightarrow> gerror \<Rightarrow> batch_mock \<Rightarrow> batch_mock" where
  "bm_SetLogsErr jobID e c = c\<lparr>bm_logs_err := gm_put jobID e (bm_logs_err c)\<rparr>"

subsection \<open>The embedder\<close>

record 's embed_ops =
  bo_put :: "string \<Rightarrow> blob \<Rightarrow> 's proc"
  bo_get :: "string \<Rightarrow> ('s, blob) call"
  bo_delete :: "string \<Rightarrow> 's proc"
  bo_presign :: "string \<Rightarrow> ('s, string) call"
  bo_presign_put :: "string \<Rightarrow> ('s, string) call"
  bo_submit :: "submit_params \<Rightarrow> ('s, string) call"
  bo_state :: "string \<Rightarrow> ('s, job_state) call"

record embed_cfg =
  ec_queue :: string
  ec_definition :: string
  ec_poll :: timestamp
  ec_ttl :: timestamp

definition embed_New :: "embed_cfg \<Rightarrow> embed_cfg" where
  "embed_New cfg =
     (let cfg = (if ec_poll cfg \<le> 0 then cfg\<lparr>ec_poll := 5 * 1000000000\<rparr> else cfg)
      in if ec_ttl cfg \<le> 0 then cfg\<lparr>ec_ttl := 15 * 60 * 1000000000\<rparr> else cfg)"

definition embed_dims :: nat where
  "embed_dims = 384"

text \<open>
  The polling loop. A context is the number of ticks it survives, with the error it then reports;
  without a deadline the loop may never end.
\<close>

partial_function (option) waitForCompletion ::
    "'s embed_ops \<Rightarrow> string \<Rightarrow> ctx \<Rightarrow> 's \<Rightarrow> ('s \<times> gerror option) option" where
  "waitForCompletion A jobID c s =
     (case bo_state A jobID s of
        (s, Inl e) \<Rightarrow> Some (s, Some (Wrapf ''awsbatch: poll job'' e))
      | (s, Inr st) \<Rightarrow>
          if bj_status st = BatchSucceeded then Some (s, None)
          else if bj_status st = BatchFailed then Some (s, Some (Plain (''awsbatch: job failed: '' @ bj_reason st)))
          else case c of
                 None \<Rightarrow> waitForCompletion A jobID None s
               | Some (n, e) \<Rightarrow> if n = 0 then Some (s, Some e) else waitForCompletion A jobID (Some (n - 1, e)) s)"

definition embed_keys :: "string \<Rightarrow> string \<times> string" where
  "embed_keys shortSuffix =
     (''batch-jobs/embeddings/'' @ shortSuffix @ ''/input.json'', ''batch-jobs/embeddings/'' @ shortSuffix @ ''/result.json'')"

text \<open>From the upload on, whatever happens, both objects are deleted on the way out.\<close>

definition embed_job ::
    "'s embed_ops \<Rightarrow> embed_cfg \<Rightarrow> string \<Rightarrow> ctx \<Rightarrow> string list \<Rightarrow> 's \<Rightarrow> ('s \<times> (gerror + float list list)) option" where
  "embed_job A cfg shortSuffix c texts =
     (let (inputKey, resultKey) = embed_keys shortSuffix in
      try_call (bo_presign A inputKey) (\<lambda>e s. Some (s, Inl (Wrapf ''awsbatch: presign input'' e)))
        (\<lambda>inputURL. try_call (bo_presign_put A resultKey) (\<lambda>e s. Some (s, Inl (Wrapf ''awsbatch: presign result'' e)))
          (\<lambda>resultURL. try_call
             (bo_submit A \<lparr>sp_name = ''embedding-'' @ shortSuffix, sp_queue = ec_queue cfg, sp_definition = ec_definition cfg,
                sp_env = [(''TEXTS_URL'', inputURL), (''RESULT_URL'', resultURL)]\<rparr>)
             (\<lambda>e s. Some (s, Inl (Wrapf ''awsbatch: submit job'' e)))
             (\<lambda>jobID s.
                case waitForCompletion A jobID c s of
                  None \<Rightarrow> None
                | Some (s, Some e) \<Rightarrow> Some (s, Inl e)
                | Some (s, None) \<Rightarrow>
                    try_call (bo_get A resultKey) (\<lambda>e s. Some (s, Inl (Wrapf ''awsbatch: job: fetch result'' e)))
                      (\<lambda>body s.
                         Some (s, case unmarshal_embeddings body of
                                    None \<Rightarrow> Inl (Plain ''awsbatch: job: unmarshal embed response'')
                                  | Some es \<Rightarrow>
                                      if length es \<noteq> length texts
                                      then Inl (Plain ''awsbatch: job: unexpected number of embeddings'')
                                      else Inr es)) s))))"

definition Embed ::
    "'s embed_ops \<Rightarrow> embed_cfg \<Rightarrow> string \<Rightarrow> ctx \<Rightarrow> string list \<Rightarrow> 's \<Rightarrow> ('s \<times> (gerror + float list list)) option" where
  "Embed A cfg shortSuffix c texts s =
     (if texts = [] then Some (s, Inr [])
      else
        let (inputKey, resultKey) = embed_keys shortSuffix
        in try_proc (bo_put A inputKey (EmbedRequest texts))
             (\<lambda>e s. Some (s, Inl (Wrapf ''awsbatch: upload input'' e)))
             (\<lambda>s. map_option (\<lambda>(s, r). (fst (bo_delete A resultKey (fst (bo_delete A inputKey s))), r))
                    (embed_job A cfg shortSuffix c texts s)) s)"

subsection \<open>Filling in missing vectors\<close>

record 's reembed_ops =
  re_sessions :: "('s, session list) call"
  re_kbs :: "uuid \<Rightarrow> ('s, kbase list) call"
  re_chunks :: "uuid \<Rightarrow> uuid \<Rightarrow> ('s, chunk list) call"
  re_update :: "uuid \<Rightarrow> uuid \<Rightarrow> float list \<Rightarrow> 's proc"
  re_embed :: "string list \<Rightarrow> ('s, float list list) call"
  re_batch_size :: int

record reembed_result =
  rs_reembedded :: nat
  rs_errors :: "gerror list"

definition defaultBatchSize :: nat where
  "defaultBatchSize = 64"

definition batchSize :: "'s reembed_ops \<Rightarrow> nat" where
  "batchSize A = (if re_batch_size A > 0 then nat (re_batch_size A) else defaultBatchSize)"

definition reembed_error :: "gerror \<Rightarrow> reembed_result \<Rightarrow> reembed_result" where
  "reembed_error e res = res\<lparr>rs_errors := rs_errors res @ [e]\<rparr>"

fun store_vectors :: "'s reembed_ops \<Rightarrow> uuid \<Rightarrow> (chunk \<times> float list) list \<Rightarrow> 's \<times> reembed_result \<Rightarrow> 's \<times> reembed_result" where
  "store_vectors A userID [] acc = acc"
| "store_vectors A userID ((c, v) # rest') (s, res) =
     store_vectors A userID rest'
       (try_proc (re_update A userID (c_id c) v)
          (\<lambda>e s. (s, reembed_error (Wrapf ''update embedding for chunk'' e) res))
          (\<lambda>s. (s, res\<lparr>rs_reembedded := rs_reembedded res + 1\<rparr>)) s)"

definition reembedBatch :: "'s reembed_ops \<Rightarrow> uuid \<Rightarrow> 's \<times> reembed_result \<Rightarrow> chunk list \<Rightarrow> 's \<times> reembed_result" where
  "reembedBatch A userID acc batch =
     (let (s, res) = acc
      in try_call (re_embed A (map c_text batch))
           (\<lambda>e s. (s, reembed_error (Wrapf ''embed batch'' e) res))
           (\<lambda>vecs s.
              if length vecs \<noteq> length batch
              then (s, reembed_error (Plain ''embed batch: unexpected number of vectors'') res)
              else store_vectors A userID (zip batch vecs) (s, res)) s)"

definition reembedKB :: "'s reembed_ops \<Rightarrow> uuid \<Rightarrow> 's \<times> reembed_result \<Rightarrow> kbase \<Rightarrow> 's \<times> reembed_result" where
  "reembedKB A userID acc k =
     (let (s, res) = acc
      in try_call (re_chunks A userID (kb_id k))
           (\<lambda>e s. (s, reembed_error (Wrapf ''list chunks for kb'' e) res))
           (\<lambda>chunks s.
              let pending = filter (\<lambda>c. length (c_embedding c) = 0) chunks
              in foldl (reembedBatch A userID) (s, res) (windows (batchSize A) pending)) s)"

definition reembed_session :: "'s reembed_ops \<Rightarrow> 's \<times> reembed_result \<Rightarrow> session \<Rightarrow> 's \<times> reembed_result" where
  "reembed_session A acc sess =
     (let (s, res) = acc
      in try_call (re_kbs A (s_id sess))
           (\<lambda>e s. (s, reembed_error (Wrapf ''list knowledge bases for session'' e) res))
           (\<lambda>kbs s. foldl (reembedKB A (s_id sess)) (s, res) kbs) s)"

definition Reembed_Run :: "'s reembed_ops \<Rightarrow> ('s, reembed_result) call" where
  "Reembed_Run A =
     try_call (re_sessions A)
       (\<lambda>e s. (s, Inl (Wrapf ''reembed: list sessions'' e)))
       (\<lambda>sessions s. case foldl (reembed_session A) (s, \<lparr>rs_reembedded = 0, rs_errors = []\<rparr>) sessions of (s, res) \<Rightarrow> (s, Inr res))"

text \<open>Run over the in-memory stores, with an embedder that answers.\<close>

record tenant_store =
  tn_sessions :: session_store
  tn_kbs :: kb_repo
  tn_chunks :: chunk_repo

definition memory_reembed :: "(string \<Rightarrow> float list) \<Rightarrow> int \<Rightarrow> tenant_store reembed_ops" where
  "memory_reembed vec size' =
     \<lparr>re_sessions = (\<lambda>s. (s, Inr (ss_ListForSweep (tn_sessions s)))),
      re_kbs = (\<lambda>u s. (s, Inr (kb_List u (tn_kbs s)))),
      re_chunks = (\<lambda>u k s. (s, Inr (chunk_ListByKB u k (tn_chunks s)))),
      re_update = (\<lambda>u i v s. case chunk_UpdateEmbedding u i v (tn_chunks s) of (cs, r) \<Rightarrow> (s\<lparr>tn_chunks := cs\<rparr>, r)),
      re_embed = (\<lambda>texts s. (s, Inr (map vec texts))),
      re_batch_size = size'\<rparr>"

subsection \<open>The polling loop ends with its context\<close>

lemma wait_returns:
  "\<exists>s' r. waitForCompletion A jobID (Some (n, e)) s = Some (s', r)"
proof (induction n arbitrary: s)
  case 0
  show ?case by (subst waitForCompletion.simps) (auto split: prod.split sum.split)
next
  case (Suc n)
  then show ?case by (subst waitForCompletion.simps) (auto split: prod.split sum.split)
qed

text \<open>What every way out of the job has, the fixed shape of its calls aside.\<close>

definition returns_with :: "(gerror + float list list \<Rightarrow> bool) \<Rightarrow> ('s \<times> (gerror + float list list)) option \<Rightarrow> bool" where
  "returns_with Q x \<longleftrightarrow> (\<exists>s r. x = Some (s, r) \<and> Q r)"

definition returns_if_any :: "(gerror + float list list \<Rightarrow> bool) \<Rightarrow> ('s \<times> (gerror + float list list)) option \<Rightarrow> bool" where
  "returns_if_any Q x \<longleftrightarrow> (x = None \<or> returns_with Q x)"

definition right_length :: "nat \<Rightarrow> gerror + float list list \<Rightarrow> bool" where
  "right_length n r \<longleftrightarrow> (\<forall>vs. r = Inr vs \<longrightarrow> length vs = n)"

lemma right_length_simps [simp]: "right_length n (Inl e)" "right_length n (Inr vs) = (length vs = n)"
  by (simp_all add: right_length_def)

lemma returns_Some [simp]: "returns_with Q (Some (s, r)) = Q r" "returns_if_any Q (Some (s, r)) = Q r" "returns_if_any Q None"
  by (simp_all add: returns_with_def returns_if_any_def)

lemma embed_fetch_ends:
  assumes "\<And>s. waitForCompletion A jobID c s \<noteq> None \<or> P None"
    and "\<And>s e. P (Some (s, Inl e))" and "\<And>s. P (k s)"
  shows "P (case waitForCompletion A jobID c s of None \<Rightarrow> None | Some (s, Some e) \<Rightarrow> Some (s, Inl e) | Some (s, None) \<Rightarrow> k s)"
proof (cases "waitForCompletion A jobID c s")
  case None
  then show ?thesis using assms(1)[of s] by simp
next
  case (Some x)
  then show ?thesis using assms(2,3) by (cases x; cases "snd x") auto
qed

lemma embed_job_ends:
  assumes "\<And>jobID s. waitForCompletion A jobID c s \<noteq> None \<or> P None"
    and "\<And>s r. right_length (length texts) r \<Longrightarrow> P (Some (s, r))"
  shows "P (embed_job A cfg sfx c texts s)"
  unfolding embed_job_def Let_def embed_keys_def prod.case
  by (rule try_callI[where P = P] embed_fetch_ends[where P = P] assms(1) | rule assms(2),
      simp split: option.split | simp split: option.split)+

lemma embed_job_returns: "returns_with (right_length (length texts)) (embed_job A cfg sfx (Some (n, e)) texts s)"
  by (rule embed_job_ends) (use wait_returns in fastforce)+

lemma embed_job_length: "returns_if_any (right_length (length texts)) (embed_job A cfg sfx c texts s)"
  by (rule embed_job_ends) auto

lemma returns_map: "returns_with Q x \<Longrightarrow> returns_with Q (map_option (\<lambda>(s, r). (f s, r)) x)"
  "returns_if_any Q x \<Longrightarrow> returns_if_any Q (map_option (\<lambda>(s, r). (f s, r)) x)"
  by (auto simp: returns_with_def returns_if_any_def)

lemma Embed_returns: "returns_with (right_length (length texts)) (Embed A cfg sfx (Some (n, e)) texts s)"
proof (cases "texts = []")
  case False
  show ?thesis unfolding Embed_def if_not_P[OF False] Let_def embed_keys_def prod.case
    by (rule try_procI[where P = "returns_with (right_length (length texts))"]) (simp, rule returns_map(1), rule embed_job_returns)
qed (simp add: Embed_def)

lemma Embed_length: "returns_if_any (right_length (length texts)) (Embed A cfg sfx c texts s)"
proof (cases "texts = []")
  case False
  show ?thesis unfolding Embed_def if_not_P[OF False] Let_def embed_keys_def prod.case
    by (rule try_procI[where P = "returns_if_any (right_length (length texts))"]) (simp, rule returns_map(2), rule embed_job_length)
qed (simp add: Embed_def)

subsection \<open>What a run of the backfill writes\<close>

definition pending :: "chunk \<Rightarrow> bool" where
  "pending c \<longleftrightarrow> c_embedding c = []"

text \<open>The chunks with the vectors of those in \<open>P\<close> filled in.\<close>

definition filled :: "(string \<Rightarrow> float list) \<Rightarrow> (chunk \<Rightarrow> bool) \<Rightarrow> chunk list \<Rightarrow> chunk list" where
  "filled vec P cs = map (\<lambda>c. if pending c \<and> P c then c\<lparr>c_embedding := vec (c_text c)\<rparr> else c) cs"

definition count_filled :: "(chunk \<Rightarrow> bool) \<Rightarrow> chunk list \<Rightarrow> nat" where
  "count_filled P cs = length (filter (\<lambda>c. pending c \<and> P c) cs)"

lemma UpdateEmbedding_map:
  assumes "distinct (map c_id cs)" "c \<in> set cs" "c_user c = u"
  shows "chunk_UpdateEmbedding u (c_id c) v cs = (map (\<lambda>x. if c_id x = c_id c then x\<lparr>c_embedding := v\<rparr> else x) cs, None)"
  using assms
proof (induction cs)
  case (Cons x xs)
  have "map (\<lambda>x. if c_id x = c_id c then x\<lparr>c_embedding := v\<rparr> else x) xs = xs" if "c_id x = c_id c"
  proof -
    have "\<forall>y\<in>set xs. c_id y \<noteq> c_id c" using Cons.prems(1) that by (auto simp: image_iff)
    then show ?thesis by (simp add: map_idI)
  qed
  then show ?case using Cons by (cases "c_id x = c_id c") (auto simp: image_iff)
qed simp

lemma filled_ids [simp]: "map c_id (filled vec P cs) = map c_id cs"
  by (simp add: filled_def comp_def if_distrib cong: if_cong)

lemma update_filled:
  assumes "distinct (map c_id cs)" "c \<in> set cs" "pending c" "\<not> P c" "c_user c = u"
  shows "chunk_UpdateEmbedding u (c_id c) (vec (c_text c)) (filled vec P cs) =
    (filled vec (\<lambda>x. P x \<or> c_id x = c_id c) cs, None)"
proof -
  have mem: "c \<in> set (filled vec P cs)" using assms by (force simp: filled_def)
  have inj: "x = c" if "x \<in> set cs" "c_id x = c_id c" for x
    using assms(1,2) that by (metis distinct_map inj_onD)
  have "map (\<lambda>x. if c_id x = c_id c then x\<lparr>c_embedding := vec (c_text c)\<rparr> else x) (filled vec P cs) =
      filled vec (\<lambda>x. P x \<or> c_id x = c_id c) cs"
    unfolding filled_def map_map
  proof (rule map_cong[OF refl])
    fix x assume "x \<in> set cs"
    then show "((\<lambda>x. if c_id x = c_id c then x\<lparr>c_embedding := vec (c_text c)\<rparr> else x) \<circ>
          (\<lambda>c. if pending c \<and> P c then c\<lparr>c_embedding := vec (c_text c)\<rparr> else c)) x =
        (if pending x \<and> (P x \<or> c_id x = c_id c) then x\<lparr>c_embedding := vec (c_text x)\<rparr> else x)"
      using inj[of x] assms(3,4) by (cases "c_id x = c_id c") auto
  qed
  then show ?thesis using UpdateEmbedding_map[of "filled vec P cs" c u] assms(1,5) mem by simp
qed

lemma count_filled_insert:
  assumes "distinct (map c_id cs)" "c \<in> set cs" "pending c" "\<not> P c"
  shows "count_filled (\<lambda>x. P x \<or> c_id x = c_id c) cs = count_filled P cs + 1"
proof -
  have inj: "x = c" if "x \<in> set cs" "c_id x = c_id c" for x
    using assms(1,2) that by (metis distinct_map inj_onD)
  have d: "distinct cs" using assms(1) by (simp add: distinct_map)
  have count: "count_filled Q cs = card {x \<in> set cs. pending x \<and> Q x}" for Q
  proof -
    have "{x \<in> set cs. pending x \<and> Q x} = {x. pending x \<and> Q x} \<inter> set cs" by blast
    then show ?thesis using distinct_length_filter[OF d, of "\<lambda>x. pending x \<and> Q x"] by (simp add: count_filled_def)
  qed
  have "{x \<in> set cs. pending x \<and> (P x \<or> c_id x = c_id c)} = insert c {x \<in> set cs. pending x \<and> P x}"
    using assms(2,3) inj by blast
  then show ?thesis unfolding count using assms(4) by simp
qed

definition backfilled :: "(string \<Rightarrow> float list) \<Rightarrow> tenant_store \<Rightarrow> (chunk \<Rightarrow> bool) \<Rightarrow> tenant_store \<times> reembed_result" where
  "backfilled vec s P =
     (s\<lparr>tn_chunks := filled vec P (tn_chunks s)\<rparr>, \<lparr>rs_reembedded = count_filled P (tn_chunks s), rs_errors = []\<rparr>)"

lemma backfilled_cong:
  assumes "\<And>c. c \<in> set (tn_chunks s) \<Longrightarrow> pending c \<Longrightarrow> P c = Q c"
  shows "backfilled vec s P = backfilled vec s Q"
proof -
  have "filled vec P (tn_chunks s) = filled vec Q (tn_chunks s)" using assms by (auto simp: filled_def)
  moreover have "count_filled P (tn_chunks s) = count_filled Q (tn_chunks s)"
    using assms unfolding count_filled_def by (metis (mono_tags, lifting) filter_cong)
  ultimately show ?thesis by (simp add: backfilled_def)
qed

lemma store_vectors_backfilled:
  assumes "distinct (map c_id (tn_chunks s))" "set bs \<subseteq> set (tn_chunks s)" "distinct (map c_id bs)"
    and "\<And>c. c \<in> set bs \<Longrightarrow> pending c \<and> \<not> P c \<and> c_user c = u"
  shows "store_vectors (memory_reembed vec n) u (zip bs (map (vec \<circ> c_text) bs)) (backfilled vec s P) =
    backfilled vec s (\<lambda>x. P x \<or> c_id x \<in> c_id ` set bs)"
  using assms(2-)
proof (induction bs arbitrary: P)
  case (Cons b bs)
  have b: "b \<in> set (tn_chunks s)" "pending b" "\<not> P b" "c_user b = u" using Cons.prems(1,3) by auto
  let ?P = "\<lambda>x. P x \<or> c_id x = c_id b"
  have step: "store_vectors (memory_reembed vec n) u (zip (b # bs) (map (vec \<circ> c_text) (b # bs))) (backfilled vec s P) =
      store_vectors (memory_reembed vec n) u (zip bs (map (vec \<circ> c_text) bs)) (backfilled vec s ?P)"
    using update_filled[where P = P and vec = vec, OF assms(1) b] count_filled_insert[where P = P, OF assms(1) b(1,2,3)]
    by (simp add: backfilled_def memory_reembed_def try_proc_def)
  have "store_vectors (memory_reembed vec n) u (zip bs (map (vec \<circ> c_text) bs)) (backfilled vec s ?P) =
      backfilled vec s (\<lambda>x. ?P x \<or> c_id x \<in> c_id ` set bs)"
  proof (rule Cons.IH)
    show "pending c \<and> \<not> ?P c \<and> c_user c = u" if "c \<in> set bs" for c
      using Cons.prems(2,3) that by (auto simp: image_iff)
  qed (use Cons.prems in auto)
  then show ?case unfolding step by (simp add: disj_assoc)
qed simp

lemma reembedBatch_backfilled:
  assumes "distinct (map c_id (tn_chunks s))" "set bs \<subseteq> set (tn_chunks s)" "distinct (map c_id bs)"
    and "\<And>c. c \<in> set bs \<Longrightarrow> pending c \<and> \<not> P c \<and> c_user c = u"
  shows "reembedBatch (memory_reembed vec n) u (backfilled vec s P) bs = backfilled vec s (\<lambda>x. P x \<or> c_id x \<in> c_id ` set bs)"
proof -
  have "reembedBatch (memory_reembed vec n) u (backfilled vec s P) bs =
      store_vectors (memory_reembed vec n) u (zip bs (map (vec \<circ> c_text) bs)) (backfilled vec s P)"
    by (simp add: reembedBatch_def backfilled_def try_call_def memory_reembed_def)
  then show ?thesis using store_vectors_backfilled[OF assms] by simp
qed

lemma batches_backfilled:
  assumes "distinct (map c_id (tn_chunks s))" "set (concat bss) \<subseteq> set (tn_chunks s)" "distinct (map c_id (concat bss))"
    and "\<And>c. c \<in> set (concat bss) \<Longrightarrow> pending c \<and> \<not> P c \<and> c_user c = u"
  shows "foldl (reembedBatch (memory_reembed vec n) u) (backfilled vec s P) bss =
    backfilled vec s (\<lambda>x. P x \<or> c_id x \<in> c_id ` set (concat bss))"
  using assms(2-)
proof (induction bss arbitrary: P)
  case (Cons bs bss)
  let ?P = "\<lambda>x. P x \<or> c_id x \<in> c_id ` set bs"
  have first: "reembedBatch (memory_reembed vec n) u (backfilled vec s P) bs = backfilled vec s ?P"
    by (rule reembedBatch_backfilled[OF assms(1)]) (use Cons.prems in auto)
  have "foldl (reembedBatch (memory_reembed vec n) u) (backfilled vec s ?P) bss =
      backfilled vec s (\<lambda>x. ?P x \<or> c_id x \<in> c_id ` set (concat bss))"
  proof (rule Cons.IH)
    show "pending c \<and> \<not> ?P c \<and> c_user c = u" if "c \<in> set (concat bss)" for c
    proof -
      have "c_id c \<in> c_id ` set (concat bss)" using that by (rule imageI)
      moreover have "c_id ` set bs \<inter> c_id ` set (concat bss) = {}" using Cons.prems(2) by simp
      ultimately show ?thesis using Cons.prems(3)[of c] that by auto
    qed
  qed (use Cons.prems in auto)
  then show ?case using first by (simp add: image_Un disj_assoc)
qed simp

lemma still_pending:
  assumes "\<And>t. vec t \<noteq> []"
  shows "filter (\<lambda>c. length (c_embedding c) = 0) (chunk_ListByKB u k (filled vec P cs)) =
    filter (\<lambda>c. pending c \<and> \<not> P c \<and> c_user c = u \<and> c_kb c = k) cs"
  using assms by (induction cs) (auto simp: chunk_ListByKB_def filled_def pending_def)

lemma batchSize_pos: "0 < batchSize A"
  by (simp add: batchSize_def defaultBatchSize_def)

lemma reembedKB_backfilled:
  assumes "distinct (map c_id (tn_chunks s))" "\<And>t. vec t \<noteq> []"
  shows "reembedKB (memory_reembed vec n) u (backfilled vec s P) k =
    backfilled vec s (\<lambda>x. P x \<or> c_user x = u \<and> c_kb x = kb_id k)"
proof -
  let ?A = "memory_reembed vec n"
  let ?ps = "filter (\<lambda>c. pending c \<and> \<not> P c \<and> c_user c = u \<and> c_kb c = kb_id k) (tn_chunks s)"
  have "reembedKB ?A u (backfilled vec s P) k = foldl (reembedBatch ?A u) (backfilled vec s P) (windows (batchSize ?A) ?ps)"
    using still_pending[where vec = vec and u = u and k = "kb_id k" and P = P and cs = "tn_chunks s", OF assms(2)]
    by (simp add: reembedKB_def backfilled_def try_call_def memory_reembed_def Let_def)
  also have "\<dots> = backfilled vec s (\<lambda>x. P x \<or> c_id x \<in> c_id ` set (concat (windows (batchSize ?A) ?ps)))"
    by (rule batches_backfilled[OF assms(1)]) (auto simp: concat_windows[OF batchSize_pos] distinct_map_filter[OF assms(1)])
  also have "\<dots> = backfilled vec s (\<lambda>x. P x \<or> c_user x = u \<and> c_kb x = kb_id k)"
  proof (rule backfilled_cong)
    fix c assume c: "c \<in> set (tn_chunks s)" "pending c"
    have "c_id c \<in> c_id ` set ?ps \<longleftrightarrow> c \<in> set ?ps"
      using assms(1) c(1) unfolding distinct_map by (intro inj_on_image_mem_iff[of c_id "set (tn_chunks s)"]) auto
    then show "(P c \<or> c_id c \<in> c_id ` set (concat (windows (batchSize ?A) ?ps))) = (P c \<or> c_user c = u \<and> c_kb c = kb_id k)"
      using c unfolding concat_windows[OF batchSize_pos] by auto
  qed
  finally show ?thesis .
qed

lemma kbs_backfilled:
  assumes "distinct (map c_id (tn_chunks s))" "\<And>t. vec t \<noteq> []"
  shows "foldl (reembedKB (memory_reembed vec n) u) (backfilled vec s P) ks =
    backfilled vec s (\<lambda>x. P x \<or> c_user x = u \<and> c_kb x \<in> kb_id ` set ks)"
proof (induction ks arbitrary: P)
  case (Cons k ks)
  have "(\<lambda>x. (P x \<or> c_user x = u \<and> c_kb x = kb_id k) \<or> c_user x = u \<and> c_kb x \<in> kb_id ` set ks) =
      (\<lambda>x. P x \<or> c_user x = u \<and> c_kb x \<in> kb_id ` set (k # ks))" by auto
  then show ?case using Cons.IH reembedKB_backfilled[OF assms] by simp
qed simp

lemma sessions_backfilled:
  assumes "distinct (map c_id (tn_chunks s))" "\<And>t. vec t \<noteq> []"
  shows "foldl (reembed_session (memory_reembed vec n)) (backfilled vec s P) ss =
    backfilled vec s (\<lambda>x. P x \<or> c_user x \<in> s_id ` set ss \<and> c_kb x \<in> kb_id ` set (kb_List (c_user x) (tn_kbs s)))"
proof (induction ss arbitrary: P)
  case (Cons sess ss)
  have "reembed_session (memory_reembed vec n) (backfilled vec s P) sess =
      foldl (reembedKB (memory_reembed vec n) (s_id sess)) (backfilled vec s P) (kb_List (s_id sess) (tn_kbs s))"
    by (simp add: reembed_session_def backfilled_def try_call_def) (simp add: memory_reembed_def)
  moreover have "(\<lambda>x. (P x \<or> c_user x = s_id sess \<and> c_kb x \<in> kb_id ` set (kb_List (s_id sess) (tn_kbs s))) \<or>
         c_user x \<in> s_id ` set ss \<and> c_kb x \<in> kb_id ` set (kb_List (c_user x) (tn_kbs s))) =
      (\<lambda>x. P x \<or> c_user x \<in> s_id ` set (sess # ss) \<and> c_kb x \<in> kb_id ` set (kb_List (c_user x) (tn_kbs s)))" by auto
  ultimately show ?case using Cons.IH kbs_backfilled[OF assms] by simp
qed simp

subsection \<open>Properties\<close>

text \<open>
  An embedding call under a context with a deadline returns, whatever Batch answers, and a
  result it returns holds one vector per text.
\<close>

theorem embed_returns_by_deadline:
  "\<exists>s' r. Embed A cfg suffix' (Some (n, e)) texts s = Some (s', r) \<and> (case r of Inl _ \<Rightarrow> True | Inr vs \<Rightarrow> length vs = length texts)"
proof -
  obtain s' r where r: "Embed A cfg suffix' (Some (n, e)) texts s = Some (s', r)" "right_length (length texts) r"
    using Embed_returns[of texts A cfg suffix' n e s] unfolding returns_with_def by blast
  show ?thesis by (rule exI[of _ s'], rule exI[of _ r]) (use r in \<open>simp add: right_length_def split: sum.split\<close>)
qed

text \<open>
  C38. The backfill gives every chunk without a vector the vector of its text, batch by batch, touches
  no other chunk, whatever tenant it belongs to, and counts exactly what it wrote.
\<close>

theorem reembed_fills_missing_vectors:
  assumes "distinct (map c_id (tn_chunks s))" and "\<And>t. vec t \<noteq> []"
    and "\<And>c. c \<in> set (tn_chunks s) \<Longrightarrow> c_user c \<in> s_id ` set (ss_ListForSweep (tn_sessions s)) \<and>
          c_kb c \<in> kb_id ` set (kb_List (c_user c) (tn_kbs s))"
  shows "Reembed_Run (memory_reembed vec n) s =
    (s\<lparr>tn_chunks := map (\<lambda>c. if c_embedding c = [] then c\<lparr>c_embedding := vec (c_text c)\<rparr> else c) (tn_chunks s)\<rparr>,
     Inr \<lparr>rs_reembedded = length (filter (\<lambda>c. c_embedding c = []) (tn_chunks s)), rs_errors = []\<rparr>)"
proof -
  have start: "backfilled vec s (\<lambda>c. False) = (s, \<lparr>rs_reembedded = 0, rs_errors = []\<rparr>)"
    by (simp add: backfilled_def filled_def count_filled_def)
  have run: "Reembed_Run (memory_reembed vec n) s =
      (case foldl (reembed_session (memory_reembed vec n)) (backfilled vec s (\<lambda>c. False)) (ss_ListForSweep (tn_sessions s)) of
         (s, res) \<Rightarrow> (s, Inr res))"
  proof -
    have "re_sessions (memory_reembed vec n) s = (s, Inr (ss_ListForSweep (tn_sessions s)))" by (simp add: memory_reembed_def)
    then show ?thesis unfolding Reembed_Run_def start by simp
  qed
  have all: "backfilled vec s (\<lambda>x. False \<or> c_user x \<in> s_id ` set (ss_ListForSweep (tn_sessions s)) \<and>
      c_kb x \<in> kb_id ` set (kb_List (c_user x) (tn_kbs s))) = backfilled vec s (\<lambda>c. True)"
    by (rule backfilled_cong) (use assms(3) in blast)
  show ?thesis unfolding run sessions_backfilled[OF assms(1,2)] all
    by (simp add: backfilled_def filled_def count_filled_def pending_def)
qed

definition demo_tenant_chunk :: "uuid \<Rightarrow> uuid \<Rightarrow> float list \<Rightarrow> chunk" where
  "demo_tenant_chunk i u v = \<lparr>c_id = i, c_doc = 3, c_kb = 10 + u, c_user = u, c_ordinal = 0, c_text = ''abc'', c_tokens = 1,
     c_embedding = v, c_start = 0, c_end = 3, c_region = None, c_page = None, c_box = None\<rparr>"

definition demo_tenants :: tenant_store where
  "demo_tenants =
     \<lparr>tn_sessions = \<lparr>ss_sessions = map (\<lambda>u. (u, \<lparr>s_id = u, s_created = 0, s_last_active = 0, s_warned = None\<rparr>)) [1, 2],
        ss_touched = [], ss_create_err = None\<rparr>,
      tn_kbs = map (\<lambda>u. (10 + u, \<lparr>kb_id = 10 + u, kb_user = u, kb_name = ''kb'', kb_created = 0, kb_updated = 0\<rparr>)) [1, 2],
      tn_chunks = [demo_tenant_chunk 5 1 [], demo_tenant_chunk 6 1 [9], demo_tenant_chunk 7 2 [], demo_tenant_chunk 8 2 []]\<rparr>"

theorem reembed_fills_missing_vectors_witness:
  "Reembed_Run (memory_reembed (\<lambda>t. [of_nat (length t)]) 1) demo_tenants =
    (demo_tenants\<lparr>tn_chunks := [demo_tenant_chunk 5 1 [3], demo_tenant_chunk 6 1 [9], demo_tenant_chunk 7 2 [3], demo_tenant_chunk 8 2 [3]]\<rparr>,
     Inr \<lparr>rs_reembedded = 3, rs_errors = []\<rparr>)"
proof -
  have "Reembed_Run (memory_reembed (\<lambda>t. [of_nat (length t)]) 1) demo_tenants =
    (demo_tenants\<lparr>tn_chunks := map (\<lambda>c. if c_embedding c = [] then c\<lparr>c_embedding := [of_nat (length (c_text c))]\<rparr> else c)
        (tn_chunks demo_tenants)\<rparr>,
     Inr \<lparr>rs_reembedded = length (filter (\<lambda>c. c_embedding c = []) (tn_chunks demo_tenants)), rs_errors = []\<rparr>)"
    by (rule reembed_fills_missing_vectors)
      (auto simp: demo_tenants_def demo_tenant_chunk_def ss_ListForSweep_def kb_List_def)
  then show ?thesis by (simp add: demo_tenants_def demo_tenant_chunk_def)
qed

end
