(* ===== verification/Settings.thy ===== *)
theory Settings
  imports Repositories
begin

text \<open>
  \<^verbatim>\<open>internal/config\<close>: the settings every command reads from its environment, and the database
  connection strings of \<^verbatim>\<open>internal/db\<close> made from them. The environment is a map from names to
  values; reading the \<^verbatim>\<open>.env\<close> files, done by a library, is a parameter that returns the
  environment it leaves. The fractional part of a duration is an exact rational.
\<close>

type_synonym env = "(string, string) gomap"

definition second :: timestamp where
  "second = 1000000000"

subsection \<open>time.ParseDuration\<close>

text \<open>The two spellings of the micro sign are bytes of UTF-8.\<close>

definition unit_value :: "string \<Rightarrow> int option" where
  "unit_value u =
     (if u = ''ns'' then Some 1
      else if u \<in> {''us'', [CHR 0xC2, CHR 0xB5, CHR ''s''], [CHR 0xCE, CHR 0xBC, CHR ''s'']} then Some 1000
      else if u = ''ms'' then Some 1000000 else if u = ''s'' then Some second
      else if u = ''m'' then Some (60 * second) else if u = ''h'' then Some (3600 * second) else None)"

text \<open>One number with its unit: its value and what follows.\<close>

definition duration_part :: "string \<Rightarrow> (int \<times> string) option" where
  "duration_part s =
     (let whole = takeWhile is_digit s; s = dropWhile is_digit s;
          dot = (s \<noteq> [] \<and> hd s = CHR ''.''); s = (if dot then tl s else s);
          frac = (if dot then takeWhile is_digit s else []); s = (if dot then dropWhile is_digit s else s);
          u = takeWhile (\<lambda>c. \<not> (c = CHR ''.'' \<or> is_digit c)) s;
          s = dropWhile (\<lambda>c. \<not> (c = CHR ''.'' \<or> is_digit c)) s
      in if int (digits_val whole) > 2 ^ 63 \<or> (whole = [] \<and> frac = []) then None
         else (case unit_value u of
                 None \<Rightarrow> None
               | Some un \<Rightarrow>
                   if int (digits_val whole) > 2 ^ 63 div un then None
                   else let v = int (digits_val whole) * un + int (digits_val frac) * un div 10 ^ length frac
                        in if v > 2 ^ 63 then None else Some (v, s)))"

lemma duration_part_shorter: "duration_part s = Some (v, s') \<Longrightarrow> length s' < length s"
proof -
  let ?nd = "\<lambda>c. \<not> (c = CHR ''.'' \<or> is_digit c)"
  have le: "length (dropWhile P xs) \<le> length xs" for P and xs :: string by (rule length_dropWhile_le)
  have lt: "length (dropWhile P xs) < length xs" if "takeWhile P xs \<noteq> []" for P and xs :: string
    using that by (metis append_Nil2 le le_neq_implies_less length_append less_add_same_cancel2 length_greater_0_conv takeWhile_dropWhile_id)
  assume a: "duration_part s = Some (v, s')"
  define s1 where "s1 = dropWhile is_digit s"
  define s2 where "s2 = (if s1 \<noteq> [] \<and> hd s1 = CHR ''.'' then dropWhile is_digit (tl s1) else s1)"
  have s': "s' = dropWhile ?nd s2" "unit_value (takeWhile ?nd s2) \<noteq> None"
    using a by (auto simp: duration_part_def Let_def s1_def s2_def split: if_splits option.splits)
  have "takeWhile ?nd s2 \<noteq> []" using s'(2) by (auto simp: unit_value_def)
  then have "length s' < length s2" using lt s'(1) by blast
  moreover have "length s2 \<le> length s1" unfolding s2_def using le[of is_digit "tl s1"] by auto
  moreover have "length s1 \<le> length s" unfolding s1_def by (rule le)
  ultimately show ?thesis by simp
qed

function duration_sum :: "int \<Rightarrow> string \<Rightarrow> int option" where
  "duration_sum d s =
     (if s = [] then Some d
      else if \<not> (hd s = CHR ''.'' \<or> is_digit (hd s)) then None
      else (case duration_part s of
              None \<Rightarrow> None
            | Some (v, s') \<Rightarrow> if d + v > 2 ^ 63 then None else duration_sum (d + v) s'))"
  by pat_completeness auto
termination
  by (relation "measure (\<lambda>(d, s). length s)") (auto dest: duration_part_shorter)

declare duration_sum.simps [simp del]

definition ParseDuration :: "string \<Rightarrow> timestamp option" where
  "ParseDuration s =
     (let neg = (s \<noteq> [] \<and> hd s = CHR ''-'');
          s = (if s \<noteq> [] \<and> (hd s = CHR ''-'' \<or> hd s = CHR ''+'') then tl s else s)
      in if s = ''0'' then Some 0
         else if s = [] then None
         else (case duration_sum 0 s of
                 None \<Rightarrow> None
               | Some d \<Rightarrow> if neg then Some (- d) else if d > 2 ^ 63 - 1 then None else Some d))"

subsection \<open>Reading the environment\<close>

definition getEnv :: "env \<Rightarrow> string \<Rightarrow> string \<Rightarrow> string" where
  "getEnv e key fallback = (let v = gm_get_or '''' e key in if v \<noteq> '''' then v else fallback)"

definition getEnvInt :: "env \<Rightarrow> string \<Rightarrow> int \<Rightarrow> int" where
  "getEnvInt e key fallback =
     (let v = gm_get_or '''' e key
      in if v \<noteq> '''' then (case atoi v of Some n \<Rightarrow> n | None \<Rightarrow> fallback) else fallback)"

definition getEnvDuration :: "env \<Rightarrow> string \<Rightarrow> timestamp \<Rightarrow> timestamp" where
  "getEnvDuration e key fallback =
     (let v = gm_get_or '''' e key
      in if v \<noteq> '''' then (case ParseDuration v of Some d \<Rightarrow> d | None \<Rightarrow> fallback) else fallback)"

definition getEntityTypes :: "env \<Rightarrow> string \<Rightarrow> string list \<Rightarrow> string list" where
  "getEntityTypes e key fallback =
     (let raw = gm_get_or '''' e key
      in if trim_space raw = '''' then fallback
         else let out = filter (\<lambda>t. t \<noteq> '''') (map trim_space (split_on (CHR '','') raw))
              in if out = [] then fallback else out)"

definition defaultEntityTypes :: "string list" where
  "defaultEntityTypes = [''person'', ''organization'', ''location'', ''concept'', ''event'', ''work_of_art'', ''date_time'']"

record config =
  cfg_HTTPPort :: string
  cfg_DBHost :: string
  cfg_DBPort :: string
  cfg_DBName :: string
  cfg_DBUser :: string
  cfg_DBPassword :: string
  cfg_DBSSL :: string
  cfg_DatabaseURL :: string
  cfg_DatabaseURLPooled :: string
  cfg_S3Endpoint :: string
  cfg_S3Region :: string
  cfg_S3Bucket :: string
  cfg_S3AccessKey :: string
  cfg_S3SecretKey :: string
  cfg_S3UsePathStyle :: bool
  cfg_S3ScratchEndpoint :: string
  cfg_S3ScratchRegion :: string
  cfg_S3ScratchBucket :: string
  cfg_S3ScratchAccessKey :: string
  cfg_S3ScratchSecretKey :: string
  cfg_S3ScratchUsePathStyle :: bool
  cfg_BedrockModelID :: string
  cfg_EntityTypes :: "string list"
  cfg_InferenceServiceURL :: string
  cfg_AWSRegion :: string
  cfg_EmbedBatchJobQueue :: string
  cfg_EmbedBatchJobDefinition :: string
  cfg_BatchPollInterval :: timestamp
  cfg_BatchPresignTTL :: timestamp
  cfg_CookieSecure :: bool
  cfg_MaxDocumentsPerSession :: int
  cfg_RateLimitRequests :: int
  cfg_RateLimitWindow :: timestamp
  cfg_MaxCommunityGraphEntities :: int
  cfg_CommunityDetectionTimeout :: timestamp
  cfg_EntityExtractionBatchSize :: int
  cfg_DocumentIndexingStateMachineARN :: string
  cfg_EntityExtractionStateMachineARN :: string
  cfg_RegionClassificationStateMachineARN :: string
  cfg_EdgeExtractionStateMachineARN :: string
  cfg_CanonicalizationStateMachineARN :: string
  cfg_MalwareScanTimeoutStateMachineARN :: string

definition Load :: "(env \<Rightarrow> env) \<Rightarrow> env \<Rightarrow> config" where
  "Load dotenv environment =
     (let e = dotenv environment
      in \<lparr>cfg_HTTPPort = getEnv e ''HTTP_PORT'' ''8080'',
          cfg_DBHost = getEnv e ''DB_HOST'' ''localhost'',
          cfg_DBPort = getEnv e ''DB_PORT'' ''5432'',
          cfg_DBName = getEnv e ''DB_NAME'' ''dumpster'',
          cfg_DBUser = getEnv e ''DB_USER'' ''dumpster'',
          cfg_DBPassword = getEnv e ''DB_PASSWORD'' ''dumpster'',
          cfg_DBSSL = getEnv e ''DB_SSLMODE'' ''disable'',
          cfg_DatabaseURL = getEnv e ''DATABASE_URL'' '''',
          cfg_DatabaseURLPooled = getEnv e ''DATABASE_URL_POOLED'' '''',
          cfg_S3Endpoint = getEnv e ''S3_ENDPOINT'' '''',
          cfg_S3Region = getEnv e ''S3_REGION'' ''auto'',
          cfg_S3Bucket = getEnv e ''S3_BUCKET'' ''dumpster'',
          cfg_S3AccessKey = getEnv e ''S3_ACCESS_KEY'' '''',
          cfg_S3SecretKey = getEnv e ''S3_SECRET_KEY'' '''',
          cfg_S3UsePathStyle = (getEnv e ''S3_USE_PATH_STYLE'' ''true'' = ''true''),
          cfg_S3ScratchEndpoint = getEnv e ''S3_SCRATCH_ENDPOINT'' '''',
          cfg_S3ScratchRegion = getEnv e ''S3_SCRATCH_REGION'' ''auto'',
          cfg_S3ScratchBucket = getEnv e ''S3_SCRATCH_BUCKET'' '''',
          cfg_S3ScratchAccessKey = getEnv e ''S3_SCRATCH_ACCESS_KEY'' '''',
          cfg_S3ScratchSecretKey = getEnv e ''S3_SCRATCH_SECRET_KEY'' '''',
          cfg_S3ScratchUsePathStyle = (getEnv e ''S3_SCRATCH_USE_PATH_STYLE'' ''false'' = ''true''),
          cfg_BedrockModelID = getEnv e ''BEDROCK_MODEL_ID'' ''us.anthropic.claude-sonnet-5'',
          cfg_EntityTypes = getEntityTypes e ''ENTITY_TYPES'' defaultEntityTypes,
          cfg_InferenceServiceURL = getEnv e ''INFERENCE_SERVICE_URL'' ''http://inference:8000'',
          cfg_AWSRegion = getEnv e ''AWS_REGION'' ''us-east-1'',
          cfg_EmbedBatchJobQueue = getEnv e ''EMBED_BATCH_JOB_QUEUE'' '''',
          cfg_EmbedBatchJobDefinition = getEnv e ''EMBED_BATCH_JOB_DEFINITION'' '''',
          cfg_BatchPollInterval = getEnvDuration e ''BATCH_POLL_INTERVAL'' (0),
          cfg_BatchPresignTTL = getEnvDuration e ''BATCH_PRESIGN_TTL'' (0),
          cfg_CookieSecure = (getEnv e ''COOKIE_SECURE'' ''true'' = ''true''),
          cfg_MaxDocumentsPerSession = getEnvInt e ''MAX_DOCUMENTS_PER_SESSION'' 20,
          cfg_RateLimitRequests = getEnvInt e ''RATE_LIMIT_REQUESTS'' 100,
          cfg_RateLimitWindow = getEnvDuration e ''RATE_LIMIT_WINDOW'' (60 * second),
          cfg_MaxCommunityGraphEntities = getEnvInt e ''MAX_COMMUNITY_GRAPH_ENTITIES'' 5000,
          cfg_CommunityDetectionTimeout = getEnvDuration e ''COMMUNITY_DETECTION_TIMEOUT'' (30 * second),
          cfg_EntityExtractionBatchSize = getEnvInt e ''ENTITY_EXTRACTION_BATCH_SIZE'' 50,
          cfg_DocumentIndexingStateMachineARN = getEnv e ''DOCUMENT_INDEXING_STATE_MACHINE_ARN'' '''',
          cfg_EntityExtractionStateMachineARN = getEnv e ''ENTITY_EXTRACTION_STATE_MACHINE_ARN'' '''',
          cfg_RegionClassificationStateMachineARN = getEnv e ''REGION_CLASSIFICATION_STATE_MACHINE_ARN'' '''',
          cfg_EdgeExtractionStateMachineARN = getEnv e ''EDGE_EXTRACTION_STATE_MACHINE_ARN'' '''',
          cfg_CanonicalizationStateMachineARN = getEnv e ''CANONICALIZATION_STATE_MACHINE_ARN'' '''',
          cfg_MalwareScanTimeoutStateMachineARN = getEnv e ''MALWARE_SCAN_TIMEOUT_STATE_MACHINE_ARN'' ''''\<rparr>)"

subsection \<open>Connection strings\<close>

definition dsn :: "config \<Rightarrow> string" where
  "dsn cfg =
     (if cfg_DatabaseURL cfg \<noteq> '''' then cfg_DatabaseURL cfg
      else ''host='' @ cfg_DBHost cfg @ '' port='' @ cfg_DBPort cfg @ '' dbname='' @ cfg_DBName cfg @ '' user='' @
           cfg_DBUser cfg @ '' password='' @ cfg_DBPassword cfg @ '' sslmode='' @ cfg_DBSSL cfg)"

definition dsnPooled :: "config \<Rightarrow> string" where
  "dsnPooled cfg = (if cfg_DatabaseURLPooled cfg \<noteq> '''' then cfg_DatabaseURLPooled cfg else dsn cfg)"

subsection \<open>What a setting can be\<close>

text \<open>The extractor is never left without types, and no type is blank.\<close>

lemma entity_types_usable:
  "cfg_EntityTypes (Load dotenv e) \<noteq> [] \<and> '''' \<notin> set (cfg_EntityTypes (Load dotenv e))"
  by (simp add: Load_def getEntityTypes_def defaultEntityTypes_def Let_def)

text \<open>A value that does not parse is ignored without a word, a negative one is taken as it is.\<close>

lemma malformed_setting_ignored:
  assumes "atoi v = None" "gm_get (dotenv e) ''RATE_LIMIT_REQUESTS'' = Some v"
  shows "cfg_RateLimitRequests (Load dotenv e) = 100"
  using assms by (simp add: Load_def getEnvInt_def gm_get_or_def Let_def)

lemma parse_duration_examples:
  "ParseDuration ''1h15m30.5s'' = Some (4530500 * 1000000)" "ParseDuration ''-1.5h'' = Some (- 5400 * second)"
  "ParseDuration ''90'' = None" "ParseDuration ''0'' = Some 0" "ParseDuration '''' = None" "ParseDuration ''.s'' = None"
  by code_simp+

end
