(* ===== verification/Evaluation.thy ===== *)
theory Evaluation
  imports Search Server
begin

text \<open>
  The measurements over a fixed corpus: \<^verbatim>\<open>internal/evalcorpus\<close> uploads the corpus and resolves its
  ground truth, \<^verbatim>\<open>internal/graphrecall\<close> counts the known relations the graph legs reach and
  \<^verbatim>\<open>internal/multihopqa\<close> scores retrieval and answers of multi-hop questions.

  The two graph legs, the search service and the judge are operations on a state; a score is the
  exact quotient. Values a message quotes are left out of it, and a Go map that is ranged over is an
  association list in the order the runtime picks.
\<close>

subsection \<open>Graph recall\<close>

record gr_pair =
  gp_id :: string
  gp_seed :: string
  gp_expected :: "uuid list"

record pair_result =
  pr_pair :: string
  pr_reached :: bool
  pr_leg :: string

record recall_result =
  rr_score :: rat
  rr_results :: "pair_result list"

record 's graph_retriever =
  gr_aggregation :: "uuid \<Rightarrow> string \<Rightarrow> nat \<Rightarrow> ('s, scored list) call"
  gr_traversal :: "uuid \<Rightarrow> string \<Rightarrow> nat \<Rightarrow> ('s, scored list) call"

definition containsExpectedDocument :: "scored list \<Rightarrow> uuid list \<Rightarrow> bool" where
  "containsExpectedDocument chunks expected =
     list_ex (\<lambda>c. List.member expected (c_doc (sc_chunk c))) chunks"

definition checkPair :: "'s graph_retriever \<Rightarrow> nat \<Rightarrow> uuid \<Rightarrow> gr_pair \<Rightarrow> ('s, string \<times> bool) call" where
  "checkPair G k kbID p =
     try_call (gr_aggregation G kbID (gp_seed p) k) (\<lambda>e s. (s, Inl (Wrapf ''aggregation leg'' e))) (\<lambda>agg.
       if containsExpectedDocument agg (gp_expected p) then (\<lambda>s. (s, Inr (''aggregation'', True)))
       else try_call (gr_traversal G kbID (gp_seed p) k) (\<lambda>e s. (s, Inl (Wrapf ''traversal leg'' e))) (\<lambda>trav s.
              if containsExpectedDocument trav (gp_expected p) then (s, Inr (''traversal'', True))
              else (s, Inr ('''', False))))"

primrec check_pairs ::
  "'s graph_retriever \<Rightarrow> nat \<Rightarrow> uuid \<Rightarrow> gr_pair list \<Rightarrow> nat \<Rightarrow> pair_result list \<Rightarrow> ('s, nat \<times> pair_result list) call" where
  "check_pairs G k kbID [] reached results = (\<lambda>s. (s, Inr (reached, results)))"
| "check_pairs G k kbID (p # ps) reached results =
     try_call (checkPair G k kbID p) (\<lambda>e s. (s, Inl (Wrapf ''graphrecall: pair'' e))) (\<lambda>(leg, ok).
       check_pairs G k kbID ps (if ok then reached + 1 else reached)
         (results @ [\<lparr>pr_pair = gp_id p, pr_reached = ok, pr_leg = leg\<rparr>]))"

definition recall_Run :: "'s graph_retriever \<Rightarrow> nat \<Rightarrow> uuid \<Rightarrow> gr_pair list \<Rightarrow> ('s, recall_result) call" where
  "recall_Run G k kbID pairs =
     (let testable = filter (\<lambda>p. length (gp_expected p) > 0) pairs
      in if testable = [] then (\<lambda>s. (s, Inr \<lparr>rr_score = 0, rr_results = []\<rparr>))
         else try_call (check_pairs G k kbID testable 0 []) (\<lambda>e s. (s, Inl e)) (\<lambda>(reached, results) s.
                (s, Inr \<lparr>rr_score = of_nat reached / of_nat (length testable), rr_results = results\<rparr>)))"

subsection \<open>Multi-hop questions\<close>

record qa_question =
  qu_id :: string
  qu_text :: string
  qu_expected :: string
  qu_required :: "uuid list"

record question_result =
  qs_question :: string
  qs_reached :: bool
  qs_correct :: bool
  qs_answer :: string

record qa_result =
  qa_retrieval :: rat
  qa_answers :: rat
  qa_results :: "question_result list"

record 's qa_tester =
  qt_search :: "uuid \<Rightarrow> string \<Rightarrow> ('s, query_result) call"
  qt_judge :: "string \<Rightarrow> string \<Rightarrow> string \<Rightarrow> ('s, bool) call"

definition containsAny :: "uuid list \<Rightarrow> uuid list \<Rightarrow> bool" where
  "containsAny haystack needles = list_ex (List.member needles) haystack"

primrec ask_all ::
  "'s qa_tester \<Rightarrow> uuid \<Rightarrow> qa_question list \<Rightarrow> nat \<Rightarrow> nat \<Rightarrow> question_result list \<Rightarrow>
     ('s, nat \<times> nat \<times> question_result list) call" where
  "ask_all T kbID [] hits answers results = (\<lambda>s. (s, Inr (hits, answers, results)))"
| "ask_all T kbID (q # qs) hits answers results =
     try_call (qt_search T kbID (qu_text q)) (\<lambda>e s. (s, Inl (Wrapf ''multihopqa: question: search'' e))) (\<lambda>res.
       let reached = (length (qu_required q) = 0 \<or> containsAny (qr_documents res) (qu_required q));
           hits = (if reached then hits + 1 else hits)
       in try_call (qt_judge T (qu_text q) (qu_expected q) (qr_summary res))
            (\<lambda>e s. (s, Inl (Wrapf ''multihopqa: question: judge'' e))) (\<lambda>correct.
            ask_all T kbID qs hits (if correct then answers + 1 else answers)
              (results @ [\<lparr>qs_question = qu_id q, qs_reached = reached, qs_correct = correct, qs_answer = qr_summary res\<rparr>])))"

definition qa_Run :: "'s qa_tester \<Rightarrow> uuid \<Rightarrow> qa_question list \<Rightarrow> ('s, qa_result) call" where
  "qa_Run T kbID questions =
     (if questions = [] then (\<lambda>s. (s, Inr \<lparr>qa_retrieval = 0, qa_answers = 0, qa_results = []\<rparr>))
      else try_call (ask_all T kbID questions 0 0 []) (\<lambda>e s. (s, Inl e)) (\<lambda>(hits, answers, results) s.
             (s, Inr \<lparr>qa_retrieval = of_nat hits / of_nat (length questions),
                      qa_answers = of_nat answers / of_nat (length questions), qa_results = results\<rparr>)))"

definition verdictPrefix :: string where
  "verdictPrefix = ''VERDICT:''"

definition buildJudgePrompt :: "string \<Rightarrow> string \<Rightarrow> string \<Rightarrow> string" where
  "buildJudgePrompt question expectedAnswer actualAnswer =
     (let nl = [CHR 0x0A] in
      ''You are judging whether a generated answer correctly conveys the key facts of an expected answer, for the question below. Minor differences in wording or extra detail are fine; a missing or contradicted key fact is not.''
      @ nl @ nl @ ''Question: '' @ question @ nl @ nl @ ''Expected answer: '' @ expectedAnswer @ nl @ nl
      @ ''Generated answer: '' @ actualAnswer @ nl @ nl @ ''Respond with exactly one line, nothing else:'' @ nl
      @ ''VERDICT: CORRECT'' @ nl @ ''or'' @ nl @ ''VERDICT: INCORRECT'' @ nl)"

primrec verdict_lines :: "string list \<Rightarrow> bool" where
  "verdict_lines [] = False"
| "verdict_lines (l # ls) =
     (let line = trim_space l in
      if has_prefix line verdictPrefix
      then equal_fold (trim_space (trim_prefix line verdictPrefix)) ''CORRECT''
      else verdict_lines ls)"

definition parseVerdict :: "string \<Rightarrow> bool" where
  "parseVerdict resp = verdict_lines (split_on (CHR 0x0A) resp)"

definition JudgeCorrect :: "(string \<Rightarrow> ('s, string) call) \<Rightarrow> string \<Rightarrow> string \<Rightarrow> string \<Rightarrow> ('s, bool) call" where
  "JudgeCorrect generate question expectedAnswer actualAnswer =
     try_call (generate (buildJudgePrompt question expectedAnswer actualAnswer))
       (\<lambda>e s. (s, Inl (Wrapf ''multihopqa: judge: generate'' e)))
       (\<lambda>resp s. (s, Inr (parseVerdict resp)))"

subsection \<open>The corpus and its ground truth\<close>

definition corpusContentTypes :: "(string, string) gomap" where
  "corpusContentTypes = [(''.txt'', ''text/plain''), (''.md'', ''text/markdown'')]"

definition corpus_key :: "(uuid \<Rightarrow> string) \<Rightarrow> uuid \<Rightarrow> uuid \<Rightarrow> uuid \<Rightarrow> string \<Rightarrow> string" where
  "corpus_key us userID kbID objectID relPath =
     ''evalcorpus/'' @ us userID @ ''/'' @ us kbID @ ''/'' @ us objectID @ ''/'' @ path_base relPath"

definition IngestFile :: "'s front_ops \<Rightarrow> (uuid \<Rightarrow> string) \<Rightarrow> uuid \<Rightarrow> uuid \<Rightarrow> string \<Rightarrow> string \<Rightarrow> ('s, document) call" where
  "IngestFile F us userID kbID relPath content s =
     (case gm_get corpusContentTypes (to_lower (path_ext relPath)) of
        None \<Rightarrow> (s, Inl (Plain ''evalcorpus: unsupported extension''))
      | Some contentType \<Rightarrow>
          (case fo_new_uuid F s of (s, objectID) \<Rightarrow>
             let s3Key = corpus_key us userID kbID objectID relPath
             in try_proc (fo_put F s3Key content) (\<lambda>e s. (s, Inl (Wrapf ''evalcorpus: put'' e)))
                  (try_call (fo_doc_create F (upload_row kbID userID relPath s3Key contentType (int (length content))))
                     (\<lambda>e s. (s, Inl (Wrapf ''evalcorpus: create document record'' e)))
                     (\<lambda>doc. try_proc (fo_publish F (DocumentUploaded (d_id doc) userID))
                        (\<lambda>e. ignore (fo_doc_status F userID (d_id doc) DocFailed)
                           (\<lambda>s. (s, Inl (Wrapf ''evalcorpus: publish document uploaded'' e))))
                        (\<lambda>s. (s, Inr doc)))) s))"

primrec ingest_files ::
  "'s front_ops \<Rightarrow> (uuid \<Rightarrow> string) \<Rightarrow> uuid \<Rightarrow> uuid \<Rightarrow> (string \<times> string) list \<Rightarrow> (string, document) gomap \<Rightarrow>
     ('s, (string, document) gomap) call" where
  "ingest_files F us userID kbID [] results = (\<lambda>s. (s, Inr results))"
| "ingest_files F us userID kbID (f # fs) results =
     try_call (IngestFile F us userID kbID (fst f) (snd f)) (\<lambda>e s. (s, Inl e))
       (\<lambda>doc. ingest_files F us userID kbID fs (gm_put (fst f) doc results))"

definition IngestAll ::
  "'s front_ops \<Rightarrow> (uuid \<Rightarrow> string) \<Rightarrow> uuid \<Rightarrow> uuid \<Rightarrow> (string, string) gomap \<Rightarrow> ('s, (string, document) gomap) call" where
  "IngestAll F us userID kbID files = ingest_files F us userID kbID files []"

record corpus_entity =
  ce_id :: string
  ce_name :: string
  ce_docs :: "string list"

record cross_pair =
  xp_id :: string
  xp_a :: string
  xp_b :: string

record multi_hop_question =
  mq_id :: string
  mq_question :: string
  mq_expected :: string
  mq_docs :: "string list"

record ground_truth =
  gt_entities :: "corpus_entity list"
  gt_pairs :: "cross_pair list"
  gt_questions :: "multi_hop_question list"

text \<open>A loop that appends one result per element and returns the first error.\<close>

primrec collect :: "('a \<Rightarrow> gerror + 'b) \<Rightarrow> 'a list \<Rightarrow> gerror + 'b list" where
  "collect f [] = Inr []"
| "collect f (x # xs) =
     (case f x of Inl e \<Rightarrow> Inl e
      | Inr y \<Rightarrow> (case collect f xs of Inl e \<Rightarrow> Inl e | Inr ys \<Rightarrow> Inr (y # ys)))"

text \<open>The identifiers of the listed paths, or the error the first missing one is answered with.\<close>

definition resolve_docs :: "gerror \<Rightarrow> (string, uuid) gomap \<Rightarrow> string list \<Rightarrow> gerror + uuid list" where
  "resolve_docs e ids = collect (\<lambda>p. case gm_get ids p of None \<Rightarrow> Inl e | Some i \<Rightarrow> Inr i)"

definition entities_by_id :: "corpus_entity list \<Rightarrow> (string, corpus_entity) gomap" where
  "entities_by_id es = foldl (\<lambda>m e. gm_put (ce_id e) e m) [] es"

definition resolve_pair :: "(string, corpus_entity) gomap \<Rightarrow> (string, uuid) gomap \<Rightarrow> cross_pair \<Rightarrow> gerror + gr_pair" where
  "resolve_pair byID ids x =
     (case gm_get byID (xp_a x) of
        None \<Rightarrow> Inl (Plain (''evalcorpus: pair '' @ xp_id x @ '': unknown entity_a''))
      | Some a \<Rightarrow>
          (case gm_get byID (xp_b x) of
             None \<Rightarrow> Inl (Plain (''evalcorpus: pair '' @ xp_id x @ '': unknown entity_b''))
           | Some b \<Rightarrow>
               (case resolve_docs (Plain (''evalcorpus: pair '' @ xp_id x @ '': document hasn't been ingested yet'')) ids (ce_docs b) of
                  Inl e \<Rightarrow> Inl e
                | Inr js \<Rightarrow> Inr \<lparr>gp_id = xp_id x, gp_seed = ce_name a, gp_expected = js\<rparr>)))"

definition ResolvePairs :: "ground_truth \<Rightarrow> (string, uuid) gomap \<Rightarrow> gerror + gr_pair list" where
  "ResolvePairs gt ids = collect (resolve_pair (entities_by_id (gt_entities gt)) ids) (gt_pairs gt)"

definition resolve_question :: "(string, uuid) gomap \<Rightarrow> multi_hop_question \<Rightarrow> gerror + qa_question" where
  "resolve_question ids q =
     (case resolve_docs (Plain (''evalcorpus: question '' @ mq_id q @ '': required document hasn't been ingested yet'')) ids (mq_docs q) of
        Inl e \<Rightarrow> Inl e
      | Inr js \<Rightarrow> Inr \<lparr>qu_id = mq_id q, qu_text = mq_question q, qu_expected = mq_expected q, qu_required = js\<rparr>)"

definition ResolveQuestions :: "ground_truth \<Rightarrow> (string, uuid) gomap \<Rightarrow> gerror + qa_question list" where
  "ResolveQuestions gt ids = collect (resolve_question ids) (gt_questions gt)"

text \<open>The documents an evaluation must wait for; \<open>None\<close> where every one is indexed.\<close>

definition CheckAllIndexed :: "document list \<Rightarrow> (string \<times> doc_status) list option" where
  "CheckAllIndexed docs =
     (let notIndexed = map (\<lambda>d. (d_filename d, d_status d)) (filter (\<lambda>d. d_status d \<noteq> DocIndexed) docs)
      in if notIndexed = [] then None else Some notIndexed)"

definition status_word :: "doc_status \<Rightarrow> string" where
  "status_word st = (case st of DocPending \<Rightarrow> ''pending'' | DocProcessing \<Rightarrow> ''processing''
                      | DocIndexed \<Rightarrow> ''indexed'' | DocFailed \<Rightarrow> ''failed'')"

definition incomplete_error :: "(string \<times> doc_status) list \<Rightarrow> string" where
  "incomplete_error ds =
     ''evalcorpus: '' @ itoa (int (length ds)) @ '' document(s) not yet indexed: '' @
     join_with '', '' (map (\<lambda>(f, st). f @ '' ('' @ status_word st @ '')'') ds)"

subsection \<open>Nothing of the ground truth is skipped\<close>

lemma collect_Inr: "collect f xs = Inr ys \<longleftrightarrow> list_all2 (\<lambda>x y. f x = Inr y) xs ys"
proof (induction xs arbitrary: ys)
  case (Cons x xs)
  show ?case
  proof (cases "collect f xs")
    case (Inl e)
    with Cons.IH show ?thesis by (cases "f x") (auto simp: list_all2_Cons1)
  next
    case (Inr zs)
    then have "list_all2 (\<lambda>x y. f x = Inr y) xs us \<longleftrightarrow> us = zs" for us using Cons.IH[of us] by auto
    then show ?thesis using Inr by (cases "f x") (auto simp: list_all2_Cons1)
  qed
qed auto

lemma collect_Inl: "collect f xs = Inl e \<Longrightarrow> \<exists>x \<in> set xs. f x = Inl e"
  by (induction xs) (auto split: sum.splits)

lemma resolve_docs_Inr: "resolve_docs e ids ps = Inr js \<longleftrightarrow> map (gm_get ids) ps = map Some js"
proof -
  have "(case gm_get ids p of None \<Rightarrow> Inl e | Some i \<Rightarrow> Inr i) = Inr j \<longleftrightarrow> gm_get ids p = Some j" for p j
    by (cases "gm_get ids p") auto
  then show ?thesis by (auto simp: resolve_docs_def collect_Inr list_all2_conv_all_nth list_eq_iff_nth_eq)
qed

lemma resolve_docs_case:
  "(case resolve_docs e ids ps of Inl x \<Rightarrow> Inl x | Inr js \<Rightarrow> Inr (f js)) = Inr q \<longleftrightarrow>
     (\<exists>js. map (gm_get ids) ps = map Some js \<and> q = f js)"
  unfolding resolve_docs_Inr[where e = e, symmetric] by (cases "resolve_docs e ids ps") auto

text \<open>Of two entities with one identifier the later one is used.\<close>

lemma entities_by_id_get:
  "gm_get (entities_by_id es) i = map_of (rev (map (\<lambda>e. (ce_id e, e)) es)) i"
proof -
  have "gm_get (foldl (\<lambda>m e. gm_put (ce_id e) e m) m es) i =
      (case map_of (rev (map (\<lambda>e. (ce_id e, e)) es)) i of None \<Rightarrow> gm_get m i | Some e \<Rightarrow> Some e)" for m
    by (induction es arbitrary: m) (auto simp: map_add_def split: option.splits)
  then show ?thesis by (simp add: entities_by_id_def split: option.splits)
qed

text \<open>
  A resolution that succeeds has one pair per cross-document pair, in order, each asking for every
  document of its second entity; one that meets an unknown entity or document fails as a whole.
\<close>

lemma resolved_pairs_complete:
  "ResolvePairs gt ids = Inr ps \<longleftrightarrow>
     list_all2 (\<lambda>x p. \<exists>a b. gm_get (entities_by_id (gt_entities gt)) (xp_a x) = Some a \<and>
        gm_get (entities_by_id (gt_entities gt)) (xp_b x) = Some b \<and> gp_id p = xp_id x \<and> gp_seed p = ce_name a \<and>
        map (gm_get ids) (ce_docs b) = map Some (gp_expected p)) (gt_pairs gt) ps"
proof -
  have "resolve_pair byID ids x = Inr p \<longleftrightarrow> (\<exists>a b. gm_get byID (xp_a x) = Some a \<and> gm_get byID (xp_b x) = Some b \<and>
      gp_id p = xp_id x \<and> gp_seed p = ce_name a \<and> map (gm_get ids) (ce_docs b) = map Some (gp_expected p))"
    for byID x and p :: gr_pair
    by (cases p) (auto simp: resolve_pair_def resolve_docs_case split: option.splits)
  then show ?thesis by (simp add: ResolvePairs_def collect_Inr)
qed

lemma resolved_questions_complete:
  "ResolveQuestions gt ids = Inr qs \<longleftrightarrow>
     list_all2 (\<lambda>q r. qu_id r = mq_id q \<and> qu_text r = mq_question q \<and> qu_expected r = mq_expected q \<and>
        map (gm_get ids) (mq_docs q) = map Some (qu_required r)) (gt_questions gt) qs"
proof -
  have "resolve_question ids q = Inr r \<longleftrightarrow> qu_id r = mq_id q \<and> qu_text r = mq_question q \<and>
      qu_expected r = mq_expected q \<and> map (gm_get ids) (mq_docs q) = map Some (qu_required r)" for q and r :: qa_question
    by (cases r) (auto simp: resolve_question_def resolve_docs_case)
  then show ?thesis by (simp add: ResolveQuestions_def collect_Inr)
qed

lemma all_indexed_iff: "CheckAllIndexed docs = None \<longleftrightarrow> (\<forall>d \<in> set docs. d_status d = DocIndexed)"
  by (auto simp: CheckAllIndexed_def filter_empty_conv)

subsection \<open>The scores\<close>

lemma check_pairs_results:
  "check_pairs G k kbID ps reached results s = (s', Inr (n, rs)) \<Longrightarrow>
     \<exists>new. rs = results @ new \<and> map pr_pair new = map gp_id ps \<and> n = reached + length (filter pr_reached new)"
proof (induction ps arbitrary: reached results s)
  case (Cons p ps)
  from Cons.prems obtain s1 leg ok where
    "check_pairs G k kbID ps (if ok then reached + 1 else reached)
       (results @ [\<lparr>pr_pair = gp_id p, pr_reached = ok, pr_leg = leg\<rparr>]) s1 = (s', Inr (n, rs))"
    by (auto simp: try_call_def split: prod.splits sum.splits)
  from Cons.IH[OF this] show ?case by (auto split: if_splits)
qed simp

text \<open>The recall of a run: one result per pair with expected documents, and the share reached.\<close>

lemma recall_is_share_reached:
  assumes "recall_Run G k kbID pairs s = (s', Inr R)"
  shows "map pr_pair (rr_results R) = map gp_id (filter (\<lambda>p. gp_expected p \<noteq> []) pairs)"
    and "rr_score R = of_nat (length (filter pr_reached (rr_results R))) / of_nat (length (rr_results R))"
proof -
  let ?T = "filter (\<lambda>p. gp_expected p \<noteq> []) pairs"
  have "map pr_pair (rr_results R) = map gp_id ?T \<and>
     rr_score R = of_nat (length (filter pr_reached (rr_results R))) / of_nat (length ?T)"
    using assms
    by (auto simp: recall_Run_def Let_def try_call_def split: if_splits prod.splits sum.splits dest!: check_pairs_results)
  moreover from this have "length (rr_results R) = length ?T" by (metis length_map)
  ultimately show "map pr_pair (rr_results R) = map gp_id ?T"
    and "rr_score R = of_nat (length (filter pr_reached (rr_results R))) / of_nat (length (rr_results R))"
    by simp_all
qed

text \<open>With legs that only read, a pair is reached exactly when a leg returns a chunk of an expected document.\<close>

lemma pair_reached_iff:
  assumes "gr_aggregation G kbID (gp_seed p) k s = (s, Inr agg)" and "gr_traversal G kbID (gp_seed p) k s = (s, Inr trav)"
  shows "\<exists>leg. checkPair G k kbID p s =
    (s, Inr (leg, \<exists>c \<in> set (agg @ trav). c_doc (sc_chunk c) \<in> set (gp_expected p)))"
  using assms by (auto simp: checkPair_def containsExpectedDocument_def list_ex_iff)

lemma ask_all_results:
  "ask_all T kbID qs hits answers results s = (s', Inr (h, a, rs)) \<Longrightarrow>
     \<exists>new. rs = results @ new \<and> map qs_question new = map qu_id qs \<and> h = hits + length (filter qs_reached new) \<and>
       a = answers + length (filter qs_correct new) \<and> list_all2 (\<lambda>q r. qu_required q = [] \<longrightarrow> qs_reached r) qs new"
proof (induction qs arbitrary: hits answers results s)
  case (Cons q qs)
  obtain s1 r where
    "qs_question r = qu_id q" "qu_required q = [] \<longrightarrow> qs_reached r"
    and run: "ask_all T kbID qs (if qs_reached r then hits + 1 else hits) (if qs_correct r then answers + 1 else answers)
       (results @ [r]) s1 = (s', Inr (h, a, rs))"
  proof -
    obtain s1 s2 res correct where "qt_search T kbID (qu_text q) s = (s1, Inr res)"
      and "qt_judge T (qu_text q) (qu_expected q) (qr_summary res) s1 = (s2, Inr correct)"
      using Cons.prems by (auto simp: try_call_def Let_def split: prod.splits sum.splits)
    then show thesis
      using Cons.prems
      by (intro that[of "\<lparr>qs_question = qu_id q,
          qs_reached = length (qu_required q) = 0 \<or> containsAny (qr_documents res) (qu_required q),
          qs_correct = correct, qs_answer = qr_summary res\<rparr>" s2]) (simp_all add: Let_def)
  qed
  from Cons.IH[OF run] obtain new where "rs = results @ r # new" "map qs_question new = map qu_id qs"
    "h = (if qs_reached r then hits + 1 else hits) + length (filter qs_reached new)"
    "a = (if qs_correct r then answers + 1 else answers) + length (filter qs_correct new)"
    "list_all2 (\<lambda>q r. qu_required q = [] \<longrightarrow> qs_reached r) qs new"
    by auto
  then show ?case using \<open>qs_question r = qu_id q\<close> \<open>qu_required q = [] \<longrightarrow> qs_reached r\<close>
    by (intro exI[of _ "r # new"]) auto
qed simp

lemma qa_scores_are_shares:
  assumes "qa_Run T kbID questions s = (s', Inr R)"
  shows "map qs_question (qa_results R) = map qu_id questions"
    and "qa_retrieval R = of_nat (length (filter qs_reached (qa_results R))) / of_nat (length questions)"
    and "qa_answers R = of_nat (length (filter qs_correct (qa_results R))) / of_nat (length questions)"
  using assms
  by (auto simp: qa_Run_def try_call_def split: if_splits prod.splits sum.splits dest!: ask_all_results)

text \<open>
  A question that names no required document counts as one whose documents were retrieved, so a run
  of such questions has a perfect retrieval score whatever was retrieved.
\<close>

lemma control_questions_raise_retrieval:
  assumes "qa_Run T kbID questions s = (s', Inr R)" and "questions \<noteq> []" and "\<forall>q \<in> set questions. qu_required q = []"
  shows "qa_retrieval R = 1"
proof -
  obtain s1 h a rs where run: "ask_all T kbID questions 0 0 [] s = (s1, Inr (h, a, rs))"
    and R: "qa_retrieval R = of_nat h / of_nat (length questions)"
    using assms(1,2) by (auto simp: qa_Run_def try_call_def split: prod.splits sum.splits)
  from ask_all_results[OF run] assms(3) have "length rs = length questions" "\<forall>r \<in> set rs. qs_reached r"
    and h: "h = length (filter qs_reached rs)"
    by (auto simp: list_all2_conv_all_nth in_set_conv_nth) (metis nth_mem)
  then have "h = length questions" by simp
  then show ?thesis using R assms(2) by simp
qed

subsection \<open>Verdicts\<close>

text \<open>A response with no verdict line is not a pass, and only the first verdict line counts.\<close>

lemma verdict_needs_a_line:
  "parseVerdict resp \<Longrightarrow> \<exists>l \<in> set (split_on (CHR 0x0A) resp). has_prefix (trim_space l) verdictPrefix"
proof -
  have "verdict_lines ls \<Longrightarrow> \<exists>l \<in> set ls. has_prefix (trim_space l) verdictPrefix" for ls
    by (induction ls) (auto simp: Let_def split: if_splits)
  then show "parseVerdict resp \<Longrightarrow> ?thesis" by (simp add: parseVerdict_def)
qed

lemma first_verdict_counts:
  assumes "\<forall>l \<in> set ls. \<not> has_prefix (trim_space l) verdictPrefix" and "has_prefix (trim_space v) verdictPrefix"
  shows "verdict_lines (ls @ v # rs) = verdict_lines [v]"
  using assms by (induction ls) (auto simp: Let_def)

lemma verdict_examples:
  "parseVerdict ''VERDICT: CORRECT''" "parseVerdict (''Thinking.'' @ [CHR 0x0A] @ '' VERDICT:correct '')"
  "\<not> parseVerdict ''VERDICT: INCORRECT''" "\<not> parseVerdict ''CORRECT''"
  "\<not> parseVerdict (''VERDICT: **CORRECT**'' @ [CHR 0x0A] @ ''VERDICT: CORRECT'')"
  by code_simp+

subsection \<open>A corpus document beside an uploaded one\<close>

text \<open>
  A corpus file is stored under a key of its own, outside the keys whose scan results are handled:
  whatever the scan finds in it, the handler ignores the event.
\<close>

lemma corpus_key_not_scanned: "userFromKey parse (corpus_key us u kb i rel) = None"
  by (simp add: userFromKey_def corpus_key_def numeral_3_eq_3)

lemma corpus_scan_ignored:
  "sr_key r = corpus_key us u kb i rel \<Longrightarrow> HandleResult F parse r s = (s, None)"
  by (simp add: HandleResult_def corpus_key_not_scanned)

text \<open>A file that is ingested keeps its path as its name, which is how the ground truth finds it.\<close>

lemma ingested_file_keeps_path:
  assumes "IngestFile (front_mem us cfg) us u kb rel content w = (w', Inr doc)"
  shows "d_filename doc = rel \<and> d_user doc = u \<and> d_kb doc = kb \<and> d_status doc = DocPending \<and>
    gm_get corpusContentTypes (to_lower (path_ext rel)) = Some (d_content_type doc) \<and>
    userFromKey parse (d_s3key doc) = None"
proof -
  obtain ct where ct: "gm_get corpusContentTypes (to_lower (path_ext rel)) = Some ct"
    using assms by (auto simp: IngestFile_def split: option.splits)
  obtain i w1 w2 where
    "fo_doc_create (front_mem us cfg)
       (upload_row kb u rel (corpus_key us u kb i rel) ct (int (length content))) w1 = (w2, Inr doc)"
    using assms ct
    by (auto simp: IngestFile_def Let_def try_proc_def try_call_def ignore_def split: prod.splits option.splits sum.splits)
  then have "\<exists>j t. doc = (upload_row kb u rel (corpus_key us u kb i rel) ct (int (length content)))
      \<lparr>d_id := j, d_created := t, d_updated := t\<rparr>"
    by (auto simp: front_mem_def ff_call_def doc_Create_def Let_def split: list.splits bool.splits prod.splits)
  then show ?thesis using ct by (auto simp: upload_row_def corpus_key_not_scanned)
qed

end
