(* ===== verification/Spec2Isabelle.thy ===== *)
theory Spec2Isabelle
  imports RegionClassify EntityExtract System RateLimit Community Account Search Inquiry Worker
    Insights JobStatusPg BatchEmbed Settings Evaluation
begin

text \<open>
  A model of dumpster, a Go service that stores documents per anonymous visitor, turns them into
  embedded chunks, entities and a graph in background jobs, and answers questions over them. Paths
  below are under \<^verbatim>\<open>src/internal\<close> unless they say otherwise.

  \<^bold>\<open>The program.\<close> The API (\<^verbatim>\<open>server\<close>) keeps knowledge bases and documents, puts every
  upload behind a malware scan and publishes events. A publisher (\<^verbatim>\<open>queue/dispatch\<close>) turns an
  event into one recorded attempt of a job (\<^verbatim>\<open>jobstatus\<close>) and starts a Step Functions
  execution. The executions call Lambda steps: document indexing, region classification, entity
  extraction (\<^verbatim>\<open>pipeline\<close>) and the stateless jobs (\<^verbatim>\<open>worker\<close>) that make co-occurrence edges and
  canonical identities. On the results run community detection, themes, intrusion tests, relations
  and search. A sweep (\<^verbatim>\<open>account\<close>) removes visitors that went away.

  \<^bold>\<open>How the code is modelled.\<close>
  \<^item> A Go struct is a record, a closed set of strings a datatype, a map an association list
    (\<open>gomap\<close>), an error a value of \<open>gerror\<close> whose wrapping \<open>errors_is\<close> sees through.
  \<^item> A method that can fail is a \<open>call\<close> or \<open>proc\<close>: state in, state and result out. A component takes
    its collaborators as a record of operations over any state, so it can be run on the in-memory
    stores or reasoned about under a contract.
  \<^item> Contracts are the locales \<open>job_status_store\<close> (five writes that follow the pure rules or fail
    and change nothing), \<open>unsure_store\<close> (the weaker one of a database, where a failed write may have
    taken effect as a whole), \<open>backend_laws\<close> (what the pipeline steps rely on; it contains the first)
    and \<open>dispatcher\<close> (the first with the execution service). They are interpreted on the in-memory job
    status store, on the Postgres one, on the in-memory backend and on the API's collaborators.
  \<^item> Infrastructure failures are a tape that every call reads, so a statement about every tape covers
    every pattern of the failures on it. The pipeline's and the API's tapes hold failures that leave
    no effect; the tapes of the Postgres store, of account deletion and of the message threads also
    hold calls that took effect and lost their reply.
  \<^item> Interleavings are lists of events in any order. An event is a whole request or step, except where
    overlap matters: an upload is two events, its checks and its body (\<open>upload_checked\<close>,
    \<open>upload_body\<close>); a visit and a sweep are cut at every call (\<open>visit_step\<close>, \<open>sweep_step\<close>, with
    lemmas that the cut forms run alone are the functions); an extraction's map states
    run their steps in any order.
  \<^item> Identifiers are naturals, times are integers in nanoseconds, \<^verbatim>\<open>float64\<close> is an exact rational;
    comments say where the rounding could matter. Strings are lists of bytes; case mapping and
    white space are ASCII unless a function is a parameter.

  \<^bold>\<open>Theories.\<close>
  \<^item> Shared: \<open>Prelude\<close> (maps, \<^verbatim>\<open>sort.Slice\<close>, windows), \<open>GoStrings\<close>, \<open>GoErrors\<close> (with the retry
    classification of \<^verbatim>\<open>pipeline/pipeline.go\<close>), \<open>Calls\<close> and \<open>Triples\<close> (the error idiom and a
    small Hoare logic over it).
  \<^item> Jobs: \<open>JobQueue\<close> (\<^verbatim>\<open>queue\<close>), \<open>JobStatus\<close> (\<^verbatim>\<open>jobstatus\<close>, its memory store),
    \<open>JobStatusPg\<close> (its Postgres store and \<^verbatim>\<open>rls\<close>), \<open>Dispatch\<close> (\<^verbatim>\<open>queue/dispatch\<close>,
    \<^verbatim>\<open>queue/stepfunctions\<close>).
  \<^item> Data: \<open>Repositories\<close> (\<^verbatim>\<open>document, kb, chunk, entity, graphedge, manifest, stats,
    session\<close>), \<open>Canonical\<close> (\<^verbatim>\<open>canonical\<close>), \<open>Splitter\<close> (\<^verbatim>\<open>chunk/splitter.go\<close>).
  \<^item> Pipeline: \<open>Backend\<close> (its collaborators and their contract), \<open>World\<close> (the in-memory backend and
    \<^verbatim>\<open>objectstore/mock\<close>), \<open>EmbedTail\<close>, \<open>DocIndex\<close>, \<open>RegionClassify\<close>,
    \<open>EntityExtract\<close> (the packages of \<^verbatim>\<open>pipeline\<close>), \<open>Worker\<close> (\<^verbatim>\<open>worker\<close>, \<^verbatim>\<open>canonicalize\<close>),
    \<open>BatchEmbed\<close> (\<^verbatim>\<open>llm/awsbatch\<close>, \<^verbatim>\<open>reembed\<close>).
  \<^item> API: \<open>Front\<close> (collaborators), \<open>MalwareScan\<close> (\<^verbatim>\<open>ingest, malwarescan\<close>), \<open>Pagination\<close>,
    \<open>Server\<close> (\<^verbatim>\<open>server/kbhandler.go, dochandler.go\<close>), \<open>System\<close> (API, scan Lambda and pipeline as
    events over one store), \<open>RateLimit\<close>, \<open>Account\<close> (\<^verbatim>\<open>auth, account\<close>, \<^verbatim>\<open>server/accounthandler.go\<close>).
  \<^item> Graph and search: \<open>Louvain\<close>, \<open>Community\<close> (\<^verbatim>\<open>community\<close>), \<open>Relations\<close> (\<^verbatim>\<open>relation, crosslink\<close>),
    \<open>Insights\<close> (\<^verbatim>\<open>theme, intrusion\<close>), \<open>Search\<close> (\<^verbatim>\<open>retrieval, router, search\<close>), \<open>Inquiry\<close>
    (\<^verbatim>\<open>inquiry\<close>, \<^verbatim>\<open>server/searchhandler.go\<close>).
  \<^item> Operation: \<open>Settings\<close> (\<^verbatim>\<open>config\<close>), \<open>Evaluation\<close> (\<^verbatim>\<open>evalcorpus, graphrecall, multihopqa\<close>).

  \<^bold>\<open>What is shown.\<close>
  \<^item> Job status: attempts of a job are started once each and in order, late reports do no harm, a
    finished job keeps its outcome, tenants do not see each other's jobs, the list of active jobs is
    exact; the in-memory store and the Postgres store both follow the pure rules.
  \<^item> Errors: a step's error is retried exactly when the classification says so, and every failure is
    recorded with its reason.
  \<^item> Ingestion: the splitter covers the text and keeps runes whole; every chunk of an indexed
    document is embedded; regions and batches reach the right chunks; repeated and interleaved steps
    save nothing twice; canonical counts are those of the mentions.
  \<^item> API: no file is processed unless its scan found it clean; the upload cap is exceeded by no more
    than the uploads of one tenant that overlap; pages list everything once; a window admits no more
    than its limit; the sweep never leaves an orphan and does what the banner says; after a session's
    time is up only visits already past the check are served under it.
  \<^item> Graph and search: Louvain terminates, assigns every node and ends no worse than it began; the
    answer stream is the answer; re-evaluating an answer whose query was recorded asks that query; relations are asked for until all are settled; edges are exactly the
    co-occurring pairs; a test's intruder is another community's; labels are given to offered communities only.
  \<^item> Evaluation: no ground-truth pair is skipped silently, the scores are the shares of their results,
    and a response without a verdict line is no pass.

  \<^bold>\<open>Bounds and fuel.\<close> Louvain's passes are bounded by the code's own \<^verbatim>\<open>maxPasses\<close>; its levels are a
  \<^theory_text>\<open>partial_function\<close> with a proof that it returns. The chain of superseded answers is a
  \<^theory_text>\<open>partial_function\<close> as well, since nothing in the code bounds it. A cancelled context is the number
  of polls it survives. All other loops are structural or have a measure.

  \<^bold>\<open>Not modelled.\<close> The other Postgres stores are SQL around the operations their in-memory
  counterparts model; their contract is modelled by those. The clients of AWS, Bedrock and the inference service, telemetry,
  the commands under \<^verbatim>\<open>src/cmd\<close> and the wiring in \<^verbatim>\<open>server/server.go\<close> only connect the parts. The test
  doubles, the web front end, Terraform and the Python scripts are not part of the
  service's logic. JSON and multipart bodies are given decoded; logging and metrics are left out.
\<close>

end
